(* ===== verification/Kern_Prelude.thy ===== *)
theory Kern_Prelude
  imports Main "HOL-Library.Word" "HOL-Library.Monad_Syntax"
begin

unbundle bit_operations_syntax

text \<open>
  Shared vocabulary of the development: the C integer types of the kernel (which is compiled with
  16 bit \<open>int\<close>), the error numbers of \<open>sys/mint/errno.h\<close>, null pointers as
  \<open>None\<close>, and the generic list, option and word lemmas the components use.
  \<^item> \<open>errno\<close> collects the definitions of the error numbers;
  \<^item> \<open>kdefs\<close> collects the small helper definitions every component unfolds.
\<close>

named_theorems errno
named_theorems kdefs

type_synonym u8 = "8 word"
type_synonym u16 = "16 word"
type_synonym u32 = "32 word"
type_synonym pptr = nat

text \<open>Queue numbers are written as numerals, so \<open>1\<close> stays \<open>1\<close>.\<close>

declare One_nat_def [simp del]

section \<open>Error numbers\<close>

text \<open>Inside the kernel \<open>__KERNEL_NEG\<close> negates the error numbers.\<close>

definition E_OK :: int where [errno]: "E_OK = 0"
definition EERROR :: int where [errno]: "EERROR = -1"
definition ESPIPE :: int where [errno]: "ESPIPE = -6"
definition ENODEV :: int where [errno]: "ENODEV = -15"
definition ESRCH :: int where [errno]: "ESRCH = -20"
definition EINVAL :: int where [errno]: "EINVAL = -25"
definition ENOSYS :: int where [errno]: "ENOSYS = -32"
definition ENOENT :: int where [errno]: "ENOENT = -33"
definition ENOTDIR :: int where [errno]: "ENOTDIR = -34"
definition EMFILE :: int where [errno]: "EMFILE = -35"
definition EACCES :: int where [errno]: "EACCES = -36"
definition EBADF :: int where [errno]: "EBADF = -37"
definition EPERM :: int where [errno]: "EPERM = -38"
definition ENOMEM :: int where [errno]: "ENOMEM = -39"
definition ENMFILES :: int where [errno]: "ENMFILES = -49"
definition ELOCKED :: int where [errno]: "ELOCKED = -58"
definition ENSLOCK :: int where [errno]: "ENSLOCK = -59"
definition EBADARG :: int where [errno]: "EBADARG = -64"
definition EINTERNAL :: int where [errno]: "EINTERNAL = -65"
definition EPIPE :: int where [errno]: "EPIPE = -81"
definition EINTR :: int where [errno]: "EINTR = -128"
definition EMOUNT :: int where [errno]: "EMOUNT = -200"

section \<open>Lists and null pointers\<close>

definition opt_hd :: "'a list \<Rightarrow> 'a option" where
  "opt_hd xs = (case xs of [] \<Rightarrow> None | x # _ \<Rightarrow> Some x)"

definition opt_last :: "'a list \<Rightarrow> 'a option" where
  "opt_last xs = (if xs = [] then None else Some (last xs))"

lemma opt_hd_simps [simp]:
  "opt_hd [] = None" "opt_hd (x # xs) = Some x"
  by (simp_all add: opt_hd_def)

lemma opt_last_simps [simp]:
  "opt_last [] = None" "opt_last [x] = Some x" "opt_last (xs @ [x]) = Some x"
  "opt_last (x # y # ys) = opt_last (y # ys)"
  by (simp_all add: opt_last_def)

lemma opt_hd_append [simp]: "opt_hd (xs @ ys) = (if xs = [] then opt_hd ys else opt_hd xs)"
  by (cases xs) auto

lemma opt_last_append [simp]:
  "opt_last (xs @ ys) = (if ys = [] then opt_last xs else opt_last ys)"
  by (simp add: opt_last_def)

lemma opt_hd_None [simp]: "opt_hd xs = None \<longleftrightarrow> xs = []" "None = opt_hd xs \<longleftrightarrow> xs = []"
  by (cases xs; simp)+

lemma opt_last_None [simp]: "opt_last xs = None \<longleftrightarrow> xs = []" "None = opt_last xs \<longleftrightarrow> xs = []"
  by (simp_all add: opt_last_def)

lemma opt_hd_Some: "opt_hd xs = Some x \<longleftrightarrow> (\<exists>ys. xs = x # ys)"
  by (cases xs) auto

lemma opt_last_Some: "opt_last xs = Some x \<longleftrightarrow> (\<exists>ys. xs = ys @ [x])"
  by (cases xs rule: rev_cases) auto

lemma distinct_remove1_append:
  "distinct (xs @ x # ys) \<Longrightarrow> remove1 x (xs @ x # ys) = xs @ ys"
  by (simp add: remove1_append)

lemma distinct_length_le:
  "distinct xs \<Longrightarrow> set xs \<subseteq> set ys \<Longrightarrow> length xs \<le> length ys"
  by (metis card_mono distinct_card finite_set le_trans card_length)

lemma fun_upd_four:
  "a \<noteq> b \<Longrightarrow> (f(a := u, b := v))(a := x, b := y) = f(a := x, b := y)"
  by auto

section \<open>Words\<close>

lemma unat_ucast: "unat (ucast w :: 'b::len word) = unat w mod 2 ^ LENGTH('b)"
  by (simp add: unsigned_ucast_eq take_bit_eq_mod)

lemma u8_le: "unat (x :: u8) \<le> 255"
  using unsigned_less[of x, where 'a = nat] by simp

lemma u16_le: "unat (x :: u16) \<le> 65535"
  using unsigned_less[of x, where 'a = nat] by simp

text \<open>The signed reading of a word.\<close>

lemma sint16: "sint (n :: u16) = uint n - 65536 * of_bool (bit n 15)"
  unfolding sint_uint using unsigned_less[of n, where 'a = int]
  by (simp add: signed_take_bit_eq_take_bit_minus bit_uint_iff take_bit_int_eq_self)

lemma sint32: "sint (n :: u32) = uint n - 4294967296 * of_bool (bit n 31)"
  unfolding sint_uint using unsigned_less[of n, where 'a = int]
  by (simp add: signed_take_bit_eq_take_bit_minus bit_uint_iff take_bit_int_eq_self)

lemma sint16_nonneg: "0 \<le> sint (n :: u16) \<Longrightarrow> sint n = int (unat n)"
  using sint16[of n] unsigned_less[of n, where 'a = int] by (cases "bit n 15") simp_all

lemma sint32_nonneg: "0 \<le> sint (n :: u32) \<Longrightarrow> sint n = int (unat n)"
  using sint32[of n] unsigned_less[of n, where 'a = int] by (cases "bit n 31") simp_all

end
