(* ===== verification/Kern_State.thy ===== *)
theory Kern_State
  imports Kern_Prelude
begin

text \<open>
  The data the kernel's components share: \<open>struct proc\<close> and the queues of
  \<open>sys/mint/proc.h\<close>, the credentials of \<open>sys/mint/credentials.h\<close>, the signal dispositions of
  \<open>sys/mint/signal.h\<close>, the timeouts of \<open>sys/mint/time.h\<close>, and one record \<open>kernel\<close> that holds
  the global variables of \<open>proc.c\<close>, \<open>timeout.c\<close> and \<open>rendez.c\<close>.

  Pointers are numbers and a null pointer is \<open>None\<close>. Objects that the code shares and mutates
  through pointers (processes, credentials, signal action tables) live in stores: functions
  from addresses to records. \<open>proclist\<close> lists the processes in the order of their
  \<open>gl_next\<close> links. Fields of \<open>struct proc\<close> that no modelled operation uses are left out.
\<close>

section \<open>Constants\<close>

abbreviation (input) CURPROC_Q :: nat where "CURPROC_Q \<equiv> 0"
abbreviation (input) READY_Q :: nat where "READY_Q \<equiv> 1"
abbreviation (input) WAIT_Q :: nat where "WAIT_Q \<equiv> 2"
abbreviation (input) IO_Q :: nat where "IO_Q \<equiv> 3"
abbreviation (input) ZOMBIE_Q :: nat where "ZOMBIE_Q \<equiv> 4"
abbreviation (input) TSR_Q :: nat where "TSR_Q \<equiv> 5"
abbreviation (input) STOP_Q :: nat where "STOP_Q \<equiv> 6"
abbreviation (input) SELECT_Q :: nat where "SELECT_Q \<equiv> 7"
abbreviation (input) NUM_QUEUES :: nat where "NUM_QUEUES \<equiv> 8"

abbreviation (input) WAIT_MB :: u32 where "WAIT_MB \<equiv> 0x3a140001"
abbreviation (input) WAIT_SEMA :: u32 where "WAIT_SEMA \<equiv> 0x3a140003"

abbreviation (input) MIN_NICE :: int where "MIN_NICE \<equiv> -20"
abbreviation (input) MAX_NICE :: int where "MAX_NICE \<equiv> 20"

abbreviation (input) P_FLAG_SYS :: u16 where "P_FLAG_SYS \<equiv> 1"
abbreviation (input) P_FLAG_SLB :: u16 where "P_FLAG_SLB \<equiv> 2"

abbreviation (input) DOM_TOS :: nat where "DOM_TOS \<equiv> 0"
abbreviation (input) DOM_MINT :: nat where "DOM_MINT \<equiv> 1"

abbreviation (input) NGROUPS :: int where "NGROUPS \<equiv> 8"

section \<open>Structures\<close>

record proc_queue =
  q_head :: "pptr option"
  q_tail :: "pptr option"

record ucred =
  euid :: u16
  egid :: u16
  groups :: "u16 list"
  ngroups :: nat
  uc_links :: int

record pcred =
  ucr :: nat
  ruid :: u16
  rgid :: u16
  suid :: u16
  sgid :: u16
  pc_links :: int

record sigaction =
  sa_handler :: u32
  sa_mask :: u32
  sa_flags :: u16

record proc =
  pid :: int
  ppid :: int
  pgrp :: int
  modeflags :: u16
  pri :: int
  curpri :: int
  slices :: int
  wait_q :: nat
  wait_cond :: u32
  q_prev :: "pptr option"
  q_next :: "pptr option"
  systime :: u32
  usrtime :: u32
  chldstime :: u32
  chldutime :: u32
  maxdata :: u32
  maxcore :: u32
  maxcpu :: u32
  domain :: nat
  p_flag :: u16
  p_cred :: nat
  p_sigacts :: nat
  sigpending :: u32
  nsigs :: u32
  p_sigmask :: u32
  ptracer :: "pptr option"
  last_sig :: nat
  signaled :: bool
  mb_long1 :: u32
  mb_long2 :: u32
  mb_mbid :: u32
  mb_mode :: int
  mb_writer :: int
  syscall_pc :: u32
  exception_pc :: u32
  exception_addr :: u32

text \<open>
  A timeout structure is known by its address, which for the static structures is their index in
  \<open>timeouts\<close>; the function it calls is identified by its address too. \<open>t_static\<close> is the
  \<open>TIMEOUT_STATIC\<close> bit of its flags word; the \<open>TIMEOUT_USED\<close> bits of the static structures are
  \<open>static_used\<close> in the kernel state. The list order stands for the \<open>next\<close> links.
\<close>

record timeout =
  t_addr :: nat
  t_proc :: pptr
  t_when :: int
  t_func :: nat
  t_static :: bool
  t_arg :: u32

record sema =
  sema_id :: u32
  sema_owner :: int

record kernel =
  procs :: "pptr \<Rightarrow> proc"
  proclist :: "pptr list"
  curproc :: pptr
  rootproc :: pptr
  sysq :: "nat \<Rightarrow> proc_queue"
  proc_clock :: u16
  time_slice :: int
  sleepcond :: u32
  iwakecond :: u32
  ucreds :: "nat \<Rightarrow> ucred"
  pcreds :: "nat \<Rightarrow> pcred"
  sigacts :: "nat \<Rightarrow> nat \<Rightarrow> sigaction"
  sigacts_links :: "nat \<Rightarrow> int"
  tlist :: "timeout list"
  expire_list :: "timeout list"
  static_used :: "bool list"
  our_clock :: int
  hz_200 :: int
  searchtime :: int
  semalist :: "sema list"

section \<open>The state after \<open>init_proc\<close>\<close>

text \<open>
  \<open>init_proc\<close> clears the structures of the root process with \<open>mint_bzero\<close> and sets the fields that
  differ from zero. Addresses are chosen: process 0, credentials 0, signal actions 0. The three job
  control signals (\<open>SIGTSTP\<close>, \<open>SIGTTIN\<close>, \<open>SIGTTOU\<close>) are ignored.
\<close>

definition zero_proc :: proc where
  "zero_proc = \<lparr>pid = 0, ppid = 0, pgrp = 0, modeflags = 0, pri = 0, curpri = 0, slices = 0, wait_q = 0,
     wait_cond = 0, q_prev = None, q_next = None, systime = 0, usrtime = 0, chldstime = 0,
     chldutime = 0, maxdata = 0, maxcore = 0, maxcpu = 0, domain = 0, p_flag = 0, p_cred = 0,
     p_sigacts = 0, sigpending = 0, nsigs = 0, p_sigmask = 0, ptracer = None, last_sig = 0,
     signaled = False, mb_long1 = 0, mb_long2 = 0, mb_mbid = 0, mb_mode = 0, mb_writer = 0,
     syscall_pc = 0, exception_pc = 0, exception_addr = 0\<rparr>"

definition zero_sigaction :: sigaction where
  "zero_sigaction = \<lparr>sa_handler = 0, sa_mask = 0, sa_flags = 0\<rparr>"

definition init_sigacts :: "nat \<Rightarrow> sigaction" where
  "init_sigacts = (\<lambda>sig. zero_sigaction)(21 := zero_sigaction\<lparr>sa_handler := 1\<rparr>,
     22 := zero_sigaction\<lparr>sa_handler := 1\<rparr>, 18 := zero_sigaction\<lparr>sa_handler := 1\<rparr>)"

definition init_proc :: kernel where
  "init_proc = \<lparr>procs = (\<lambda>_. zero_proc)(0 := zero_proc\<lparr>ppid := -1, p_flag := P_FLAG_SYS, domain := DOM_TOS\<rparr>),
     proclist = [0], curproc = 0, rootproc = 0, sysq = (\<lambda>_. \<lparr>q_head = None, q_tail = None\<rparr>),
     proc_clock = 0x7fff, time_slice = 2, sleepcond = 0, iwakecond = 0,
     ucreds = (\<lambda>_. \<lparr>euid = 0, egid = 0, groups = replicate 8 0, ngroups = 0, uc_links = 1\<rparr>),
     pcreds = (\<lambda>_. \<lparr>ucr = 0, ruid = 0, rgid = 0, suid = 0, sgid = 0, pc_links = 1\<rparr>),
     sigacts = (\<lambda>_. init_sigacts), sigacts_links = (\<lambda>_. 0)(0 := 1), tlist = [], expire_list = [], static_used = replicate 64 False,
     our_clock = 1000, hz_200 = 0, searchtime = 0, semalist = []\<rparr>"

section \<open>Access to the stores\<close>

definition proc_of :: "kernel \<Rightarrow> proc" where
  "proc_of k = procs k (curproc k)"

definition upd_proc :: "pptr \<Rightarrow> (proc \<Rightarrow> proc) \<Rightarrow> kernel \<Rightarrow> kernel" where
  "upd_proc p f k = k\<lparr>procs := (procs k)(p := f (procs k p))\<rparr>"

definition set_head :: "nat \<Rightarrow> pptr option \<Rightarrow> kernel \<Rightarrow> kernel" where
  "set_head q v k = k\<lparr>sysq := (sysq k)(q := (sysq k q)\<lparr>q_head := v\<rparr>)\<rparr>"

definition set_tail :: "nat \<Rightarrow> pptr option \<Rightarrow> kernel \<Rightarrow> kernel" where
  "set_tail q v k = k\<lparr>sysq := (sysq k)(q := (sysq k q)\<lparr>q_tail := v\<rparr>)\<rparr>"

declare proc_of_def [kdefs] upd_proc_def [kdefs] set_head_def [kdefs] set_tail_def [kdefs]

lemma procs_upd_proc [simp]:
  "procs (upd_proc p f k) = (procs k)(p := f (procs k p))"
  "procs (set_head q v k) = procs k" "procs (set_tail q v k) = procs k"
  by (simp_all add: kdefs)

lemma sysq_upd [simp]:
  "sysq (upd_proc p f k) = sysq k"
  "sysq (set_head q v k) = (sysq k)(q := (sysq k q)\<lparr>q_head := v\<rparr>)"
  "sysq (set_tail q v k) = (sysq k)(q := (sysq k q)\<lparr>q_tail := v\<rparr>)"
  by (simp_all add: kdefs)

end
