(* ===== verification/Proc_Queue.thy ===== *)
theory Proc_Queue
  imports Kern_State
begin

text \<open>
  The process queues and the scheduler of \<open>sys/proc.c\<close>, at the level of the pointers: every queue
  is a doubly linked list threaded through \<open>q_prev\<close> and \<open>q_next\<close> of \<open>struct proc\<close>, with head and
  tail in \<open>sysq\<close>. A failing \<open>assert\<close> stops the kernel; an operation that can fail one returns
  \<open>None\<close> there. The sections between \<open>splhigh\<close> and \<open>spl\<close> run with interrupts off and are single
  steps of the model.

  The abstraction is \<open>queues_rep k Q\<close>: the pointers of state \<open>k\<close> represent the lists \<open>Q\<close>. The
  locale \<open>wait_queues\<close> states what the rest of the kernel relies on (entering and leaving a
  queue), and its lemma on moving a process between queues is what \<open>wake\<close>, signals, timeouts,
  messages and semaphores use.
\<close>

section \<open>Operations\<close>

definition SLICES :: "int \<Rightarrow> int" where
  "SLICES p = (if 0 \<le> p then 0 else - p)"

definition remaining_proc_time :: "kernel \<Rightarrow> u32" where
  "remaining_proc_time k = (let proc_ms = (ucast (proc_clock k) :: u32) in proc_ms * 20)"

definition reset_priority :: "proc \<Rightarrow> proc" where
  "reset_priority p =
     (if 0 \<le> slices p then p\<lparr>curpri := pri p, slices := SLICES (pri p)\<rparr> else p)"

definition reset_priorities :: "kernel \<Rightarrow> kernel" where
  "reset_priorities k = fold (\<lambda>p. upd_proc p reset_priority) (proclist k) k"

definition run_next :: "pptr \<Rightarrow> int \<Rightarrow> kernel \<Rightarrow> kernel" where
  "run_next p n k =
    (let k = upd_proc p (\<lambda>x. x\<lparr>slices := - n, curpri := MAX_NICE, wait_q := READY_Q,
                              q_next := q_head (sysq k READY_Q)\<rparr>) k;
         k = set_head READY_Q (Some p) k;
         k = (case q_next (procs k p) of
                None \<Rightarrow> set_tail READY_Q (Some p) k
              | Some nx \<Rightarrow> upd_proc nx (\<lambda>x. x\<lparr>q_prev := Some p\<rparr>) k)
     in upd_proc p (\<lambda>x. x\<lparr>q_prev := None\<rparr>) k)"

definition fresh_slices :: "int \<Rightarrow> kernel \<Rightarrow> kernel" where
  "fresh_slices n k =
    (let k = reset_priorities k;
         k = upd_proc (curproc k) (\<lambda>x. x\<lparr>slices := 0, curpri := MAX_NICE + 1\<rparr>) k
     in k\<lparr>proc_clock := word_of_int (time_slice k + n)\<rparr>)"

definition add_q :: "nat \<Rightarrow> pptr \<Rightarrow> kernel \<Rightarrow> kernel option" where
  "add_q que p k =
    (if wait_q (procs k p) \<noteq> CURPROC_Q \<or> q_next (procs k p) \<noteq> None then None
     else
      (let k = (case q_tail (sysq k que) of
                  Some t \<Rightarrow>
                    upd_proc t (\<lambda>x. x\<lparr>q_next := Some p\<rparr>)
                      (upd_proc p (\<lambda>x. x\<lparr>q_prev := Some t\<rparr>) k)
                | None \<Rightarrow>
                    set_head que (Some p) (upd_proc p (\<lambda>x. x\<lparr>q_prev := None\<rparr>) k));
           k = set_tail que (Some p) k;
           k = upd_proc p (\<lambda>x. x\<lparr>wait_q := que\<rparr>) k
       in Some (if que \<noteq> READY_Q \<and> 0 \<le> slices (procs k p)
                then upd_proc p (\<lambda>x. x\<lparr>curpri := pri x, slices := SLICES (pri x)\<rparr>) k
                else k)))"

definition rm_q :: "nat \<Rightarrow> pptr \<Rightarrow> kernel \<Rightarrow> kernel option" where
  "rm_q que p k =
    (if wait_q (procs k p) \<noteq> que then None
     else
      (let k = (case q_prev (procs k p) of
                  Some pr \<Rightarrow> upd_proc pr (\<lambda>x. x\<lparr>q_next := q_next (procs k p)\<rparr>) k
                | None \<Rightarrow> set_head que (q_next (procs k p)) k);
           k = (case q_next (procs k p) of
                  Some nx \<Rightarrow> upd_proc nx (\<lambda>x. x\<lparr>q_prev := q_prev (procs k p)\<rparr>) k
                | None \<Rightarrow>
                    (let k = set_tail que (q_prev (procs k p)) k
                     in case q_prev (procs k p) of
                          None \<Rightarrow> k
                        | Some pr \<Rightarrow> upd_proc pr (\<lambda>x. x\<lparr>q_next := None\<rparr>) k))
       in Some (upd_proc p (\<lambda>x. x\<lparr>wait_q := CURPROC_Q, q_next := None, q_prev := None\<rparr>) k)))"

text \<open>The pair of calls with which the kernel makes a sleeping process ready.\<close>

definition move_q :: "nat \<Rightarrow> nat \<Rightarrow> pptr \<Rightarrow> kernel \<Rightarrow> kernel option" where
  "move_q from to p k = do { k \<leftarrow> rm_q from p k; add_q to p k }"

text \<open>
  \<open>do_wake\<close> walks the queue by its \<open>q_next\<close> pointers and starts over when it finds a process that
  has left the queue. Its fuel is the number of processes: no queue is longer.
\<close>

fun do_wake_loop :: "nat \<Rightarrow> nat \<Rightarrow> u32 \<Rightarrow> pptr option \<Rightarrow> kernel \<Rightarrow> kernel option" where
  "do_wake_loop fuel que cond None k = Some k"
| "do_wake_loop 0 que cond (Some p) k = None"
| "do_wake_loop (Suc fuel) que cond (Some p) k =
    (if wait_q (procs k p) \<noteq> que then do_wake_loop fuel que cond (q_head (sysq k que)) k
     else
      (let nx = q_next (procs k p)
       in if wait_cond (procs k p) = cond
          then (case move_q que READY_Q p k of
                  None \<Rightarrow> None
                | Some k' \<Rightarrow> do_wake_loop fuel que cond nx k')
          else do_wake_loop fuel que cond nx k))"

definition do_wake :: "nat \<Rightarrow> u32 \<Rightarrow> kernel \<Rightarrow> kernel option" where
  "do_wake que cond k = do_wake_loop (length (proclist k)) que cond (q_head (sysq k que)) k"

definition wake :: "nat \<Rightarrow> u32 \<Rightarrow> kernel \<Rightarrow> kernel option" where
  "wake que cond k =
    (if que = READY_Q then Some k
     else do_wake que cond (if sleepcond k = cond then k\<lparr>sleepcond := 0\<rparr> else k))"

definition iwake :: "nat \<Rightarrow> u32 \<Rightarrow> int \<Rightarrow> kernel \<Rightarrow> kernel option" where
  "iwake que cond ipid k =
    (if 0 \<le> ipid then
      (if iwakecond k = cond then Some k
       else do_wake que cond
        (if pid (procs k (curproc k)) = ipid \<and> wait_q (procs k (curproc k)) = CURPROC_Q
         then k\<lparr>iwakecond := cond\<rparr> else k))
     else do_wake que cond k)"

text \<open>The two wait conditions are addresses in the kernel, so they are arguments here.\<close>

definition wakeselect :: "u32 \<Rightarrow> u32 \<Rightarrow> pptr \<Rightarrow> kernel \<Rightarrow> kernel option" where
  "wakeselect wakeselect_addr select_coll_addr p k =
    (let k = (if wait_cond (procs k p) = wakeselect_addr
                 \<or> wait_cond (procs k p) = select_coll_addr
              then upd_proc p (\<lambda>x. x\<lparr>wait_cond := 0\<rparr>) k else k)
     in if wait_q (procs k p) = SELECT_Q then move_q SELECT_Q READY_Q p k else Some k)"

text \<open>
  The choice of the next process: one pass over the ready queue takes a penalty slice off every
  process until it meets one without penalty; passes are repeated until one is met.
\<close>

fun pick_pass :: "nat \<Rightarrow> pptr option \<Rightarrow> kernel \<Rightarrow> (pptr option \<times> kernel) option" where
  "pick_pass fuel None k = Some (None, k)"
| "pick_pass 0 (Some p) k = None"
| "pick_pass (Suc fuel) (Some p) k =
    (if 0 < slices (procs k p)
     then pick_pass fuel (q_next (procs k p)) (upd_proc p (\<lambda>x. x\<lparr>slices := slices x - 1\<rparr>) k)
     else Some (Some p, k))"

fun pick_next :: "nat \<Rightarrow> kernel \<Rightarrow> (pptr \<times> kernel) option" where
  "pick_next 0 k = None"
| "pick_next (Suc fuel) k =
    (case pick_pass (length (proclist k)) (q_head (sysq k READY_Q)) k of
       None \<Rightarrow> None
     | Some (Some p, k') \<Rightarrow> Some (p, k')
     | Some (None, k') \<Rightarrow> pick_next fuel k')"

section \<open>What the pointers represent\<close>

text \<open>
  \<open>seg h pr xs nx\<close>: the processes \<open>xs\<close> are linked in this order, the first one has \<open>pr\<close> before it
  and the last one \<open>nx\<close> after it.
\<close>

fun seg :: "(pptr \<Rightarrow> proc) \<Rightarrow> pptr option \<Rightarrow> pptr list \<Rightarrow> pptr option \<Rightarrow> bool" where
  "seg h pr [] nx = True"
| "seg h pr (x # xs) nx =
    (q_prev (h x) = pr \<and> q_next (h x) = (if xs = [] then nx else opt_hd xs) \<and> seg h (Some x) xs nx)"

definition queue_rep :: "kernel \<Rightarrow> nat \<Rightarrow> pptr list \<Rightarrow> bool" where
  "queue_rep k q xs \<longleftrightarrow>
     q_head (sysq k q) = opt_hd xs \<and> q_tail (sysq k q) = opt_last xs \<and>
     seg (procs k) None xs None \<and> distinct xs \<and> (\<forall>p\<in>set xs. wait_q (procs k p) = q)"

definition queues_rep :: "kernel \<Rightarrow> (nat \<Rightarrow> pptr list) \<Rightarrow> bool" where
  "queues_rep k Q \<longleftrightarrow>
     Q CURPROC_Q = [] \<and>
     (\<forall>q. q \<noteq> CURPROC_Q \<longrightarrow> queue_rep k q (Q q)) \<and>
     (\<forall>p. wait_q (procs k p) \<noteq> CURPROC_Q \<longrightarrow> p \<in> set (Q (wait_q (procs k p)))) \<and>
     (\<forall>p. wait_q (procs k p) = CURPROC_Q \<longrightarrow>
        q_next (procs k p) = None \<and> q_prev (procs k p) = None)"

definition proc_core :: "proc \<Rightarrow> proc" where
  "proc_core x = x\<lparr>q_prev := None, q_next := None, wait_q := 0, curpri := 0, slices := 0\<rparr>"

definition q_frame :: "kernel \<Rightarrow> kernel \<Rightarrow> bool" where
  "q_frame k k' \<longleftrightarrow>
     k'\<lparr>procs := procs k, sysq := sysq k\<rparr> = k \<and>
     (\<forall>x. proc_core (procs k' x) = proc_core (procs k x))"

definition idle_proc :: "kernel \<Rightarrow> pptr \<Rightarrow> bool" where
  "idle_proc k p \<longleftrightarrow> wait_q (procs k p) = CURPROC_Q"

lemma seg_cong:
  "(\<And>x. x \<in> set xs \<Longrightarrow> q_prev (h x) = q_prev (h' x) \<and> q_next (h x) = q_next (h' x)) \<Longrightarrow>
   seg h pr xs nx = seg h' pr xs nx"
  by (induction xs arbitrary: pr) auto

lemma seg_append:
  "seg h pr (xs @ ys) nx \<longleftrightarrow>
     seg h pr xs (if ys = [] then nx else opt_hd ys) \<and>
     seg h (if xs = [] then pr else opt_last xs) ys nx"
  by (induction xs arbitrary: pr) (auto simp: opt_last_def)

lemma queue_rep_cong:
  assumes "queue_rep k q xs" "sysq k' q = sysq k q"
    and "\<And>x. x \<in> set xs \<Longrightarrow> q_prev (procs k' x) = q_prev (procs k x) \<and>
           q_next (procs k' x) = q_next (procs k x) \<and> wait_q (procs k' x) = wait_q (procs k x)"
  shows "queue_rep k' q xs"
proof -
  have "seg (procs k') None xs None = seg (procs k) None xs None"
    using assms(3) by (intro seg_cong) simp
  with assms show ?thesis by (simp add: queue_rep_def)
qed

lemma queues_repD:
  assumes "queues_rep k Q" "q \<noteq> CURPROC_Q"
  shows "queue_rep k q (Q q)" "p \<in> set (Q q) \<longleftrightarrow> wait_q (procs k p) = q"
  using assms unfolding queues_rep_def queue_rep_def by auto

lemma queues_rep_idle:
  assumes "queues_rep k Q" "wait_q (procs k p) = CURPROC_Q"
  shows "q_next (procs k p) = None" "q_prev (procs k p) = None" "p \<notin> set (Q q)"
  using assms queues_repD(2)[OF assms(1), of q p] unfolding queues_rep_def
  by (cases "q = CURPROC_Q"; auto)+

lemma proc_core_simps [simp]:
  "proc_core (x\<lparr>q_prev := a\<rparr>) = proc_core x" "proc_core (x\<lparr>q_next := a\<rparr>) = proc_core x"
  "proc_core (x\<lparr>wait_q := n\<rparr>) = proc_core x" "proc_core (x\<lparr>curpri := i\<rparr>) = proc_core x"
  "proc_core (x\<lparr>slices := i\<rparr>) = proc_core x"
  by (simp_all add: proc_core_def)

lemma q_frame_refl [simp]: "q_frame k k"
  by (simp add: q_frame_def)

lemma q_frame_trans:
  assumes "q_frame a b" "q_frame b c" shows "q_frame a c"
  using assms by (cases a; cases b; cases c) (auto simp: q_frame_def)

lemma q_frame_upd_proc:
  "(\<And>x. proc_core (f x) = proc_core x) \<Longrightarrow> q_frame a k \<Longrightarrow> q_frame a (upd_proc p f k)"
  by (cases a; cases k) (auto simp: q_frame_def upd_proc_def)

lemma q_frame_set_head: "q_frame a k \<Longrightarrow> q_frame a (set_head q v k)"
  and q_frame_set_tail: "q_frame a k \<Longrightarrow> q_frame a (set_tail q v k)"
  by (cases a; cases k; auto simp: q_frame_def set_head_def set_tail_def)+

lemmas q_frame_intros = q_frame_upd_proc q_frame_set_head q_frame_set_tail

lemma proc_core_sel [simp]:
  "wait_cond (proc_core x) = wait_cond x" "pid (proc_core x) = pid x" "pri (proc_core x) = pri x"
  "p_sigmask (proc_core x) = p_sigmask x" "sigpending (proc_core x) = sigpending x"
  "pgrp (proc_core x) = pgrp x" "p_cred (proc_core x) = p_cred x"
  "p_flag (proc_core x) = p_flag x" "ppid (proc_core x) = ppid x"
  "p_sigacts (proc_core x) = p_sigacts x" "mb_mode (proc_core x) = mb_mode x"
  "mb_mbid (proc_core x) = mb_mbid x" "mb_long1 (proc_core x) = mb_long1 x"
  "mb_long2 (proc_core x) = mb_long2 x" "mb_writer (proc_core x) = mb_writer x"
  "ptracer (proc_core x) = ptracer x"
  by (simp_all add: proc_core_def)

lemma q_frame_proc:
  assumes "q_frame k k'" and "\<And>y. f (proc_core y) = f y"
  shows "f (procs k' x) = f (procs k x)"
  using assms by (metis q_frame_def)

lemma q_frame_kernel:
  assumes "q_frame k k'" and "\<And>k p q. f (k\<lparr>procs := p, sysq := q\<rparr>) = f k"
  shows "f k' = f k"
  using assms by (metis q_frame_def)

lemma q_frame_core:
  assumes "q_frame k k'"
  shows "wait_cond (procs k' x) = wait_cond (procs k x)" "pid (procs k' x) = pid (procs k x)"
    "pri (procs k' x) = pri (procs k x)" "p_sigmask (procs k' x) = p_sigmask (procs k x)"
    "sigpending (procs k' x) = sigpending (procs k x)" "pgrp (procs k' x) = pgrp (procs k x)"
    "p_cred (procs k' x) = p_cred (procs k x)" "p_flag (procs k' x) = p_flag (procs k x)"
    "p_sigacts (procs k' x) = p_sigacts (procs k x)" "mb_mode (procs k' x) = mb_mode (procs k x)"
    "mb_mbid (procs k' x) = mb_mbid (procs k x)" "mb_long1 (procs k' x) = mb_long1 (procs k x)"
    "mb_long2 (procs k' x) = mb_long2 (procs k x)"
    "mb_writer (procs k' x) = mb_writer (procs k x)"
    "proclist k' = proclist k" "curproc k' = curproc k" "rootproc k' = rootproc k"
    "semalist k' = semalist k" "tlist k' = tlist k" "expire_list k' = expire_list k"
    "sigacts k' = sigacts k" "sleepcond k' = sleepcond k" "proc_clock k' = proc_clock k"
    "time_slice k' = time_slice k" "iwakecond k' = iwakecond k"
  by (rule q_frame_proc[OF assms], simp; fail | rule q_frame_kernel[OF assms], simp; fail)+

section \<open>Entering and leaving a queue\<close>

lemma add_q_frame: "add_q que p k = Some k' \<Longrightarrow> q_frame k k'"
  by (auto simp: add_q_def Let_def split: if_splits option.splits intro!: q_frame_intros)

lemma rm_q_frame: "rm_q que p k = Some k' \<Longrightarrow> q_frame k k'"
  by (auto simp: rm_q_def Let_def split: if_splits option.splits intro!: q_frame_intros)

lemma add_q_other:
  assumes "add_q que p k = Some k'" "q_tail (sysq k que) \<noteq> Some x" "x \<noteq> p"
  shows "procs k' x = procs k x"
  using assms by (auto simp: add_q_def Let_def split: if_splits option.splits)

lemma add_q_sysq: "add_q que p k = Some k' \<Longrightarrow> q \<noteq> que \<Longrightarrow> sysq k' q = sysq k q"
  by (auto simp: add_q_def Let_def split: if_splits option.splits)

lemma rm_q_sysq: "rm_q que p k = Some k' \<Longrightarrow> q \<noteq> que \<Longrightarrow> sysq k' q = sysq k q"
  by (auto simp: rm_q_def Let_def split: if_splits option.splits)

lemma add_q_wait_q:
  "add_q que p k = Some k' \<Longrightarrow> wait_q (procs k' x) = (if x = p then que else wait_q (procs k x))"
  by (auto simp: add_q_def Let_def split: if_splits option.splits)

lemma rm_q_wait_q:
  "rm_q que p k = Some k' \<Longrightarrow> wait_q (procs k' x) = (if x = p then 0 else wait_q (procs k x))"
  by (auto simp: rm_q_def Let_def split: if_splits option.splits)

lemma add_q_queue:
  assumes "queue_rep k que xs" "p \<notin> set xs" "add_q que p k = Some k'"
  shows "queue_rep k' que (xs @ [p])"
proof (cases xs rule: rev_cases)
  case Nil
  with assms show ?thesis
    by (auto simp: add_q_def queue_rep_def Let_def split: if_splits)
next
  case (snoc ys t)
  have tail: "q_tail (sysq k que) = Some t" using assms(1) snoc by (simp add: queue_rep_def)
  have "procs k' x = procs k x" if "x \<in> set ys" for x
    using that assms(1,2) snoc tail by (intro add_q_other[OF assms(3)]) (auto simp: queue_rep_def)
  then have "seg (procs k') None ys (Some t) = seg (procs k) None ys (Some t)"
    by (intro seg_cong) simp
  moreover have "q_prev (procs k' t) = q_prev (procs k t)" "q_next (procs k' t) = Some p"
    "q_prev (procs k' p) = Some t" "q_next (procs k' p) = None"
    using assms(2,3) tail snoc by (auto simp: add_q_def Let_def split: if_splits)
  moreover have "q_head (sysq k' que) = q_head (sysq k que)" "q_tail (sysq k' que) = Some p"
    using assms(3) tail by (auto simp: add_q_def Let_def split: if_splits)
  ultimately show ?thesis
    using assms(1,2) snoc by (auto simp: queue_rep_def seg_append add_q_wait_q[OF assms(3)])
qed

lemma rm_q_links:
  assumes "rm_q que p k = Some k'" "q_prev (procs k p) \<noteq> Some p" "q_next (procs k p) \<noteq> Some p"
    "x \<noteq> p"
  shows "q_prev (procs k' x) =
           (if q_next (procs k p) = Some x then q_prev (procs k p) else q_prev (procs k x))"
    "q_next (procs k' x) =
           (if q_prev (procs k p) = Some x then q_next (procs k p) else q_next (procs k x))"
  using assms by (auto simp: rm_q_def Let_def split: if_splits option.splits)

lemma rm_q_ends:
  assumes "rm_q que p k = Some k'"
  shows "q_head (sysq k' que) =
           (if q_prev (procs k p) = None then q_next (procs k p) else q_head (sysq k que))"
    "q_tail (sysq k' que) =
           (if q_next (procs k p) = None then q_prev (procs k p) else q_tail (sysq k que))"
  using assms by (auto simp: rm_q_def Let_def split: if_splits option.splits)

lemma seg_set_next:
  assumes "seg h pr xs nx" "distinct xs"
    and "\<And>x. x \<in> set xs \<Longrightarrow> q_prev (h' x) = q_prev (h x)"
    and "\<And>x. x \<in> set xs \<Longrightarrow> q_next (h' x) = (if opt_last xs = Some x then nx' else q_next (h x))"
  shows "seg h' pr xs nx'"
  using assms
proof (induction xs arbitrary: pr)
  case (Cons x xs)
  then show ?case by (cases xs) (auto simp: opt_last_def)
qed simp

lemma seg_set_prev:
  assumes "seg h pr xs nx" "distinct xs"
    and "\<And>x. x \<in> set xs \<Longrightarrow> q_next (h' x) = q_next (h x)"
    and "\<And>x. x \<in> set xs \<Longrightarrow> q_prev (h' x) = (if opt_hd xs = Some x then pr' else q_prev (h x))"
  shows "seg h' pr' xs nx"
proof (cases xs)
  case (Cons y ys)
  have "seg h' (Some y) ys nx = seg h (Some y) ys nx"
    using assms(2-4) Cons by (intro seg_cong) auto
  then show ?thesis using assms Cons by auto
qed simp

lemma rm_q_queue:
  assumes "queue_rep k que (xs @ p # ys)" "rm_q que p k = Some k'"
  shows "queue_rep k' que (xs @ ys)"
proof -
  have d: "distinct (xs @ p # ys)" and s1: "seg (procs k) None xs (Some p)"
    and s2: "seg (procs k) (Some p) ys None"
    and pp: "q_prev (procs k p) = opt_last xs" and pn: "q_next (procs k p) = opt_hd ys"
    using assms(1) by (auto simp: queue_rep_def seg_append)
  have "q_prev (procs k p) \<noteq> Some p" "q_next (procs k p) \<noteq> Some p"
    using d pp pn by (auto simp: opt_last_Some opt_hd_Some)
  note links = rm_q_links[OF assms(2) this]
  have "opt_hd ys \<noteq> Some x" if "x \<in> set xs" for x using that d by (auto simp: opt_hd_Some)
  moreover have "opt_last xs \<noteq> Some x" if "x \<in> set ys" for x
    using that d by (auto simp: opt_last_Some)
  moreover have "x \<noteq> p" if "x \<in> set xs \<union> set ys" for x using that d by auto
  ultimately have "seg (procs k') None xs (opt_hd ys)" "seg (procs k') (opt_last xs) ys None"
    using d by (auto intro!: seg_set_next[OF s1] seg_set_prev[OF s2] simp: links pp pn)
  then have "seg (procs k') None (xs @ ys) None"
    by (cases "ys = []"; cases "xs = []") (auto simp: seg_append)
  moreover have "q_head (sysq k' que) = opt_hd (xs @ ys)" "q_tail (sysq k' que) = opt_last (xs @ ys)"
    using assms(1) by (auto simp: rm_q_ends[OF assms(2)] pp pn queue_rep_def opt_last_def)
  ultimately show ?thesis
    using assms(1) by (auto simp: queue_rep_def rm_q_wait_q[OF assms(2)])
qed

lemma rm_q_some:
  "queues_rep k Q \<Longrightarrow> q \<noteq> CURPROC_Q \<Longrightarrow> p \<in> set (Q q) \<Longrightarrow> \<exists>k'. rm_q q p k = Some k'"
  by (simp add: rm_q_def queues_repD(2) Let_def)

lemma add_q_rep:
  assumes "queues_rep k Q" "idle_proc k p" "q \<noteq> CURPROC_Q"
  shows "\<exists>k'. add_q q p k = Some k' \<and> queues_rep k' (Q(q := Q q @ [p])) \<and> q_frame k k'"
proof -
  have idle: "wait_q (procs k p) = 0" using assms(2) by (simp add: idle_proc_def)
  note i = queues_rep_idle[OF assms(1) idle]
  obtain k' where k': "add_q q p k = Some k'"
    using idle i by (auto simp: add_q_def Let_def)
  have same: "procs k' x = procs k x" if "x \<noteq> p" "x \<notin> set (Q q)" for x
    using that queues_repD(1)[OF assms(1,3)]
    by (intro add_q_other[OF k']) (auto simp: queue_rep_def opt_last_Some)
  have "queue_rep k' r (Q r)" if "r \<noteq> q" "r \<noteq> 0" for r
  proof (rule queue_rep_cong[OF queues_repD(1)[OF assms(1) that(2)] add_q_sysq[OF k' that(1)]])
    fix x assume "x \<in> set (Q r)"
    then have "x \<notin> set (Q q)" "x \<noteq> p"
      using queues_repD(2)[OF assms(1)] that assms(3) i by auto
    then show "q_prev (procs k' x) = q_prev (procs k x) \<and> q_next (procs k' x) = q_next (procs k x)
        \<and> wait_q (procs k' x) = wait_q (procs k x)" by (simp add: same)
  qed
  moreover have "queue_rep k' q (Q q @ [p])"
    using add_q_queue[OF queues_repD(1)[OF assms(1,3)] i(3) k'] .
  moreover have "q_next (procs k' x) = None \<and> q_prev (procs k' x) = None"
    if "wait_q (procs k' x) = 0" for x
    using that same[of x] assms(1,3) queues_repD(2)[OF assms(1,3)]
    by (auto simp: add_q_wait_q[OF k'] queues_rep_def split: if_splits)
  ultimately show ?thesis
    using k' assms(1,3) by (auto simp: queues_rep_def add_q_wait_q[OF k'] add_q_frame)
qed

lemma rm_q_rep:
  assumes "queues_rep k Q" "q \<noteq> CURPROC_Q" "p \<in> set (Q q)"
  shows "\<exists>k'. rm_q q p k = Some k' \<and> queues_rep k' (Q(q := remove1 p (Q q))) \<and> idle_proc k' p
           \<and> q_frame k k'"
proof -
  obtain k' where k': "rm_q q p k = Some k'" using rm_q_some[OF assms] by blast
  obtain xs ys where Qq: "Q q = xs @ p # ys" using assms(3) by (meson split_list)
  have qr: "queue_rep k q (xs @ p # ys)" using queues_repD(1)[OF assms(1,2)] Qq by simp
  then have d: "distinct (xs @ p # ys)" by (simp add: queue_rep_def)
  then have rem: "remove1 p (Q q) = xs @ ys" by (simp add: Qq distinct_remove1_append)
  have pp: "q_prev (procs k p) = opt_last xs" and pn: "q_next (procs k p) = opt_hd ys"
    using qr by (auto simp: queue_rep_def seg_append)
  then have nself: "q_prev (procs k p) \<noteq> Some p" "q_next (procs k p) \<noteq> Some p"
    using d by (auto simp: opt_last_Some opt_hd_Some)
  have same: "q_prev (procs k' x) = q_prev (procs k x) \<and> q_next (procs k' x) = q_next (procs k x)"
    if "x \<notin> set (Q q)" for x
    using that Qq by (auto simp: rm_q_links[OF k' nself] pp pn opt_last_Some opt_hd_Some)
  have "queue_rep k' r (Q r)" if "r \<noteq> q" "r \<noteq> 0" for r
  proof (rule queue_rep_cong[OF queues_repD(1)[OF assms(1) that(2)] rm_q_sysq[OF k' that(1)]])
    fix x assume "x \<in> set (Q r)"
    then have "x \<notin> set (Q q)" using queues_repD(2)[OF assms(1)] that assms(2) by auto
    then show "q_prev (procs k' x) = q_prev (procs k x) \<and> q_next (procs k' x) = q_next (procs k x)
        \<and> wait_q (procs k' x) = wait_q (procs k x)"
      using same assms(3) by (auto simp: rm_q_wait_q[OF k'])
  qed
  moreover have "queue_rep k' q (xs @ ys)" using rm_q_queue[OF qr k'] .
  moreover have "q_next (procs k' x) = None \<and> q_prev (procs k' x) = None"
    if "wait_q (procs k' x) = 0" for x
  proof (cases "x = p")
    case True
    then show ?thesis using k' by (auto simp: rm_q_def Let_def split: if_splits option.splits)
  next
    case False
    with that have "wait_q (procs k x) = 0" by (simp add: rm_q_wait_q[OF k'])
    then show ?thesis using same queues_rep_idle[OF assms(1)] by simp
  qed
  moreover have "x \<in> set (if wait_q (procs k x) = q then xs @ ys else Q (wait_q (procs k x)))"
    if "x \<noteq> p" "wait_q (procs k x) \<noteq> 0" for x
  proof -
    have "x \<in> set (Q (wait_q (procs k x)))" using assms(1) that by (simp add: queues_rep_def)
    then show ?thesis using that Qq by auto
  qed
  ultimately have "queues_rep k' (Q(q := xs @ ys))"
    using assms(1,2) unfolding queues_rep_def by (simp add: rm_q_wait_q[OF k'])
  then show ?thesis
    using k' rem rm_q_frame[OF k'] by (auto simp: idle_proc_def rm_q_wait_q[OF k'])
qed

section \<open>The interface of the queues\<close>

locale wait_queues =
  fixes enq :: "nat \<Rightarrow> pptr \<Rightarrow> 's \<Rightarrow> 's option"
    and deq :: "nat \<Rightarrow> pptr \<Rightarrow> 's \<Rightarrow> 's option"
    and rep :: "'s \<Rightarrow> (nat \<Rightarrow> pptr list) \<Rightarrow> bool"
    and idle :: "'s \<Rightarrow> pptr \<Rightarrow> bool"
    and frame :: "'s \<Rightarrow> 's \<Rightarrow> bool"
  assumes enq_ok: "rep s Q \<Longrightarrow> idle s p \<Longrightarrow> q \<noteq> CURPROC_Q \<Longrightarrow>
      \<exists>s'. enq q p s = Some s' \<and> rep s' (Q(q := Q q @ [p])) \<and> frame s s'"
    and deq_ok: "rep s Q \<Longrightarrow> q \<noteq> CURPROC_Q \<Longrightarrow> p \<in> set (Q q) \<Longrightarrow>
      \<exists>s'. deq q p s = Some s' \<and> rep s' (Q(q := remove1 p (Q q))) \<and> idle s' p \<and> frame s s'"
    and frame_refl: "frame s s"
    and frame_trans: "frame s s' \<Longrightarrow> frame s' s'' \<Longrightarrow> frame s s''"
    and rep_distinct: "rep s Q \<Longrightarrow> distinct (Q q)"
    and rep_disjoint: "rep s Q \<Longrightarrow> q \<noteq> r \<Longrightarrow> set (Q q) \<inter> set (Q r) = {}"
begin

lemma move_ok:
  assumes "rep s Q" "q \<noteq> CURPROC_Q" "r \<noteq> CURPROC_Q" "q \<noteq> r" "p \<in> set (Q q)"
  shows "\<exists>s'. (case deq q p s of None \<Rightarrow> None | Some s1 \<Rightarrow> enq r p s1) = Some s'
           \<and> rep s' (Q(q := remove1 p (Q q), r := Q r @ [p])) \<and> frame s s'"
proof -
  obtain s1 where s1: "deq q p s = Some s1" "rep s1 (Q(q := remove1 p (Q q)))" "idle s1 p"
    "frame s s1" using deq_ok[OF assms(1,2,5)] by blast
  obtain s2 where "enq r p s1 = Some s2" "rep s2 (Q(q := remove1 p (Q q), r := Q r @ [p]))"
    "frame s1 s2" using enq_ok[OF s1(2,3) assms(3)] assms(4) by auto
  with s1 show ?thesis using frame_trans by auto
qed

text \<open>Moving a list of processes, one after the other, keeps their order.\<close>

fun move_all :: "nat \<Rightarrow> nat \<Rightarrow> pptr list \<Rightarrow> 's \<Rightarrow> 's option" where
  "move_all q r [] s = Some s"
| "move_all q r (p # ps) s =
    (case deq q p s of None \<Rightarrow> None | Some s1 \<Rightarrow>
      (case enq r p s1 of None \<Rightarrow> None | Some s2 \<Rightarrow> move_all q r ps s2))"

lemma move_all_ok:
  assumes "rep s Q" "q \<noteq> CURPROC_Q" "r \<noteq> CURPROC_Q" "q \<noteq> r" "set ps \<subseteq> set (Q q)" "distinct ps"
  shows "\<exists>s'. move_all q r ps s = Some s' \<and>
     rep s' (Q(q := filter (\<lambda>x. x \<notin> set ps) (Q q), r := Q r @ ps)) \<and> frame s s'"
  using assms
proof (induction ps arbitrary: s Q)
  case Nil
  then show ?case using frame_refl by auto
next
  case (Cons p ps)
  obtain s1 s2 where m: "deq q p s = Some s1" "enq r p s1 = Some s2"
    "rep s2 (Q(q := remove1 p (Q q), r := Q r @ [p]))" "frame s s2"
    using move_ok[OF Cons.prems(1-4), of p] Cons.prems(5) by (auto split: option.splits)
  define Q1 where "Q1 = Q(q := remove1 p (Q q), r := Q r @ [p])"
  have Q1: "Q1 q = remove1 p (Q q)" "Q1 r = Q r @ [p]"
    "Q1(q := a, r := b) = Q(q := a, r := b)" for a b
    using Cons.prems(4) unfolding Q1_def by auto
  have "set ps \<subseteq> set (Q1 q)"
    using Cons.prems rep_distinct[OF Cons.prems(1)] by (auto simp: Q1 set_remove1_eq)
  from Cons.IH[OF m(3)[folded Q1_def] Cons.prems(2-4) this, unfolded Q1] Cons.prems(6)
  obtain s' where "move_all q r ps s2 = Some s'" "frame s2 s'"
    "rep s' (Q(q := filter (\<lambda>x. x \<notin> set ps) (remove1 p (Q q)), r := (Q r @ [p]) @ ps))"
    unfolding distinct.simps by blast
  moreover have "filter (\<lambda>x. x \<notin> set ps) (remove1 p (Q q)) = filter (\<lambda>x. x \<notin> set (p # ps)) (Q q)"
    using rep_distinct[OF Cons.prems(1)]
    by (auto simp: distinct_remove1_removeAll removeAll_filter_not_eq intro: filter_cong)
  ultimately have "rep s' (Q(q := filter (\<lambda>x. x \<notin> set (p # ps)) (Q q), r := Q r @ p # ps))"
    and "move_all q r (p # ps) s = Some s'" using m by simp_all
  then show ?case using frame_trans[OF m(4) \<open>frame s2 s'\<close>] by blast
qed

end

lemma queues_rep_empty: "queues_rep k Q \<Longrightarrow> Q CURPROC_Q = []"
  by (simp add: queues_rep_def)

lemma queues_rep_distinct: "queues_rep k Q \<Longrightarrow> distinct (Q q)"
  using queues_repD(1)[of k Q q] queues_rep_empty[of k Q]
  by (cases "q = CURPROC_Q") (auto simp: queue_rep_def)

lemma queues_rep_disjoint:
  assumes "queues_rep k Q" "q \<noteq> r"
  shows "set (Q q) \<inter> set (Q r) = {}"
proof (cases "q = CURPROC_Q \<or> r = CURPROC_Q")
  case True
  then show ?thesis using queues_rep_empty[OF assms(1)] by auto
next
  case False
  then show ?thesis using queues_repD(2)[OF assms(1)] assms(2) by auto
qed

interpretation pq: wait_queues add_q rm_q queues_rep idle_proc q_frame
proof unfold_locales
  show "q_frame s s'" if "q_frame s s1" "q_frame s1 s'" for s s1 s'
    using that by (rule q_frame_trans)
qed (rule add_q_rep rm_q_rep q_frame_refl queues_rep_distinct queues_rep_disjoint; assumption)+

lemma move_q_eq: "move_q q r p k = (case rm_q q p k of None \<Rightarrow> None | Some k1 \<Rightarrow> add_q r p k1)"
  by (cases "rm_q q p k") (simp_all add: move_q_def)

lemma move_q_rep:
  assumes "queues_rep k Q" "q \<noteq> CURPROC_Q" "r \<noteq> CURPROC_Q" "q \<noteq> r" "p \<in> set (Q q)"
  shows "\<exists>k'. move_q q r p k = Some k' \<and> queues_rep k' (Q(q := remove1 p (Q q), r := Q r @ [p]))
           \<and> q_frame k k'"
  using pq.move_ok[OF assms] by (simp add: move_q_eq)

lemma queues_rep_upd:
  assumes "queues_rep k Q"
    and "\<And>x. q_prev (f x) = q_prev x" "\<And>x. q_next (f x) = q_next x" "\<And>x. wait_q (f x) = wait_q x"
  shows "queues_rep (upd_proc p f k) Q"
proof -
  have "queue_rep (upd_proc p f k) q (Q q)" if "q \<noteq> 0" for q
    by (rule queue_rep_cong[OF queues_repD(1)[OF assms(1) that]]) (simp_all add: assms(2-))
  then show ?thesis using assms by (simp add: queues_rep_def)
qed

lemma queues_rep_kernel:
  assumes "queues_rep k Q" "procs k' = procs k" "sysq k' = sysq k"
  shows "queues_rep k' Q"
  using assms(1) unfolding queues_rep_def queue_rep_def assms(2,3) .

section \<open>Waking\<close>

lemma do_wake_loop_rep:
  assumes "queues_rep k Q" "Q que = done @ rest" "que \<noteq> CURPROC_Q" "que \<noteq> READY_Q"
    "length rest \<le> fuel"
  shows "\<exists>k'. do_wake_loop fuel que cond (opt_hd rest) k = Some k' \<and> q_frame k k' \<and>
     queues_rep k' (Q(que := done @ filter (\<lambda>p. wait_cond (procs k p) \<noteq> cond) rest,
                      READY_Q := Q READY_Q @ filter (\<lambda>p. wait_cond (procs k p) = cond) rest))"
  using assms
proof (induction rest arbitrary: k Q "done" fuel)
  case Nil
  then show ?case by (auto simp: fun_upd_idem)
next
  case (Cons p rest)
  obtain f where f: "fuel = Suc f" using Cons.prems(5) by (cases fuel) auto
  note qr = queues_repD(1)[OF Cons.prems(1,3), unfolded Cons.prems(2)]
  have wq: "wait_q (procs k p) = que" and nx: "q_next (procs k p) = opt_hd rest"
    and d: "distinct (done @ p # rest)"
    using qr by (auto simp: queue_rep_def seg_append)
  show ?case
  proof (cases "wait_cond (procs k p) = cond")
    case True
    have "p \<in> set (Q que)" by (simp add: Cons.prems(2))
    from move_q_rep[OF Cons.prems(1,3) _ Cons.prems(4) this]
    obtain k1 where k1: "move_q que READY_Q p k = Some k1" "q_frame k k1"
      "queues_rep k1 (Q(que := done @ rest, READY_Q := Q READY_Q @ [p]))"
      using d by (auto simp: Cons.prems(2) distinct_remove1_append)
    have wc: "wait_cond (procs k1 x) = wait_cond (procs k x)" for x by (rule q_frame_core[OF k1(2)])
    define Q1 where "Q1 = Q(que := done @ rest, READY_Q := Q READY_Q @ [p])"
    have Q1: "Q1 que = done @ rest" "Q1 READY_Q = Q READY_Q @ [p]"
      "Q1(que := a, READY_Q := b) = Q(que := a, READY_Q := b)" for a b
      using Cons.prems(4) unfolding Q1_def by auto
    have "length rest \<le> f" using Cons.prems(5) f by simp
    from Cons.IH[OF k1(3)[folded Q1_def] Q1(1) Cons.prems(3,4) this, unfolded wc Q1]
    obtain k' where k': "do_wake_loop f que cond (opt_hd rest) k1 = Some k'"
      "q_frame k1 k'"
      "queues_rep k' (Q(que := done @ filter (\<lambda>p. wait_cond (procs k p) \<noteq> cond) rest,
          READY_Q := (Q READY_Q @ [p]) @ filter (\<lambda>p. wait_cond (procs k p) = cond) rest))"
      by blast
    have "do_wake_loop fuel que cond (opt_hd (p # rest)) k = Some k'"
      using k'(1) True wq nx f k1(1) by (simp add: Let_def)
    moreover have "filter (\<lambda>p. wait_cond (procs k p) \<noteq> cond) (p # rest)
        = filter (\<lambda>p. wait_cond (procs k p) \<noteq> cond) rest"
      "filter (\<lambda>p. wait_cond (procs k p) = cond) (p # rest)
        = p # filter (\<lambda>p. wait_cond (procs k p) = cond) rest" using True by simp_all
    ultimately show ?thesis
      using k'(3) q_frame_trans[OF k1(2) k'(2)] unfolding append_assoc append.simps by metis
  next
    case False
    have "Q que = (done @ [p]) @ rest" "length rest \<le> f" using Cons.prems(2,5) f by simp_all
    from Cons.IH[OF Cons.prems(1) this(1) Cons.prems(3,4) this(2)]
    show ?thesis using False wq nx f unfolding append_assoc append.simps by (simp add: Let_def)
  qed
qed

definition queues_known :: "kernel \<Rightarrow> (nat \<Rightarrow> pptr list) \<Rightarrow> bool" where
  "queues_known k Q \<longleftrightarrow> (\<forall>q. set (Q q) \<subseteq> set (proclist k))"

lemma do_wake_rep:
  assumes "queues_rep k Q" "queues_known k Q" "que \<noteq> CURPROC_Q" "que \<noteq> READY_Q"
  shows "\<exists>k'. do_wake que cond k = Some k' \<and> q_frame k k' \<and>
     queues_rep k' (Q(que := filter (\<lambda>p. wait_cond (procs k p) \<noteq> cond) (Q que),
                      READY_Q := Q READY_Q @ filter (\<lambda>p. wait_cond (procs k p) = cond) (Q que)))"
proof -
  have "length (Q que) \<le> length (proclist k)"
    using assms(2) pq.rep_distinct[OF assms(1)] by (auto simp: queues_known_def intro: distinct_length_le)
  from do_wake_loop_rep[OF assms(1) _ assms(3,4) this, of "[]" cond]
  show ?thesis using queues_repD(1)[OF assms(1,3)] by (simp add: do_wake_def queue_rep_def)
qed

lemma wake_rep:
  assumes "queues_rep k Q" "queues_known k Q" "que \<noteq> CURPROC_Q" "que \<noteq> READY_Q"
  shows "\<exists>k'. wake que cond k = Some k' \<and>
     q_frame (k\<lparr>sleepcond := if sleepcond k = cond then 0 else sleepcond k\<rparr>) k' \<and>
     queues_rep k' (Q(que := filter (\<lambda>p. wait_cond (procs k p) \<noteq> cond) (Q que),
                      READY_Q := Q READY_Q @ filter (\<lambda>p. wait_cond (procs k p) = cond) (Q que)))"
proof -
  define k1 where "k1 = k\<lparr>sleepcond := if sleepcond k = cond then 0 else sleepcond k\<rparr>"
  have "queues_rep k1 Q"
    using assms(1) by (rule queues_rep_kernel) (simp_all add: k1_def)
  moreover have "queues_known k1 Q" using assms(2) by (simp add: queues_known_def k1_def)
  moreover have "wake que cond k = do_wake que cond k1"
    using assms(4) by (simp add: wake_def k1_def)
  ultimately show ?thesis
    using do_wake_rep[of k1 Q que cond] assms(3,4) by (simp add: k1_def)
qed

text \<open>
  The part of the invariant the other components keep: the queues are represented by some lists,
  and all members are known processes.
\<close>

definition queues_ok :: "kernel \<Rightarrow> bool" where
  "queues_ok k \<longleftrightarrow> (\<exists>Q. queues_rep k Q \<and> queues_known k Q)"

lemma queues_known_wait_q:
  assumes "queues_rep k Q"
  shows "queues_known k Q \<longleftrightarrow> (\<forall>p. wait_q (procs k p) \<noteq> CURPROC_Q \<longrightarrow> p \<in> set (proclist k))"
proof
  assume "queues_known k Q"
  then show "\<forall>p. wait_q (procs k p) \<noteq> CURPROC_Q \<longrightarrow> p \<in> set (proclist k)"
    using assms by (auto simp: queues_known_def queues_rep_def)
next
  assume h: "\<forall>p. wait_q (procs k p) \<noteq> CURPROC_Q \<longrightarrow> p \<in> set (proclist k)"
  have "set (Q q) \<subseteq> set (proclist k)" for q
    using h queues_repD(2)[OF assms, of q] queues_rep_empty[OF assms] by (cases "q = 0") auto
  then show "queues_known k Q" by (simp add: queues_known_def)
qed

lemma queues_ok_upd:
  assumes "queues_ok k" "\<And>x. q_prev (f x) = q_prev x" "\<And>x. q_next (f x) = q_next x"
    "\<And>x. wait_q (f x) = wait_q x"
  shows "queues_ok (upd_proc p f k)"
  using assms queues_rep_upd[where f = f] by (fastforce simp: queues_ok_def queues_known_def upd_proc_def)

lemma queues_ok_kernel:
  assumes "queues_ok k" "procs k' = procs k" "sysq k' = sysq k" "proclist k' = proclist k"
  shows "queues_ok k'"
  using assms queues_rep_kernel unfolding queues_ok_def queues_known_def by metis

lemma add_q_ok:
  assumes "queues_ok k" "idle_proc k p" "q \<noteq> CURPROC_Q" "p \<in> set (proclist k)"
  shows "\<exists>k'. add_q q p k = Some k' \<and> queues_ok k' \<and> q_frame k k'"
proof -
  obtain Q where Q: "queues_rep k Q" "queues_known k Q" using assms(1) by (auto simp: queues_ok_def)
  obtain k' where k': "add_q q p k = Some k'" "queues_rep k' (Q(q := Q q @ [p]))" "q_frame k k'"
    using add_q_rep[OF Q(1) assms(2,3)] by blast
  have "queues_known k' (Q(q := Q q @ [p]))"
    using Q(2) assms(4) by (auto simp: queues_known_def q_frame_core[OF k'(3)])
  then show ?thesis using k' by (auto simp: queues_ok_def)
qed

lemma rm_q_ok:
  assumes "queues_ok k" "wait_q (procs k p) \<noteq> CURPROC_Q"
  shows "\<exists>k'. rm_q (wait_q (procs k p)) p k = Some k' \<and> queues_ok k' \<and> idle_proc k' p \<and> q_frame k k'"
proof -
  let ?q = "wait_q (procs k p)"
  obtain Q where Q: "queues_rep k Q" "queues_known k Q" using assms(1) by (auto simp: queues_ok_def)
  have "p \<in> set (Q ?q)" using queues_repD(2)[OF Q(1) assms(2)] by simp
  then obtain k' where k': "rm_q ?q p k = Some k'" "queues_rep k' (Q(?q := remove1 p (Q ?q)))"
    "idle_proc k' p" "q_frame k k'" using rm_q_rep[OF Q(1) assms(2)] by blast
  have "queues_known k' (Q(?q := remove1 p (Q ?q)))"
    using Q(2) set_remove1_subset[of p "Q ?q"]
    by (auto simp: queues_known_def q_frame_core[OF k'(4)])
  then show ?thesis using k' by (auto simp: queues_ok_def)
qed

lemma known_proc: "queues_ok k \<Longrightarrow> wait_q (procs k p) \<noteq> CURPROC_Q \<Longrightarrow> p \<in> set (proclist k)"
  by (auto simp: queues_ok_def queues_known_wait_q)

lemma move_q_ok:
  assumes "queues_ok k" "wait_q (procs k p) = q" "q \<noteq> CURPROC_Q" "r \<noteq> CURPROC_Q"
  shows "\<exists>k'. move_q q r p k = Some k' \<and> queues_ok k' \<and> q_frame k k' \<and>
    (\<forall>x. wait_q (procs k' x) = (if x = p then r else wait_q (procs k x)))"
proof -
  obtain k1 where k1: "rm_q q p k = Some k1" "queues_ok k1" "idle_proc k1 p" "q_frame k k1"
    using rm_q_ok[of k p] assms by auto
  have "p \<in> set (proclist k1)"
    using known_proc[OF assms(1), of p] assms(2,3) by (simp add: q_frame_core[OF k1(4)])
  then obtain k2 where k2: "add_q r p k1 = Some k2" "queues_ok k2" "q_frame k1 k2"
    using add_q_ok[OF k1(2,3) assms(4)] by blast
  then show ?thesis
    using k1 q_frame_trans[OF k1(4) k2(3)]
    by (auto simp: move_q_eq add_q_wait_q[OF k2(1)] rm_q_wait_q[OF k1(1)])
qed

lemma wake_ok:
  assumes "queues_ok k" "que \<noteq> CURPROC_Q"
  shows "\<exists>k'. wake que cond k = Some k' \<and> queues_ok k' \<and>
     q_frame (k\<lparr>sleepcond := if que \<noteq> READY_Q \<and> sleepcond k = cond then 0 else sleepcond k\<rparr>) k'"
proof (cases "que = READY_Q")
  case True
  then show ?thesis using assms by (simp add: wake_def)
next
  case False
  obtain Q where Q: "queues_rep k Q" "queues_known k Q" using assms(1) by (auto simp: queues_ok_def)
  from wake_rep[OF this assms(2) False, of cond]
  obtain k' Q' where k': "wake que cond k = Some k'" "queues_rep k' Q'"
    "q_frame (k\<lparr>sleepcond := if sleepcond k = cond then 0 else sleepcond k\<rparr>) k'"
    and Q': "Q' = Q(que := filter (\<lambda>p. wait_cond (procs k p) \<noteq> cond) (Q que),
                    READY_Q := Q READY_Q @ filter (\<lambda>p. wait_cond (procs k p) = cond) (Q que))"
    by blast
  have "queues_known k' Q'"
    using Q(2) unfolding queues_known_def q_frame_core(15)[OF k'(3)] Q' by auto
  then show ?thesis using k' False by (auto simp: queues_ok_def)
qed

lemma wakeselect_ok:
  assumes "queues_ok k"
  shows "\<exists>k'. wakeselect wa sa p k = Some k' \<and> queues_ok k' \<and> wait_q (procs k' p) \<noteq> SELECT_Q"
proof -
  define k1 where "k1 = (if wait_cond (procs k p) = wa \<or> wait_cond (procs k p) = sa
    then upd_proc p (\<lambda>x. x\<lparr>wait_cond := 0\<rparr>) k else k)"
  have ok: "queues_ok k1" using assms by (simp add: k1_def queues_ok_upd)
  have eq: "wakeselect wa sa p k =
      (if wait_q (procs k1 p) = SELECT_Q then move_q SELECT_Q READY_Q p k1 else Some k1)"
    by (simp add: wakeselect_def k1_def Let_def)
  show ?thesis
  proof (cases "wait_q (procs k1 p) = SELECT_Q")
    case True
    then show ?thesis using move_q_ok[OF ok True, of READY_Q] eq by auto
  next
    case False
    then show ?thesis using ok eq by simp
  qed
qed

section \<open>Scheduling a process next\<close>

lemma run_next_links:
  assumes "idle_proc k p" "queues_rep k Q"
  shows "wait_q (procs (run_next p n k) x) = (if x = p then READY_Q else wait_q (procs k x))"
    "q_next (procs (run_next p n k) x) =
       (if x = p then opt_hd (Q READY_Q) else q_next (procs k x))"
    "q_prev (procs (run_next p n k) x) =
       (if x = p then None else if opt_hd (Q READY_Q) = Some x then Some p else q_prev (procs k x))"
    "q_head (sysq (run_next p n k) READY_Q) = Some p"
    "q_tail (sysq (run_next p n k) READY_Q) =
       (if Q READY_Q = [] then Some p else q_tail (sysq k READY_Q))"
    "q \<noteq> READY_Q \<Longrightarrow> sysq (run_next p n k) q = sysq k q"
proof -
  have h: "q_head (sysq k READY_Q) = opt_hd (Q READY_Q)"
    using queues_repD(1)[OF assms(2), of READY_Q] by (simp add: queue_rep_def)
  have "opt_hd (Q READY_Q) \<noteq> Some p"
    using queues_rep_idle(3)[OF assms(2), of p READY_Q] assms(1)
    by (auto simp: idle_proc_def opt_hd_Some)
  then show "wait_q (procs (run_next p n k) x) = (if x = p then READY_Q else wait_q (procs k x))"
    "q_next (procs (run_next p n k) x) =
       (if x = p then opt_hd (Q READY_Q) else q_next (procs k x))"
    "q_prev (procs (run_next p n k) x) =
       (if x = p then None else if opt_hd (Q READY_Q) = Some x then Some p else q_prev (procs k x))"
    "q_head (sysq (run_next p n k) READY_Q) = Some p"
    "q_tail (sysq (run_next p n k) READY_Q) =
       (if Q READY_Q = [] then Some p else q_tail (sysq k READY_Q))"
    "q \<noteq> READY_Q \<Longrightarrow> sysq (run_next p n k) q = sysq k q"
    by (auto simp: run_next_def Let_def h split: option.splits)
qed

lemma run_next_rep:
  assumes "queues_rep k Q" "idle_proc k p"
  shows "queues_rep (run_next p n k) (Q(READY_Q := p # Q READY_Q))"
proof -
  let ?k = "run_next p n k"
  note l = run_next_links[OF assms(2,1), where n = n]
  have np: "p \<notin> set (Q q)" for q
    using queues_rep_idle(3)[OF assms(1), of p q] assms(2) by (simp add: idle_proc_def)
  have qr: "queue_rep k READY_Q (Q READY_Q)" using queues_repD(1)[OF assms(1), of READY_Q] by simp
  then have s: "seg (procs k) None (Q READY_Q) None" and d: "distinct (Q READY_Q)"
    by (simp_all add: queue_rep_def)
  have "seg (procs ?k) (Some p) (Q READY_Q) None"
  proof (rule seg_set_prev[OF s d])
    fix x assume "x \<in> set (Q READY_Q)"
    then have "x \<noteq> p" using np by auto
    then show "q_next (procs ?k x) = q_next (procs k x)"
      "q_prev (procs ?k x) = (if opt_hd (Q READY_Q) = Some x then Some p else q_prev (procs k x))"
      by (simp_all add: l)
  qed
  then have "queue_rep ?k READY_Q (p # Q READY_Q)"
    using qr np by (auto simp: queue_rep_def l opt_last_def)
  moreover have "queue_rep ?k q (Q q)" if "q \<noteq> READY_Q" "q \<noteq> CURPROC_Q" for q
  proof (rule queue_rep_cong[OF queues_repD(1)[OF assms(1) that(2)] l(6)[OF that(1)]])
    fix x assume x: "x \<in> set (Q q)"
    then have "x \<noteq> p" using np by auto
    moreover have "x \<notin> set (Q READY_Q)" using queues_rep_disjoint[OF assms(1) that(1)] x by auto
    ultimately show "q_prev (procs ?k x) = q_prev (procs k x) \<and>
      q_next (procs ?k x) = q_next (procs k x) \<and> wait_q (procs ?k x) = wait_q (procs k x)"
      by (auto simp: l opt_hd_Some)
  qed
  moreover have "q_next (procs ?k x) = None \<and> q_prev (procs ?k x) = None"
    if "wait_q (procs ?k x) = CURPROC_Q" for x
    using that queues_rep_idle(1,2)[OF assms(1), of x] queues_rep_idle(3)[OF assms(1), of x READY_Q]
    by (auto simp: l opt_hd_Some split: if_splits)
  moreover have "x \<in> set ((Q(READY_Q := p # Q READY_Q)) (wait_q (procs ?k x)))"
    if "wait_q (procs ?k x) \<noteq> CURPROC_Q" for x
  proof (cases "x = p")
    case False
    then have "x \<in> set (Q (wait_q (procs k x)))"
      using that assms(1) by (auto simp: l queues_rep_def)
    then show ?thesis using False by (auto simp: l)
  qed (simp add: l)
  ultimately show ?thesis using queues_rep_empty[OF assms(1)] unfolding queues_rep_def by auto
qed

section \<open>Choosing the next process\<close>

definition penalise :: "pptr list \<Rightarrow> kernel \<Rightarrow> kernel" where
  "penalise ps k = fold (\<lambda>p. upd_proc p (\<lambda>x. x\<lparr>slices := slices x - 1\<rparr>)) ps k"

lemma penalise_simps [simp]:
  "penalise [] k = k"
  "penalise (p # ps) k = penalise ps (upd_proc p (\<lambda>x. x\<lparr>slices := slices x - 1\<rparr>) k)"
  by (simp_all add: penalise_def)

lemma penalise_procs:
  assumes "distinct ps"
  shows "procs (penalise ps k) x =
    (if x \<in> set ps then (procs k x)\<lparr>slices := slices (procs k x) - 1\<rparr> else procs k x)"
  using assms by (induction ps arbitrary: k) auto

lemma penalise_frame: "q_frame k (penalise ps k)"
proof (induction ps arbitrary: k)
  case (Cons p ps)
  have "q_frame k (upd_proc p (\<lambda>x. x\<lparr>slices := slices x - 1\<rparr>) k)"
    by (rule q_frame_upd_proc) simp_all
  with Cons show ?case using q_frame_trans by auto
qed simp

lemma penalise_rep: "queues_rep k Q \<Longrightarrow> queues_rep (penalise ps k) Q"
  by (induction ps arbitrary: k) (simp_all add: queues_rep_upd)

lemma pick_pass_eq:
  assumes "seg (procs k) pr xs None" "distinct xs" "length xs \<le> fuel"
  shows "pick_pass fuel (opt_hd xs) k =
    Some (opt_hd (dropWhile (\<lambda>p. 0 < slices (procs k p)) xs),
          penalise (takeWhile (\<lambda>p. 0 < slices (procs k p)) xs) k)"
  using assms
proof (induction xs arbitrary: k pr fuel)
  case (Cons p xs)
  obtain f where f: "fuel = Suc f" using Cons.prems(3) by (cases fuel) auto
  let ?k = "upd_proc p (\<lambda>x. x\<lparr>slices := slices x - 1\<rparr>) k"
  have "seg (procs ?k) (Some p) xs None"
    using Cons.prems(1,2) seg_cong[of xs "procs ?k" "procs k" "Some p" None] by auto
  moreover have "distinct xs" "length xs \<le> f" using Cons.prems(2,3) f by simp_all
  ultimately have IH: "pick_pass f (opt_hd xs) ?k =
    Some (opt_hd (dropWhile (\<lambda>p. 0 < slices (procs ?k p)) xs),
          penalise (takeWhile (\<lambda>p. 0 < slices (procs ?k p)) xs) ?k)" by (rule Cons.IH)
  have "takeWhile (\<lambda>q. 0 < slices (procs ?k q)) xs = takeWhile (\<lambda>q. 0 < slices (procs k q)) xs"
    "dropWhile (\<lambda>q. 0 < slices (procs ?k q)) xs = dropWhile (\<lambda>q. 0 < slices (procs k q)) xs"
    using Cons.prems(2) by (auto intro: takeWhile_cong dropWhile_cong)
  moreover have "q_next (procs k p) = opt_hd xs" using Cons.prems(1) by (cases xs) auto
  ultimately show ?case using IH f by simp
qed simp

lemma pick_next_rep:
  assumes "queues_rep k Q" "length (Q READY_Q) \<le> length (proclist k)"
    "Q READY_Q = bs @ p # as" "\<forall>x\<in>set (Q READY_Q). m = 0 \<or> int m \<le> slices (procs k x)"
    "slices (procs k p) \<le> int m" "\<forall>x\<in>set bs. int m < slices (procs k x)" "m < fuel"
  shows "\<exists>k'. pick_next fuel k = Some (p, k') \<and> queues_rep k' Q \<and> q_frame k k' \<and>
    (\<forall>x\<in>set (Q READY_Q).
       slices (procs k' x) = slices (procs k x) - int m - (if x \<in> set bs then 1 else 0))"
  using assms
proof (induction m arbitrary: k fuel)
  case 0
  have qr: "queue_rep k READY_Q (bs @ p # as)" using queues_repD(1)[OF 0(1), of READY_Q] 0(3) by simp
  then have d: "distinct (bs @ p # as)" by (simp add: queue_rep_def)
  have "takeWhile (\<lambda>p. 0 < slices (procs k p)) (bs @ p # as) = bs"
    "dropWhile (\<lambda>p. 0 < slices (procs k p)) (bs @ p # as) = p # as"
    using 0(5,6) by (simp_all add: takeWhile_append2 dropWhile_append2)
  then have "pick_next fuel k = Some (p, penalise bs k)"
    using pick_pass_eq[of k None "bs @ p # as"] qr 0(2,3,7)
    by (cases fuel) (auto simp: queue_rep_def)
  then show ?case
    using penalise_rep[OF 0(1)] penalise_frame d 0(3) by (auto simp: penalise_procs)
next
  case (Suc m)
  obtain f where f: "fuel = Suc f" using Suc.prems(7) by (cases fuel) auto
  let ?xs = "Q READY_Q" and ?k = "penalise (Q READY_Q) k"
  have qr: "queue_rep k READY_Q ?xs" using queues_repD(1)[OF Suc.prems(1), of READY_Q] by simp
  then have d: "distinct ?xs" by (simp add: queue_rep_def)
  have s: "seg (procs k) None ?xs None" and hd: "q_head (sysq k READY_Q) = opt_hd ?xs"
    using qr by (simp_all add: queue_rep_def)
  have all: "takeWhile (\<lambda>p. 0 < slices (procs k p)) ?xs = ?xs"
    "dropWhile (\<lambda>p. 0 < slices (procs k p)) ?xs = []"
    using Suc.prems(4) by (auto simp: takeWhile_eq_all_conv dropWhile_eq_Nil_conv)
  have run: "pick_next fuel k = pick_next f ?k"
    using pick_pass_eq[OF s d Suc.prems(2), unfolded all] f hd by simp
  have dec: "slices (procs ?k x) = slices (procs k x) - 1" if "x \<in> set ?xs" for x
    using that d by (simp add: penalise_procs)
  have "\<exists>k'. pick_next f ?k = Some (p, k') \<and> queues_rep k' Q \<and> q_frame ?k k' \<and>
    (\<forall>x\<in>set ?xs. slices (procs k' x) = slices (procs ?k x) - int m - (if x \<in> set bs then 1 else 0))"
  proof (rule Suc.IH[OF penalise_rep[OF Suc.prems(1)] _ Suc.prems(3)])
    show "length ?xs \<le> length (proclist ?k)"
      using Suc.prems(2) by (simp add: q_frame_core[OF penalise_frame])
    show "\<forall>x\<in>set ?xs. m = 0 \<or> int m \<le> slices (procs ?k x)"
      using Suc.prems(4) dec by fastforce
    show "slices (procs ?k p) \<le> int m" using Suc.prems(3,5) dec[of p] by simp
    show "\<forall>x\<in>set bs. int m < slices (procs ?k x)" using Suc.prems(3,6) dec by auto
    show "m < f" using Suc.prems(7) f by simp
  qed
  then obtain k' where k': "pick_next f ?k = Some (p, k')" "queues_rep k' Q" "q_frame ?k k'"
    "\<forall>x\<in>set ?xs. slices (procs k' x) = slices (procs ?k x) - int m - (if x \<in> set bs then 1 else 0)"
    by blast
  show ?case
    using run k' dec q_frame_trans[OF penalise_frame k'(3)] by auto
qed

section \<open>An example state\<close>

text \<open>
  The current process is the root process 0; processes 1, 2 and 3 sleep on \<open>WAIT_Q\<close> for the
  conditions 7, 9 and 7; processes 4 and 5 are ready, with two and one slices of penalty.
\<close>

definition demo_procs :: "pptr \<Rightarrow> proc" where
  "demo_procs = (\<lambda>p. zero_proc\<lparr>pid := int p\<rparr>)
    (1 := zero_proc\<lparr>pid := 1, wait_q := WAIT_Q, wait_cond := 7, q_next := Some 2\<rparr>,
     2 := zero_proc\<lparr>pid := 2, wait_q := WAIT_Q, wait_cond := 9, q_prev := Some 1, q_next := Some 3\<rparr>,
     3 := zero_proc\<lparr>pid := 3, wait_q := WAIT_Q, wait_cond := 7, q_prev := Some 2\<rparr>,
     4 := zero_proc\<lparr>pid := 4, wait_q := READY_Q, slices := 2, q_next := Some 5\<rparr>,
     5 := zero_proc\<lparr>pid := 5, wait_q := READY_Q, slices := 1, q_prev := Some 4\<rparr>)"

definition demo_kernel :: kernel where
  "demo_kernel = init_proc\<lparr>procs := demo_procs, proclist := [0, 1, 2, 3, 4, 5],
     sysq := (\<lambda>_. \<lparr>q_head = None, q_tail = None\<rparr>)
       (READY_Q := \<lparr>q_head = Some 4, q_tail = Some 5\<rparr>, WAIT_Q := \<lparr>q_head = Some 1, q_tail = Some 3\<rparr>)\<rparr>"

definition demo_queues :: "nat \<Rightarrow> pptr list" where
  "demo_queues = (\<lambda>_. [])(READY_Q := [4, 5], WAIT_Q := [1, 2, 3])"

lemma demo_kernel_fields [simp]:
  "procs demo_kernel = demo_procs" "proclist demo_kernel = [0, 1, 2, 3, 4, 5]"
  "curproc demo_kernel = 0" "rootproc demo_kernel = 0" "time_slice demo_kernel = 2"
  by (simp_all add: demo_kernel_def init_proc_def)

lemma demo_queues_rep: "queues_rep demo_kernel demo_queues"
  by (auto simp: queues_rep_def queue_rep_def demo_queues_def demo_procs_def zero_proc_def
      demo_kernel_def init_proc_def)

lemma demo_queues_known: "queues_known demo_kernel demo_queues"
  by (auto simp: queues_known_def demo_queues_def)

end
