(* ===== verification/Scheduler.thy ===== *)
theory Scheduler
  imports Proc_Queue
begin

text \<open>
  \<open>sleep\<close>, \<open>preempt\<close> and the load average of \<open>sys/proc.c\<close>.

  \<open>sleep\<close> ends in one of two ways: the caller stays the current process (\<open>Stay\<close>, with the value
  \<open>sleep\<close> returns), or the context is switched to another process (\<open>Switch\<close>); the sleeper goes on
  later in \<open>sleep_resume\<close>, which is the branch of the code behind \<open>save_context\<close>. The routines of
  other parts of the kernel that \<open>sleep\<close> calls on its way (terminal and keyboard polling, the random
  device, signal delivery, alarms, the swapping of forked memory) are the fields of \<open>sleep_env\<close>;
  what they must keep is \<open>env_ok\<close>. \<open>ints_on\<close> tells whether the interrupt level of the saved status
  register is below 5.
\<close>

section \<open>Operations\<close>

record sleep_env =
  e_checkbttys :: "kernel \<Rightarrow> kernel"
  e_kintr :: bool
  e_checkkeys :: "kernel \<Rightarrow> kernel"
  e_checkrandom :: "kernel \<Rightarrow> kernel"
  e_check_sigs :: "kernel \<Rightarrow> kernel"
  e_stack_underflow :: bool
  e_handle_sigbus :: "kernel \<Rightarrow> kernel"
  e_raise_sigxcpu :: "kernel \<Rightarrow> kernel"
  e_checkalarms :: "kernel \<Rightarrow> kernel"
  e_checkprocwakeup :: "pptr \<Rightarrow> kernel \<Rightarrow> kernel"
  e_swap_in :: "kernel \<Rightarrow> kernel"
  e_pwaitpid :: u32
  e_nap :: u32

datatype sleep_result = Stay bool kernel | Switch kernel

definition do_wakeup_things :: "sleep_env \<Rightarrow> bool \<Rightarrow> bool \<Rightarrow> u32 \<Rightarrow> kernel \<Rightarrow> kernel" where
  "do_wakeup_things env ints_on newslice cond k =
    (let p = curproc k;
         k = (if ints_on then
               (let k = (if pid (procs k p) \<noteq> 0 \<and> e_stack_underflow env
                         then e_handle_sigbus env k else k);
                    k = (if maxcpu (procs k p) \<noteq> 0
                            \<and> maxcpu (procs k p) \<le> systime (procs k p) + usrtime (procs k p)
                         then e_raise_sigxcpu env k else k);
                    k = e_checkalarms env k;
                    k = (if sigpending (procs k p) \<noteq> 0 \<and> cond \<noteq> e_pwaitpid env
                         then e_check_sigs env k else k)
                in e_checkprocwakeup env p k)
              else k)
     in if newslice then
          (let k = (if 0 \<le> slices (procs k p)
                    then k\<lparr>proc_clock := word_of_int (time_slice k)\<rparr>
                    else upd_proc p (\<lambda>x. x\<lparr>curpri := pri x\<rparr>)
                           (k\<lparr>proc_clock := word_of_int (time_slice k - slices (procs k p))\<rparr>))
           in upd_proc p (\<lambda>x. x\<lparr>slices := SLICES (curpri x)\<rparr>) k)
        else k)"

definition pick_fuel :: "kernel \<Rightarrow> nat" where
  "pick_fuel k = Suc (fold (\<lambda>p m. max m (nat (slices (procs k p)))) (proclist k) 0)"

text \<open>The part of \<open>sleep\<close> before the decision: polling, and delivery of unmasked signals.\<close>

definition sleep_poll :: "sleep_env \<Rightarrow> bool \<Rightarrow> nat \<Rightarrow> kernel \<Rightarrow> kernel" where
  "sleep_poll env ints_on que k =
    (if ints_on then
      (let k = e_checkbttys env k;
           k = (if e_kintr env then e_checkkeys env k else k);
           k = e_checkrandom env k;
           c = procs k (curproc k)
       in if (sigpending c AND NOT (p_sigmask c)) \<noteq> 0 \<and> pid c \<noteq> 0 \<and> que \<noteq> ZOMBIE_Q \<and> que \<noteq> TSR_Q
          then (e_check_sigs env k)\<lparr>sleepcond := 0\<rparr> else k)
     else k)"

text \<open>Nobody is ready: wake the napping processes, and if there are none run the root process.\<close>

definition sleep_find_ready :: "sleep_env \<Rightarrow> kernel \<Rightarrow> kernel option" where
  "sleep_find_ready env k =
    (if q_head (sysq k READY_Q) \<noteq> None then Some k
     else do {
       k \<leftarrow> wake SELECT_Q (e_nap env) k;
       if q_head (sysq k READY_Q) \<noteq> None then Some k
       else move_q (wait_q (procs k (rootproc k))) READY_Q (rootproc k) k })"

text \<open>
  The switch to the chosen process. \<open>change_context\<close> is outside the model, and with it the saved registers and the
  check of the magic number in front of it (\<open>assert (p->magic == CTXT_MAGIC)\<close>): no field for the magic number is kept.
\<close>

definition sleep_switch :: "sleep_env \<Rightarrow> nat \<Rightarrow> kernel \<Rightarrow> sleep_result option" where
  "sleep_switch env que k = do {
     k \<leftarrow> add_q que (curproc k) k;
     k \<leftarrow> sleep_find_ready env k;
     (p, k) \<leftarrow> pick_next (pick_fuel k) k;
     k \<leftarrow> rm_q READY_Q p k;
     Some (Switch (k\<lparr>curproc := p, proc_clock := word_of_int (time_slice k)\<rparr>)) }"

definition sleep :: "sleep_env \<Rightarrow> bool \<Rightarrow> nat \<Rightarrow> u32 \<Rightarrow> kernel \<Rightarrow> sleep_result option" where
  "sleep env ints_on que0 cond k =
    (let que = que0 mod 256;
         onsigs = nsigs (procs k (curproc k));
         k = sleep_poll env ints_on que (k\<lparr>sleepcond := cond\<rparr>);
         c = procs k (curproc k);
         none_ready = (q_head (sysq k READY_Q) = None);
         woken = (sleepcond k \<noteq> cond \<or> (iwakecond k = cond \<and> cond \<noteq> 0)
                  \<or> (bit que0 8 \<and> wait_cond c \<noteq> cond));
         newslice = ((que = READY_Q \<and> none_ready) \<or> \<not> woken \<or> none_ready)
     in if (que = READY_Q \<and> none_ready) \<or> (woken \<and> (none_ready \<or> proc_clock k \<noteq> 0))
        then
          (let k = do_wakeup_things env ints_on newslice cond (k\<lparr>iwakecond := 0\<rparr>)
           in Some (Stay (onsigs \<noteq> nsigs (procs k (curproc k))) k))
        else
          (let k = k\<lparr>iwakecond := 0\<rparr>
           in if newslice
              then sleep_switch env que (upd_proc (curproc k) (\<lambda>x. x\<lparr>wait_cond := cond\<rparr>) k)
              else sleep_switch env READY_Q k))"

definition sleep_resume :: "sleep_env \<Rightarrow> bool \<Rightarrow> u32 \<Rightarrow> u32 \<Rightarrow> kernel \<Rightarrow> bool \<times> kernel" where
  "sleep_resume env ints_on cond onsigs k =
    (let k = do_wakeup_things env ints_on True cond (e_swap_in env k)
     in (onsigs \<noteq> nsigs (procs k (curproc k)), k))"

text \<open>\<open>bconbsiz\<close> is the fill of the BIOS console buffer and \<open>bflush\<close> empties it (\<open>sys/bios.c\<close>).\<close>

definition preempt ::
  "sleep_env \<Rightarrow> bool \<Rightarrow> bool \<Rightarrow> (kernel \<Rightarrow> kernel) \<Rightarrow> kernel \<Rightarrow> sleep_result option" where
  "preempt env ints_on bconbsiz bflush k =
    (if p_flag (procs k (curproc k)) AND P_FLAG_SYS \<noteq> 0 then None
     else
      (let k = (if bconbsiz then bflush k
                else if MIN_NICE \<le> curpri (procs k (curproc k))
                then upd_proc (curproc k) (\<lambda>x. x\<lparr>curpri := curpri x - 1\<rparr>) k else k)
       in sleep env ints_on READY_Q (wait_cond (procs k (curproc k))) k))"

section \<open>Load average\<close>

text \<open>
  One ring buffer of samples per period (1, 5 and 15 minutes of five-second samples). The samples
  are stored as bytes, the sum is an unsigned long.
\<close>

abbreviation (input) LOAD_SCALE :: u32 where "LOAD_SCALE \<equiv> 2048"

record load_ring =
  lr_samples :: "u8 list"
  lr_ptr :: nat
  lr_sum :: u32

definition gen_average :: "u16 \<Rightarrow> load_ring \<Rightarrow> u32 \<times> load_ring" where
  "gen_average number_running r =
    (let i = (if lr_ptr r = length (lr_samples r) then 0 else lr_ptr r);
         old_load = (ucast (lr_samples r ! i) :: u32);
         new_load = (ucast number_running :: u32);
         sum = lr_sum r + (new_load - old_load) * LOAD_SCALE
     in (sum div of_nat (length (lr_samples r)),
         r\<lparr>lr_samples := (lr_samples r)[i := ucast number_running], lr_ptr := Suc i, lr_sum := sum\<rparr>))"

definition number_running :: "kernel \<Rightarrow> u16" where
  "number_running k =
     of_nat (length (filter (\<lambda>p. p \<noteq> rootproc k \<and>
       (wait_q (procs k p) = CURPROC_Q \<or> wait_q (procs k p) = READY_Q)) (proclist k)))"

definition calc_load_average ::
  "kernel \<Rightarrow> load_ring \<times> load_ring \<times> load_ring \<Rightarrow>
   (u32 \<times> u32 \<times> u32) \<times> (load_ring \<times> load_ring \<times> load_ring)" where
  "calc_load_average k rings =
    (let n = number_running k;
         (r1, r5, r15) = rings;
         (a1, r1) = gen_average n r1;
         (a5, r5) = gen_average n r5;
         (a15, r15) = gen_average n r15
     in ((a1, a5, a15), (r1, r5, r15)))"

section \<open>Well-formed rings\<close>

definition ring_ok :: "load_ring \<Rightarrow> bool" where
  "ring_ok r \<longleftrightarrow> 0 < length (lr_samples r) \<and> length (lr_samples r) \<le> 180 \<and>
     lr_ptr r \<le> length (lr_samples r) \<and>
     lr_sum r = 2048 * (\<Sum>x\<leftarrow>lr_samples r. ucast x)"

lemma sum_list_update_word:
  fixes f :: "'a \<Rightarrow> u32"
  assumes "i < length xs"
  shows "(\<Sum>x\<leftarrow>xs[i := v]. f x) = (\<Sum>x\<leftarrow>xs. f x) + f v - f (xs ! i)"
  using assms
proof (induction xs arbitrary: i)
  case (Cons x xs)
  then show ?case by (cases i) (auto simp: algebra_simps)
qed simp

lemma unat_sum_bytes:
  assumes "length xs \<le> 180"
  shows "unat (\<Sum>x\<leftarrow>xs. ucast (x :: u8) :: u32) = (\<Sum>x\<leftarrow>xs. unat x) \<and> (\<Sum>x\<leftarrow>xs. unat x) \<le> 255 * length xs"
  using assms
proof (induction xs)
  case (Cons x xs)
  then have IH: "unat (\<Sum>x\<leftarrow>xs. ucast (x :: u8) :: u32) = (\<Sum>x\<leftarrow>xs. unat x)"
    "(\<Sum>x\<leftarrow>xs. unat x) \<le> 255 * length xs" by auto
  have x: "unat x \<le> 255" by (rule u8_le)
  have u: "unat (ucast x :: u32) = unat x" using x by (simp add: unat_ucast)
  have "unat (ucast x :: u32) + unat (\<Sum>x\<leftarrow>xs. ucast (x :: u8) :: u32) < 2 ^ 32"
    unfolding u IH(1) using x IH(2) Cons.prems by simp
  then have "unat (ucast x + (\<Sum>x\<leftarrow>xs. ucast (x :: u8)) :: u32) = unat x + (\<Sum>x\<leftarrow>xs. unat x)"
    by (simp add: unat_word_ariths u IH(1))
  then show ?case using x IH(2) by simp
qed simp

lemma gen_average_ok:
  assumes "ring_ok r" "unat n < 256" "gen_average n r = (avg, r')"
  shows "ring_ok r'" "unat avg = (2048 * (\<Sum>x\<leftarrow>lr_samples r'. unat x)) div length (lr_samples r')"
proof -
  let ?i = "if lr_ptr r = length (lr_samples r) then 0 else lr_ptr r"
  have i: "?i < length (lr_samples r)" using assms(1) by (auto simp: ring_ok_def)
  have n: "(ucast (ucast n :: u8) :: u32) = ucast n"
    using assms(2) by (simp add: word_unat_eq_iff unat_ucast)
  have r': "r' = r\<lparr>lr_samples := (lr_samples r)[?i := ucast n], lr_ptr := Suc ?i,
      lr_sum := lr_sum r + (ucast n - ucast (lr_samples r ! ?i)) * 2048\<rparr>"
    and avg: "avg = lr_sum r' div of_nat (length (lr_samples r'))"
    using assms(3) by (auto simp: gen_average_def Let_def)
  show ok: "ring_ok r'"
    using assms(1) i unfolding r' ring_ok_def
    by (auto simp: sum_list_update_word n algebra_simps)
  have len: "length (lr_samples r') \<le> 180" "0 < length (lr_samples r')" using ok by (auto simp: ring_ok_def)
  have s: "unat (\<Sum>x\<leftarrow>lr_samples r'. ucast x :: u32) = (\<Sum>x\<leftarrow>lr_samples r'. unat x)"
    "(\<Sum>x\<leftarrow>lr_samples r'. unat x) \<le> 255 * length (lr_samples r')"
    using unat_sum_bytes[OF len(1)] by auto
  have "unat (2048 :: u32) * unat (\<Sum>x\<leftarrow>lr_samples r'. ucast x :: u32) < 2 ^ 32"
    unfolding s(1) using s(2) len(1) by simp
  then have "unat (lr_sum r') = 2048 * (\<Sum>x\<leftarrow>lr_samples r'. unat x)"
    using ok by (simp add: ring_ok_def unat_word_ariths s(1))
  then show "unat avg = (2048 * (\<Sum>x\<leftarrow>lr_samples r'. unat x)) div length (lr_samples r')"
    using len by (simp add: avg unat_div unat_of_nat)
qed

section \<open>The scheduler always finds a process\<close>

definition sched_inv :: "kernel \<Rightarrow> bool" where
  "sched_inv k \<longleftrightarrow> queues_ok k \<and> idle_proc k (curproc k) \<and> curproc k \<in> set (proclist k) \<and>
     rootproc k \<in> set (proclist k) \<and> (\<forall>p\<in>set (proclist k). idle_proc k p \<longrightarrow> p = curproc k)"

definition env_ok :: "sleep_env \<Rightarrow> bool" where
  "env_ok env \<longleftrightarrow> (\<forall>k. sched_inv k \<longrightarrow>
     sched_inv (e_checkbttys env k) \<and> sched_inv (e_checkkeys env k) \<and>
     sched_inv (e_checkrandom env k) \<and> sched_inv (e_check_sigs env k) \<and>
     sched_inv (e_handle_sigbus env k) \<and> sched_inv (e_raise_sigxcpu env k) \<and>
     sched_inv (e_checkalarms env k) \<and> (\<forall>p. sched_inv (e_checkprocwakeup env p k)) \<and>
     sched_inv (e_swap_in env k))"

lemma sched_inv_kernel:
  assumes "sched_inv k" "procs k' = procs k" "sysq k' = sysq k" "proclist k' = proclist k"
    "curproc k' = curproc k" "rootproc k' = rootproc k"
  shows "sched_inv k'"
  using assms queues_ok_kernel[of k k'] by (simp add: sched_inv_def idle_proc_def)

lemma sched_inv_upd:
  assumes "sched_inv k" "\<And>x. q_prev (f x) = q_prev x" "\<And>x. q_next (f x) = q_next x"
    "\<And>x. wait_q (f x) = wait_q x"
  shows "sched_inv (upd_proc p f k)"
proof -
  have "queues_ok (upd_proc p f k)"
    using assms by (intro queues_ok_upd) (auto simp: sched_inv_def)
  moreover have "idle_proc (upd_proc p f k) x \<longleftrightarrow> idle_proc k x" for x
    by (simp add: idle_proc_def assms(4))
  moreover have "proclist (upd_proc p f k) = proclist k" "curproc (upd_proc p f k) = curproc k"
    "rootproc (upd_proc p f k) = rootproc k" by (simp_all add: upd_proc_def)
  ultimately show ?thesis using assms(1) by (simp add: sched_inv_def)
qed

lemma do_wakeup_things_inv:
  assumes "env_ok env" "sched_inv k"
  shows "sched_inv (do_wakeup_things env ints_on newslice cond k)"
proof -
  have upd: "sched_inv (upd_proc p (\<lambda>x. x\<lparr>slices := SLICES (curpri x)\<rparr>) k)"
    "sched_inv (upd_proc p (\<lambda>x. x\<lparr>curpri := pri x\<rparr>) k)" "sched_inv (k\<lparr>proc_clock := c\<rparr>)"
    if "sched_inv k" for k p c
    using that by (auto intro: sched_inv_upd sched_inv_kernel)
  show ?thesis
    unfolding do_wakeup_things_def Let_def using assms(2)
    by (auto simp: assms(1)[unfolded env_ok_def, rule_format] upd)
qed

lemma sleep_poll_inv:
  assumes "env_ok env" "sched_inv k"
  shows "sched_inv (sleep_poll env ints_on que k)"
proof -
  have "sched_inv (k\<lparr>sleepcond := c\<rparr>)" if "sched_inv k" for k c
    using that by (rule sched_inv_kernel) simp_all
  then show ?thesis
    unfolding sleep_poll_def Let_def using assms(2)
    by (auto simp: assms(1)[unfolded env_ok_def, rule_format])
qed

lemma first_least:
  assumes "xs \<noteq> []"
  shows "\<exists>bs p as m. xs = bs @ p # as \<and> (\<forall>x\<in>set xs. m = 0 \<or> int m \<le> f x) \<and> f p \<le> int m \<and>
    (\<forall>x\<in>set bs. int m < f x) \<and> (\<exists>x\<in>set xs. m = nat (f x))"
proof -
  obtain y where y: "y \<in> set xs" "\<And>x. x \<in> set xs \<Longrightarrow> nat (f y) \<le> nat (f x)"
    using ex_has_least_nat[of "\<lambda>x. x \<in> set xs" "hd xs" "\<lambda>x. nat (f x)"] assms by auto
  then have "\<exists>x\<in>set xs. f x \<le> int (nat (f y))" by (intro bexI[of _ y]) auto
  then obtain bs p as where "xs = bs @ p # as" "f p \<le> int (nat (f y))"
    "\<forall>x\<in>set bs. \<not> f x \<le> int (nat (f y))"
    using split_list_first_prop[of xs "\<lambda>x. f x \<le> int (nat (f y))"] by auto
  moreover have "nat (f y) = 0 \<or> int (nat (f y)) \<le> f x" if "x \<in> set xs" for x
    using y(2)[OF that] by linarith
  ultimately show ?thesis using y(1) by (intro exI[of _ bs] exI[of _ p] exI[of _ as] exI[of _ "nat (f y)"]) auto
qed

lemma fold_max_ge: "(m::nat) \<le> fold (\<lambda>p m. max m (f p)) xs m"
  and fold_max_mem: "x \<in> set xs \<Longrightarrow> f x \<le> fold (\<lambda>p m. max m (f p)) xs m"
proof -
  show ge: "m \<le> fold (\<lambda>p m. max m (f p)) xs m" for m xs
    by (induction xs arbitrary: m) (auto, metis max.bounded_iff)
  show "x \<in> set xs \<Longrightarrow> f x \<le> fold (\<lambda>p m. max m (f p)) xs m"
    using ge by (induction xs arbitrary: m) (auto, meson max.bounded_iff)
qed

lemma pick_fuel_enough:
  "x \<in> set (proclist k) \<Longrightarrow> nat (slices (procs k x)) < pick_fuel k"
  using fold_max_mem[of x "proclist k" "\<lambda>p. nat (slices (procs k p))" 0]
  by (simp add: pick_fuel_def less_Suc_eq_le)

lemma pick_next_some:
  assumes "queues_rep k Q" "queues_known k Q" "Q READY_Q \<noteq> []"
  shows "\<exists>p k'. pick_next (pick_fuel k) k = Some (p, k') \<and> p \<in> set (Q READY_Q) \<and>
    queues_rep k' Q \<and> q_frame k k'"
proof -
  obtain bs p as m where *: "Q READY_Q = bs @ p # as"
    "\<forall>x\<in>set (Q READY_Q). m = 0 \<or> int m \<le> slices (procs k x)" "slices (procs k p) \<le> int m"
    "\<forall>x\<in>set bs. int m < slices (procs k x)" and m: "\<exists>x\<in>set (Q READY_Q). m = nat (slices (procs k x))"
    using first_least[OF assms(3), of "\<lambda>x. slices (procs k x)"] by blast
  have "m < pick_fuel k" using m assms(2) pick_fuel_enough by (auto simp: queues_known_def)
  moreover have "length (Q READY_Q) \<le> length (proclist k)"
    using assms by (auto simp: queues_known_def intro!: distinct_length_le queues_rep_distinct)
  ultimately obtain k' where "pick_next (pick_fuel k) k = Some (p, k')" "queues_rep k' Q" "q_frame k k'"
    using pick_next_rep[OF assms(1) _ *] by blast
  then show ?thesis using *(1) by (intro exI[of _ p] exI[of _ k']) simp
qed

lemma sleep_find_ready_ok:
  assumes "queues_ok k" "rootproc k \<in> set (proclist k)" "\<forall>p\<in>set (proclist k). \<not> idle_proc k p"
  shows "\<exists>k'. sleep_find_ready env k = Some k' \<and> queues_ok k' \<and> q_head (sysq k' READY_Q) \<noteq> None \<and>
    (\<forall>p\<in>set (proclist k'). \<not> idle_proc k' p) \<and>
    proclist k' = proclist k \<and> rootproc k' = rootproc k \<and> time_slice k' = time_slice k"
proof (cases "q_head (sysq k READY_Q) = None")
  case False
  then show ?thesis using assms by (simp add: sleep_find_ready_def)
next
  case True
  obtain Q where Q: "queues_rep k Q" "queues_known k Q" using assms(1) by (auto simp: queues_ok_def)
  obtain k1 Q1 where k1: "wake SELECT_Q (e_nap env) k = Some k1" "queues_rep k1 Q1"
    "q_frame (k\<lparr>sleepcond := if sleepcond k = e_nap env then 0 else sleepcond k\<rparr>) k1"
    "Q1 = Q(SELECT_Q := filter (\<lambda>p. wait_cond (procs k p) \<noteq> e_nap env) (Q SELECT_Q),
            READY_Q := Q READY_Q @ filter (\<lambda>p. wait_cond (procs k p) = e_nap env) (Q SELECT_Q))"
    using wake_rep[OF Q, of SELECT_Q "e_nap env"] by auto
  note fr = q_frame_core[OF k1(3)]
  have kn: "queues_known k1 Q1" using Q(2) fr(15) by (auto simp: queues_known_def k1(4))
  then have ok: "queues_ok k1" using k1(2) by (auto simp: queues_ok_def)
  have busy: "\<not> idle_proc k1 p" if "p \<in> set (proclist k)" for p
  proof -
    have "wait_q (procs k p) \<noteq> 0" using assms(3) that by (simp add: idle_proc_def)
    then have "p \<in> set (Q (wait_q (procs k p)))" using Q(1) by (simp add: queues_rep_def)
    then have "p \<in> set (Q1 READY_Q) \<or> p \<in> set (Q1 (wait_q (procs k p)))"
      unfolding k1(4) by auto
    then show ?thesis using queues_rep_idle(3)[OF k1(2)] by (auto simp: idle_proc_def)
  qed
  show ?thesis
  proof (cases "q_head (sysq k1 READY_Q) = None")
    case False
    then show ?thesis using True k1(1) ok busy fr by (simp add: sleep_find_ready_def)
  next
    case none: True
    let ?r = "rootproc k1"
    have r: "?r \<in> set (proclist k)" using assms(2) fr by simp
    then have "wait_q (procs k1 ?r) \<noteq> 0" using busy by (simp add: idle_proc_def)
    then obtain k2 where k2: "move_q (wait_q (procs k1 ?r)) READY_Q ?r k1 = Some k2" "queues_ok k2"
      "q_frame k1 k2" "\<forall>x. wait_q (procs k2 x) = (if x = ?r then READY_Q else wait_q (procs k1 x))"
      using move_q_ok[OF ok refl, of ?r READY_Q] by auto
    obtain Q2 where Q2: "queues_rep k2 Q2" using k2(2) by (auto simp: queues_ok_def)
    have "?r \<in> set (Q2 READY_Q)" using queues_repD(2)[OF Q2, of READY_Q ?r] k2(4) by simp
    then have "q_head (sysq k2 READY_Q) \<noteq> None"
      using queues_repD(1)[OF Q2, of READY_Q] by (auto simp: queue_rep_def)
    then show ?thesis
      using True none k1(1) k2 busy fr q_frame_core[OF k2(3)]
      by (auto simp: sleep_find_ready_def idle_proc_def)
  qed
qed

lemma sleep_switch_ok:
  assumes "sched_inv k" "que \<noteq> CURPROC_Q"
  shows "\<exists>k'. sleep_switch env que k = Some (Switch k') \<and> sched_inv k' \<and>
    proc_clock k' = word_of_int (time_slice k)"
proof -
  have inv: "queues_ok k" "idle_proc k (curproc k)" "curproc k \<in> set (proclist k)"
    "rootproc k \<in> set (proclist k)" "\<forall>p\<in>set (proclist k). idle_proc k p \<longrightarrow> p = curproc k"
    using assms(1) by (auto simp: sched_inv_def)
  obtain k1 where k1: "add_q que (curproc k) k = Some k1" "queues_ok k1" "q_frame k k1"
    using add_q_ok[OF inv(1,2) assms(2) inv(3)] by blast
  have "\<forall>p\<in>set (proclist k1). \<not> idle_proc k1 p"
    using inv(5) assms(2) by (auto simp: idle_proc_def add_q_wait_q[OF k1(1)] q_frame_core[OF k1(3)])
  moreover have "rootproc k1 \<in> set (proclist k1)" using inv(4) by (simp add: q_frame_core[OF k1(3)])
  ultimately obtain k2 where k2: "sleep_find_ready env k1 = Some k2" "queues_ok k2"
    "q_head (sysq k2 READY_Q) \<noteq> None" "\<forall>p\<in>set (proclist k2). \<not> idle_proc k2 p"
    "proclist k2 = proclist k1" "rootproc k2 = rootproc k1" "time_slice k2 = time_slice k1"
    using sleep_find_ready_ok[OF k1(2), of env] by blast
  obtain Q where Q: "queues_rep k2 Q" "queues_known k2 Q" using k2(2) by (auto simp: queues_ok_def)
  have "Q READY_Q \<noteq> []" using k2(3) queues_repD(1)[OF Q(1), of READY_Q] by (auto simp: queue_rep_def)
  then obtain p k3 where k3: "pick_next (pick_fuel k2) k2 = Some (p, k3)" "p \<in> set (Q READY_Q)"
    "queues_rep k3 Q" "q_frame k2 k3" using pick_next_some[OF Q] by blast
  note fr3 = q_frame_core[OF k3(4)]
  have w3: "wait_q (procs k3 x) = wait_q (procs k2 x)" for x
    using Q(1) k3(3) queues_repD(2)[OF Q(1)] queues_repD(2)[OF k3(3)] by (metis (no_types))
  have "queues_ok k3" using k3(3) Q(2) fr3 by (auto simp: queues_ok_def queues_known_def)
  moreover have p3: "wait_q (procs k3 p) = READY_Q" using queues_repD(2)[OF k3(3)] k3(2) by simp
  ultimately obtain k4 where k4: "rm_q READY_Q p k3 = Some k4" "queues_ok k4" "idle_proc k4 p" "q_frame k3 k4"
    using rm_q_ok[of k3 p] by auto
  note fr4 = q_frame_core[OF k4(4)]
  let ?k = "k4\<lparr>curproc := p, proc_clock := word_of_int (time_slice k4)\<rparr>"
  have "sleep_switch env que k = Some (Switch ?k)"
    by (simp add: sleep_switch_def k1(1) k2(1) k3(1) k4(1))
  moreover have "queues_ok ?k" using k4(2) by (rule queues_ok_kernel) simp_all
  moreover have "p \<in> set (proclist ?k)" using Q(2) k3(2) fr3 fr4 by (auto simp: queues_known_def)
  moreover have "\<forall>x\<in>set (proclist ?k). idle_proc ?k x \<longrightarrow> x = p"
    using k2(4) fr3 fr4 by (auto simp: idle_proc_def rm_q_wait_q[OF k4(1)] w3)
  moreover have "proclist ?k = proclist k" "rootproc ?k = rootproc k" "time_slice k4 = time_slice k"
    using fr3(15,17,24) fr4(15,17,24) k2(5-7) q_frame_core(15,17,24)[OF k1(3)] by simp_all
  moreover have "idle_proc ?k p" using k4(3) by (simp add: idle_proc_def)
  ultimately show ?thesis using inv(4) by (simp add: sched_inv_def)
qed

lemma sleep_ok:
  assumes "env_ok env" "sched_inv k" "que0 mod 256 \<noteq> CURPROC_Q"
  shows "\<exists>r. sleep env ints_on que0 cond k = Some r \<and>
    (case r of Stay _ k' \<Rightarrow> sched_inv k' | Switch k' \<Rightarrow> sched_inv k')"
proof -
  define k1 where "k1 = sleep_poll env ints_on (que0 mod 256) (k\<lparr>sleepcond := cond\<rparr>)"
  have i1: "sched_inv k1"
    unfolding k1_def by (intro sleep_poll_inv[OF assms(1)] sched_inv_kernel[OF assms(2)]) simp_all
  have i2: "sched_inv (k1\<lparr>iwakecond := 0\<rparr>)" using i1 by (rule sched_inv_kernel) simp_all
  then have i3: "sched_inv (upd_proc p (\<lambda>x. x\<lparr>wait_cond := cond\<rparr>) (k1\<lparr>iwakecond := 0\<rparr>))" for p
    by (rule sched_inv_upd) simp_all
  have d: "sched_inv (do_wakeup_things env ints_on ns cond (k1\<lparr>iwakecond := 0\<rparr>))" for ns
    using do_wakeup_things_inv[OF assms(1) i2] .
  obtain ka where ka: "sched_inv ka" "sleep_switch env (que0 mod 256)
      (upd_proc (curproc k1) (\<lambda>x. x\<lparr>wait_cond := cond\<rparr>) (k1\<lparr>iwakecond := 0\<rparr>)) = Some (Switch ka)"
    using sleep_switch_ok[OF i3 assms(3)] by blast
  obtain kb where kb: "sched_inv kb" "sleep_switch env READY_Q (k1\<lparr>iwakecond := 0\<rparr>) = Some (Switch kb)"
    using sleep_switch_ok[OF i2, of READY_Q env] by auto
  show ?thesis
    unfolding sleep_def Let_def k1_def[symmetric] by (simp add: ka kb d)
qed

section \<open>Properties\<close>

text \<open>
  C1: \<open>wake(que, cond)\<close> moves exactly the processes of the queue that wait for \<open>cond\<close> to the end of
  the ready queue, keeping their order; all other queues and all other data stay as they are, and no
  assertion of \<open>add_q\<close> or \<open>rm_q\<close> fails.
\<close>

theorem wake_moves_waiters:
  assumes "queues_rep k Q" "queues_known k Q" "que \<noteq> CURPROC_Q" "que \<noteq> READY_Q"
  shows "\<exists>k'. wake que cond k = Some k' \<and>
     queues_rep k' (Q(que := filter (\<lambda>p. wait_cond (procs k p) \<noteq> cond) (Q que),
                      READY_Q := Q READY_Q @ filter (\<lambda>p. wait_cond (procs k p) = cond) (Q que))) \<and>
     (\<forall>x. proc_core (procs k' x) = proc_core (procs k x))"
  using wake_rep[OF assms, of cond] by (auto simp: q_frame_def)

text \<open>
  \<open>rm_q\<close> on the doubly linked queue is list removal and \<open>add_q\<close> is appending at the tail: moving a
  process between two queues never fails an assertion and leaves the pointers of all queues
  consistent.
\<close>

theorem queue_move_refines_lists:
  assumes "queues_rep k Q" "q \<noteq> CURPROC_Q" "r \<noteq> CURPROC_Q" "q \<noteq> r" "p \<in> set (Q q)"
  shows "\<exists>k1 k2. rm_q q p k = Some k1 \<and> queues_rep k1 (Q(q := remove1 p (Q q))) \<and>
     add_q r p k1 = Some k2 \<and> queues_rep k2 (Q(q := remove1 p (Q q), r := Q r @ [p]))"
proof -
  obtain k1 where k1: "rm_q q p k = Some k1" "queues_rep k1 (Q(q := remove1 p (Q q)))" "idle_proc k1 p"
    using pq.deq_ok[OF assms(1,2,5)] by blast
  with pq.enq_ok[OF k1(2,3) assms(3)] assms(4) show ?thesis by auto
qed

text \<open>
  C10: the search for the next process ends and picks the first process of the ready queue whose
  penalty is least (\<open>m\<close>); every ready process has then missed \<open>m\<close> turns, and those in front of the
  chosen one a further one.
\<close>

theorem scheduler_picks_least_penalty:
  assumes "queues_rep k Q" "queues_known k Q"
    "Q READY_Q = bs @ p # as" "\<forall>x\<in>set (Q READY_Q). m = 0 \<or> int m \<le> slices (procs k x)"
    "slices (procs k p) \<le> int m" "\<forall>x\<in>set bs. int m < slices (procs k x)"
  shows "\<exists>k'. pick_next (pick_fuel k) k = Some (p, k') \<and> queues_rep k' Q \<and>
    (\<forall>x\<in>set (Q READY_Q).
       slices (procs k' x) = slices (procs k x) - int m - (if x \<in> set bs then 1 else 0))"
proof -
  have "m \<le> nat (slices (procs k p))" using assms(3,4) by force
  moreover have "p \<in> set (proclist k)" using assms(2)[unfolded queues_known_def, rule_format, of READY_Q] assms(3) by auto
  ultimately have "m < pick_fuel k" using pick_fuel_enough[of p k] by linarith
  moreover have "length (Q READY_Q) \<le> length (proclist k)"
    using assms(1,2) by (auto simp: queues_known_def intro!: distinct_length_le queues_rep_distinct)
  ultimately show ?thesis using pick_next_rep[OF assms(1) _ assms(3-6)] by blast
qed

text \<open>
  C2: \<open>sleep\<close> always completes: it keeps the scheduler's invariant (queue pointers consistent, the
  current process the only one on no queue), fails no assertion of \<open>add_q\<close> and \<open>rm_q\<close>, and when it
  gives up the processor it finds a process to run, the root process at the latest.
\<close>

theorem sleep_always_schedules:
  assumes "env_ok env" "sched_inv k" "que0 mod 256 \<noteq> CURPROC_Q"
  shows "\<exists>r. sleep env ints_on que0 cond k = Some r \<and>
    (case r of Stay _ k' \<Rightarrow> sched_inv k' | Switch k' \<Rightarrow> sched_inv k')"
  using assms by (rule sleep_ok)

text \<open>
  \<open>run_next\<close> puts the process in front of the ready queue and leaves a negative slice count, so the
  next search picks it at once.
\<close>

theorem run_next_runs_next:
  assumes "queues_rep k Q" "queues_known k Q" "idle_proc k p" "p \<in> set (proclist k)" "0 \<le> n"
  shows "queues_rep (run_next p n k) (Q(READY_Q := p # Q READY_Q)) \<and>
    pick_next (pick_fuel (run_next p n k)) (run_next p n k) = Some (p, run_next p n k)"
proof -
  let ?k = "run_next p n k"
  have rep: "queues_rep ?k (Q(READY_Q := p # Q READY_Q))" using run_next_rep[OF assms(1,3)] .
  have np: "opt_hd (Q READY_Q) \<noteq> Some p"
    using queues_rep_idle(3)[OF assms(1), of p READY_Q] assms(3)
    by (auto simp: idle_proc_def opt_hd_Some)
  have hd: "q_head (sysq k READY_Q) = opt_hd (Q READY_Q)"
    using queues_repD(1)[OF assms(1), of READY_Q] by (simp add: queue_rep_def)
  have "slices (procs ?k p) = - n"
    using np by (auto simp: run_next_def Let_def hd split: option.splits)
  moreover have "proclist ?k \<noteq> []"
    using assms(4) by (auto simp: run_next_def Let_def upd_proc_def set_head_def set_tail_def split: option.splits)
  moreover have "q_head (sysq ?k READY_Q) = Some p" using run_next_links(4)[OF assms(3,1)] .
  ultimately have "pick_next (pick_fuel ?k) ?k = Some (p, ?k)"
    using assms(5) by (cases "proclist ?k") (simp_all add: pick_fuel_def)
  with rep show ?thesis by blast
qed

text \<open>
  The load average is the exact mean of the stored samples, scaled by 2048, and the running sum
  never drifts from the samples, as long as fewer than 256 processes run.
\<close>

theorem load_average_exact:
  assumes "ring_ok r" "unat n < 256"
  shows "ring_ok (snd (gen_average n r)) \<and>
    unat (fst (gen_average n r)) =
      (2048 * (\<Sum>x\<leftarrow>lr_samples (snd (gen_average n r)). unat x)) div length (lr_samples r)"
proof -
  obtain avg r' where g: "gen_average n r = (avg, r')" by (cases "gen_average n r")
  then have "length (lr_samples r') = length (lr_samples r)"
    by (auto simp: gen_average_def Let_def)
  with gen_average_ok[OF assms g] g show ?thesis by simp
qed

section \<open>The properties on the example state\<close>

lemma demo_sched_inv: "sched_inv demo_kernel"
  using demo_queues_rep demo_queues_known
  by (auto simp: sched_inv_def queues_ok_def idle_proc_def demo_procs_def zero_proc_def)

definition quiet_env :: sleep_env where
  "quiet_env = \<lparr>e_checkbttys = id, e_kintr = False, e_checkkeys = id, e_checkrandom = id,
     e_check_sigs = id, e_stack_underflow = False, e_handle_sigbus = id, e_raise_sigxcpu = id,
     e_checkalarms = id, e_checkprocwakeup = (\<lambda>_. id), e_swap_in = id, e_pwaitpid = 1, e_nap = 2\<rparr>"

theorem wake_moves_waiters_witness:
  "\<exists>k'. wake WAIT_Q 7 demo_kernel = Some k' \<and>
     queues_rep k' (demo_queues(WAIT_Q := [2], READY_Q := [4, 5, 1, 3]))"
  using wake_moves_waiters[OF demo_queues_rep demo_queues_known, of WAIT_Q 7]
  by (auto simp: demo_queues_def demo_procs_def zero_proc_def)

theorem queue_move_refines_lists_witness:
  "\<exists>k1 k2. rm_q WAIT_Q 2 demo_kernel = Some k1 \<and> add_q IO_Q 2 k1 = Some k2 \<and>
     queues_rep k2 (demo_queues(WAIT_Q := [1, 3], IO_Q := [2]))"
  using queue_move_refines_lists[OF demo_queues_rep, of WAIT_Q IO_Q 2]
  by (auto simp: demo_queues_def)

theorem scheduler_picks_least_penalty_witness:
  "\<exists>k'. pick_next (pick_fuel demo_kernel) demo_kernel = Some (5, k') \<and>
     slices (procs k' 4) = 0 \<and> slices (procs k' 5) = 0"
  using scheduler_picks_least_penalty[OF demo_queues_rep demo_queues_known, of "[4]" 5 "[]" 1]
  by (auto simp: demo_queues_def demo_procs_def zero_proc_def)

theorem sleep_always_schedules_witness:
  "\<exists>r. sleep quiet_env True IO_Q 77 demo_kernel = Some r \<and>
     (case r of Stay _ k' \<Rightarrow> sched_inv k' | Switch k' \<Rightarrow> sched_inv k')"
  by (rule sleep_always_schedules) (simp_all add: demo_sched_inv env_ok_def quiet_env_def)

theorem run_next_runs_next_witness:
  "pick_next (pick_fuel (run_next 0 3 demo_kernel)) (run_next 0 3 demo_kernel)
     = Some (0, run_next 0 3 demo_kernel)"
  using run_next_runs_next[OF demo_queues_rep demo_queues_known, of 0 3]
  by (simp add: idle_proc_def demo_procs_def zero_proc_def)

theorem load_average_exact_witness:
  "unat (fst (gen_average 3 \<lparr>lr_samples = [1, 2], lr_ptr = 2, lr_sum = 6144\<rparr>)) = 5120"
  using load_average_exact[of "\<lparr>lr_samples = [1, 2], lr_ptr = 2, lr_sum = 6144\<rparr>" 3]
  by (simp add: ring_ok_def gen_average_def)

end
