(* ===== verification/Timeouts.thy ===== *)
theory Timeouts
  imports Scheduler "HOL-Library.Multiset" "HOL-Library.Sublist"
begin

text \<open>
  The timeouts of \<open>sys/timeout.c\<close>. \<open>tlist\<close> is a delta list: each entry holds the time between its
  predecessor and itself, and the timer interrupt only decrements the first one. The abstraction
  \<open>deadlines\<close> turns it into the times from now at which each timeout is due.

  The result of \<open>kmalloc\<close> is an argument (\<open>mem\<close>: an address or \<open>None\<close>). The function of a timeout is
  called through \<open>fire\<close>, which may change the kernel in any way; so the loop of \<open>checkalarms\<close> has
  fuel. The properties let it cancel timeouts and install others for a later time (\<open>fire_later\<close>),
  as \<open>do_sync\<close> of \<open>update.c\<close>, \<open>kbd_repeat\<close> of \<open>keyboard.c\<close> and \<open>if_slowtimeout\<close> of \<open>sockets/inet4/if.c\<close> do;
  one that installs itself with no delay would keep the loop running. \<open>timer_tick\<close> is what the
  interrupt handler of \<open>arch/intr.S\<close> does to this state (the same in C stands in \<open>timeout.c\<close> as a
  comment under \<open>#if 0\<close>); in \<open>clock_run\<close> it comes between the runs of \<open>checkalarms\<close>.
\<close>

section \<open>Operations\<close>

abbreviation (input) TIMEOUTS :: nat where "TIMEOUTS \<equiv> 64"
abbreviation (input) TIMEOUT_EXPIRE_LIMIT :: int where "TIMEOUT_EXPIRE_LIMIT \<equiv> 400"

fun first_unused :: "nat \<Rightarrow> bool list \<Rightarrow> nat option" where
  "first_unused i [] = None"
| "first_unused i (u # us) = (if \<not> u then Some i else first_unused (Suc i) us)"

definition newtimeout :: "nat option \<Rightarrow> bool \<Rightarrow> kernel \<Rightarrow> (timeout \<times> kernel) option" where
  "newtimeout mem fromlist k =
    (if \<not> fromlist \<and> mem \<noteq> None
     then Some (\<lparr>t_addr = the mem, t_proc = 0, t_when = 0, t_func = 0, t_static = False, t_arg = 0\<rparr>, k)
     else (case first_unused 0 (static_used k) of
             Some i \<Rightarrow>
               Some (\<lparr>t_addr = i, t_proc = 0, t_when = 0, t_func = 0, t_static = True, t_arg = 0\<rparr>,
                     k\<lparr>static_used := (static_used k)[i := True]\<rparr>)
           | None \<Rightarrow> None))"

definition disposetimeout :: "timeout \<Rightarrow> kernel \<Rightarrow> kernel" where
  "disposetimeout t k =
    (if t_static t then k\<lparr>static_used := (static_used k)[t_addr t := False]\<rparr> else k)"

definition dispose_old_timeouts :: "kernel \<Rightarrow> kernel" where
  "dispose_old_timeouts k =
    (let now = hz_200 k;
         old = dropWhile (\<lambda>t. \<not> t_when t < now) (expire_list k)
     in fold disposetimeout old (k\<lparr>expire_list := takeWhile (\<lambda>t. \<not> t_when t < now) (expire_list k)\<rparr>))"

fun insert_delta :: "timeout \<Rightarrow> int \<Rightarrow> timeout list \<Rightarrow> timeout list option" where
  "insert_delta t delta [] = (if 0 \<le> delta then Some [t\<lparr>t_when := delta\<rparr>] else None)"
| "insert_delta t delta (cur # rest) =
    (if delta \<le> t_when cur
     then Some (t\<lparr>t_when := delta\<rparr> # cur\<lparr>t_when := t_when cur - delta\<rparr> # rest)
     else map_option ((#) cur) (insert_delta t (delta - t_when cur) rest))"

definition inserttimeout :: "timeout \<Rightarrow> int \<Rightarrow> kernel \<Rightarrow> kernel option" where
  "inserttimeout t delta k =
     map_option (\<lambda>l. k\<lparr>tlist := l\<rparr>) (insert_delta t delta (tlist k))"

text \<open>The first entry satisfying a condition, and the list without it.\<close>

fun extract_first :: "('a \<Rightarrow> bool) \<Rightarrow> 'a list \<Rightarrow> ('a \<times> 'a list) option" where
  "extract_first P [] = None"
| "extract_first P (x # xs) =
    (if P x then Some (x, xs) else map_option (\<lambda>(y, ys). (y, x # ys)) (extract_first P xs))"

text \<open>The result: the address of the timeout (\<open>None\<close> for a null pointer) and the new state.\<close>

definition addtimeout_common ::
  "nat option \<Rightarrow> pptr \<Rightarrow> int \<Rightarrow> nat \<Rightarrow> bool \<Rightarrow> kernel \<Rightarrow> (nat option \<times> kernel) option" where
  "addtimeout_common mem p delta func fromlist k =
    (case extract_first (\<lambda>t. t_proc t = p \<and> t_func t = func) (expire_list k) of
       Some (t, rest) \<Rightarrow>
         map_option (\<lambda>k'. (Some (t_addr t), k')) (inserttimeout t delta (k\<lparr>expire_list := rest\<rparr>))
     | None \<Rightarrow>
         (case newtimeout mem fromlist k of
            None \<Rightarrow> Some (None, k)
          | Some (t, k) \<Rightarrow>
              map_option (\<lambda>k'. (Some (t_addr t), k'))
                (inserttimeout (t\<lparr>t_proc := p, t_func := func\<rparr>) delta k)))"

definition addtimeout ::
  "nat option \<Rightarrow> pptr \<Rightarrow> int \<Rightarrow> nat \<Rightarrow> kernel \<Rightarrow> (nat option \<times> kernel) option" where
  "addtimeout mem p delta func k = addtimeout_common mem p delta func False k"

definition addtimeout_curproc ::
  "nat option \<Rightarrow> int \<Rightarrow> nat \<Rightarrow> kernel \<Rightarrow> (nat option \<times> kernel) option" where
  "addtimeout_curproc mem delta func k = addtimeout_common mem (curproc k) delta func False k"

definition addroottimeout ::
  "nat option \<Rightarrow> int \<Rightarrow> nat \<Rightarrow> u16 \<Rightarrow> kernel \<Rightarrow> (nat option \<times> kernel) option" where
  "addroottimeout mem delta func flags k =
     addtimeout_common mem (rootproc k) delta func (flags AND 1 \<noteq> 0) k"

text \<open>Unlinking an entry gives its time to its successor.\<close>

definition add_when :: "int \<Rightarrow> timeout list \<Rightarrow> timeout list" where
  "add_when d l = (case l of [] \<Rightarrow> [] | t # ts \<Rightarrow> t\<lparr>t_when := t_when t + d\<rparr> # ts)"

function cancel_tlist :: "pptr \<Rightarrow> timeout list \<Rightarrow> timeout list" where
  "cancel_tlist p [] = []"
| "cancel_tlist p (cur # rest) =
    (if t_proc cur = p then cancel_tlist p (add_when (t_when cur) rest)
     else cur # cancel_tlist p rest)"
  by pat_completeness auto
termination
  by (relation "measure (\<lambda>(p, l). length l)") (auto simp: add_when_def split: list.splits)

definition cancelalltimeouts :: "kernel \<Rightarrow> kernel" where
  "cancelalltimeouts k =
    (let p = curproc k;
         k1 = fold disposetimeout (filter (\<lambda>t. t_proc t = p) (tlist k))
                (k\<lparr>tlist := cancel_tlist p (tlist k)\<rparr>)
     in fold disposetimeout (filter (\<lambda>t. t_proc t = p) (expire_list k1))
          (k1\<lparr>expire_list := filter (\<lambda>t. t_proc t \<noteq> p) (expire_list k1)\<rparr>))"

fun unlink_timeout :: "nat \<Rightarrow> pptr \<Rightarrow> timeout list \<Rightarrow> (timeout \<times> timeout list) option" where
  "unlink_timeout this p [] = None"
| "unlink_timeout this p (cur # rest) =
    (if t_addr cur = this \<and> t_proc cur = p then Some (cur, add_when (t_when cur) rest)
     else map_option (\<lambda>(t, l). (t, cur # l)) (unlink_timeout this p rest))"

definition canceltimeout_common :: "nat \<Rightarrow> pptr \<Rightarrow> kernel \<Rightarrow> kernel" where
  "canceltimeout_common this p k =
    (case extract_first (\<lambda>t. t_addr t = this \<and> t_proc t = p) (expire_list k) of
       Some (t, rest) \<Rightarrow> disposetimeout t (k\<lparr>expire_list := rest\<rparr>)
     | None \<Rightarrow>
         (case unlink_timeout this p (tlist k) of
            Some (t, l) \<Rightarrow> disposetimeout t (k\<lparr>tlist := l\<rparr>)
          | None \<Rightarrow> k))"

definition canceltimeout :: "nat \<Rightarrow> kernel \<Rightarrow> kernel" where
  "canceltimeout this k = canceltimeout_common this (curproc k) k"

definition cancelroottimeout :: "nat \<Rightarrow> kernel \<Rightarrow> kernel" where
  "cancelroottimeout this k = canceltimeout_common this (rootproc k) k"

text \<open>The part of the timer interrupt that concerns this state, \<open>ms\<close> milliseconds later.\<close>

definition timer_tick :: "int \<Rightarrow> kernel \<Rightarrow> kernel" where
  "timer_tick ms k = k\<lparr>proc_clock := (if proc_clock k \<noteq> 0 then proc_clock k - 1 else proc_clock k),
     our_clock := our_clock k - ms,
     tlist := (case tlist k of [] \<Rightarrow> [] | t # ts \<Rightarrow> t\<lparr>t_when := t_when t - ms\<rparr> # ts)\<rparr>"

text \<open>The once per second things; \<open>synch\<close> is \<open>synch_timers\<close> of \<open>sys/time.c\<close>.\<close>

fun once_per_second :: "nat \<Rightarrow> (kernel \<Rightarrow> kernel) \<Rightarrow> kernel \<Rightarrow> kernel option" where
  "once_per_second 0 synch k = (if our_clock k < 0 then None else Some k)"
| "once_per_second (Suc fuel) synch k =
    (if our_clock k < 0
     then (let k = synch (k\<lparr>our_clock := our_clock k + 1000\<rparr>);
               k = k\<lparr>searchtime := searchtime k + 1\<rparr>
           in once_per_second fuel synch (reset_priorities k))
     else Some k)"

text \<open>The loop over the due timeouts; it also returns the timeouts it called, in order.\<close>

definition expire_first :: "timeout \<Rightarrow> timeout list \<Rightarrow> kernel \<Rightarrow> kernel" where
  "expire_first t ts k =
     k\<lparr>tlist := add_when (t_when t) ts,
       expire_list := t\<lparr>t_when := hz_200 k + TIMEOUT_EXPIRE_LIMIT\<rparr> # expire_list k\<rparr>"

fun run_due ::
  "nat \<Rightarrow> (nat \<Rightarrow> pptr \<Rightarrow> u32 \<Rightarrow> kernel \<Rightarrow> kernel) \<Rightarrow> kernel \<Rightarrow> (timeout list \<times> kernel) option" where
  "run_due fuel fire k =
    (case tlist k of
       [] \<Rightarrow> Some ([], k)
     | t # ts \<Rightarrow>
         if t_when t \<le> 0
         then (case fuel of
                 0 \<Rightarrow> None
               | Suc f \<Rightarrow>
                   map_option (\<lambda>(fired, k'). (t # fired, k'))
                     (run_due f fire (fire (t_func t) (t_proc t) (t_arg t) (expire_first t ts k))))
         else Some ([], k))"

declare run_due.simps [simp del]

definition checkalarms ::
  "nat \<Rightarrow> (kernel \<Rightarrow> kernel) \<Rightarrow> (nat \<Rightarrow> pptr \<Rightarrow> u32 \<Rightarrow> kernel \<Rightarrow> kernel) \<Rightarrow> kernel \<Rightarrow>
   (timeout list \<times> kernel) option" where
  "checkalarms fuel synch fire k =
    (case once_per_second fuel synch k of
       None \<Rightarrow> None
     | Some k \<Rightarrow>
         map_option (\<lambda>(fired, k). (fired, dispose_old_timeouts k)) (run_due fuel fire k))"

text \<open>\<open>nap\<close>: the wait condition is the address of the function.\<close>

definition unnapme :: "u32 \<Rightarrow> pptr \<Rightarrow> kernel \<Rightarrow> kernel option" where
  "unnapme nap_addr p k =
    (if wait_q (procs k p) = SELECT_Q \<and> wait_cond (procs k p) = nap_addr
     then do { k \<leftarrow> move_q SELECT_Q READY_Q p k;
               Some (upd_proc p (\<lambda>x. x\<lparr>wait_cond := 0\<rparr>) k) }
     else Some k)"

text \<open>
  \<open>nap\<close> up to the end of \<open>sleep\<close>: the address of its timeout, and how \<open>sleep\<close> ended. When the process
  runs again, \<open>nap_done\<close> cancels the timeout.
\<close>

definition nap ::
  "sleep_env \<Rightarrow> bool \<Rightarrow> nat option \<Rightarrow> nat \<Rightarrow> int \<Rightarrow> kernel \<Rightarrow> (nat option \<times> sleep_result) option" where
  "nap env ints_on mem unnapme_func n k = do {
     (t, k) \<leftarrow> addtimeout mem (curproc k) n unnapme_func k;
     r \<leftarrow> sleep env ints_on SELECT_Q (e_nap env) k;
     Some (t, r) }"

definition nap_done :: "nat option \<Rightarrow> kernel \<Rightarrow> kernel" where
  "nap_done t k = (case t of None \<Rightarrow> k | Some a \<Rightarrow> canceltimeout a k)"

section \<open>Deadlines\<close>

text \<open>The entries of a delta list as address, process and time from now; \<open>b\<close> is the time before it.\<close>

fun deadlines :: "int \<Rightarrow> timeout list \<Rightarrow> (nat \<times> pptr \<times> int) list" where
  "deadlines b [] = []"
| "deadlines b (t # ts) = (t_addr t, t_proc t, b + t_when t) # deadlines (b + t_when t) ts"

definition due_at :: "nat \<times> pptr \<times> int \<Rightarrow> int" where
  "due_at e = snd (snd e)"

text \<open>Only the first delta may be negative: the interrupt decrements it until it is served.\<close>

definition delta_ok :: "timeout list \<Rightarrow> bool" where
  "delta_ok l \<longleftrightarrow> (\<forall>t\<in>set (tl l). 0 \<le> t_when t)"

definition shift_due :: "int \<Rightarrow> nat \<times> pptr \<times> int \<Rightarrow> nat \<times> pptr \<times> int" where
  "shift_due d e = (fst e, fst (snd e), due_at e + d)"

lemma due_at_simps [simp]: "due_at (a, p, x) = x" "due_at (shift_due d e) = due_at e + d"
  "shift_due d (a, p, x) = (a, p, x + d)"
  by (simp_all add: due_at_def shift_due_def)

lemma deadlines_shift: "deadlines (b + d) l = map (shift_due d) (deadlines b l)"
proof (induction l arbitrary: b)
  case (Cons t ts)
  have "b + d + t_when t = b + t_when t + d" by simp
  then show ?case using Cons[of "b + t_when t"] by (simp only: deadlines.simps list.map due_at_simps)
qed simp

lemma deadlines_add_when [simp]: "deadlines b (add_when d l) = deadlines (b + d) l"
  by (cases l) (simp_all add: add_when_def algebra_simps)

lemma deadlines_ge:
  "\<forall>t\<in>set l. 0 \<le> t_when t \<Longrightarrow> e \<in> set (deadlines b l) \<Longrightarrow> b \<le> due_at e"
proof (induction l arbitrary: b)
  case (Cons t ts)
  then show ?case using Cons.IH[of "b + t_when t"] by fastforce
qed simp

lemma deadlines_sorted: "delta_ok l \<Longrightarrow> sorted (map due_at (deadlines b l))"
proof (induction l arbitrary: b)
  case (Cons t ts)
  then have "\<forall>x\<in>set ts. 0 \<le> t_when x" by (simp add: delta_ok_def)
  moreover from this have "delta_ok ts" by (cases ts) (auto simp: delta_ok_def)
  ultimately show ?case using Cons.IH deadlines_ge by auto
qed simp

lemma delta_ok_Cons: "delta_ok (t # ts) \<longleftrightarrow> (\<forall>x\<in>set ts. 0 \<le> t_when x)"
  by (simp add: delta_ok_def)

lemma delta_ok_tail: "\<forall>x\<in>set ts. 0 \<le> t_when x \<Longrightarrow> delta_ok ts"
  by (cases ts) (auto simp: delta_ok_def)

lemma insert_delta_some:
  assumes "0 \<le> d \<or> l \<noteq> []"
  shows "\<exists>l'. insert_delta t d l = Some l'"
  using assms
proof (induction l arbitrary: d)
  case (Cons c cs)
  then show ?case
    by (cases "d \<le> t_when c") (auto simp: Cons.IH[of "d - t_when c"])
qed simp

lemma insert_delta_deadlines:
  assumes "insert_delta t d l = Some l'" "delta_ok l"
  shows "\<exists>xs ys. deadlines b l = xs @ ys \<and> deadlines b l' = xs @ (t_addr t, t_proc t, b + d) # ys \<and>
    (\<forall>x\<in>set xs. due_at x < b + d) \<and> (\<forall>y\<in>set ys. b + d \<le> due_at y) \<and> delta_ok l'"
  using assms
proof (induction l arbitrary: d b l')
  case Nil
  then show ?case by (auto simp: delta_ok_def split: if_splits)
next
  case (Cons c cs)
  note ok = Cons.prems(2)[unfolded delta_ok_Cons]
  show ?case
  proof (cases "d \<le> t_when c")
    case True
    then have l': "l' = t\<lparr>t_when := d\<rparr> # c\<lparr>t_when := t_when c - d\<rparr> # cs" using Cons.prems(1) by simp
    have "b + d \<le> due_at y" if "y \<in> set (deadlines b (c # cs))" for y
      using that True deadlines_ge[OF ok, of y "b + t_when c"] by auto
    moreover have "delta_ok l'" using True ok by (simp add: l' delta_ok_def)
    ultimately show ?thesis by (intro exI[of _ "[]"] exI[of _ "deadlines b (c # cs)"]) (auto simp: l')
  next
    case False
    then obtain m where m: "insert_delta t (d - t_when c) cs = Some m" "l' = c # m"
      using Cons.prems(1) by auto
    obtain xs ys where *: "deadlines (b + t_when c) cs = xs @ ys"
      "deadlines (b + t_when c) m = xs @ (t_addr t, t_proc t, b + d) # ys"
      "\<forall>x\<in>set xs. due_at x < b + d" "\<forall>y\<in>set ys. b + d \<le> due_at y" "delta_ok m"
      using Cons.IH[OF m(1) delta_ok_tail[OF ok], of "b + t_when c"] by (auto simp: algebra_simps)
    have "\<forall>x\<in>set m. 0 \<le> t_when x"
    proof (cases cs)
      case Nil
      then show ?thesis using m(1) False by auto
    next
      case (Cons e es)
      then have "\<exists>h r. m = h # r \<and> 0 \<le> t_when h"
        using m(1) False ok by (auto split: if_splits)
      then show ?thesis using *(5) by (auto simp: delta_ok_def)
    qed
    then have "delta_ok l'" by (simp add: m(2) delta_ok_Cons)
    with * False m(2) show ?thesis
      by (intro exI[of _ "(t_addr c, t_proc c, b + t_when c) # xs"] exI[of _ ys]) auto
  qed
qed

lemma cancel_tlist_deadlines:
  "deadlines b (cancel_tlist p l) = filter (\<lambda>e. fst (snd e) \<noteq> p) (deadlines b l)"
proof (induction p l arbitrary: b rule: cancel_tlist.induct)
  case (2 p cur rest)
  then show ?case by (cases "t_proc cur = p") auto
qed simp

lemma add_when_nonneg:
  "0 \<le> d \<Longrightarrow> \<forall>x\<in>set l. 0 \<le> t_when x \<Longrightarrow> \<forall>x\<in>set (add_when d l). 0 \<le> t_when x"
  by (cases l) (auto simp: add_when_def)

lemma delta_ok_add_when: "delta_ok (add_when d l) \<longleftrightarrow> delta_ok l"
  by (cases l) (auto simp: add_when_def delta_ok_def)

lemma cancel_tlist_nonneg:
  "\<forall>x\<in>set l. 0 \<le> t_when x \<Longrightarrow> \<forall>x\<in>set (cancel_tlist p l). 0 \<le> t_when x"
proof (induction p l rule: cancel_tlist.induct)
  case (2 p cur rest)
  show ?case
  proof (cases "t_proc cur = p")
    case True
    have "\<forall>x\<in>set (add_when (t_when cur) rest). 0 \<le> t_when x"
      using 2(3) by (intro add_when_nonneg) simp_all
    with 2(1)[OF True] True show ?thesis by simp
  next
    case False
    with 2(2)[OF False] 2(3) show ?thesis by simp
  qed
qed simp

lemma cancel_tlist_delta_ok: "delta_ok l \<Longrightarrow> delta_ok (cancel_tlist p l)"
proof (induction p l rule: cancel_tlist.induct)
  case (2 p cur rest)
  have nn: "\<forall>x\<in>set rest. 0 \<le> t_when x" using 2(3) by (simp add: delta_ok_Cons)
  show ?case
  proof (cases "t_proc cur = p")
    case True
    then show ?thesis using 2(1) delta_ok_tail[OF nn] by (simp add: delta_ok_add_when)
  next
    case False
    then show ?thesis using cancel_tlist_nonneg[OF nn, of p] by (simp add: delta_ok_Cons)
  qed
qed simp

lemma unlink_timeout_deadlines:
  assumes "unlink_timeout this p l = Some (t, l')"
  shows "\<exists>xs x ys. deadlines b l = xs @ (this, p, x) # ys \<and> deadlines b l' = xs @ ys"
  using assms
proof (induction l arbitrary: b l')
  case (Cons c cs)
  show ?case
  proof (cases "t_addr c = this \<and> t_proc c = p")
    case True
    then show ?thesis using Cons.prems by (intro exI[of _ "[]"]) auto
  next
    case False
    then obtain m where m: "unlink_timeout this p cs = Some (t, m)" "l' = c # m"
      using Cons.prems by (auto split: if_splits)
    obtain xs x ys where "deadlines (b + t_when c) cs = xs @ (this, p, x) # ys"
      "deadlines (b + t_when c) m = xs @ ys"
      using Cons.IH[OF m(1)] by blast
    then show ?thesis using m(2)
      by (intro exI[of _ "(t_addr c, t_proc c, b + t_when c) # xs"] exI[of _ x] exI[of _ ys]) simp
  qed
qed simp

section \<open>The contract of a timer queue\<close>

locale timer_queue =
  fixes due :: "'s \<Rightarrow> (nat \<times> pptr \<times> int) list"
    and inv :: "'s \<Rightarrow> bool"
    and arm :: "timeout \<Rightarrow> int \<Rightarrow> 's \<Rightarrow> 's option"
    and tick :: "int \<Rightarrow> 's \<Rightarrow> 's"
  assumes arm_ok: "inv s \<Longrightarrow> 0 \<le> d \<Longrightarrow> \<exists>s' xs ys. arm t d s = Some s' \<and> inv s' \<and> due s = xs @ ys \<and>
      due s' = xs @ (t_addr t, t_proc t, d) # ys \<and>
      (\<forall>x\<in>set xs. due_at x < d) \<and> (\<forall>y\<in>set ys. d \<le> due_at y)"
    and tick_inv: "inv s \<Longrightarrow> inv (tick ms s)"
    and tick_due: "inv s \<Longrightarrow> due (tick ms s) = map (shift_due (- ms)) (due s)"
    and due_sorted: "inv s \<Longrightarrow> sorted (map due_at (due s))"
begin

lemma ticks_inv: "inv s \<Longrightarrow> inv (fold tick mss s)"
  by (induction mss arbitrary: s) (simp_all add: tick_inv)

lemma ticks_due: "inv s \<Longrightarrow> due (fold tick mss s) = map (shift_due (- sum_list mss)) (due s)"
proof (induction mss arbitrary: s)
  case Nil
  then show ?case by (simp add: shift_due_def due_at_def)
next
  case (Cons m ms)
  have "shift_due (- sum_list ms) \<circ> shift_due (- m) = shift_due (- (m + sum_list ms))"
    by (auto simp: shift_due_def due_at_def)
  then show ?case using Cons.IH[OF tick_inv[OF Cons.prems]] tick_due[OF Cons.prems] by simp
qed

lemma arm_ticks:
  assumes "inv s" "0 \<le> d"
  shows "\<exists>s'. arm t d s = Some s' \<and> (t_addr t, t_proc t, d - sum_list mss) \<in> set (due (fold tick mss s')) \<and>
    sorted (map due_at (due (fold tick mss s')))"
proof -
  obtain s' xs ys where s': "arm t d s = Some s'" "inv s'" "due s' = xs @ (t_addr t, t_proc t, d) # ys"
    using arm_ok[OF assms] by blast
  have "shift_due (- sum_list mss) (t_addr t, t_proc t, d) = (t_addr t, t_proc t, d - sum_list mss)"
    by simp
  then have "(t_addr t, t_proc t, d - sum_list mss) \<in> set (due (fold tick mss s'))"
    unfolding ticks_due[OF s'(2)] s'(3) by (metis in_set_conv_decomp list.set_map image_eqI)
  then show ?thesis using s' due_sorted[OF ticks_inv[OF s'(2)]] by blast
qed

end

lemma timer_tick_tlist:
  "tlist (timer_tick ms k) = (case tlist k of [] \<Rightarrow> [] | t # ts \<Rightarrow> t\<lparr>t_when := t_when t - ms\<rparr> # ts)"
  by (simp add: timer_tick_def)

lemma timer_tick_deadlines:
  "deadlines 0 (tlist (timer_tick ms k)) = map (shift_due (- ms)) (deadlines 0 (tlist k))"
proof (cases "tlist k")
  case (Cons t ts)
  then show ?thesis using deadlines_shift[of "t_when t" "- ms" ts] by (simp add: timer_tick_tlist)
qed (simp add: timer_tick_tlist)

interpretation tq: timer_queue "\<lambda>k::kernel. deadlines 0 (tlist k)" "\<lambda>k::kernel. delta_ok (tlist k)"
  inserttimeout timer_tick
proof unfold_locales
  fix k :: kernel and t d assume ok: "delta_ok (tlist k)" and d: "0 \<le> (d::int)"
  obtain l where l: "insert_delta t d (tlist k) = Some l" using insert_delta_some[of d] d by blast
  from insert_delta_deadlines[OF l ok, of 0]
  show "\<exists>s' xs ys. inserttimeout t d k = Some s' \<and> delta_ok (tlist s') \<and>
      deadlines 0 (tlist k) = xs @ ys \<and> deadlines 0 (tlist s') = xs @ (t_addr t, t_proc t, d) # ys \<and>
      (\<forall>x\<in>set xs. due_at x < d) \<and> (\<forall>y\<in>set ys. d \<le> due_at y)"
    by (auto simp: inserttimeout_def l)
next
  fix k :: kernel and ms assume "delta_ok (tlist k)"
  then show "delta_ok (tlist (timer_tick ms k))"
    by (auto simp: timer_tick_tlist delta_ok_def split: list.splits)
qed (simp_all add: timer_tick_deadlines deadlines_sorted)

section \<open>Timeout structures are neither lost nor linked twice\<close>

definition tcore :: "timeout \<Rightarrow> timeout" where
  "tcore t = t\<lparr>t_when := 0\<rparr>"

lemma tcore_simps [simp]: "tcore (t\<lparr>t_when := w\<rparr>) = tcore t" "t_addr (tcore t) = t_addr t"
  "t_static (tcore t) = t_static t" "t_proc (tcore t) = t_proc t"
  by (simp_all add: tcore_def)

definition linked :: "kernel \<Rightarrow> timeout multiset" where
  "linked k = mset (map tcore (tlist k)) + mset (map tcore (expire_list k))"

definition slots_ok :: "timeout multiset \<Rightarrow> bool list \<Rightarrow> bool" where
  "slots_ok M used \<longleftrightarrow> length used = TIMEOUTS \<and>
     (\<forall>a. count (image_mset t_addr M) a \<le> 1) \<and>
     (\<forall>t\<in>#M. t_static t \<longleftrightarrow> t_addr t < TIMEOUTS) \<and>
     (\<forall>i<TIMEOUTS. used ! i \<longleftrightarrow> i \<in># image_mset t_addr M)"

definition timeouts_ok :: "kernel \<Rightarrow> bool" where
  "timeouts_ok k \<longleftrightarrow> delta_ok (tlist k) \<and> slots_ok (linked k) (static_used k)"

lemma map_tcore_add_when [simp]: "map tcore (add_when d l) = map tcore l"
  by (cases l) (simp_all add: add_when_def)

lemma insert_delta_linked:
  "insert_delta t d l = Some l' \<Longrightarrow> mset (map tcore l') = add_mset (tcore t) (mset (map tcore l))"
  by (induction l arbitrary: d l') (auto split: if_splits)

lemma unlink_timeout_linked:
  "unlink_timeout a p l = Some (t, l') \<Longrightarrow>
   mset (map tcore l) = add_mset (tcore t) (mset (map tcore l')) \<and> t_addr t = a \<and> t_proc t = p"
  by (induction l arbitrary: l') (auto split: if_splits simp flip: mset_map)

lemma extract_first_mset:
  "extract_first P l = Some (t, l') \<Longrightarrow> mset l = add_mset t (mset l') \<and> P t"
  by (induction l arbitrary: l') (auto split: if_splits)

lemma extract_first_linked:
  "extract_first P l = Some (t, l') \<Longrightarrow>
   mset (map tcore l) = add_mset (tcore t) (mset (map tcore l'))"
  using extract_first_mset[of P l t l'] by simp

lemma first_unused_Some:
  "first_unused i us = Some j \<Longrightarrow> i \<le> j \<and> j < i + length us \<and> \<not> us ! (j - i)"
proof (induction us arbitrary: i)
  case (Cons u us)
  show ?case
  proof (cases u)
    case True
    then have "first_unused (Suc i) us = Some j" using Cons.prems by simp
    from Cons.IH[OF this] have "Suc i \<le> j" "j < Suc i + length us" "\<not> us ! (j - Suc i)" by auto
    then show ?thesis by (auto simp: nth_Cons' Suc_diff_Suc)
  next
    case False
    then show ?thesis using Cons.prems by auto
  qed
qed simp

lemma slots_ok_remove:
  assumes "slots_ok (add_mset t M) used"
  shows "slots_ok M (if t_static t then used[t_addr t := False] else used)"
proof -
  have one: "count (image_mset t_addr (add_mset t M)) a \<le> 1" for a
    using assms unfolding slots_ok_def by blast
  have cnt: "count (image_mset t_addr M) a \<le> (if a = t_addr t then 0 else 1)" for a
  proof (cases "a = t_addr t")
    case True
    with one[of a] show ?thesis by (simp add: One_nat_def)
  next
    case False
    with one[of a] show ?thesis by simp
  qed
  then have "t_addr t \<notin># image_mset t_addr M"
    by (metis count_eq_zero_iff le_zero_eq)
  moreover have "count (image_mset t_addr M) a \<le> 1" for a
    using cnt[of a] by (auto split: if_splits)
  ultimately show ?thesis
    using assms unfolding slots_ok_def by (auto simp: nth_list_update)
qed

lemma slots_ok_add_static:
  assumes "slots_ok M used" "first_unused 0 used = Some i" "t_addr t = i" "t_static t"
  shows "slots_ok (add_mset t M) (used[i := True])"
proof -
  have i: "i < TIMEOUTS" "\<not> used ! i"
    using first_unused_Some[OF assms(2)] assms(1) by (auto simp: slots_ok_def)
  then have "i \<notin># image_mset t_addr M" using assms(1) by (simp add: slots_ok_def)
  then have "count (image_mset t_addr M) i = 0" by (simp add: count_eq_zero_iff)
  then show ?thesis
    using assms i unfolding slots_ok_def by (auto simp: nth_list_update)
qed

lemma slots_ok_add_dynamic:
  assumes "slots_ok M used" "TIMEOUTS \<le> t_addr t" "\<not> t_static t" "t_addr t \<notin># image_mset t_addr M"
  shows "slots_ok (add_mset t M) used"
proof -
  have "count (image_mset t_addr M) (t_addr t) = 0" using assms(4) by (simp add: count_eq_zero_iff)
  then show ?thesis using assms unfolding slots_ok_def by auto
qed

lemma disposetimeout_fields [simp]:
  "tlist (disposetimeout t k) = tlist k" "expire_list (disposetimeout t k) = expire_list k"
  "linked (disposetimeout t k) = linked k"
  "static_used (disposetimeout t k) =
     (if t_static t then (static_used k)[t_addr t := False] else static_used k)"
  by (simp_all add: disposetimeout_def linked_def)

lemma fold_dispose_ok:
  assumes "slots_ok (mset (map tcore ts) + linked k) (static_used k)"
  shows "slots_ok (linked k) (static_used (fold disposetimeout ts k)) \<and>
    tlist (fold disposetimeout ts k) = tlist k \<and> expire_list (fold disposetimeout ts k) = expire_list k"
  using assms
proof (induction ts arbitrary: k)
  case (Cons t ts)
  have "slots_ok (mset (map tcore ts) + linked k) (static_used (disposetimeout t k))"
    using slots_ok_remove[of "tcore t" "mset (map tcore ts) + linked k" "static_used k"] Cons.prems
    by (cases "t_static t") simp_all
  with Cons.IH[of "disposetimeout t k"] show ?case by simp
qed simp


lemma timeouts_okD: "timeouts_ok k \<Longrightarrow> delta_ok (tlist k)" "timeouts_ok k \<Longrightarrow> slots_ok (linked k) (static_used k)"
  by (simp_all add: timeouts_ok_def)

definition fresh_mem :: "nat option \<Rightarrow> kernel \<Rightarrow> bool" where
  "fresh_mem mem k \<longleftrightarrow>
     (case mem of None \<Rightarrow> True | Some a \<Rightarrow> TIMEOUTS \<le> a \<and> a \<notin># image_mset t_addr (linked k))"

lemma inserttimeout_ok:
  assumes "delta_ok (tlist k)" "0 \<le> d" "slots_ok (add_mset (tcore t) (linked k)) (static_used k)"
  shows "\<exists>k'. inserttimeout t d k = Some k' \<and> timeouts_ok k' \<and> (t_addr t, t_proc t, d) \<in> set (deadlines 0 (tlist k'))"
proof -
  obtain l where l: "insert_delta t d (tlist k) = Some l" using insert_delta_some assms(2) by blast
  obtain xs ys where *: "deadlines 0 l = xs @ (t_addr t, t_proc t, 0 + d) # ys" "delta_ok l"
    using insert_delta_deadlines[OF l assms(1), of 0] by blast
  have "linked (k\<lparr>tlist := l\<rparr>) = add_mset (tcore t) (linked k)"
    using insert_delta_linked[OF l] by (simp add: linked_def)
  then show ?thesis using * assms(3) by (simp add: inserttimeout_def l timeouts_ok_def)
qed

lemma newtimeout_ok:
  assumes "timeouts_ok k" "fresh_mem mem k" "newtimeout mem fl k = Some (t, k1)"
  shows "slots_ok (add_mset (tcore (t\<lparr>t_proc := p, t_func := f\<rparr>)) (linked k1)) (static_used k1) \<and>
    tlist k1 = tlist k \<and> expire_list k1 = expire_list k"
proof (cases "\<not> fl \<and> mem \<noteq> None")
  case True
  then obtain a where a: "mem = Some a" by auto
  have t: "k1 = k" "t_addr t = a" "\<not> t_static t"
    using assms(3) True a by (auto simp: newtimeout_def)
  show ?thesis
    using slots_ok_add_dynamic[OF timeouts_okD(2)[OF assms(1)], of "tcore (t\<lparr>t_proc := p, t_func := f\<rparr>)"]
      assms(2) t a by (simp add: fresh_mem_def)
next
  case False
  then obtain i where i: "first_unused 0 (static_used k) = Some i" "t_addr t = i" "t_static t"
    "k1 = k\<lparr>static_used := (static_used k)[i := True]\<rparr>"
    using assms(3) by (auto simp: newtimeout_def split: option.splits if_splits)
  have "linked k1 = linked k" by (simp add: i(4) linked_def)
  then show ?thesis
    using slots_ok_add_static[OF timeouts_okD(2)[OF assms(1)] i(1), of "tcore (t\<lparr>t_proc := p, t_func := f\<rparr>)"] i
    by simp
qed

lemma addtimeout_common_ok:
  assumes ok: "timeouts_ok k" and d: "0 \<le> d" and mem: "fresh_mem mem k"
  shows "\<exists>r k'. addtimeout_common mem p d f fl k = Some (r, k') \<and> timeouts_ok k' \<and>
    (case r of None \<Rightarrow> k' = k \<and> list_all (\<lambda>u. u) (static_used k)
             | Some a \<Rightarrow> (a, p, d) \<in> set (deadlines 0 (tlist k')))"
proof (cases "extract_first (\<lambda>t. t_proc t = p \<and> t_func t = f) (expire_list k)")
  case (Some tr)
  then obtain t rest where ex: "extract_first (\<lambda>t. t_proc t = p \<and> t_func t = f) (expire_list k) = Some (t, rest)"
    by (cases tr) auto
  let ?k = "k\<lparr>expire_list := rest\<rparr>"
  have "linked k = add_mset (tcore t) (linked ?k)"
    using extract_first_linked[OF ex] by (simp add: linked_def)
  then have "slots_ok (add_mset (tcore t) (linked ?k)) (static_used ?k)"
    using timeouts_okD(2)[OF ok] by simp
  from inserttimeout_ok[OF _ d this] show ?thesis
    using timeouts_okD(1)[OF ok] extract_first_mset[OF ex] ex
    by (auto simp: addtimeout_common_def)
next
  case None
  show ?thesis
  proof (cases "newtimeout mem fl k")
    case nt: None
    have "list_all (\<lambda>u. u) us" if "first_unused i us = None" for i us
      using that by (induction us arbitrary: i) (auto split: if_splits)
    then have "list_all (\<lambda>u. u) (static_used k)"
      using nt by (auto simp: newtimeout_def split: if_splits option.splits)
    then show ?thesis using None nt ok by (simp add: addtimeout_common_def)
  next
    case (Some tk)
    then obtain t k1 where nt: "newtimeout mem fl k = Some (t, k1)" by (cases tk) auto
    note n = newtimeout_ok[OF ok mem nt, where p = p and f = f]
    from inserttimeout_ok[OF _ d, of k1 "t\<lparr>t_proc := p, t_func := f\<rparr>"] n timeouts_okD(1)[OF ok]
    show ?thesis using None nt by (auto simp: addtimeout_common_def)
  qed
qed

lemma unlink_timeout_delta_ok:
  assumes "unlink_timeout a p l = Some (t, l')" "delta_ok l"
  shows "delta_ok l' \<and> ((\<forall>x\<in>set l. 0 \<le> t_when x) \<longrightarrow> (\<forall>x\<in>set l'. 0 \<le> t_when x))"
  using assms
proof (induction l arbitrary: l')
  case (Cons c cs)
  note nn = Cons.prems(2)[unfolded delta_ok_Cons]
  show ?case
  proof (cases "t_addr c = a \<and> t_proc c = p")
    case True
    then have l': "l' = add_when (t_when c) cs" using Cons.prems(1) by auto
    then show ?thesis
      using delta_ok_tail[OF nn] add_when_nonneg[of "t_when c" cs] by (auto simp: delta_ok_add_when)
  next
    case False
    then obtain m where m: "unlink_timeout a p cs = Some (t, m)" "l' = c # m"
      using Cons.prems(1) by (auto split: if_splits)
    from Cons.IH[OF m(1) delta_ok_tail[OF nn]] nn show ?thesis by (simp add: m(2) delta_ok_Cons)
  qed
qed simp

lemma unlink_timeout_None:
  "unlink_timeout a p l = None \<longleftrightarrow> (\<forall>t\<in>set l. \<not> (t_addr t = a \<and> t_proc t = p))"
  by (induction l) auto

lemma extract_first_None: "extract_first P l = None \<longleftrightarrow> (\<forall>t\<in>set l. \<not> P t)"
  by (induction l) auto

lemma filter_mset_all: "(\<And>t. t \<in># M \<Longrightarrow> P t) \<Longrightarrow> filter_mset P M = M"
  by (auto simp: filter_mset_eq_conv)

lemma canceltimeout_common_ok:
  assumes ok: "timeouts_ok k"
  shows "timeouts_ok (canceltimeout_common a p k) \<and>
    linked (canceltimeout_common a p k) = filter_mset (\<lambda>t. \<not> (t_addr t = a \<and> t_proc t = p)) (linked k)"
proof -
  let ?P = "\<lambda>t. t_addr t = a \<and> t_proc t = p"
  have rest: "filter_mset (\<lambda>t. \<not> ?P t) (linked k) = M"
    if "linked k = add_mset (tcore t) M" "?P t" for t M
  proof -
    have "count (image_mset t_addr (linked k)) a \<le> 1"
      using timeouts_okD(2)[OF ok] unfolding slots_ok_def by blast
    then have "count (image_mset t_addr M) a = 0" using that by simp
    then have "a \<notin># image_mset t_addr M" by (simp add: count_eq_zero_iff)
    then have "filter_mset (\<lambda>t. \<not> ?P t) M = M" by (auto simp: filter_mset_eq_conv)
    then show ?thesis using that by simp
  qed
  show ?thesis
  proof (cases "extract_first ?P (expire_list k)")
    case (Some tr)
    then obtain t r where ex: "extract_first ?P (expire_list k) = Some (t, r)" by (cases tr) auto
    let ?k = "k\<lparr>expire_list := r\<rparr>"
    have l: "linked k = add_mset (tcore t) (linked ?k)"
      using extract_first_linked[OF ex] by (simp add: linked_def)
    have "slots_ok (linked ?k) (static_used (disposetimeout t ?k))"
      using slots_ok_remove[of "tcore t" "linked ?k" "static_used k"] timeouts_okD(2)[OF ok] l
      by (cases "t_static t") simp_all
    then show ?thesis
      using ex timeouts_okD(1)[OF ok] rest[OF l] extract_first_mset[OF ex]
      by (simp add: canceltimeout_common_def timeouts_ok_def)
  next
    case None
    show ?thesis
    proof (cases "unlink_timeout a p (tlist k)")
      case un: None
      have "filter_mset (\<lambda>t. \<not> ?P t) (linked k) = linked k"
        by (rule filter_mset_all)
          (use None un in \<open>auto simp: linked_def extract_first_None unlink_timeout_None\<close>)
      then show ?thesis using None un ok by (simp add: canceltimeout_common_def)
    next
      case (Some tl)
      then obtain t l where un: "unlink_timeout a p (tlist k) = Some (t, l)" by (cases tl) auto
      let ?k = "k\<lparr>tlist := l\<rparr>"
      have l: "linked k = add_mset (tcore t) (linked ?k)"
        using unlink_timeout_linked[OF un] by (simp add: linked_def)
      have "slots_ok (linked ?k) (static_used (disposetimeout t ?k))"
        using slots_ok_remove[of "tcore t" "linked ?k" "static_used k"] timeouts_okD(2)[OF ok] l
        by (cases "t_static t") simp_all
      then show ?thesis
        using None un unlink_timeout_delta_ok[OF un timeouts_okD(1)[OF ok]] rest[OF l] unlink_timeout_linked[OF un]
        by (simp add: canceltimeout_common_def timeouts_ok_def)
    qed
  qed
qed


lemma cancel_tlist_linked:
  "mset (map tcore (cancel_tlist p l)) = mset (map tcore (filter (\<lambda>t. t_proc t \<noteq> p) l))"
proof (induction p l rule: cancel_tlist.induct)
  case (2 p cur rest)
  have "map tcore (filter (\<lambda>t. t_proc t \<noteq> p) (add_when d rest)) =
    map tcore (filter (\<lambda>t. t_proc t \<noteq> p) rest)" for d
    by (cases rest) (simp_all add: add_when_def)
  then show ?case using 2 by (simp del: mset_map)
qed simp

lemma mset_map_filter_split:
  "mset (map f l) = mset (map f (filter P l)) + mset (map f (filter (\<lambda>x. \<not> P x) l))"
  by (induction l) auto

lemma cancelalltimeouts_ok:
  assumes ok: "timeouts_ok k"
  shows "timeouts_ok (cancelalltimeouts k)" (is ?A)
    and "deadlines 0 (tlist (cancelalltimeouts k)) =
      filter (\<lambda>e. fst (snd e) \<noteq> curproc k) (deadlines 0 (tlist k))" (is ?B)
    and "expire_list (cancelalltimeouts k) = filter (\<lambda>t. t_proc t \<noteq> curproc k) (expire_list k)" (is ?C)
proof -
  let ?p = "curproc k"
  let ?k0 = "k\<lparr>tlist := cancel_tlist ?p (tlist k)\<rparr>"
  define k1 where "k1 = fold disposetimeout (filter (\<lambda>t. t_proc t = ?p) (tlist k)) ?k0"
  let ?k2 = "k1\<lparr>expire_list := filter (\<lambda>t. t_proc t \<noteq> ?p) (expire_list k1)\<rparr>"
  have "linked k = mset (map tcore (filter (\<lambda>t. t_proc t = ?p) (tlist k))) + linked ?k0"
    using mset_map_filter_split[of tcore "tlist k" "\<lambda>t. t_proc t = ?p"] cancel_tlist_linked[of ?p "tlist k"]
    by (simp add: linked_def del: mset_map)
  then have 1: "slots_ok (linked ?k0) (static_used k1)" "tlist k1 = cancel_tlist ?p (tlist k)"
    "expire_list k1 = expire_list k"
    using fold_dispose_ok[of "filter (\<lambda>t. t_proc t = ?p) (tlist k)" ?k0] timeouts_okD(2)[OF ok]
    by (simp_all add: k1_def)
  have "linked ?k0 = mset (map tcore (filter (\<lambda>t. t_proc t = ?p) (expire_list k1))) + linked ?k2"
    using mset_map_filter_split[of tcore "expire_list k" "\<lambda>t. t_proc t = ?p"]
    by (simp add: linked_def 1 del: mset_map)
  then have "slots_ok (mset (map tcore (filter (\<lambda>t. t_proc t = ?p) (expire_list k1))) + linked ?k2)
    (static_used ?k2)" using 1(1) by simp
  note 2 = fold_dispose_ok[OF this]
  have c: "cancelalltimeouts k = fold disposetimeout (filter (\<lambda>t. t_proc t = ?p) (expire_list k1)) ?k2"
    by (simp add: cancelalltimeouts_def k1_def Let_def)
  have "linked (cancelalltimeouts k) = linked ?k2" using 2 by (simp add: c linked_def)
  then show ?A
    using 2 cancel_tlist_delta_ok[OF timeouts_okD(1)[OF ok], of ?p] 1(2) by (simp add: c timeouts_ok_def)
  show ?B using 2 1(2) by (simp add: c cancel_tlist_deadlines)
  show ?C using 2 1(3) by (simp add: c)
qed

lemma dispose_old_timeouts_ok:
  assumes ok: "timeouts_ok k"
  shows "timeouts_ok (dispose_old_timeouts k) \<and> tlist (dispose_old_timeouts k) = tlist k"
proof -
  let ?Q = "\<lambda>t. \<not> t_when t < hz_200 k"
  let ?k = "k\<lparr>expire_list := takeWhile ?Q (expire_list k)\<rparr>"
  have "mset (map tcore (expire_list k)) =
    mset (map tcore (dropWhile ?Q (expire_list k))) + mset (map tcore (takeWhile ?Q (expire_list k)))"
    by (metis add.commute map_append mset_append takeWhile_dropWhile_id)
  then have "linked k = mset (map tcore (dropWhile ?Q (expire_list k))) + linked ?k"
    by (simp add: linked_def del: mset_map)
  then have "slots_ok (mset (map tcore (dropWhile ?Q (expire_list k))) + linked ?k) (static_used ?k)"
    using timeouts_okD(2)[OF ok] by simp
  note 1 = fold_dispose_ok[OF this]
  have c: "dispose_old_timeouts k = fold disposetimeout (dropWhile ?Q (expire_list k)) ?k"
    by (simp add: dispose_old_timeouts_def Let_def)
  have "linked (dispose_old_timeouts k) = linked ?k" using 1 by (simp add: c linked_def)
  then show ?thesis using 1 timeouts_okD(1)[OF ok] by (simp add: c timeouts_ok_def)
qed

lemma expire_first_ok:
  assumes "timeouts_ok k" "tlist k = t # ts"
  shows "timeouts_ok (expire_first t ts k)"
proof -
  have "linked (expire_first t ts k) = linked k"
    using assms(2) by (simp add: linked_def expire_first_def del: mset_map)
  moreover have "delta_ok (add_when (t_when t) ts)"
    using timeouts_okD(1)[OF assms(1)] assms(2) delta_ok_tail by (simp add: delta_ok_add_when delta_ok_Cons)
  ultimately show ?thesis
    using timeouts_okD(2)[OF assms(1)] by (simp add: timeouts_ok_def expire_first_def)
qed

lemma deadlines_addr: "map (\<lambda>e. (fst e, fst (snd e))) (deadlines b l) = map (\<lambda>t. (t_addr t, t_proc t)) l"
  by (induction l arbitrary: b) simp_all

lemma timeouts_distinct:
  assumes "timeouts_ok k"
  shows "distinct (map t_addr (tlist k @ expire_list k))"
proof -
  have "image_mset t_addr (linked k) = mset (map t_addr (tlist k @ expire_list k))"
    by (simp add: linked_def multiset.map_comp comp_def)
  then have "count (mset (map t_addr (tlist k @ expire_list k))) a \<le> 1" for a
    using timeouts_okD(2)[OF assms] unfolding slots_ok_def by metis
  then show ?thesis
    unfolding distinct_count_atmost_1
    by (metis One_nat_def count_eq_zero_iff le_antisym less_one not_less set_mset_mset)
qed

lemma deadlines_distinct:
  assumes "timeouts_ok k"
  shows "distinct (map fst (deadlines b (tlist k)))"
proof -
  have "map fst (deadlines b l) = map t_addr l" for l by (induction l arbitrary: b) simp_all
  then show ?thesis using timeouts_distinct[OF assms] by simp
qed

lemma deadline_unique:
  assumes "timeouts_ok k" "(a, p, x) \<in> set (deadlines b (tlist k))" "(a, q, y) \<in> set (deadlines b (tlist k))"
  shows "y = x"
  using assms(2,3) deadlines_distinct[OF assms(1), of b]
  by (metis eq_key_imp_eq_value prod.inject)

section \<open>Serving the timeouts\<close>

text \<open>The entries that are due, in the order of the list.\<close>

definition dues :: "timeout list \<Rightarrow> (nat \<times> pptr \<times> int) list" where
  "dues l = filter (\<lambda>e. due_at e \<le> 0) (deadlines 0 l)"

definition timer_id :: "nat \<times> pptr \<times> int \<Rightarrow> nat \<times> pptr" where
  "timer_id e = (fst e, fst (snd e))"

definition timer_key :: "timeout \<Rightarrow> nat \<times> pptr" where
  "timer_key t = (t_addr t, t_proc t)"

lemma timer_id_simp [simp]: "timer_id (a, p, x) = (a, p)"
  by (simp add: timer_id_def)

text \<open>
  A timeout function may cancel timeouts and install others, itself again included, for a later
  time: what is due after it was due before, in the same order.
\<close>

definition fire_later :: "(nat \<Rightarrow> pptr \<Rightarrow> u32 \<Rightarrow> kernel \<Rightarrow> kernel) \<Rightarrow> bool" where
  "fire_later fire \<longleftrightarrow> (\<forall>f p a k. timeouts_ok k \<longrightarrow> timeouts_ok (fire f p a k) \<and>
     subseq (dues (tlist (fire f p a k))) (dues (tlist k)))"

text \<open>A part of the kernel that cancels none of the timeouts \<open>S\<close>.\<close>

definition spares :: "(nat \<times> pptr) set \<Rightarrow> (kernel \<Rightarrow> kernel) \<Rightarrow> bool" where
  "spares S g \<longleftrightarrow> (\<forall>k. timeouts_ok k \<longrightarrow>
     (\<forall>e\<in>set (deadlines 0 (tlist k)). timer_id e \<in> S \<longrightarrow> e \<in> set (deadlines 0 (tlist (g k)))))"

lemma sparesD:
  "spares S g \<Longrightarrow> timeouts_ok k \<Longrightarrow> e \<in> set (deadlines 0 (tlist k)) \<Longrightarrow> timer_id e \<in> S \<Longrightarrow>
   e \<in> set (deadlines 0 (tlist (g k)))"
  unfolding spares_def by blast

lemma dues_first:
  assumes "tlist k = t # ts" "t_when t \<le> 0"
  shows "dues (tlist k) = (t_addr t, t_proc t, t_when t) # dues (tlist (expire_first t ts k))"
  using assms by (simp add: dues_def expire_first_def)

lemma dues_none:
  assumes "timeouts_ok k" "\<forall>t ts. tlist k = t # ts \<longrightarrow> 0 < t_when t"
  shows "dues (tlist k) = []"
proof (cases "tlist k")
  case (Cons t ts)
  have "0 < due_at e" if "e \<in> set (deadlines 0 (tlist k))" for e
    using that deadlines_ge[of ts e "t_when t"] timeouts_okD(1)[OF assms(1)] assms(2) Cons
    by (auto simp: delta_ok_Cons)
  then show ?thesis unfolding dues_def filter_empty_conv by (metis linorder_not_less)
qed (simp add: dues_def)

lemma subseq_setD: "subseq xs ys \<Longrightarrow> x \<in> set xs \<Longrightarrow> x \<in> set ys"
  by (auto simp: subseq_conv_nths dest: in_set_nthsD)

text \<open>What a run of the timeouts that were called, \<open>fired\<close>, means for the timeouts that were pending.\<close>

definition served :: "(nat \<times> pptr) set \<Rightarrow> kernel \<Rightarrow> (nat \<times> pptr) list \<Rightarrow> kernel \<Rightarrow> bool" where
  "served S k fired k' \<longleftrightarrow> timeouts_ok k' \<and> subseq fired (map timer_id (dues (tlist k))) \<and> dues (tlist k') = [] \<and>
     (\<forall>e\<in>set (deadlines 0 (tlist k)). timer_id e \<in> S \<longrightarrow>
        (if due_at e \<le> 0 then timer_id e \<in> set fired else e \<in> set (deadlines 0 (tlist k'))))"

lemma served_none: "timeouts_ok k \<Longrightarrow> dues (tlist k) = [] \<Longrightarrow> served S k [] k"
  unfolding served_def by (auto simp: dues_def filter_empty_conv)

lemma served_first:
  assumes ok: "timeouts_ok k" and l: "tlist k = t # ts" "t_when t \<le> 0"
    and g: "subseq (dues (tlist k1)) (dues (tlist (expire_first t ts k)))"
    and keep: "\<forall>e\<in>set (deadlines 0 (tlist (expire_first t ts k))). timer_id e \<in> S \<longrightarrow> e \<in> set (deadlines 0 (tlist k1))"
    and s: "served S k1 fired k'"
  shows "served S k (timer_key t # fired) k'"
proof -
  have "subseq fired (map timer_id (dues (tlist (expire_first t ts k))))"
    using s subseq_map[OF g, of timer_id] unfolding served_def by (meson subseq_order.order_trans)
  then have 1: "subseq (timer_key t # fired) (map timer_id (dues (tlist k)))"
    by (simp add: dues_first[OF l] timer_key_def timer_id_def)
  have "e = (t_addr t, t_proc t, t_when t) \<or> e \<in> set (deadlines 0 (tlist (expire_first t ts k)))"
    if "e \<in> set (deadlines 0 (tlist k))" for e
    using that l(1) by (auto simp: expire_first_def)
  moreover have "if due_at e \<le> 0 then timer_id e \<in> set fired else e \<in> set (deadlines 0 (tlist k'))"
    if "e \<in> set (deadlines 0 (tlist (expire_first t ts k)))" "timer_id e \<in> S" for e
    using that keep s unfolding served_def by blast
  moreover have "timer_id (t_addr t, t_proc t, t_when t) = timer_key t" by (simp add: timer_key_def)
  ultimately have "\<forall>e\<in>set (deadlines 0 (tlist k)). timer_id e \<in> S \<longrightarrow>
      (if due_at e \<le> 0 then timer_id e \<in> set (timer_key t # fired) else e \<in> set (deadlines 0 (tlist k')))"
    using l(2) by (metis due_at_simps(1) list.set_intros)
  with 1 s show ?thesis unfolding served_def by blast
qed

lemma run_due_ok:
  assumes "fire_later fire" "\<forall>f p a. spares S (fire f p a)"
    and "timeouts_ok k" "length (dues (tlist k)) \<le> fuel"
  shows "\<exists>fired k'. run_due fuel fire k = Some (fired, k') \<and> served S k (map timer_key fired) k'"
  using assms(3,4)
proof (induction fuel arbitrary: k)
  case 0
  have no: "\<not> t_when t \<le> 0" if "tlist k = t # ts" for t ts
    using 0(2) dues_first[OF that] by auto
  then have "run_due 0 fire k = Some ([], k)" by (subst run_due.simps) (auto split: list.split)
  then show ?case using served_none[OF 0(1)] 0(2) by simp
next
  case (Suc n)
  show ?case
  proof (cases "\<exists>t ts. tlist k = t # ts \<and> t_when t \<le> 0")
    case False
    then have "run_due (Suc n) fire k = Some ([], k)" by (subst run_due.simps) (auto split: list.split)
    moreover have "dues (tlist k) = []" using False by (intro dues_none[OF Suc.prems(1)]) auto
    ultimately show ?thesis using served_none[OF Suc.prems(1)] by simp
  next
    case True
    then obtain t ts where l: "tlist k = t # ts" "t_when t \<le> 0" by blast
    define k0 k1 where "k0 = expire_first t ts k" and "k1 = fire (t_func t) (t_proc t) (t_arg t) k0"
    note k0 = expire_first_ok[OF Suc.prems(1) l(1), folded k0_def]
    have k1: "timeouts_ok k1" "subseq (dues (tlist k1)) (dues (tlist k0))"
      using assms(1) k0 by (simp_all add: fire_later_def k1_def)
    have keep: "\<forall>e\<in>set (deadlines 0 (tlist k0)). timer_id e \<in> S \<longrightarrow> e \<in> set (deadlines 0 (tlist k1))"
      using sparesD[OF assms(2)[rule_format] k0] unfolding k1_def by blast
    have "length (dues (tlist k1)) \<le> n"
      using list_emb_length[OF k1(2)] Suc.prems(2) dues_first[OF l] by (simp add: k0_def)
    then obtain fired k' where *: "run_due n fire k1 = Some (fired, k')" "served S k1 (map timer_key fired) k'"
      using Suc.IH[OF k1(1)] by blast
    have "run_due (Suc n) fire k = Some (t # fired, k')"
      using l *(1) by (subst run_due.simps) (simp add: k1_def k0_def)
    then show ?thesis
      using served_first[OF Suc.prems(1) l k1(2)[unfolded k0_def] keep[unfolded k0_def] *(2)] by auto
  qed
qed

lemma reset_priorities_fields [simp]:
  "our_clock (reset_priorities k) = our_clock k" "searchtime (reset_priorities k) = searchtime k"
  "tlist (reset_priorities k) = tlist k" "expire_list (reset_priorities k) = expire_list k"
  "static_used (reset_priorities k) = static_used k" "hz_200 (reset_priorities k) = hz_200 k"
proof -
  have "our_clock (fold (\<lambda>p. upd_proc p reset_priority) l k) = our_clock k \<and>
    searchtime (fold (\<lambda>p. upd_proc p reset_priority) l k) = searchtime k \<and>
    tlist (fold (\<lambda>p. upd_proc p reset_priority) l k) = tlist k \<and>
    expire_list (fold (\<lambda>p. upd_proc p reset_priority) l k) = expire_list k \<and>
    static_used (fold (\<lambda>p. upd_proc p reset_priority) l k) = static_used k \<and>
    hz_200 (fold (\<lambda>p. upd_proc p reset_priority) l k) = hz_200 k" for l
    by (induction l arbitrary: k) (simp_all add: upd_proc_def)
  then show "our_clock (reset_priorities k) = our_clock k" "searchtime (reset_priorities k) = searchtime k"
    "tlist (reset_priorities k) = tlist k" "expire_list (reset_priorities k) = expire_list k"
    "static_used (reset_priorities k) = static_used k" "hz_200 (reset_priorities k) = hz_200 k"
    by (simp_all add: reset_priorities_def)
qed

definition synch_quiet :: "(kernel \<Rightarrow> kernel) \<Rightarrow> bool" where
  "synch_quiet synch \<longleftrightarrow> (\<forall>k. our_clock (synch k) = our_clock k \<and> searchtime (synch k) = searchtime k \<and>
     tlist (synch k) = tlist k \<and> expire_list (synch k) = expire_list k \<and> static_used (synch k) = static_used k)"

lemma once_per_second_ok:
  assumes "synch_quiet synch" "0 \<le> our_clock k + 1000 * int fuel"
  shows "\<exists>k' n. once_per_second fuel synch k = Some k' \<and> 0 \<le> our_clock k' \<and>
    our_clock k' = our_clock k + 1000 * n \<and> searchtime k' = searchtime k + n \<and> 0 \<le> n \<and>
    (n = 0 \<or> our_clock k' < 1000) \<and>
    tlist k' = tlist k \<and> expire_list k' = expire_list k \<and> static_used k' = static_used k"
  using assms(2)
proof (induction fuel arbitrary: k)
  case (Suc f)
  show ?case
  proof (cases "our_clock k < 0")
    case True
    define k1 where "k1 = reset_priorities (synch (k\<lparr>our_clock := our_clock k + 1000\<rparr>)
      \<lparr>searchtime := searchtime (synch (k\<lparr>our_clock := our_clock k + 1000\<rparr>)) + 1\<rparr>)"
    have c: "our_clock k1 = our_clock k + 1000" "searchtime k1 = searchtime k + 1" "tlist k1 = tlist k"
      "expire_list k1 = expire_list k" "static_used k1 = static_used k"
      using assms(1) by (simp_all add: k1_def synch_quiet_def)
    have "0 \<le> our_clock k1 + 1000 * int f" using Suc.prems c by simp
    from Suc.IH[OF this] obtain k' n where *: "once_per_second f synch k1 = Some k'" "0 \<le> our_clock k'"
      "our_clock k' = our_clock k1 + 1000 * n" "searchtime k' = searchtime k1 + n" "0 \<le> n"
      "n = 0 \<or> our_clock k' < 1000" "tlist k' = tlist k1" "expire_list k' = expire_list k1"
      "static_used k' = static_used k1" by blast
    have "once_per_second (Suc f) synch k = Some k'"
      using True *(1) by (simp add: k1_def Let_def)
    then show ?thesis
      using * c True by (intro exI[of _ k'] exI[of _ "n + 1"]) auto
  next
    case False
    then show ?thesis by (intro exI[of _ k] exI[of _ 0]) simp
  qed
qed auto


lemma timer_tick_ok: "timeouts_ok k \<Longrightarrow> timeouts_ok (timer_tick ms k)"
  using tq.tick_inv[of k ms]
  by (auto simp: timeouts_ok_def linked_def timer_tick_def split: list.splits)

lemma timer_ticks_ok: "timeouts_ok k \<Longrightarrow> timeouts_ok (fold timer_tick mss k)"
  by (induction mss arbitrary: k) (simp_all add: timer_tick_ok)

lemma dues_length: "length (dues l) \<le> length l"
proof -
  have "length (deadlines b l) = length l" for b by (induction l arbitrary: b) simp_all
  then show ?thesis by (metis dues_def length_filter_le)
qed

lemma checkalarms_ok:
  assumes "synch_quiet synch" "fire_later fire" "\<forall>f p a. spares S (fire f p a)" "timeouts_ok k"
    "length (tlist k) \<le> fuel" "0 \<le> our_clock k + 1000 * int fuel"
  shows "\<exists>fired k'. checkalarms fuel synch fire k = Some (fired, k') \<and> served S k (map timer_key fired) k'"
proof -
  obtain k1 where 1: "once_per_second fuel synch k = Some k1" "tlist k1 = tlist k"
    "expire_list k1 = expire_list k" "static_used k1 = static_used k"
    using once_per_second_ok[OF assms(1,6)] by blast
  then have ok: "timeouts_ok k1" using assms(4) by (simp add: timeouts_ok_def linked_def)
  have "length (dues (tlist k1)) \<le> fuel" using assms(5) 1 dues_length[of "tlist k1"] by simp
  from run_due_ok[OF assms(2,3) ok this]
  obtain fired k2 where 2: "run_due fuel fire k1 = Some (fired, k2)" "served S k1 (map timer_key fired) k2" by blast
  have "served S k (map timer_key fired) (dispose_old_timeouts k2)"
    using 2(2) dispose_old_timeouts_ok[of k2] unfolding served_def 1 by metis
  then show ?thesis using 1(1) 2(1) by (simp add: checkalarms_def)
qed

text \<open>A list of timeouts without repetitions that is served in order and completely is served exactly.\<close>

lemma subseq_distinct_left: "subseq xs ys \<Longrightarrow> distinct ys \<Longrightarrow> distinct xs"
  unfolding subseq_conv_nths by auto

lemma subseq_complete:
  assumes "subseq xs ys" "distinct ys" "set ys \<subseteq> set xs"
  shows "xs = ys"
proof -
  have "distinct xs" using assms(1,2) subseq_distinct_left by blast
  have "set xs = set ys" using subseq_setD[OF assms(1)] assms(3) by blast
  then have "length xs = length ys"
    using \<open>distinct xs\<close> assms(2) by (metis distinct_card)
  with assms(1) show ?thesis by (simp add: subseq_same_length)
qed

lemma dues_distinct: "timeouts_ok k \<Longrightarrow> distinct (map timer_id (dues (tlist k)))"
proof -
  assume "timeouts_ok k"
  then have "distinct (map fst (dues (tlist k)))"
    using deadlines_distinct[of k 0] distinct_map_filter by (auto simp: dues_def)
  moreover have "map fst (dues (tlist k)) = map fst (map timer_id (dues (tlist k)))"
    by (simp add: timer_id_def)
  ultimately show ?thesis by (metis distinct_map)
qed

section \<open>Runs of the kernel seen from the clock\<close>

text \<open>
  The timer interrupt, a run of \<open>checkalarms\<close>, and any other work of the kernel. The fuel of each
  run is computed from the state it starts in.
\<close>

datatype clock_event = Tick int | Check | Work "kernel \<Rightarrow> kernel"

definition enough_fuel :: "kernel \<Rightarrow> nat" where
  "enough_fuel k = length (tlist k) + nat (- our_clock k)"

fun clock_run ::
  "(kernel \<Rightarrow> kernel) \<Rightarrow> (nat \<Rightarrow> pptr \<Rightarrow> u32 \<Rightarrow> kernel \<Rightarrow> kernel) \<Rightarrow> clock_event list \<Rightarrow> kernel \<Rightarrow>
   ((nat \<times> pptr) list \<times> kernel) option" where
  "clock_run synch fire [] k = Some ([], k)"
| "clock_run synch fire (Tick ms # es) k = clock_run synch fire es (timer_tick ms k)"
| "clock_run synch fire (Work g # es) k = clock_run synch fire es (g k)"
| "clock_run synch fire (Check # es) k =
    (case checkalarms (enough_fuel k) synch fire k of
       None \<Rightarrow> None
     | Some (fired, k) \<Rightarrow> map_option (\<lambda>(fs, k). (map timer_key fired @ fs, k)) (clock_run synch fire es k))"

fun elapsed :: "clock_event list \<Rightarrow> int" where
  "elapsed [] = 0"
| "elapsed (Tick ms # es) = ms + elapsed es"
| "elapsed (_ # es) = elapsed es"

text \<open>Work that keeps the timeouts well formed and does not cancel the timeout \<open>a\<close> of the process \<open>p\<close>.\<close>

definition leaves_timeout :: "nat \<Rightarrow> pptr \<Rightarrow> clock_event \<Rightarrow> bool" where
  "leaves_timeout a p e \<longleftrightarrow>
     (case e of Work g \<Rightarrow> (\<forall>k. timeouts_ok k \<longrightarrow> timeouts_ok (g k)) \<and> spares {(a, p)} g | _ \<Rightarrow> True)"

lemma enough_fuel_ok: "length (tlist k) \<le> enough_fuel k" "0 \<le> our_clock k + 1000 * int (enough_fuel k)"
  by (simp_all add: enough_fuel_def)

lemmas checkalarms_enough = checkalarms_ok[OF _ _ _ _ enough_fuel_ok]

lemma served_iff:
  assumes "served {(a, p)} k fired k'" "timeouts_ok k" "(a, p, x) \<in> set (deadlines 0 (tlist k))"
  shows "(a, p) \<in> set fired \<longleftrightarrow> x \<le> 0" "0 < x \<Longrightarrow> (a, p, x) \<in> set (deadlines 0 (tlist k'))"
proof -
  have "x \<le> 0" if m: "(a, p) \<in> set fired"
  proof -
    have "(a, p) \<in> timer_id ` set (dues (tlist k))"
      using subseq_setD[OF _ m] assms(1) unfolding served_def by fastforce
    then obtain y where "(a, p, y) \<in> set (deadlines 0 (tlist k))" "y \<le> 0" by (auto simp: dues_def timer_id_def)
    then show ?thesis using deadline_unique[OF assms(2,3)] by blast
  qed
  moreover have "if x \<le> 0 then (a, p) \<in> set fired else (a, p, x) \<in> set (deadlines 0 (tlist k'))"
    using assms(1,3) unfolding served_def by fastforce
  ultimately show "(a, p) \<in> set fired \<longleftrightarrow> x \<le> 0" "0 < x \<Longrightarrow> (a, p, x) \<in> set (deadlines 0 (tlist k'))"
    by auto
qed

lemma timer_tick_due:
  "(a, p, x) \<in> set (deadlines 0 (tlist k)) \<Longrightarrow> (a, p, x - ms) \<in> set (deadlines 0 (tlist (timer_tick ms k)))"
  unfolding timer_tick_deadlines by (force simp: shift_due_def due_at_def)

lemma clock_run_before:
  assumes "synch_quiet synch" "fire_later fire" "\<forall>f q b. spares {(a, p)} (fire f q b)"
    and "\<forall>e\<in>set es. leaves_timeout a p e" "\<forall>xs ys. es = xs @ Check # ys \<longrightarrow> elapsed xs < x"
    and "timeouts_ok k" "(a, p, x) \<in> set (deadlines 0 (tlist k))"
  shows "\<exists>fired k'. clock_run synch fire es k = Some (fired, k') \<and> (a, p) \<notin> set fired \<and> timeouts_ok k' \<and>
    (a, p, x - elapsed es) \<in> set (deadlines 0 (tlist k'))"
  using assms(4-)
proof (induction es arbitrary: k x)
  case (Cons e es)
  have later: "elapsed xs < x - elapsed [e]" if "es = xs @ Check # ys" for xs ys
    using Cons.prems(2)[rule_format, of "e # xs" ys] that by (cases e) simp_all
  have es: "\<forall>e\<in>set es. leaves_timeout a p e" using Cons.prems(1) by simp
  show ?case
  proof (cases e)
    case (Tick ms)
    have "\<forall>xs ys. es = xs @ Check # ys \<longrightarrow> elapsed xs < x - ms" using later by (simp add: Tick)
    from Cons.IH[OF es this timer_tick_ok[OF Cons.prems(3)] timer_tick_due[OF Cons.prems(4)]]
    show ?thesis by (simp add: Tick diff_diff_eq)
  next
    case (Work g)
    have "timeouts_ok (g k)" "(a, p, x) \<in> set (deadlines 0 (tlist (g k)))"
      using Cons.prems(1,3,4) by (auto simp: leaves_timeout_def Work intro: sparesD)
    moreover have "\<forall>xs ys. es = xs @ Check # ys \<longrightarrow> elapsed xs < x" using later by (simp add: Work)
    ultimately show ?thesis using Cons.IH[OF es] by (simp add: Work)
  next
    case Check
    have x: "0 < x" using Cons.prems(2)[rule_format, of "[]" es] by (simp add: Check)
    obtain fired k1 where 1: "checkalarms (enough_fuel k) synch fire k = Some (fired, k1)"
      "served {(a, p)} k (map timer_key fired) k1"
      using checkalarms_enough[OF assms(1-3) Cons.prems(3)] by blast
    note s = served_iff[OF 1(2) Cons.prems(3,4)]
    have "timeouts_ok k1" using 1(2) by (simp add: served_def)
    have "\<forall>xs ys. es = xs @ Check # ys \<longrightarrow> elapsed xs < x" using later by (simp add: Check)
    then obtain fs k2 where 2: "clock_run synch fire es k1 = Some (fs, k2)" "(a, p) \<notin> set fs" "timeouts_ok k2"
      "(a, p, x - elapsed es) \<in> set (deadlines 0 (tlist k2))"
      using Cons.IH[OF es _ \<open>timeouts_ok k1\<close> s(2)[OF x]] by blast
    then show ?thesis using s(1) x by (simp add: Check 1(1))
  qed
qed simp


lemma canceltimeout_common_deadlines:
  assumes "timeouts_ok k"
  shows "deadlines 0 (tlist (canceltimeout_common a p k)) =
    filter (\<lambda>e. \<not> (fst e = a \<and> fst (snd e) = p)) (deadlines 0 (tlist k))"
proof -
  let ?P = "\<lambda>e. \<not> (fst e = a \<and> fst (snd e) = p)"
  have absent: "filter ?P (deadlines 0 (tlist k)) = deadlines 0 (tlist k)"
    if "\<forall>t\<in>set (tlist k). \<not> (t_addr t = a \<and> t_proc t = p)"
  proof -
    have "?P e" if "e \<in> set (deadlines 0 (tlist k))" for e
    proof -
      have "(fst e, fst (snd e)) \<in> set (map (\<lambda>e. (fst e, fst (snd e))) (deadlines 0 (tlist k)))"
        using that by auto
      then show ?thesis
        using \<open>\<forall>t\<in>set (tlist k). \<not> (t_addr t = a \<and> t_proc t = p)\<close> unfolding deadlines_addr by auto
    qed
    then show ?thesis by (simp add: filter_id_conv)
  qed
  show ?thesis
  proof (cases "extract_first (\<lambda>t. t_addr t = a \<and> t_proc t = p) (expire_list k)")
    case (Some tr)
    then obtain t r where ex: "extract_first (\<lambda>t. t_addr t = a \<and> t_proc t = p) (expire_list k) = Some (t, r)"
      by (cases tr) auto
    have "t \<in> set (expire_list k)" "t_addr t = a"
      using extract_first_mset[OF ex] by (simp_all flip: set_mset_mset)
    then have "a \<in> t_addr ` set (expire_list k)" by blast
    then have "\<forall>t\<in>set (tlist k). \<not> (t_addr t = a \<and> t_proc t = p)"
      using timeouts_distinct[OF assms] by auto
    from absent[OF this] show ?thesis using ex by (simp add: canceltimeout_common_def)
  next
    case None
    show ?thesis
    proof (cases "unlink_timeout a p (tlist k)")
      case un: None
      then show ?thesis using absent[OF un[unfolded unlink_timeout_None]] None
        by (simp add: canceltimeout_common_def)
    next
      case (Some tl)
      then obtain t l where un: "unlink_timeout a p (tlist k) = Some (t, l)" by (cases tl) auto
      obtain xs x ys where d: "deadlines 0 (tlist k) = xs @ (a, p, x) # ys" "deadlines 0 l = xs @ ys"
        using unlink_timeout_deadlines[OF un] by blast
      have "a \<notin> fst ` set (xs @ ys)" using deadlines_distinct[OF assms, of 0] d by auto
      then have "filter ?P (xs @ ys) = xs @ ys" unfolding filter_id_conv by auto
      then show ?thesis using None un d by (simp add: canceltimeout_common_def)
    qed
  qed
qed

section \<open>Correctness of the timeouts\<close>

text \<open>
  C7: A timeout installed for \<open>d\<close> milliseconds is called by the first run of \<open>checkalarms\<close> after the
  timer interrupts have counted \<open>d\<close> milliseconds, and by no run before that. In between, the kernel
  may do any work and call any other timeout functions, which may install and cancel timeouts, as
  long as none of them cancels this one and no timeout function installs a timeout that is due at
  once: the delta list keeps its deadline exact. Every run ends (with fuel for the timeouts that are
  pending and the seconds the clock is late), and the timeouts stay well formed.
\<close>
theorem timeout_fires_on_time:
  assumes "timeouts_ok k" "0 \<le> d" "fresh_mem mem k"
    and "addtimeout mem p d f k = Some (Some a, k1)"
    and "synch_quiet synch" "fire_later fire" "\<forall>g q b. spares {(a, p)} (fire g q b)"
    and "\<forall>e\<in>set es. leaves_timeout a p e"
    and "\<forall>xs ys. es = xs @ Check # ys \<longrightarrow> elapsed xs < d"
  shows "\<exists>before k2 fired k3. clock_run synch fire es k1 = Some (before, k2) \<and> (a, p) \<notin> set before \<and>
    checkalarms (enough_fuel k2) synch fire k2 = Some (fired, k3) \<and> timeouts_ok k3 \<and>
    ((a, p) \<in> set (map timer_key fired) \<longleftrightarrow> d \<le> elapsed es)"
proof -
  have k1: "timeouts_ok k1" "(a, p, d) \<in> set (deadlines 0 (tlist k1))"
    using addtimeout_common_ok[OF assms(1-3), of p f False] assms(4) by (auto simp: addtimeout_def)
  obtain before k2 where 2: "clock_run synch fire es k1 = Some (before, k2)" "(a, p) \<notin> set before"
    "timeouts_ok k2" "(a, p, d - elapsed es) \<in> set (deadlines 0 (tlist k2))"
    using clock_run_before[OF assms(5-9) k1] by blast
  obtain fired k3 where 3: "checkalarms (enough_fuel k2) synch fire k2 = Some (fired, k3)"
    "served {(a, p)} k2 (map timer_key fired) k3"
    using checkalarms_enough[OF assms(5-7) 2(3)] by blast
  have "timeouts_ok k3" using 3(2) by (simp add: served_def)
  with 2(1,2) 3(1) served_iff(1)[OF 3(2) 2(3,4)] show ?thesis by auto
qed

text \<open>
  C14: One run of \<open>checkalarms\<close> ends and leaves no timeout due. It calls only timeouts that were due
  when it began, each once and in the order of their deadlines, whatever the functions install for
  later. A timeout that no function cancels (\<open>S\<close>) is called if it is due and keeps its
  deadline if it is not; when none is cancelled, exactly the due ones are called.
\<close>
theorem checkalarms_serves_due:
  assumes "synch_quiet synch" "fire_later fire" "\<forall>f p a. spares S (fire f p a)" "timeouts_ok k"
    and "length (tlist k) \<le> fuel" "0 \<le> our_clock k + 1000 * int fuel"
  shows "\<exists>fired k'. checkalarms fuel synch fire k = Some (fired, k') \<and> timeouts_ok k' \<and> dues (tlist k') = [] \<and>
    subseq (map timer_key fired) (map timer_id (dues (tlist k))) \<and>
    sorted (map due_at (dues (tlist k))) \<and> distinct (map timer_key fired) \<and>
    (\<forall>e\<in>set (deadlines 0 (tlist k)). timer_id e \<in> S \<longrightarrow>
      (if due_at e \<le> 0 then timer_id e \<in> set (map timer_key fired) else e \<in> set (deadlines 0 (tlist k')))) \<and>
    (S = UNIV \<longrightarrow> map timer_key fired = map timer_id (dues (tlist k)))"
proof -
  obtain fired k' where *: "checkalarms fuel synch fire k = Some (fired, k')" "served S k (map timer_key fired) k'"
    using checkalarms_ok[OF assms] by blast
  have sub: "subseq (map timer_key fired) (map timer_id (dues (tlist k)))"
    using *(2) by (simp add: served_def)
  have "sorted (map due_at (dues (tlist k)))"
    unfolding dues_def by (rule sorted_filter) (rule deadlines_sorted[OF timeouts_okD(1)[OF assms(4)]])
  moreover have "map timer_key fired = map timer_id (dues (tlist k))" if "S = UNIV"
    using *(2) that by (intro subseq_complete[OF sub dues_distinct[OF assms(4)]]) (auto simp: served_def dues_def)
  ultimately show ?thesis
    using * subseq_distinct_left[OF sub dues_distinct[OF assms(4)]] unfolding served_def
    by (intro exI[of _ fired] exI[of _ k']) blast
qed


text \<open>
  C15: Cancelling a timeout removes exactly that one, if it belongs to the process: every other timeout
  keeps its deadline although the list stores differences, no structure is lost or linked twice,
  and a static structure is marked free exactly when it leaves the lists.
\<close>
theorem canceltimeout_exact:
  assumes "timeouts_ok k"
  shows "timeouts_ok (canceltimeout a k) \<and>
    deadlines 0 (tlist (canceltimeout a k)) =
      filter (\<lambda>e. \<not> (fst e = a \<and> fst (snd e) = curproc k)) (deadlines 0 (tlist k)) \<and>
    linked (canceltimeout a k) = filter_mset (\<lambda>t. \<not> (t_addr t = a \<and> t_proc t = curproc k)) (linked k)"
  unfolding canceltimeout_def
  using canceltimeout_common_ok[OF assms] canceltimeout_common_deadlines[OF assms] by blast

text \<open>
  \<open>cancelalltimeouts\<close>, called when a process exits, removes all timeouts of that process, pending and
  expired, and no other, and keeps the deadlines of the others.
\<close>
theorem cancelalltimeouts_exact:
  assumes "timeouts_ok k"
  shows "timeouts_ok (cancelalltimeouts k) \<and>
    deadlines 0 (tlist (cancelalltimeouts k)) =
      filter (\<lambda>e. fst (snd e) \<noteq> curproc k) (deadlines 0 (tlist k)) \<and>
    expire_list (cancelalltimeouts k) = filter (\<lambda>t. t_proc t \<noteq> curproc k) (expire_list k)"
  using cancelalltimeouts_ok[OF assms] by blast


section \<open>Witnesses\<close>

text \<open>Two timeouts of processes 3 and 0, due in 20 and in 50 milliseconds; the clock is 5 ms late.\<close>

definition demo_timers :: kernel where
  "demo_timers = demo_kernel\<lparr>our_clock := - 5, static_used := replicate 64 False, expire_list := [], tlist :=
     [\<lparr>t_addr = 100, t_proc = 3, t_when = 20, t_func = 1, t_static = False, t_arg = 0\<rparr>,
      \<lparr>t_addr = 200, t_proc = 0, t_when = 30, t_func = 2, t_static = False, t_arg = 0\<rparr>]\<rparr>"

lemma demo_timers_fields [simp]:
  "our_clock demo_timers = - 5" "expire_list demo_timers = []" "static_used demo_timers = replicate 64 False"
  "tlist demo_timers =
     [\<lparr>t_addr = 100, t_proc = 3, t_when = 20, t_func = 1, t_static = False, t_arg = 0\<rparr>,
      \<lparr>t_addr = 200, t_proc = 0, t_when = 30, t_func = 2, t_static = False, t_arg = 0\<rparr>]"
  "curproc demo_timers = 0"
  by (simp_all add: demo_timers_def)

lemma demo_timers_linked: "image_mset t_addr (linked demo_timers) = {#100, 200#}"
  by (simp add: linked_def)

lemma demo_timers_ok: "timeouts_ok demo_timers"
proof -
  have "count {#100, 200::nat#} a \<le> 1" for a by auto
  then have "slots_ok (linked demo_timers) (replicate 64 False)"
    unfolding slots_ok_def demo_timers_linked by (auto simp: linked_def)
  then show ?thesis by (simp add: timeouts_ok_def delta_ok_def)
qed

text \<open>A timeout function that installs itself again, a second later, as \<open>do_sync\<close> does.\<close>

definition rearm :: "nat \<Rightarrow> pptr \<Rightarrow> u32 \<Rightarrow> kernel \<Rightarrow> kernel" where
  "rearm f p a k = (case addtimeout None p 1000 f k of None \<Rightarrow> k | Some (r, k) \<Rightarrow> k)"

lemma addtimeout_adds:
  assumes "addtimeout mem p d f k = Some (r, k')" "delta_ok (tlist k)"
  shows "tlist k' = tlist k \<or>
    (\<exists>a xs ys. deadlines 0 (tlist k) = xs @ ys \<and> deadlines 0 (tlist k') = xs @ (a, p, d) # ys)"
proof -
  have ins: "\<exists>xs ys. deadlines 0 (tlist k0) = xs @ ys \<and>
      deadlines 0 (tlist k') = xs @ (t_addr t, t_proc t, d) # ys"
    if i: "inserttimeout t d k0 = Some k'" "delta_ok (tlist k0)" for t k0
  proof -
    obtain l where l: "insert_delta t d (tlist k0) = Some l" "tlist k' = l"
      using i(1) by (auto simp: inserttimeout_def)
    show ?thesis using insert_delta_deadlines[OF l(1) i(2), of 0] l(2) by auto
  qed
  show ?thesis
  proof (cases "extract_first (\<lambda>t. t_proc t = p \<and> t_func t = f) (expire_list k)")
    case (Some tr)
    then obtain t rest where ex: "extract_first (\<lambda>t. t_proc t = p \<and> t_func t = f) (expire_list k) = Some (t, rest)"
      by (cases tr) auto
    have "inserttimeout t d (k\<lparr>expire_list := rest\<rparr>) = Some k'"
      using assms(1) ex by (auto simp: addtimeout_def addtimeout_common_def)
    from ins[OF this] assms(2) extract_first_mset[OF ex] show ?thesis by auto
  next
    case None
    show ?thesis
    proof (cases "newtimeout mem False k")
      case nt: None
      then show ?thesis using None assms(1) by (auto simp: addtimeout_def addtimeout_common_def)
    next
      case (Some tk)
      then obtain t k1 where nt: "newtimeout mem False k = Some (t, k1)" by (cases tk) auto
      have k1: "tlist k1 = tlist k" using nt by (auto simp: newtimeout_def split: option.splits if_splits)
      have "inserttimeout (t\<lparr>t_proc := p, t_func := f\<rparr>) d k1 = Some k'"
        using assms(1) None nt by (auto simp: addtimeout_def addtimeout_common_def)
      from ins[OF this] assms(2) show ?thesis unfolding k1 by auto
    qed
  qed
qed

lemma rearm_adds:
  assumes "timeouts_ok k"
  shows "timeouts_ok (rearm f p a k) \<and> (tlist (rearm f p a k) = tlist k \<or>
    (\<exists>b xs ys. deadlines 0 (tlist k) = xs @ ys \<and> deadlines 0 (tlist (rearm f p a k)) = xs @ (b, p, 1000) # ys))"
proof -
  obtain r k' where k': "addtimeout None p 1000 f k = Some (r, k')" "timeouts_ok k'"
    using addtimeout_common_ok[OF assms, of 1000 None p f False] by (auto simp: addtimeout_def fresh_mem_def)
  then show ?thesis using addtimeout_adds[OF k'(1) timeouts_okD(1)[OF assms]] by (simp add: rearm_def)
qed

lemma rearm_later: "fire_later rearm"
proof -
  have "subseq (dues (tlist (rearm f p a k))) (dues (tlist k))" if "timeouts_ok k" for f p a k
    using rearm_adds[OF that, of f p a] unfolding dues_def by (elim conjE disjE exE) simp_all
  then show ?thesis using rearm_adds by (simp add: fire_later_def)
qed

lemma rearm_spares: "spares S (rearm f p a)"
proof -
  have "e \<in> set (deadlines 0 (tlist (rearm f p a k)))"
    if "timeouts_ok k" "e \<in> set (deadlines 0 (tlist k))" for e k
    using rearm_adds[OF that(1), of f p a] that(2) by (elim conjE disjE exE) auto
  then show ?thesis unfolding spares_def by blast
qed

lemma synch_quiet_id: "synch_quiet id"
  by (simp add: synch_quiet_def)

lemma cancel_leaves: "b \<noteq> a \<Longrightarrow> leaves_timeout a p (Work (canceltimeout b))"
  unfolding leaves_timeout_def spares_def canceltimeout_def
  using canceltimeout_common_ok canceltimeout_common_deadlines by (auto simp: timer_id_def)

text \<open>
  Another timeout fires and installs itself again, a third one is cancelled, and the clock ticks; then
  the new one fires. One millisecond earlier it does not.
\<close>

theorem timeout_fires_on_time_witness:
  "\<exists>k1. addtimeout (Some 300) 5 25 9 demo_timers = Some (Some 300, k1) \<and>
    (\<forall>ms\<in>{4, 5}. \<exists>before k2 fired k3.
     clock_run id rearm [Tick 20, Check, Work (canceltimeout 200), Tick ms] k1 = Some (before, k2) \<and>
     checkalarms (enough_fuel k2) id rearm k2 = Some (fired, k3) \<and>
     ((300, 5) \<in> set (map timer_key fired) \<longleftrightarrow> ms = 5))"
proof -
  obtain k1 where k1: "addtimeout (Some 300) 5 25 9 demo_timers = Some (Some 300, k1)"
    by (simp add: addtimeout_def addtimeout_common_def newtimeout_def inserttimeout_def)
  have mem: "fresh_mem (Some 300) demo_timers" by (simp add: fresh_mem_def demo_timers_linked)
  have "elapsed xs < 25" if "[Tick 20, Check, Work (canceltimeout 200), Tick ms] = xs @ Check # ys" for ms xs ys
    using that by (cases xs; cases "tl xs"; cases "tl (tl xs)"; cases "tl (tl (tl xs))") auto
  then have run: "\<exists>before k2 fired k3.
     clock_run id rearm [Tick 20, Check, Work (canceltimeout 200), Tick ms] k1 = Some (before, k2) \<and>
     checkalarms (enough_fuel k2) id rearm k2 = Some (fired, k3) \<and>
     ((300, 5) \<in> set (map timer_key fired) \<longleftrightarrow> 25 \<le> 20 + ms)" for ms
    using timeout_fires_on_time[OF demo_timers_ok _ mem k1 synch_quiet_id rearm_later,
        of "[Tick 20, Check, Work (canceltimeout 200), Tick ms]"] cancel_leaves[of 200 300 5] rearm_spares
    by (simp add: leaves_timeout_def[of _ _ "Tick _"] leaves_timeout_def[of _ _ Check]) blast
  have "(25 \<le> 20 + ms) = (ms = 5)" if "ms \<in> {4, 5}" for ms :: int using that by auto
  with run k1 show ?thesis by metis
qed

theorem checkalarms_serves_due_witness:
  "\<exists>fired k'. checkalarms 5 id rearm (timer_tick 30 demo_timers) = Some (fired, k') \<and>
     map timer_key fired = [(100, 3)] \<and> (200, 0, 20) \<in> set (deadlines 0 (tlist k')) \<and> dues (tlist k') = []"
proof -
  have d: "deadlines 0 (tlist (timer_tick 30 demo_timers)) = [(100, 3, - 10), (200, 0, 20)]"
    "dues (tlist (timer_tick 30 demo_timers)) = [(100, 3, - 10)]"
    by (simp_all add: timer_tick_def dues_def)
  have "length (tlist (timer_tick 30 demo_timers)) \<le> 5"
    "0 \<le> our_clock (timer_tick 30 demo_timers) + 1000 * int 5"
    by (simp_all add: timer_tick_def)
  from checkalarms_serves_due[OF synch_quiet_id rearm_later _ timer_tick_ok[OF demo_timers_ok] this, of UNIV]
  show ?thesis unfolding d using rearm_spares by fastforce
qed


theorem canceltimeout_exact_witness:
  "deadlines 0 (tlist (canceltimeout 200 demo_timers)) = [(100, 3, 20)] \<and>
   deadlines 0 (tlist (canceltimeout 100 demo_timers)) = [(100, 3, 20), (200, 0, 50)]"
  using canceltimeout_exact[OF demo_timers_ok, of 200] canceltimeout_exact[OF demo_timers_ok, of 100] by simp

theorem cancelalltimeouts_exact_witness:
  "deadlines 0 (tlist (cancelalltimeouts demo_timers)) = [(100, 3, 20)]"
  using cancelalltimeouts_exact[OF demo_timers_ok] by simp

end
