(* ===== verification/Cred.thy ===== *)
theory Cred
  imports Kern_State
begin

text \<open>
  User and group identities (\<open>sys/k_prot.c\<close>). A process has a \<open>pcred\<close> with its real and saved ids,
  which points to a \<open>ucred\<close> with its effective ids and groups. Several processes can share one
  \<open>ucred\<close>; \<open>uc_links\<close> counts the references, and an operation that changes a \<open>ucred\<close> first calls
  \<open>copy_cred\<close>.

  The operations return \<open>None\<close> when an assertion fails or a null pointer is dereferenced. The result
  of \<open>kmalloc\<close> is the argument \<open>mem\<close>. Ids are 16 bit and so is \<open>int\<close> (the kernel is compiled with
  16 bit integers), so \<open>-1\<close> in a comparison with an id is \<open>0xffff\<close>.
\<close>

section \<open>Operations\<close>

definition suser :: "ucred \<Rightarrow> bool" where
  "suser cred \<longleftrightarrow> euid cred = 0"

abbreviation (input) cur_pcred :: "kernel \<Rightarrow> pcred" where
  "cur_pcred k \<equiv> pcreds k (p_cred (proc_of k))"

definition upd_pcred :: "nat \<Rightarrow> (pcred \<Rightarrow> pcred) \<Rightarrow> kernel \<Rightarrow> kernel" where
  "upd_pcred c f k = k\<lparr>pcreds := (pcreds k)(c := f (pcreds k c))\<rparr>"

definition upd_ucred :: "nat \<Rightarrow> (ucred \<Rightarrow> ucred) \<Rightarrow> kernel \<Rightarrow> kernel" where
  "upd_ucred u f k = k\<lparr>ucreds := (ucreds k)(u := f (ucreds k u))\<rparr>"

definition sys_pgetuid :: "kernel \<Rightarrow> int" where
  "sys_pgetuid k = uint (ruid (cur_pcred k))"

definition sys_pgetgid :: "kernel \<Rightarrow> int" where
  "sys_pgetgid k = uint (rgid (cur_pcred k))"

definition sys_pgeteuid :: "kernel \<Rightarrow> int" where
  "sys_pgeteuid k = uint (euid (ucreds k (ucr (cur_pcred k))))"

definition sys_pgetegid :: "kernel \<Rightarrow> int" where
  "sys_pgetegid k = uint (egid (ucreds k (ucr (cur_pcred k))))"

text \<open>The inner \<open>None\<close> is the null pointer that \<open>copy_cred\<close> returns without memory.\<close>

definition copy_cred :: "nat option \<Rightarrow> nat \<Rightarrow> kernel \<Rightarrow> (nat option \<times> kernel) option" where
  "copy_cred mem u k =
    (if \<not> 0 < uc_links (ucreds k u) then None
     else if uc_links (ucreds k u) = 1 then Some (Some u, k)
     else (case mem of
             Some n \<Rightarrow>
               (let k = upd_ucred n (\<lambda>_. ucreds k u) k;
                    k = upd_ucred u (\<lambda>c. c\<lparr>uc_links := uc_links c - 1\<rparr>) k
                in Some (Some n, upd_ucred n (\<lambda>c. c\<lparr>uc_links := 1\<rparr>) k))
           | None \<Rightarrow> Some (None, k)))"

text \<open>The address is returned when the structure is freed.\<close>

definition free_cred :: "nat \<Rightarrow> kernel \<Rightarrow> (nat option \<times> kernel) option" where
  "free_cred u k =
    (if \<not> 0 < uc_links (ucreds k u) then None
     else (let k = upd_ucred u (\<lambda>c. c\<lparr>uc_links := uc_links c - 1\<rparr>) k
           in Some (if uc_links (ucreds k u) = 0 then Some u else None, k)))"

text \<open>\<open>cred->ucr = copy_cred(cred->ucr)\<close>, then a change of \<open>*cred->ucr\<close>.\<close>

definition change_ucred :: "nat option \<Rightarrow> nat \<Rightarrow> (ucred \<Rightarrow> ucred) \<Rightarrow> kernel \<Rightarrow> kernel option" where
  "change_ucred mem c f k =
    (case copy_cred mem (ucr (pcreds k c)) k of
       None \<Rightarrow> None
     | Some (None, k) \<Rightarrow> None
     | Some (Some n, k) \<Rightarrow> Some (upd_ucred n f (upd_pcred c (\<lambda>x. x\<lparr>ucr := n\<rparr>) k)))"

definition proc_setuid :: "nat option \<Rightarrow> pptr \<Rightarrow> u16 \<Rightarrow> kernel \<Rightarrow> (int \<times> kernel) option" where
  "proc_setuid mem p uid k =
    (let c = p_cred (procs k p); cred = pcreds k c; uc = ucreds k (ucr cred)
     in if ruid cred \<noteq> uid \<and> \<not> suser uc then Some (EACCES, k)
        else if ruid cred = uid \<and> suid cred = uid \<and> euid uc = uid then Some (uint uid, k)
        else (case change_ucred mem c (\<lambda>x. x\<lparr>euid := uid\<rparr>) k of
                None \<Rightarrow> None
              | Some k \<Rightarrow> Some (uint uid, upd_pcred c (\<lambda>x. x\<lparr>ruid := uid, suid := uid\<rparr>) k)))"

definition sys_psetuid :: "nat option \<Rightarrow> u16 \<Rightarrow> kernel \<Rightarrow> (int \<times> kernel) option" where
  "sys_psetuid mem uid k = proc_setuid mem (curproc k) uid k"

definition proc_setgid :: "nat option \<Rightarrow> pptr \<Rightarrow> u16 \<Rightarrow> kernel \<Rightarrow> (int \<times> kernel) option" where
  "proc_setgid mem p gid k =
    (let c = p_cred (procs k p); cred = pcreds k c; uc = ucreds k (ucr cred)
     in if rgid cred \<noteq> gid \<and> \<not> suser uc then Some (EACCES, k)
        else if rgid cred = gid \<and> egid uc = gid \<and> sgid cred = gid then Some (uint gid, k)
        else (case change_ucred mem c (\<lambda>x. x\<lparr>egid := gid\<rparr>) k of
                None \<Rightarrow> None
              | Some k \<Rightarrow> Some (uint gid, upd_pcred c (\<lambda>x. x\<lparr>rgid := gid, sgid := gid\<rparr>) k)))"

definition sys_psetgid :: "nat option \<Rightarrow> u16 \<Rightarrow> kernel \<Rightarrow> (int \<times> kernel) option" where
  "sys_psetgid mem gid k = proc_setgid mem (curproc k) gid k"

definition sys_psetreuid :: "nat option \<Rightarrow> u16 \<Rightarrow> u16 \<Rightarrow> kernel \<Rightarrow> (int \<times> kernel) option" where
  "sys_psetreuid mem r e k =
    (let c = p_cred (proc_of k); cred = pcreds k c; uc = ucreds k (ucr cred)
     in if r \<noteq> - 1 \<and> r \<noteq> ruid cred \<and> r \<noteq> euid uc \<and> \<not> suser uc then Some (EACCES, k)
        else if e \<noteq> - 1 \<and> e \<noteq> ruid cred \<and> e \<noteq> euid uc \<and> e \<noteq> suid cred \<and> \<not> suser uc
        then Some (EACCES, k)
        else (case (if e \<noteq> - 1 \<and> e \<noteq> euid uc then change_ucred mem c (\<lambda>x. x\<lparr>euid := e\<rparr>) k else Some k) of
                None \<Rightarrow> None
              | Some k \<Rightarrow>
                  (let eu = euid (ucreds k (ucr (pcreds k c)))
                   in Some (E_OK, if r \<noteq> - 1 \<and> (ruid (pcreds k c) \<noteq> r \<or> suid (pcreds k c) \<noteq> eu)
                                  then upd_pcred c (\<lambda>x. x\<lparr>ruid := r, suid := eu\<rparr>) k else k))))"

definition sys_psetregid :: "nat option \<Rightarrow> u16 \<Rightarrow> u16 \<Rightarrow> kernel \<Rightarrow> (int \<times> kernel) option" where
  "sys_psetregid mem r e k =
    (let c = p_cred (proc_of k); cred = pcreds k c; uc = ucreds k (ucr cred)
     in if r \<noteq> - 1 \<and> r \<noteq> rgid cred \<and> r \<noteq> egid uc \<and> \<not> suser uc then Some (EACCES, k)
        else if e \<noteq> - 1 \<and> e \<noteq> rgid cred \<and> e \<noteq> egid uc \<and> e \<noteq> sgid cred \<and> \<not> suser uc
        then Some (EACCES, k)
        else (case (if e \<noteq> - 1 \<and> egid uc \<noteq> e then change_ucred mem c (\<lambda>x. x\<lparr>egid := e\<rparr>) k else Some k) of
                None \<Rightarrow> None
              | Some k \<Rightarrow>
                  (let eg = egid (ucreds k (ucr (pcreds k c)))
                   in Some (E_OK, if r \<noteq> - 1 \<and> (rgid (pcreds k c) \<noteq> r \<or> sgid (pcreds k c) \<noteq> eg)
                                  then upd_pcred c (\<lambda>x. x\<lparr>rgid := r, sgid := eg\<rparr>) k else k))))"

definition sys_pseteuid :: "nat option \<Rightarrow> u16 \<Rightarrow> kernel \<Rightarrow> (int \<times> kernel) option" where
  "sys_pseteuid mem e k =
    map_option (\<lambda>(r, k). (if r = 0 then uint e else EACCES, k)) (sys_psetreuid mem (- 1) e k)"

definition sys_psetegid :: "nat option \<Rightarrow> u16 \<Rightarrow> kernel \<Rightarrow> (int \<times> kernel) option" where
  "sys_psetegid mem e k =
    map_option (\<lambda>(r, k). (if r = 0 then uint e else EACCES, k)) (sys_psetregid mem (- 1) e k)"

text \<open>
  \<open>gidset\<close> is the caller's memory from the pointer on. The length is compared with the unsigned
  \<open>ngroups\<close> in 16 bits, so a negative one counts as a large one.
\<close>

fun write_groups :: "u16 list \<Rightarrow> nat \<Rightarrow> (nat \<Rightarrow> u16) \<Rightarrow> nat \<Rightarrow> u16" where
  "write_groups [] i g = g"
| "write_groups (x # xs) i g = write_groups xs (Suc i) (g(i := x))"

definition sys_pgetgroups :: "u16 \<Rightarrow> (nat \<Rightarrow> u16) \<Rightarrow> kernel \<Rightarrow> int \<times> (nat \<Rightarrow> u16)" where
  "sys_pgetgroups gidsetlen gidset k =
    (let cred = ucreds k (ucr (cur_pcred k))
     in if gidsetlen = 0 then (int (ngroups cred), gidset)
        else if unat gidsetlen < ngroups cred then (EBADARG, gidset)
        else (int (ngroups cred), write_groups (take (ngroups cred) (groups cred)) 0 gidset))"

definition sys_psetgroups ::
  "nat option \<Rightarrow> u16 \<Rightarrow> (nat \<Rightarrow> u16) \<Rightarrow> kernel \<Rightarrow> (int \<times> kernel) option" where
  "sys_psetgroups mem n gidset k =
    (let c = p_cred (proc_of k); uc = ucreds k (ucr (pcreds k c))
     in if \<not> suser uc then Some (EACCES, k)
        else if sint n < 0 \<or> sint n > NGROUPS then Some (EBADARG, k)
        else (let gs = map gidset [0..<unat n]
              in if ngroups uc = unat n \<and> gs = take (unat n) (groups uc) then Some (sint n, k)
                 else (case change_ucred mem c
                          (\<lambda>x. x\<lparr>ngroups := unat n, groups := gs @ drop (unat n) (groups x)\<rparr>) k of
                         None \<Rightarrow> None
                       | Some k \<Rightarrow> Some (sint n, k))))"

definition groupmember :: "ucred \<Rightarrow> u16 \<Rightarrow> bool" where
  "groupmember cred gid \<longleftrightarrow> list_ex (\<lambda>i. groups cred ! i = gid) [0..<ngroups cred]"


section \<open>Shared credentials\<close>

text \<open>The identity of a process, as the other parts of the kernel see it.\<close>

record ids =
  i_ruid :: u16
  i_euid :: u16
  i_suid :: u16
  i_rgid :: u16
  i_egid :: u16
  i_sgid :: u16
  i_groups :: "u16 list"

definition pcred_of :: "kernel \<Rightarrow> pptr \<Rightarrow> pcred" where
  "pcred_of k p = pcreds k (p_cred (procs k p))"

definition ucred_of :: "kernel \<Rightarrow> pptr \<Rightarrow> ucred" where
  "ucred_of k p = ucreds k (ucr (pcred_of k p))"

definition ids_of :: "kernel \<Rightarrow> pptr \<Rightarrow> ids" where
  "ids_of k p = \<lparr>i_ruid = ruid (pcred_of k p), i_euid = euid (ucred_of k p), i_suid = suid (pcred_of k p),
     i_rgid = rgid (pcred_of k p), i_egid = egid (ucred_of k p), i_sgid = sgid (pcred_of k p),
     i_groups = take (ngroups (ucred_of k p)) (groups (ucred_of k p))\<rparr>"

definition users :: "kernel \<Rightarrow> nat \<Rightarrow> pptr set" where
  "users k u = {p \<in> set (proclist k). ucr (pcred_of k p) = u}"

text \<open>
  Every process has a \<open>pcred\<close> of its own, each \<open>ucred\<close> has at least as many links as processes
  that use it, and its group list is in bounds.
\<close>

definition creds_ok :: "kernel \<Rightarrow> bool" where
  "creds_ok k \<longleftrightarrow> inj_on (\<lambda>p. p_cred (procs k p)) (set (proclist k)) \<and> curproc k \<in> set (proclist k) \<and>
     (\<forall>p\<in>set (proclist k). int (card (users k (ucr (pcred_of k p)))) \<le> uc_links (ucred_of k p) \<and>
        length (groups (ucred_of k p)) = 8 \<and> ngroups (ucred_of k p) \<le> 8)"

text \<open>What \<open>kmalloc\<close> returns is not in use.\<close>

definition fresh_ucred :: "nat option \<Rightarrow> kernel \<Rightarrow> bool" where
  "fresh_ucred mem k \<longleftrightarrow> (\<forall>n. mem = Some n \<longrightarrow> users k n = {})"

lemma users_finite [simp]: "finite (users k u)"
  by (simp add: users_def)

text \<open>A change of the credentials of \<open>p\<close>: the effect of \<open>change_ucred\<close> with a private copy.\<close>

definition ucred_pure :: "(ucred \<Rightarrow> ucred) \<Rightarrow> bool" where
  "ucred_pure f \<longleftrightarrow> (\<forall>x n. f (x\<lparr>uc_links := n\<rparr>) = (f x)\<lparr>uc_links := n\<rparr>) \<and> (\<forall>x. uc_links (f x) = uc_links x) \<and>
     (\<forall>x. length (groups x) = 8 \<and> ngroups x \<le> 8 \<longrightarrow> length (groups (f x)) = 8 \<and> ngroups (f x) \<le> 8)"

definition cred_frame :: "kernel \<Rightarrow> kernel \<Rightarrow> bool" where
  "cred_frame k k' \<longleftrightarrow> procs k' = procs k \<and> proclist k' = proclist k \<and> curproc k' = curproc k"

definition same_ucred :: "ucred \<Rightarrow> ucred \<Rightarrow> bool" where
  "same_ucred x y \<longleftrightarrow> x\<lparr>uc_links := 0\<rparr> = y\<lparr>uc_links := 0\<rparr>"

lemma same_ucredD:
  "same_ucred x y \<Longrightarrow> euid x = euid y \<and> egid x = egid y \<and> groups x = groups y \<and> ngroups x = ngroups y"
  by (cases x; cases y) (simp add: same_ucred_def)

lemma creds_okD:
  assumes "creds_ok k" "p \<in> set (proclist k)"
  shows "int (card (users k (ucr (pcred_of k p)))) \<le> uc_links (ucred_of k p)" "1 \<le> uc_links (ucred_of k p)"
    "length (groups (ucred_of k p)) = 8" "ngroups (ucred_of k p) \<le> 8"
proof -
  show 1: "int (card (users k (ucr (pcred_of k p)))) \<le> uc_links (ucred_of k p)"
    "length (groups (ucred_of k p)) = 8" "ngroups (ucred_of k p) \<le> 8"
    using assms by (auto simp: creds_ok_def)
  have "p \<in> users k (ucr (pcred_of k p))" using assms(2) by (simp add: users_def)
  then have "0 < card (users k (ucr (pcred_of k p)))" by (auto simp: card_gt_0_iff)
  with 1(1) show "1 \<le> uc_links (ucred_of k p)" by simp
qed

lemma upd_cred_fields [simp]:
  "procs (upd_ucred u f k) = procs k" "proclist (upd_ucred u f k) = proclist k"
  "curproc (upd_ucred u f k) = curproc k" "pcreds (upd_ucred u f k) = pcreds k"
  "ucreds (upd_ucred u f k) = (ucreds k)(u := f (ucreds k u))"
  "procs (upd_pcred c g k) = procs k" "proclist (upd_pcred c g k) = proclist k"
  "curproc (upd_pcred c g k) = curproc k" "ucreds (upd_pcred c g k) = ucreds k"
  "pcreds (upd_pcred c g k) = (pcreds k)(c := g (pcreds k c))"
  by (simp_all add: upd_ucred_def upd_pcred_def)

lemma change_ucred_private:
  assumes ok: "creds_ok k" and p: "p \<in> set (proclist k)" and f: "ucred_pure f"
    and priv: "uc_links (ucred_of k p) = 1"
  shows "\<exists>k'. change_ucred mem (p_cred (procs k p)) f k = Some k' \<and> creds_ok k' \<and> cred_frame k k' \<and>
    pcreds k' = pcreds k \<and> same_ucred (ucred_of k' p) (f (ucred_of k p)) \<and>
    (\<forall>q\<in>set (proclist k). q \<noteq> p \<longrightarrow> same_ucred (ucred_of k' q) (ucred_of k q))"
proof -
  let ?u = "ucr (pcred_of k p)"
  let ?k = "upd_ucred ?u f k"
  have k': "change_ucred mem (p_cred (procs k p)) f k = Some ?k"
    using priv by (simp add: change_ucred_def copy_cred_def ucred_of_def pcred_of_def upd_pcred_def upd_ucred_def
        fun_upd_idem)
  have alone: "ucr (pcred_of k q) \<noteq> ?u" if q: "q \<in> set (proclist k)" "q \<noteq> p" for q
  proof
    assume "ucr (pcred_of k q) = ?u"
    then have "{p, q} \<subseteq> users k ?u" using q p by (auto simp: users_def)
    then have "card {p, q} \<le> card (users k ?u)" by (intro card_mono) simp_all
    then show False using creds_okD(1)[OF ok p] priv q by simp
  qed
  have pc: "pcred_of ?k q = pcred_of k q" for q by (simp add: pcred_of_def)
  have us: "users ?k u = users k u" for u by (simp add: users_def pc)
  have uc: "ucred_of ?k q = (if ucr (pcred_of k q) = ?u then f (ucred_of k q) else ucred_of k q)" for q
    by (simp add: ucred_of_def pc)
  have "creds_ok ?k"
    using ok f unfolding creds_ok_def us uc pc by (auto simp: ucred_pure_def)
  then show ?thesis
    using k' alone by (intro exI[of _ ?k]) (auto simp: cred_frame_def uc same_ucred_def)
qed


lemma change_ucred_shared:
  assumes ok: "creds_ok k" and p: "p \<in> set (proclist k)" and f: "ucred_pure f"
    and shared: "uc_links (ucred_of k p) \<noteq> 1" and fresh: "users k n = {}"
  shows "\<exists>k'. change_ucred (Some n) (p_cred (procs k p)) f k = Some k' \<and> creds_ok k' \<and> cred_frame k k' \<and>
    pcreds k' = (pcreds k)(p_cred (procs k p) := (pcred_of k p)\<lparr>ucr := n\<rparr>) \<and>
    same_ucred (ucred_of k' p) (f (ucred_of k p)) \<and>
    (\<forall>q\<in>set (proclist k). q \<noteq> p \<longrightarrow> same_ucred (ucred_of k' q) (ucred_of k q))"
proof -
  let ?c = "p_cred (procs k p)" and ?u = "ucr (pcred_of k p)"
  have nu: "n \<noteq> ?u" using fresh p by (auto simp: users_def)
  define k' where "k' = k\<lparr>ucreds := (ucreds k)(?u := (ucred_of k p)\<lparr>uc_links := uc_links (ucred_of k p) - 1\<rparr>,
      n := f ((ucred_of k p)\<lparr>uc_links := 1\<rparr>)), pcreds := (pcreds k)(?c := (pcred_of k p)\<lparr>ucr := n\<rparr>)\<rparr>"
  have links: "0 < uc_links (ucred_of k p)" using creds_okD(2)[OF ok p] by simp
  have k': "change_ucred (Some n) ?c f k = Some k'"
    using links shared nu
    by (simp add: change_ucred_def copy_cred_def ucred_of_def pcred_of_def upd_pcred_def upd_ucred_def k'_def Let_def
        fun_upd_twist)
  have other: "p_cred (procs k q) \<noteq> ?c" if "q \<in> set (proclist k)" "q \<noteq> p" for q
    using ok that p by (auto simp: creds_ok_def inj_on_def)
  have [simp]: "procs k' = procs k" "proclist k' = proclist k" "curproc k' = curproc k"
    by (simp_all add: k'_def)
  have pc: "pcred_of k' q = pcred_of k q" if "q \<in> set (proclist k)" "q \<noteq> p" for q
    using other[OF that] by (simp add: pcred_of_def k'_def)
  have pcp: "pcred_of k' p = (pcred_of k p)\<lparr>ucr := n\<rparr>" by (simp add: pcred_of_def k'_def)
  have nq: "ucr (pcred_of k q) \<noteq> n" if "q \<in> set (proclist k)" for q
    using fresh that by (auto simp: users_def)
  have us: "users k' (ucr (pcred_of k q)) = users k (ucr (pcred_of k q)) - {p}" if q: "q \<in> set (proclist k)" for q
  proof -
    have "ucr (pcred_of k' r) = ucr (pcred_of k q) \<longleftrightarrow> r \<noteq> p \<and> ucr (pcred_of k r) = ucr (pcred_of k q)"
      if "r \<in> set (proclist k)" for r
      using pc[OF that] pcp nq[OF q] by (cases "r = p") auto
    then show ?thesis by (auto simp: users_def)
  qed
  have usn: "users k' n = {p}" using pc pcp nq p by (force simp: users_def)
  have ucp: "ucred_of k' p = f ((ucred_of k p)\<lparr>uc_links := 1\<rparr>)"
    unfolding ucred_of_def[of k'] pcp by (simp add: k'_def)
  have uc: "ucred_of k' q = (if ucr (pcred_of k q) = ?u
      then (ucred_of k q)\<lparr>uc_links := uc_links (ucred_of k q) - 1\<rparr> else ucred_of k q)"
    if "q \<in> set (proclist k)" "q \<noteq> p" for q
    unfolding ucred_of_def[of k'] pc[OF that] using nq[OF that(1)] by (simp add: k'_def ucred_of_def)
  have "creds_ok k'"
    unfolding creds_ok_def
  proof (intro conjI ballI)
    show "inj_on (\<lambda>q. p_cred (procs k' q)) (set (proclist k'))" "curproc k' \<in> set (proclist k')"
      using ok by (simp_all add: creds_ok_def)
    fix q assume "q \<in> set (proclist k')"
    then have q: "q \<in> set (proclist k)" by simp
    note D = creds_okD[OF ok q] creds_okD[OF ok p]
    show "int (card (users k' (ucr (pcred_of k' q)))) \<le> uc_links (ucred_of k' q)"
    proof (cases "q = p")
      case True
      then show ?thesis using f by (simp add: pcp usn ucp ucred_pure_def)
    next
      case False
      then have "card (users k (ucr (pcred_of k q)) - {p}) =
        card (users k (ucr (pcred_of k q))) - (if ucr (pcred_of k q) = ?u then 1 else 0)"
        using p by (auto simp: users_def card_Diff_singleton_if)
      moreover have "0 < card (users k (ucr (pcred_of k q)))" using q by (auto simp: card_gt_0_iff users_def)
      ultimately show ?thesis using D(1) by (auto simp: pc[OF q False] us[OF q] uc[OF q False])
    qed
    show "length (groups (ucred_of k' q)) = 8" "ngroups (ucred_of k' q) \<le> 8"
      using D f uc[OF q] ucp by (cases "q = p"; simp add: ucred_pure_def)+
  qed
  moreover have "same_ucred (ucred_of k' p) (f (ucred_of k p))"
    using f by (simp add: ucp ucred_pure_def same_ucred_def)
  ultimately show ?thesis
    using k' uc by (intro exI[of _ k']) (auto simp: cred_frame_def same_ucred_def k'_def)
qed

text \<open>The memory suffices when the \<open>ucred\<close> is not shared or \<open>kmalloc\<close> succeeds.\<close>

definition enough_mem :: "nat option \<Rightarrow> pptr \<Rightarrow> kernel \<Rightarrow> bool" where
  "enough_mem mem p k \<longleftrightarrow> mem \<noteq> None \<or> uc_links (ucred_of k p) = 1"

lemma change_ucred_ok:
  assumes "creds_ok k" "p \<in> set (proclist k)" "ucred_pure f" "fresh_ucred mem k" "enough_mem mem p k"
  shows "\<exists>k'. change_ucred mem (p_cred (procs k p)) f k = Some k' \<and> creds_ok k' \<and> cred_frame k k' \<and>
    (pcred_of k' p)\<lparr>ucr := 0\<rparr> = (pcred_of k p)\<lparr>ucr := 0\<rparr> \<and> same_ucred (ucred_of k' p) (f (ucred_of k p)) \<and>
    (\<forall>q\<in>set (proclist k). q \<noteq> p \<longrightarrow> ids_of k' q = ids_of k q)"
proof -
  have other: "p_cred (procs k q) \<noteq> p_cred (procs k p)" if "q \<in> set (proclist k)" "q \<noteq> p" for q
    using assms(1,2) that by (auto simp: creds_ok_def inj_on_def)
  have ids: "ids_of k' q = ids_of k q"
    if "same_ucred (ucred_of k' q) (ucred_of k q)" "pcred_of k' q = pcred_of k q" for k' q
    using same_ucredD[OF that(1)] that(2) by (simp add: ids_of_def)
  show ?thesis
  proof (cases "uc_links (ucred_of k p) = 1")
    case True
    from change_ucred_private[OF assms(1,2,3) True, of mem] show ?thesis
      using ids by (fastforce simp: pcred_of_def cred_frame_def)
  next
    case False
    then obtain n where n: "mem = Some n" "users k n = {}"
      using assms(4,5) by (auto simp: fresh_ucred_def enough_mem_def)
    obtain k' where k': "change_ucred mem (p_cred (procs k p)) f k = Some k'" "creds_ok k'" "cred_frame k k'"
      "pcreds k' = (pcreds k)(p_cred (procs k p) := (pcred_of k p)\<lparr>ucr := n\<rparr>)"
      "same_ucred (ucred_of k' p) (f (ucred_of k p))"
      "\<forall>q\<in>set (proclist k). q \<noteq> p \<longrightarrow> same_ucred (ucred_of k' q) (ucred_of k q)"
      using change_ucred_shared[OF assms(1,2,3) False n(2)] n(1) by blast
    have "pcred_of k' q = pcred_of k q" if "q \<in> set (proclist k)" "q \<noteq> p" for q
      using other[OF that] k'(3,4) by (simp add: pcred_of_def cred_frame_def)
    moreover have "(pcred_of k' p)\<lparr>ucr := 0\<rparr> = (pcred_of k p)\<lparr>ucr := 0\<rparr>"
      using k'(3,4) by (simp add: pcred_of_def cred_frame_def)
    ultimately show ?thesis using k' ids by blast
  qed
qed


lemma upd_pcred_ok:
  assumes "creds_ok k" "p \<in> set (proclist k)" "\<And>x. ucr (g x) = ucr x"
  defines "k' \<equiv> upd_pcred (p_cred (procs k p)) g k"
  shows "creds_ok k' \<and> cred_frame k k' \<and> pcred_of k' p = g (pcred_of k p) \<and> ucred_of k' p = ucred_of k p \<and>
    (\<forall>q\<in>set (proclist k). q \<noteq> p \<longrightarrow> ids_of k' q = ids_of k q)"
proof -
  have other: "p_cred (procs k q) \<noteq> p_cred (procs k p)" if "q \<in> set (proclist k)" "q \<noteq> p" for q
    using assms(1,2) that by (auto simp: creds_ok_def inj_on_def)
  have pc: "pcred_of k' q = (if p_cred (procs k q) = p_cred (procs k p) then g (pcred_of k q) else pcred_of k q)" for q
    by (simp add: k'_def pcred_of_def)
  then have u: "ucr (pcred_of k' q) = ucr (pcred_of k q)" for q by (simp add: assms(3))
  then have uc: "ucred_of k' q = ucred_of k q" for q by (simp add: ucred_of_def k'_def)
  have us: "users k' u' = users k u'" for u' unfolding users_def u by (simp add: k'_def)
  have fr: "cred_frame k k'" by (simp add: cred_frame_def k'_def)
  have "creds_ok k'"
    using assms(1) fr unfolding creds_ok_def us uc u by (simp add: cred_frame_def)
  moreover have "ids_of k' q = ids_of k q" if "q \<in> set (proclist k)" "q \<noteq> p" for q
    using other[OF that] by (simp add: ids_of_def uc pc)
  ultimately show ?thesis using fr pc uc by simp
qed

section \<open>The system calls and their specification\<close>

datatype cred_call = Psetuid u16 | Psetgid u16 | Psetreuid u16 u16 | Psetregid u16 u16
  | Pseteuid u16 | Psetegid u16 | Psetgroups u16 "nat \<Rightarrow> u16"

fun cred_exec :: "nat option \<Rightarrow> cred_call \<Rightarrow> kernel \<Rightarrow> (int \<times> kernel) option" where
  "cred_exec mem (Psetuid u) k = sys_psetuid mem u k"
| "cred_exec mem (Psetgid g) k = sys_psetgid mem g k"
| "cred_exec mem (Psetreuid r e) k = sys_psetreuid mem r e k"
| "cred_exec mem (Psetregid r e) k = sys_psetregid mem r e k"
| "cred_exec mem (Pseteuid e) k = sys_pseteuid mem e k"
| "cred_exec mem (Psetegid e) k = sys_psetegid mem e k"
| "cred_exec mem (Psetgroups n gs) k = sys_psetgroups mem n gs k"

text \<open>What the calls do to the identity of the caller, with no sharing in sight.\<close>

definition spec_setreuid :: "u16 \<Rightarrow> u16 \<Rightarrow> ids \<Rightarrow> int \<times> ids" where
  "spec_setreuid r e v =
    (if r \<noteq> - 1 \<and> r \<notin> {i_ruid v, i_euid v} \<and> i_euid v \<noteq> 0 \<or>
        e \<noteq> - 1 \<and> e \<notin> {i_ruid v, i_euid v, i_suid v} \<and> i_euid v \<noteq> 0 then (EACCES, v)
     else let v = (if e \<noteq> - 1 then v\<lparr>i_euid := e\<rparr> else v)
          in (E_OK, if r \<noteq> - 1 then v\<lparr>i_ruid := r, i_suid := i_euid v\<rparr> else v))"

definition spec_setregid :: "u16 \<Rightarrow> u16 \<Rightarrow> ids \<Rightarrow> int \<times> ids" where
  "spec_setregid r e v =
    (if r \<noteq> - 1 \<and> r \<notin> {i_rgid v, i_egid v} \<and> i_euid v \<noteq> 0 \<or>
        e \<noteq> - 1 \<and> e \<notin> {i_rgid v, i_egid v, i_sgid v} \<and> i_euid v \<noteq> 0 then (EACCES, v)
     else let v = (if e \<noteq> - 1 then v\<lparr>i_egid := e\<rparr> else v)
          in (E_OK, if r \<noteq> - 1 then v\<lparr>i_rgid := r, i_sgid := i_egid v\<rparr> else v))"

fun cred_spec :: "cred_call \<Rightarrow> ids \<Rightarrow> int \<times> ids" where
  "cred_spec (Psetuid u) v =
    (if u \<noteq> i_ruid v \<and> i_euid v \<noteq> 0 then (EACCES, v)
     else (uint u, v\<lparr>i_ruid := u, i_euid := u, i_suid := u\<rparr>))"
| "cred_spec (Psetgid g) v =
    (if g \<noteq> i_rgid v \<and> i_euid v \<noteq> 0 then (EACCES, v)
     else (uint g, v\<lparr>i_rgid := g, i_egid := g, i_sgid := g\<rparr>))"
| "cred_spec (Psetreuid r e) v = spec_setreuid r e v"
| "cred_spec (Psetregid r e) v = spec_setregid r e v"
| "cred_spec (Pseteuid e) v =
    (case spec_setreuid (- 1) e v of (r, v) \<Rightarrow> (if r = E_OK then uint e else EACCES, v))"
| "cred_spec (Psetegid e) v =
    (case spec_setregid (- 1) e v of (r, v) \<Rightarrow> (if r = E_OK then uint e else EACCES, v))"
| "cred_spec (Psetgroups n gs) v =
    (if i_euid v \<noteq> 0 then (EACCES, v)
     else if sint n < 0 \<or> 8 < sint n then (EBADARG, v)
     else (sint n, v\<lparr>i_groups := map gs [0..<unat n]\<rparr>))"

definition implements :: "kernel \<Rightarrow> pptr \<Rightarrow> int \<times> ids \<Rightarrow> (int \<times> kernel) option \<Rightarrow> bool" where
  "implements k p rv res \<longleftrightarrow> (case res of None \<Rightarrow> False | Some (r, k') \<Rightarrow>
     creds_ok k' \<and> cred_frame k k' \<and> rv = (r, ids_of k' p) \<and>
     (\<forall>q\<in>set (proclist k). q \<noteq> p \<longrightarrow> ids_of k' q = ids_of k q))"

lemma implements_same:
  "creds_ok k \<Longrightarrow> v = ids_of k p \<Longrightarrow> implements k p (r, v) (Some (r, k))"
  by (simp add: implements_def cred_frame_def)

text \<open>A change of the \<open>ucred\<close> followed by a change of the ids in the \<open>pcred\<close>.\<close>

lemma implements_change:
  assumes "creds_ok k" "p \<in> set (proclist k)" "ucred_pure f" "fresh_ucred mem k" "enough_mem mem p k"
    and g: "\<And>x. ucr (g x) = ucr x"
    and v: "\<And>k'. (pcred_of k' p)\<lparr>ucr := 0\<rparr> = (g (pcred_of k p))\<lparr>ucr := 0\<rparr> \<Longrightarrow>
        same_ucred (ucred_of k' p) (f (ucred_of k p)) \<Longrightarrow> rv = (r, ids_of k' p)"
    and gc: "\<And>x y. x\<lparr>ucr := 0\<rparr> = y\<lparr>ucr := 0\<rparr> \<Longrightarrow> (g x)\<lparr>ucr := 0\<rparr> = (g y)\<lparr>ucr := 0\<rparr>"
  shows "implements k p rv (case change_ucred mem (p_cred (procs k p)) f k of None \<Rightarrow> None
    | Some k1 \<Rightarrow> Some (r, upd_pcred (p_cred (procs k p)) g k1))"
proof -
  obtain k1 where 1: "change_ucred mem (p_cred (procs k p)) f k = Some k1" "creds_ok k1" "cred_frame k k1"
    "(pcred_of k1 p)\<lparr>ucr := 0\<rparr> = (pcred_of k p)\<lparr>ucr := 0\<rparr>" "same_ucred (ucred_of k1 p) (f (ucred_of k p))"
    "\<forall>q\<in>set (proclist k). q \<noteq> p \<longrightarrow> ids_of k1 q = ids_of k q"
    using change_ucred_ok[OF assms(1-5)] by blast
  have p1: "p \<in> set (proclist k1)" using assms(2) 1(3) by (simp add: cred_frame_def)
  define k2 where "k2 = upd_pcred (p_cred (procs k1 p)) g k1"
  note 2 = upd_pcred_ok[OF 1(2) p1 g, folded k2_def]
  have "(pcred_of k2 p)\<lparr>ucr := 0\<rparr> = (g (pcred_of k p))\<lparr>ucr := 0\<rparr>"
    using 2 gc[OF 1(4)] by simp
  moreover have "same_ucred (ucred_of k2 p) (f (ucred_of k p))" using 2 1(5) by simp
  ultimately have rv: "rv = (r, ids_of k2 p)" by (rule v)
  moreover have "procs k1 = procs k" "cred_frame k k2" using 1(3) 2 by (simp_all add: cred_frame_def)
  moreover have "\<forall>q\<in>set (proclist k). q \<noteq> p \<longrightarrow> ids_of k2 q = ids_of k q"
    using 2 1(3,6) by (simp add: cred_frame_def)
  ultimately show ?thesis using 1(1) 2 by (simp add: implements_def k2_def)
qed

lemma pcred_ids:
  "(x :: pcred)\<lparr>ucr := 0\<rparr> = y\<lparr>ucr := 0\<rparr> \<longleftrightarrow> ruid x = ruid y \<and> rgid x = rgid y \<and> suid x = suid y \<and> sgid x = sgid y \<and> pc_links x = pc_links y"
  by (cases x; cases y) auto

lemma ids_of_sel [simp]:
  "i_ruid (ids_of k p) = ruid (pcred_of k p)" "i_suid (ids_of k p) = suid (pcred_of k p)"
  "i_rgid (ids_of k p) = rgid (pcred_of k p)" "i_sgid (ids_of k p) = sgid (pcred_of k p)"
  "i_euid (ids_of k p) = euid (ucred_of k p)" "i_egid (ids_of k p) = egid (ucred_of k p)"
  "i_groups (ids_of k p) = take (ngroups (ucred_of k p)) (groups (ucred_of k p))"
  by (simp_all add: ids_of_def)


lemma ids_eqI:
  "i_ruid v = i_ruid w \<Longrightarrow> i_euid v = i_euid w \<Longrightarrow> i_suid v = i_suid w \<Longrightarrow> i_rgid v = i_rgid w \<Longrightarrow>
   i_egid v = i_egid w \<Longrightarrow> i_sgid v = i_sgid w \<Longrightarrow> i_groups v = i_groups w \<Longrightarrow> (v :: ids) = w"
  by (cases v; cases w) simp

lemma ucred_pure_simps [simp]:
  "ucred_pure (\<lambda>x. x\<lparr>euid := u\<rparr>)" "ucred_pure (\<lambda>x. x\<lparr>egid := u\<rparr>)"
  by (simp_all add: ucred_pure_def)

lemmas cred_views = pcred_of_def [symmetric] ucred_of_def [symmetric]

lemma implements_upd:
  assumes "creds_ok k" "p \<in> set (proclist k)" and g: "\<And>x. ucr (g x) = ucr x"
    and v: "\<And>k'. pcred_of k' p = g (pcred_of k p) \<Longrightarrow> ucred_of k' p = ucred_of k p \<Longrightarrow> rv = (r, ids_of k' p)"
  shows "implements k p rv (Some (r, upd_pcred (p_cred (procs k p)) g k))"
  using upd_pcred_ok[of k p g, OF assms(1,2) g] v by (simp add: implements_def)

lemma proc_setuid_ok:
  assumes "creds_ok k" "p \<in> set (proclist k)" "fresh_ucred mem k" "enough_mem mem p k"
  shows "implements k p (cred_spec (Psetuid u) (ids_of k p)) (proc_setuid mem p u k)"
proof -
  let ?c = "pcred_of k p" and ?u = "ucred_of k p"
  have *: "implements k p (uint u, (ids_of k p)\<lparr>i_ruid := u, i_euid := u, i_suid := u\<rparr>)
    (case change_ucred mem (p_cred (procs k p)) (\<lambda>x. x\<lparr>euid := u\<rparr>) k of None \<Rightarrow> None
     | Some k1 \<Rightarrow> Some (uint u, upd_pcred (p_cred (procs k p)) (\<lambda>x. x\<lparr>ruid := u, suid := u\<rparr>) k1))"
    by (rule implements_change)
      (use assms in \<open>auto simp: pcred_ids dest!: same_ucredD intro!: ids_eqI\<close>)
  show ?thesis
    using *
    by (auto simp: proc_setuid_def Let_def suser_def cred_views intro!: implements_same[OF assms(1)] ids_eqI)
qed

lemma proc_setgid_ok:
  assumes "creds_ok k" "p \<in> set (proclist k)" "fresh_ucred mem k" "enough_mem mem p k"
  shows "implements k p (cred_spec (Psetgid u) (ids_of k p)) (proc_setgid mem p u k)"
proof -
  have *: "implements k p (uint u, (ids_of k p)\<lparr>i_rgid := u, i_egid := u, i_sgid := u\<rparr>)
    (case change_ucred mem (p_cred (procs k p)) (\<lambda>x. x\<lparr>egid := u\<rparr>) k of None \<Rightarrow> None
     | Some k1 \<Rightarrow> Some (uint u, upd_pcred (p_cred (procs k p)) (\<lambda>x. x\<lparr>rgid := u, sgid := u\<rparr>) k1))"
    by (rule implements_change)
      (use assms in \<open>auto simp: pcred_ids dest!: same_ucredD intro!: ids_eqI\<close>)
  show ?thesis
    using *
    by (auto simp: proc_setgid_def Let_def suser_def cred_views intro!: implements_same[OF assms(1)] ids_eqI)
qed


lemma change_ucred_Some:
  assumes "creds_ok k" "p \<in> set (proclist k)" "ucred_pure f" "fresh_ucred mem k" "enough_mem mem p k"
  obtains k1 where "change_ucred mem (p_cred (procs k p)) f k = Some k1" "pcred_of k1 p = pcreds k1 (p_cred (procs k p))"
    "same_ucred (ucred_of k1 p) (f (ucred_of k p))"
proof -
  obtain k1 where "change_ucred mem (p_cred (procs k p)) f k = Some k1" "cred_frame k k1"
    "same_ucred (ucred_of k1 p) (f (ucred_of k p))"
    using change_ucred_ok[OF assms] by blast
  then show ?thesis using that by (simp add: pcred_of_def cred_frame_def)
qed

lemma if_disj_merge: "(if a then x else if b then x else y) = (if a \<or> b then x else y)"
  by simp

lemma set_ids_cond:
  "(if b \<and> (ruid (pcreds k c) \<noteq> r \<or> suid (pcreds k c) \<noteq> e) then upd_pcred c (\<lambda>x. x\<lparr>ruid := r, suid := e\<rparr>) k else k) =
   upd_pcred c (\<lambda>x. if b then x\<lparr>ruid := r, suid := e\<rparr> else x) k"
  "(if b \<and> (rgid (pcreds k c) \<noteq> r \<or> sgid (pcreds k c) \<noteq> e) then upd_pcred c (\<lambda>x. x\<lparr>rgid := r, sgid := e\<rparr>) k else k) =
   upd_pcred c (\<lambda>x. if b then x\<lparr>rgid := r, sgid := e\<rparr> else x) k"
proof -
  have "x\<lparr>ruid := r, suid := e\<rparr> = x" if "ruid x = r" "suid x = e" for x :: pcred using that by (cases x) simp
  then show "(if b \<and> (ruid (pcreds k c) \<noteq> r \<or> suid (pcreds k c) \<noteq> e) then upd_pcred c (\<lambda>x. x\<lparr>ruid := r, suid := e\<rparr>) k
      else k) = upd_pcred c (\<lambda>x. if b then x\<lparr>ruid := r, suid := e\<rparr> else x) k"
    by (auto simp: upd_pcred_def fun_upd_idem)
  have "x\<lparr>rgid := r, sgid := e\<rparr> = x" if "rgid x = r" "sgid x = e" for x :: pcred using that by (cases x) simp
  then show "(if b \<and> (rgid (pcreds k c) \<noteq> r \<or> sgid (pcreds k c) \<noteq> e) then upd_pcred c (\<lambda>x. x\<lparr>rgid := r, sgid := e\<rparr>) k
      else k) = upd_pcred c (\<lambda>x. if b then x\<lparr>rgid := r, sgid := e\<rparr> else x) k"
    by (auto simp: upd_pcred_def fun_upd_idem)
qed

lemma setreuid_change:
  assumes "creds_ok k" "p \<in> set (proclist k)" "fresh_ucred mem k" "enough_mem mem p k"
  shows "\<exists>k1. change_ucred mem (p_cred (procs k p)) (\<lambda>x. x\<lparr>euid := e\<rparr>) k = Some k1 \<and>
    euid (ucreds k1 (ucr (pcreds k1 (p_cred (procs k p))))) = e \<and>
    implements k p (E_OK, if r \<noteq> - 1 then (ids_of k p)\<lparr>i_euid := e, i_ruid := r, i_suid := e\<rparr>
        else (ids_of k p)\<lparr>i_euid := e\<rparr>)
      (Some (E_OK, upd_pcred (p_cred (procs k p)) (\<lambda>x. if r \<noteq> - 1 then x\<lparr>ruid := r, suid := e\<rparr> else x) k1))"
proof -
  let ?c = "p_cred (procs k p)"
  have *: "implements k p (E_OK, if r \<noteq> - 1 then (ids_of k p)\<lparr>i_euid := e, i_ruid := r, i_suid := e\<rparr>
      else (ids_of k p)\<lparr>i_euid := e\<rparr>)
    (case change_ucred mem ?c (\<lambda>x. x\<lparr>euid := e\<rparr>) k of None \<Rightarrow> None
     | Some k1 \<Rightarrow> Some (E_OK, upd_pcred ?c (\<lambda>x. if r \<noteq> - 1 then x\<lparr>ruid := r, suid := e\<rparr> else x) k1))"
    by (rule implements_change)
      (use assms in \<open>auto simp: pcred_ids split: if_splits dest!: same_ucredD intro!: ids_eqI\<close>)
  obtain k1 where k1: "change_ucred mem ?c (\<lambda>x. x\<lparr>euid := e\<rparr>) k = Some k1" "pcred_of k1 p = pcreds k1 ?c"
    and s: "same_ucred (ucred_of k1 p) ((ucred_of k p)\<lparr>euid := e\<rparr>)"
    by (rule change_ucred_Some[OF assms(1,2) _ assms(3,4), of "\<lambda>x. x\<lparr>euid := e\<rparr>"]) simp_all
  have "euid (ucreds k1 (ucr (pcreds k1 ?c))) = e"
    using same_ucredD[OF s] k1(2) by (simp add: ucred_of_def)
  with k1(1) * show ?thesis by simp
qed

lemma spec_setreuid_cases:
  "spec_setreuid r e (ids_of k p) =
    (if r \<noteq> - 1 \<and> r \<noteq> ruid (pcred_of k p) \<and> r \<noteq> euid (ucred_of k p) \<and> euid (ucred_of k p) \<noteq> 0 \<or>
        e \<noteq> - 1 \<and> e \<noteq> ruid (pcred_of k p) \<and> e \<noteq> euid (ucred_of k p) \<and> e \<noteq> suid (pcred_of k p) \<and>
        euid (ucred_of k p) \<noteq> 0
     then (EACCES, ids_of k p)
     else (E_OK, if e \<noteq> - 1 \<and> e \<noteq> euid (ucred_of k p)
      then (if r \<noteq> - 1 then (ids_of k p)\<lparr>i_euid := e, i_ruid := r, i_suid := e\<rparr> else (ids_of k p)\<lparr>i_euid := e\<rparr>)
      else (if r \<noteq> - 1 then (ids_of k p)\<lparr>i_ruid := r, i_suid := euid (ucred_of k p)\<rparr> else ids_of k p)))"
proof -
  have "(ids_of k p)\<lparr>i_euid := euid (ucred_of k p)\<rparr> = ids_of k p" by (intro ids_eqI) simp_all
  then show ?thesis
    unfolding spec_setreuid_def Let_def
    by (cases "e = euid (ucred_of k p)"; cases "e = - 1"; cases "r = - 1") simp_all
qed

lemma sys_psetreuid_ok:
  assumes "creds_ok k" "curproc k = p" "fresh_ucred mem k" "enough_mem mem p k"
  shows "implements k p (spec_setreuid r e (ids_of k p)) (sys_psetreuid mem r e k)"
proof -
  let ?c = "p_cred (procs k p)"
  let ?D = "r \<noteq> - 1 \<and> r \<noteq> ruid (pcred_of k p) \<and> r \<noteq> euid (ucred_of k p) \<and> euid (ucred_of k p) \<noteq> 0 \<or>
        e \<noteq> - 1 \<and> e \<noteq> ruid (pcred_of k p) \<and> e \<noteq> euid (ucred_of k p) \<and> e \<noteq> suid (pcred_of k p) \<and>
        euid (ucred_of k p) \<noteq> 0"
  let ?C = "e \<noteq> - 1 \<and> e \<noteq> euid (ucred_of k p)"
  have p: "p \<in> set (proclist k)" using assms by (auto simp: creds_ok_def)
  note defs = sys_psetreuid_def proc_of_def assms(2) Let_def suser_def set_ids_cond cred_views if_disj_merge
  consider (denied) ?D | (change) "\<not> ?D" ?C | (keep) "\<not> ?D" "\<not> ?C" by blast
  then show ?thesis
  proof cases
    case denied
    show ?thesis
      unfolding defs spec_setreuid_cases if_P[OF denied] using implements_same[OF assms(1) refl] .
  next
    case change
    obtain k1 where k1: "change_ucred mem ?c (\<lambda>x. x\<lparr>euid := e\<rparr>) k = Some k1"
      "euid (ucreds k1 (ucr (pcreds k1 ?c))) = e"
      and i: "implements k p (E_OK, if r \<noteq> - 1 then (ids_of k p)\<lparr>i_euid := e, i_ruid := r, i_suid := e\<rparr>
          else (ids_of k p)\<lparr>i_euid := e\<rparr>)
        (Some (E_OK, upd_pcred ?c (\<lambda>x. if r \<noteq> - 1 then x\<lparr>ruid := r, suid := e\<rparr> else x) k1))"
      using setreuid_change[OF assms(1) p assms(3,4)] by blast
    show ?thesis
      unfolding defs spec_setreuid_cases if_not_P[OF change(1)] if_P[OF change(2)] k1 option.case using i .
  next
    case keep
    have "implements k p (E_OK, if r \<noteq> - 1 then (ids_of k p)\<lparr>i_ruid := r, i_suid := euid (ucred_of k p)\<rparr> else ids_of k p)
      (Some (E_OK, upd_pcred ?c (\<lambda>x. if r \<noteq> - 1 then x\<lparr>ruid := r, suid := euid (ucred_of k p)\<rparr> else x) k))"
      by (rule implements_upd) (use assms p in \<open>auto intro!: ids_eqI\<close>)
    then show ?thesis
      unfolding defs spec_setreuid_cases if_not_P[OF keep(1)] if_not_P[OF keep(2)] option.case cred_views .
  qed
qed

lemma setregid_change:
  assumes "creds_ok k" "p \<in> set (proclist k)" "fresh_ucred mem k" "enough_mem mem p k"
  shows "\<exists>k1. change_ucred mem (p_cred (procs k p)) (\<lambda>x. x\<lparr>egid := e\<rparr>) k = Some k1 \<and>
    egid (ucreds k1 (ucr (pcreds k1 (p_cred (procs k p))))) = e \<and>
    implements k p (E_OK, if r \<noteq> - 1 then (ids_of k p)\<lparr>i_egid := e, i_rgid := r, i_sgid := e\<rparr>
        else (ids_of k p)\<lparr>i_egid := e\<rparr>)
      (Some (E_OK, upd_pcred (p_cred (procs k p)) (\<lambda>x. if r \<noteq> - 1 then x\<lparr>rgid := r, sgid := e\<rparr> else x) k1))"
proof -
  let ?c = "p_cred (procs k p)"
  have *: "implements k p (E_OK, if r \<noteq> - 1 then (ids_of k p)\<lparr>i_egid := e, i_rgid := r, i_sgid := e\<rparr>
      else (ids_of k p)\<lparr>i_egid := e\<rparr>)
    (case change_ucred mem ?c (\<lambda>x. x\<lparr>egid := e\<rparr>) k of None \<Rightarrow> None
     | Some k1 \<Rightarrow> Some (E_OK, upd_pcred ?c (\<lambda>x. if r \<noteq> - 1 then x\<lparr>rgid := r, sgid := e\<rparr> else x) k1))"
    by (rule implements_change)
      (use assms in \<open>auto simp: pcred_ids split: if_splits dest!: same_ucredD intro!: ids_eqI\<close>)
  obtain k1 where k1: "change_ucred mem ?c (\<lambda>x. x\<lparr>egid := e\<rparr>) k = Some k1" "pcred_of k1 p = pcreds k1 ?c"
    and s: "same_ucred (ucred_of k1 p) ((ucred_of k p)\<lparr>egid := e\<rparr>)"
    by (rule change_ucred_Some[OF assms(1,2) _ assms(3,4), of "\<lambda>x. x\<lparr>egid := e\<rparr>"]) simp_all
  have "egid (ucreds k1 (ucr (pcreds k1 ?c))) = e"
    using same_ucredD[OF s] k1(2) by (simp add: ucred_of_def)
  with k1(1) * show ?thesis by simp
qed

lemma spec_setregid_cases:
  "spec_setregid r e (ids_of k p) =
    (if r \<noteq> - 1 \<and> r \<noteq> rgid (pcred_of k p) \<and> r \<noteq> egid (ucred_of k p) \<and> euid (ucred_of k p) \<noteq> 0 \<or>
        e \<noteq> - 1 \<and> e \<noteq> rgid (pcred_of k p) \<and> e \<noteq> egid (ucred_of k p) \<and> e \<noteq> sgid (pcred_of k p) \<and>
        euid (ucred_of k p) \<noteq> 0
     then (EACCES, ids_of k p)
     else (E_OK, if e \<noteq> - 1 \<and> egid (ucred_of k p) \<noteq> e
      then (if r \<noteq> - 1 then (ids_of k p)\<lparr>i_egid := e, i_rgid := r, i_sgid := e\<rparr> else (ids_of k p)\<lparr>i_egid := e\<rparr>)
      else (if r \<noteq> - 1 then (ids_of k p)\<lparr>i_rgid := r, i_sgid := egid (ucred_of k p)\<rparr> else ids_of k p)))"
proof -
  have "(ids_of k p)\<lparr>i_egid := egid (ucred_of k p)\<rparr> = ids_of k p" by (intro ids_eqI) simp_all
  then show ?thesis
    unfolding spec_setregid_def Let_def
    by (cases "e = egid (ucred_of k p)"; cases "e = - 1"; cases "r = - 1") simp_all
qed

lemma sys_psetregid_ok:
  assumes "creds_ok k" "curproc k = p" "fresh_ucred mem k" "enough_mem mem p k"
  shows "implements k p (spec_setregid r e (ids_of k p)) (sys_psetregid mem r e k)"
proof -
  let ?c = "p_cred (procs k p)"
  let ?D = "r \<noteq> - 1 \<and> r \<noteq> rgid (pcred_of k p) \<and> r \<noteq> egid (ucred_of k p) \<and> euid (ucred_of k p) \<noteq> 0 \<or>
        e \<noteq> - 1 \<and> e \<noteq> rgid (pcred_of k p) \<and> e \<noteq> egid (ucred_of k p) \<and> e \<noteq> sgid (pcred_of k p) \<and>
        euid (ucred_of k p) \<noteq> 0"
  let ?C = "e \<noteq> - 1 \<and> egid (ucred_of k p) \<noteq> e"
  have p: "p \<in> set (proclist k)" using assms by (auto simp: creds_ok_def)
  note defs = sys_psetregid_def proc_of_def assms(2) Let_def suser_def set_ids_cond cred_views if_disj_merge
  consider (denied) ?D | (change) "\<not> ?D" ?C | (keep) "\<not> ?D" "\<not> ?C" by blast
  then show ?thesis
  proof cases
    case denied
    show ?thesis
      unfolding defs spec_setregid_cases if_P[OF denied] using implements_same[OF assms(1) refl] .
  next
    case change
    obtain k1 where k1: "change_ucred mem ?c (\<lambda>x. x\<lparr>egid := e\<rparr>) k = Some k1"
      "egid (ucreds k1 (ucr (pcreds k1 ?c))) = e"
      and i: "implements k p (E_OK, if r \<noteq> - 1 then (ids_of k p)\<lparr>i_egid := e, i_rgid := r, i_sgid := e\<rparr>
          else (ids_of k p)\<lparr>i_egid := e\<rparr>)
        (Some (E_OK, upd_pcred ?c (\<lambda>x. if r \<noteq> - 1 then x\<lparr>rgid := r, sgid := e\<rparr> else x) k1))"
      using setregid_change[OF assms(1) p assms(3,4)] by blast
    show ?thesis
      unfolding defs spec_setregid_cases if_not_P[OF change(1)] if_P[OF change(2)] k1 option.case using i .
  next
    case keep
    have "implements k p (E_OK, if r \<noteq> - 1 then (ids_of k p)\<lparr>i_rgid := r, i_sgid := egid (ucred_of k p)\<rparr> else ids_of k p)
      (Some (E_OK, upd_pcred ?c (\<lambda>x. if r \<noteq> - 1 then x\<lparr>rgid := r, sgid := egid (ucred_of k p)\<rparr> else x) k))"
      by (rule implements_upd) (use assms p in \<open>auto intro!: ids_eqI\<close>)
    then show ?thesis
      unfolding defs spec_setregid_cases if_not_P[OF keep(1)] if_not_P[OF keep(2)] option.case cred_views .
  qed
qed


lemma sys_psetgroups_ok:
  assumes "creds_ok k" "curproc k = p" "fresh_ucred mem k" "enough_mem mem p k"
  shows "implements k p (cred_spec (Psetgroups n gs) (ids_of k p)) (sys_psetgroups mem n gs k)"
proof -
  let ?f = "\<lambda>x. x\<lparr>ngroups := unat n, groups := map gs [0..<unat n] @ drop (unat n) (groups x)\<rparr>"
  let ?v = "(ids_of k p)\<lparr>i_groups := map gs [0..<unat n]\<rparr>"
  have p: "p \<in> set (proclist k)" using assms by (auto simp: creds_ok_def)
  show ?thesis
  proof (cases "0 \<le> sint n \<and> sint n \<le> 8")
    case True
    then have n: "unat n \<le> 8" using sint16_nonneg[of n] by linarith
    then have "ucred_pure ?f" by (auto simp: ucred_pure_def)
    then have *: "implements k p (sint n, ?v) (case change_ucred mem (p_cred (procs k p)) ?f k of None \<Rightarrow> None
       | Some k1 \<Rightarrow> Some (sint n, upd_pcred (p_cred (procs k p)) (\<lambda>x. x) k1))"
      by (rule implements_change[OF assms(1) p _ assms(3,4)])
        (auto simp: pcred_ids dest!: same_ucredD intro!: ids_eqI)
    have same: "upd_pcred c (\<lambda>x. x) k1 = k1" for c k1 by (simp add: upd_pcred_def)
    have "?v = ids_of k p" if "ngroups (ucred_of k p) = unat n" "map gs [0..<unat n] = take (unat n) (groups (ucred_of k p))"
      using that by (intro ids_eqI) simp_all
    then show ?thesis
      using * True unfolding sys_psetgroups_def proc_of_def assms(2) Let_def suser_def cred_views same
      by (auto intro!: implements_same[OF assms(1)])
  next
    case False
    then show ?thesis
      unfolding sys_psetgroups_def proc_of_def assms(2) Let_def suser_def cred_views
      by (auto intro!: implements_same[OF assms(1)])
  qed
qed

text \<open>Every call does to the shared structures what the specification does to the caller's ids.\<close>

lemma cred_exec_ok:
  assumes "creds_ok k" "fresh_ucred mem k" "enough_mem mem (curproc k) k"
  shows "implements k (curproc k) (cred_spec c (ids_of k (curproc k))) (cred_exec mem c k)"
proof -
  let ?p = "curproc k"
  have p: "?p \<in> set (proclist k)" using assms(1) by (simp add: creds_ok_def)
  note re = sys_psetreuid_ok[OF assms(1) refl assms(2,3)] sys_psetregid_ok[OF assms(1) refl assms(2,3)]
  have map_r: "implements k ?p (case s of (r, v) \<Rightarrow> (h r, v)) (map_option (\<lambda>(r, k). (h r, k)) x)"
    if "implements k ?p s x" for s x and h :: "int \<Rightarrow> int"
    using that by (auto simp: implements_def split: option.splits)
  show ?thesis
  proof (cases c)
    case (Pseteuid e)
    then show ?thesis using map_r[OF re(1), of "\<lambda>r. if r = 0 then uint e else EACCES"]
      by (simp add: sys_pseteuid_def E_OK_def)
  next
    case (Psetegid e)
    then show ?thesis using map_r[OF re(2), of "\<lambda>r. if r = 0 then uint e else EACCES"]
      by (simp add: sys_psetegid_def E_OK_def)
  qed (use assms p re in \<open>simp_all add: sys_psetuid_def sys_psetgid_def proc_setuid_ok proc_setgid_ok sys_psetgroups_ok
      del: cred_spec.simps(1,2,7)\<close>)
qed


section \<open>Confinement\<close>

definition uids :: "ids \<Rightarrow> u16 set" where
  "uids v = {i_ruid v, i_euid v, i_suid v}"

definition gids :: "ids \<Rightarrow> u16 set" where
  "gids v = {i_rgid v, i_egid v, i_sgid v}"

text \<open>No id and no group that the process did not have.\<close>

definition confined :: "ids \<Rightarrow> ids \<Rightarrow> bool" where
  "confined v w \<longleftrightarrow> uids w \<subseteq> uids v \<and> gids w \<subseteq> gids v \<and> i_groups w = i_groups v"

lemma confined_refl [simp]: "confined v v"
  by (simp add: confined_def)

lemma confined_trans: "confined u v \<Longrightarrow> confined v w \<Longrightarrow> confined u w"
  by (auto simp: confined_def)

text \<open>
  The contract of steps in which a process acts on its own identity: the other processes keep theirs,
  and one without the superuser's id among its own stays within its ids.
\<close>

locale identity_steps =
  fixes step :: "'s \<Rightarrow> 's \<Rightarrow> bool"
    and inv :: "'s \<Rightarrow> bool"
    and who :: "'s \<Rightarrow> pptr"
    and live :: "'s \<Rightarrow> pptr set"
    and view :: "'s \<Rightarrow> pptr \<Rightarrow> ids"
  assumes step_inv: "inv s \<Longrightarrow> step s s' \<Longrightarrow> inv s' \<and> who s' = who s \<and> live s' = live s"
    and step_others: "inv s \<Longrightarrow> step s s' \<Longrightarrow> q \<in> live s \<Longrightarrow> q \<noteq> who s \<Longrightarrow> view s' q = view s q"
    and step_confined: "inv s \<Longrightarrow> step s s' \<Longrightarrow> 0 \<notin> uids (view s (who s)) \<Longrightarrow>
      confined (view s (who s)) (view s' (who s))"
begin

lemma steps_inv: "step\<^sup>*\<^sup>* s s' \<Longrightarrow> inv s \<Longrightarrow> inv s' \<and> who s' = who s \<and> live s' = live s"
  by (induction rule: rtranclp_induct) (use step_inv in auto)

lemma steps_others:
  "step\<^sup>*\<^sup>* s s' \<Longrightarrow> inv s \<Longrightarrow> q \<in> live s \<Longrightarrow> q \<noteq> who s \<Longrightarrow> view s' q = view s q"
proof (induction rule: rtranclp_induct)
  case (step t u)
  then show ?case using steps_inv[of s t] step_others[of t u q] by simp
qed simp

lemma steps_confined:
  "step\<^sup>*\<^sup>* s s' \<Longrightarrow> inv s \<Longrightarrow> 0 \<notin> uids (view s (who s)) \<Longrightarrow> confined (view s (who s)) (view s' (who s))"
proof (induction rule: rtranclp_induct)
  case (step t u)
  then have c: "confined (view s (who s)) (view t (who s))" by blast
  then have "0 \<notin> uids (view t (who s))" using step.prems by (auto simp: confined_def)
  then show ?case using steps_inv[of s t] step_confined[of t u] step.hyps step.prems c confined_trans by metis
qed simp

end

inductive cred_step :: "kernel \<Rightarrow> kernel \<Rightarrow> bool" where
  cred_stepI: "cred_exec mem c k = Some (r, k') \<Longrightarrow> fresh_ucred mem k \<Longrightarrow> cred_step k k'"

inductive_cases cred_stepE: "cred_step k k'"

lemma spec_setreuid_confined:
  "0 \<notin> uids v \<Longrightarrow> spec_setreuid r e v = (x, w) \<Longrightarrow> confined v w"
  by (auto simp: spec_setreuid_def confined_def uids_def gids_def Let_def split: if_splits)

lemma spec_setregid_confined:
  "0 \<notin> uids v \<Longrightarrow> spec_setregid r e v = (x, w) \<Longrightarrow> confined v w"
  by (auto simp: spec_setregid_def confined_def uids_def gids_def Let_def split: if_splits)

lemma cred_spec_confined:
  assumes "0 \<notin> uids v" "cred_spec c v = (r, w)"
  shows "confined v w"
proof (cases c)
  case (Pseteuid e)
  then show ?thesis using assms spec_setreuid_confined by (auto split: prod.splits)
next
  case (Psetegid e)
  then show ?thesis using assms spec_setregid_confined by (auto split: prod.splits)
qed (use assms spec_setreuid_confined spec_setregid_confined in
    \<open>auto simp: confined_def uids_def gids_def split: if_splits\<close>)

text \<open>Without memory a call that returns did not need any, so the memory made no difference.\<close>

definition ple :: "'a option \<Rightarrow> 'a option \<Rightarrow> bool" where
  "ple x y \<longleftrightarrow> x = None \<or> y = x"

lemma ple_rules [intro]:
  "ple x x"
  "ple a a' \<Longrightarrow> ple b b' \<Longrightarrow> ple (if c then a else b) (if c then a' else b')"
  "ple x y \<Longrightarrow> ple (map_option f x) (map_option f y)"
  "ple x y \<Longrightarrow> ple (case x of None \<Rightarrow> None | Some k \<Rightarrow> F k) (case y of None \<Rightarrow> None | Some k \<Rightarrow> F k)"
  by (auto simp: ple_def)

lemma change_ucred_mono [intro]: "ple (change_ucred None c f k) (change_ucred (Some n) c f k)"
  by (simp add: change_ucred_def copy_cred_def ple_def)

lemma cred_exec_mono: "ple (cred_exec None c k) (cred_exec (Some n) c k)"
  unfolding cred_exec.simps sys_psetuid_def
  by (cases c; simp only: cred_exec.simps sys_psetuid_def sys_psetgid_def proc_setuid_def proc_setgid_def
      sys_pseteuid_def sys_psetegid_def sys_psetreuid_def sys_psetregid_def sys_psetgroups_def Let_def)
     (intro ple_rules change_ucred_mono)+

lemma cred_exec_any:
  assumes "creds_ok k" "fresh_ucred mem k" "cred_exec mem c k = Some (r, k')"
  shows "implements k (curproc k) (cred_spec c (ids_of k (curproc k))) (Some (r, k'))"
proof (cases mem)
  case (Some n)
  then show ?thesis using cred_exec_ok[OF assms(1,2), of c] assms(3) by (simp add: enough_mem_def)
next
  case None
  obtain n where n: "n \<notin> (\<lambda>p. ucr (pcred_of k p)) ` set (proclist k)"
    using ex_new_if_finite[OF infinite_UNIV_nat, of "(\<lambda>p. ucr (pcred_of k p)) ` set (proclist k)"] by auto
  then have "fresh_ucred (Some n) k" by (auto simp: fresh_ucred_def users_def)
  moreover have "cred_exec (Some n) c k = Some (r, k')"
    using cred_exec_mono[of c k n] assms(3) None by (simp add: ple_def)
  ultimately show ?thesis using cred_exec_ok[OF assms(1), of "Some n" c] by (simp add: enough_mem_def)
qed

interpretation ci: identity_steps cred_step creds_ok curproc "\<lambda>k. set (proclist k)" ids_of
proof unfold_locales
  fix k k' assume k: "creds_ok k" "cred_step k k'"
  then obtain mem c r where "cred_exec mem c k = Some (r, k')" "fresh_ucred mem k" by (auto elim: cred_stepE)
  from cred_exec_any[OF k(1) this(2,1)]
  have i: "creds_ok k'" "cred_frame k k'" "cred_spec c (ids_of k (curproc k)) = (r, ids_of k' (curproc k))"
    "\<And>q. q \<in> set (proclist k) \<Longrightarrow> q \<noteq> curproc k \<Longrightarrow> ids_of k' q = ids_of k q"
    by (simp_all add: implements_def)
  show "creds_ok k' \<and> curproc k' = curproc k \<and> set (proclist k') = set (proclist k)"
    using i by (simp add: cred_frame_def)
  show "ids_of k' q = ids_of k q" if "q \<in> set (proclist k)" "q \<noteq> curproc k" for q
    using i(4) that by blast
  show "confined (ids_of k (curproc k)) (ids_of k' (curproc k))" if "0 \<notin> uids (ids_of k (curproc k))"
    using cred_spec_confined[OF that i(3)] .
qed

section \<open>Correctness of the credentials\<close>

text \<open>
  C8: Each of the calls \<open>Psetuid\<close>, \<open>Psetgid\<close>, \<open>Psetreuid\<close>, \<open>Psetregid\<close>, \<open>Pseteuid\<close>, \<open>Psetegid\<close> and
  \<open>Psetgroups\<close> refines an operation on the caller's ids alone: although processes share \<open>ucred\<close>
  structures, the caller gets exactly the specified ids and result, errors included, and no other
  process sees a change; the reference counts stay right. The specified results are those of the code. The
  documentation differs: an unprivileged process may set its ids to its real, effective or saved ones
  as far as the call takes them (the manual asks for root), and \<open>Psetgroups\<close> with length 0 clears the list and
  returns 0 (the manual: it returns the number of groups).
\<close>
theorem cred_calls_refine_private_ids:
  assumes "creds_ok k" "fresh_ucred mem k" "enough_mem mem (curproc k) k"
  shows "\<exists>r k'. cred_exec mem c k = Some (r, k') \<and> creds_ok k' \<and>
    (r, ids_of k' (curproc k)) = cred_spec c (ids_of k (curproc k)) \<and>
    (\<forall>q\<in>set (proclist k). q \<noteq> curproc k \<longrightarrow> ids_of k' q = ids_of k q)"
  using cred_exec_ok[OF assms, of c] by (auto simp: implements_def split: option.splits)

text \<open>
  C9: No sequence of these calls gives a process without the superuser's id among its real, effective
  and saved user ids an id it did not have, or another group.
\<close>
theorem unprivileged_stays_confined:
  assumes "cred_step\<^sup>*\<^sup>* k k'" "creds_ok k" "0 \<notin> uids (ids_of k (curproc k))"
  shows "confined (ids_of k (curproc k)) (ids_of k' (curproc k)) \<and>
    (\<forall>q\<in>set (proclist k). q \<noteq> curproc k \<longrightarrow> ids_of k' q = ids_of k q)"
  using ci.steps_confined[OF assms] ci.steps_others[OF assms(1,2)] by blast

text \<open>
  \<open>copy_cred\<close> without memory returns a null pointer, which the caller dereferences: with a shared
  \<open>ucred\<close> and no memory left, the superuser's \<open>Psetuid\<close> to another user does not return.
\<close>
theorem setuid_null_deref:
  assumes "creds_ok k" "suser (ucred_of k p)" "uc_links (ucred_of k p) \<noteq> 1" "p \<in> set (proclist k)" "u \<noteq> 0"
  shows "proc_setuid None p u k = None"
proof -
  have "change_ucred None (p_cred (procs k p)) f k = None" for f
    using assms(3) by (simp add: change_ucred_def copy_cred_def ucred_of_def pcred_of_def)
  then show ?thesis
    using assms(2,5) by (auto simp: proc_setuid_def Let_def suser_def ucred_of_def pcred_of_def)
qed

section \<open>Witnesses\<close>

text \<open>Processes 3 and 5, user 100, share the \<open>ucred\<close> 9; process 3 runs.\<close>

definition demo_creds :: kernel where
  "demo_creds = init_proc\<lparr>procs := (\<lambda>p. zero_proc\<lparr>p_cred := p\<rparr>), proclist := [3, 5], curproc := 3,
     pcreds := (\<lambda>_. \<lparr>ucr = 9, ruid = 100, rgid = 7, suid = 101, sgid = 7, pc_links = 1\<rparr>),
     ucreds := (\<lambda>_. \<lparr>euid = 100, egid = 7, groups = replicate 8 0, ngroups = 0, uc_links = 2\<rparr>)\<rparr>"

lemma demo_creds_users: "users demo_creds u = (if u = 9 then {3, 5} else {})"
  by (auto simp: users_def demo_creds_def pcred_of_def)

lemma demo_creds_ok: "creds_ok demo_creds"
  unfolding creds_ok_def demo_creds_users
  by (simp add: demo_creds_def ucred_of_def pcred_of_def zero_proc_def inj_on_def)

lemma demo_creds_ids:
  "ids_of demo_creds p = \<lparr>i_ruid = 100, i_euid = 100, i_suid = 101, i_rgid = 7, i_egid = 7, i_sgid = 7, i_groups = []\<rparr>"
  "curproc demo_creds = 3" "proclist demo_creds = [3, 5]"
  by (simp_all add: demo_creds_def ids_of_def ucred_of_def pcred_of_def)

theorem cred_calls_refine_private_ids_witness:
  "\<exists>k'. cred_exec (Some 77) (Pseteuid 101) demo_creds = Some (101, k') \<and>
     i_euid (ids_of k' 3) = 101 \<and> i_euid (ids_of k' 5) = 100"
proof -
  have "fresh_ucred (Some 77) demo_creds" by (simp add: fresh_ucred_def demo_creds_users)
  from cred_calls_refine_private_ids[OF demo_creds_ok this, of "Pseteuid 101"]
  show ?thesis
    by (auto simp: enough_mem_def demo_creds_ids spec_setreuid_def Let_def simp del: ids_of_sel)
qed

theorem unprivileged_stays_confined_witness:
  "\<exists>k'. cred_step demo_creds k' \<and> i_euid (ids_of k' 3) = 101 \<and> uids (ids_of k' 3) \<subseteq> {100, 101}"
proof -
  have fr: "fresh_ucred (Some 77) demo_creds" by (simp add: fresh_ucred_def demo_creds_users)
  obtain r k' where k': "cred_exec (Some 77) (Pseteuid 101) demo_creds = Some (r, k')"
    "(r, ids_of k' 3) = cred_spec (Pseteuid 101) (ids_of demo_creds 3)"
    using cred_exec_ok[OF demo_creds_ok fr, of "Pseteuid 101"]
    by (auto simp: implements_def enough_mem_def demo_creds_ids(2) split: option.splits)
  have st: "cred_step\<^sup>*\<^sup>* demo_creds k'" "cred_step demo_creds k'" using cred_stepI[OF k'(1) fr] by auto
  have "i_euid (ids_of k' 3) = 101"
    using k'(2) by (simp add: demo_creds_ids spec_setreuid_def Let_def del: ids_of_sel)
  moreover have "uids (ids_of k' 3) \<subseteq> {100, 101}"
    using unprivileged_stays_confined[OF st(1) demo_creds_ok]
    by (auto simp: demo_creds_ids uids_def confined_def)
  ultimately show ?thesis using st by blast
qed

text \<open>The same two processes as superuser.\<close>

definition demo_root :: kernel where
  "demo_root = demo_creds\<lparr>ucreds := (\<lambda>_. \<lparr>euid = 0, egid = 7, groups = replicate 8 0, ngroups = 0, uc_links = 2\<rparr>)\<rparr>"

theorem setuid_null_deref_witness: "proc_setuid None 3 200 demo_root = None"
proof -
  have u: "users demo_root u = (if u = 9 then {3, 5} else {})" for u
    by (auto simp: users_def demo_root_def demo_creds_def pcred_of_def)
  have "creds_ok demo_root"
    unfolding creds_ok_def u
    by (simp add: demo_root_def demo_creds_def ucred_of_def pcred_of_def zero_proc_def inj_on_def)
  moreover have "suser (ucred_of demo_root 3)" "uc_links (ucred_of demo_root 3) \<noteq> 1" "3 \<in> set (proclist demo_root)"
    by (simp_all add: demo_root_def demo_creds_def ucred_of_def suser_def)
  ultimately show ?thesis using setuid_null_deref by simp
qed

end
