(* ===== verification/Libkern_Str.thy ===== *)
theory Libkern_Str
  imports Kern_Prelude "HOL-Library.Sublist"
begin

text \<open>
  Character classes and strings of \<open>sys/libkern\<close>. A pointer into memory is the list of the bytes
  from it on to the end of its object; running off that end is \<open>None\<close>. A C string is a list with a
  zero byte in it. A returned pointer is its offset, and \<open>NULL\<close> is \<open>None\<close> inside the result.
  Characters are signed, so differences are differences of signed bytes.
\<close>

section \<open>Character classes\<close>

abbreviation (input) CTc :: u8 where "CTc \<equiv> 0x01"
abbreviation (input) CTd :: u8 where "CTd \<equiv> 0x02"
abbreviation (input) CTu :: u8 where "CTu \<equiv> 0x04"
abbreviation (input) CTl :: u8 where "CTl \<equiv> 0x08"
abbreviation (input) CTs :: u8 where "CTs \<equiv> 0x10"
abbreviation (input) CTp :: u8 where "CTp \<equiv> 0x20"
abbreviation (input) CTx :: u8 where "CTx \<equiv> 0x40"

definition mint_ctype :: "u8 list" where
  "mint_ctype =
     replicate 9 CTc @ replicate 5 (CTc OR CTs) @ replicate 2 CTc @
     replicate 16 CTc @
     [CTs] @ replicate 15 CTp @
     replicate 10 (CTd OR CTx) @ replicate 6 CTp @
     [CTp] @ replicate 6 (CTu OR CTx) @ replicate 9 CTu @
     replicate 11 CTu @ replicate 5 CTp @
     [CTp] @ replicate 6 (CTl OR CTx) @ replicate 9 CTl @
     replicate 11 CTl @ replicate 4 CTp @ [CTc] @
     replicate 128 0"

definition ctype_is :: "u8 \<Rightarrow> u8 \<Rightarrow> bool" where
  "ctype_is m c \<longleftrightarrow> mint_ctype ! unat c AND m \<noteq> 0"

definition isalpha :: "u8 \<Rightarrow> bool" where "isalpha c = ctype_is (CTu OR CTl) c"
definition isdigit :: "u8 \<Rightarrow> bool" where "isdigit c = ctype_is CTd c"
definition islower :: "u8 \<Rightarrow> bool" where "islower c = ctype_is CTl c"
definition isspace :: "u8 \<Rightarrow> bool" where "isspace c = ctype_is CTs c"
definition isupper :: "u8 \<Rightarrow> bool" where "isupper c = ctype_is CTu c"

text \<open>The functions take and return an \<open>int\<close>; the macros look at its low byte.\<close>

definition mint_tolower :: "u16 \<Rightarrow> u16" where
  "mint_tolower c = (if isupper (ucast c) then c XOR 0x20 else c)"

definition mint_toupper :: "u16 \<Rightarrow> u16" where
  "mint_toupper c = (if islower (ucast c) then c XOR 0x20 else c)"

text \<open>The table by ranges.\<close>

definition ctype_ranges :: "nat \<Rightarrow> u8" where
  "ctype_ranges n =
    (if n < 9 then CTc else if n < 14 then CTc OR CTs else if n < 32 then CTc else if n < 33 then CTs
     else if n < 48 then CTp else if n < 58 then CTd OR CTx else if n < 65 then CTp
     else if n < 71 then CTu OR CTx else if n < 91 then CTu else if n < 97 then CTp
     else if n < 103 then CTl OR CTx else if n < 123 then CTl else if n < 127 then CTp
     else if n < 128 then CTc else 0)"

lemma mint_ctype_ranges: "mint_ctype = map ctype_ranges [0..<256]"
  by code_simp

lemma mint_ctype_nth: "n < 256 \<Longrightarrow> mint_ctype ! n = ctype_ranges n"
  unfolding mint_ctype_ranges by (subst nth_map) simp_all

lemma ctype_is_iff:
  "ctype_is m c \<longleftrightarrow>
    (let n = unat c in if n < 9 then CTc AND m \<noteq> 0 else if n < 14 then 0x11 AND m \<noteq> 0 else if n < 32 then CTc AND m \<noteq> 0
     else if n < 33 then CTs AND m \<noteq> 0 else if n < 48 then CTp AND m \<noteq> 0 else if n < 58 then 0x42 AND m \<noteq> 0
     else if n < 65 then CTp AND m \<noteq> 0 else if n < 71 then 0x44 AND m \<noteq> 0 else if n < 91 then CTu AND m \<noteq> 0
     else if n < 97 then CTp AND m \<noteq> 0 else if n < 103 then 0x48 AND m \<noteq> 0 else if n < 123 then CTl AND m \<noteq> 0
     else if n < 127 then CTp AND m \<noteq> 0 else if n < 128 then CTc AND m \<noteq> 0 else False)"
proof -
  have "unat c < 256" using u8_le[of c] by simp
  then show ?thesis unfolding ctype_is_def Let_def mint_ctype_nth[OF \<open>unat c < 256\<close>] ctype_ranges_def by simp
qed

lemma isdigit_iff: "isdigit c \<longleftrightarrow> 48 \<le> c \<and> c \<le> 57"
  unfolding isdigit_def ctype_is_iff word_le_nat_alt by (auto simp: Let_def)

lemma isupper_iff: "isupper c \<longleftrightarrow> 65 \<le> c \<and> c \<le> 90"
  unfolding isupper_def ctype_is_iff word_le_nat_alt by (auto simp: Let_def)

lemma islower_iff: "islower c \<longleftrightarrow> 97 \<le> c \<and> c \<le> 122"
  unfolding islower_def ctype_is_iff word_le_nat_alt by (auto simp: Let_def)

lemma isspace_iff: "isspace c \<longleftrightarrow> 9 \<le> c \<and> c \<le> 13 \<or> c = 32"
  unfolding isspace_def ctype_is_iff word_le_nat_alt word_unat_eq_iff by (auto simp: Let_def)

lemma isalpha_iff: "isalpha c \<longleftrightarrow> isupper c \<or> islower c"
  unfolding isalpha_def isupper_def islower_def ctype_is_iff by (auto simp: Let_def)


section \<open>Strings\<close>

fun mint_strlen :: "u8 list \<Rightarrow> nat option" where
  "mint_strlen [] = None"
| "mint_strlen (c # scan) = (if c \<noteq> 0 then map_option Suc (mint_strlen scan) else Some 0)"

fun mint_strcmp :: "u8 list \<Rightarrow> u8 list \<Rightarrow> int option" where
  "mint_strcmp (c1 # str1) (c2 # str2) =
    (if c1 \<noteq> 0 \<and> c1 = c2 then mint_strcmp str1 str2 else Some (sint c1 - sint c2))"
| "mint_strcmp _ _ = None"

fun mint_strncmp :: "u8 list \<Rightarrow> u8 list \<Rightarrow> int \<Rightarrow> int option" where
  "mint_strncmp (c1 # str1) (c2 # str2) len =
    (if len - 1 \<ge> 0 \<and> c1 \<noteq> 0 \<and> c1 = c2 then mint_strncmp str1 str2 (len - 1)
     else if len - 1 < 0 then Some 0 else Some (sint c1 - sint c2))"
| "mint_strncmp _ _ _ = None"

definition lowcase :: "u8 \<Rightarrow> u8" where
  "lowcase c = (if isupper c then c XOR 0x20 else c)"

fun mint_stricmp :: "u8 list \<Rightarrow> u8 list \<Rightarrow> int option" where
  "mint_stricmp (a # str1) (b # str2) =
    (let c1 = lowcase a; c2 = lowcase b
     in if c1 \<noteq> 0 \<and> c1 = c2 then mint_stricmp str1 str2 else Some (sint c1 - sint c2))"
| "mint_stricmp _ _ = None"

fun mint_strnicmp :: "u8 list \<Rightarrow> u8 list \<Rightarrow> int \<Rightarrow> int option" where
  "mint_strnicmp (a # str1) (b # str2) len =
    (let c1 = lowcase a; c2 = lowcase b
     in if len - 1 \<ge> 0 \<and> c1 \<noteq> 0 \<and> c1 = c2 then mint_strnicmp str1 str2 (len - 1)
        else if len - 1 < 0 \<or> c1 = c2 then Some 0 else Some (sint c1 - sint c2))"
| "mint_strnicmp _ _ _ = None"

fun mint_strchr :: "u8 list \<Rightarrow> u8 \<Rightarrow> nat option option" where
  "mint_strchr [] w = None"
| "mint_strchr (c # s) w =
    (if c = w then Some (Some 0)
     else if c = 0 then Some None
     else map_option (map_option Suc) (mint_strchr s w))"

text \<open>\<open>strrchr\<close> compares an unsigned character with the \<open>long\<close> it is given.\<close>

fun strrchr_loop :: "u8 list \<Rightarrow> int \<Rightarrow> nat \<Rightarrow> nat option \<Rightarrow> nat option option" where
  "strrchr_loop [] which i place = None"
| "strrchr_loop (c # s) which i place =
    (let place = (if uint c = which then Some i else place)
     in if c \<noteq> 0 then strrchr_loop s which (Suc i) place else Some place)"

definition mint_strrchr :: "u8 list \<Rightarrow> int \<Rightarrow> nat option option" where
  "mint_strrchr str which = strrchr_loop str which 0 None"

fun mint_memchr :: "u8 list \<Rightarrow> u8 \<Rightarrow> nat \<Rightarrow> nat option option" where
  "mint_memchr s c 0 = Some None"
| "mint_memchr [] c (Suc i) = None"
| "mint_memchr (x # s) c (Suc i) =
    (if x = c then Some (Some 0) else map_option (map_option Suc) (mint_memchr s c i))"

fun mint_memcmp :: "u8 list \<Rightarrow> u8 list \<Rightarrow> nat \<Rightarrow> int option" where
  "mint_memcmp s1 s2 0 = Some 0"
| "mint_memcmp (a # s1) (b # s2) (Suc len) =
    (if a = b then mint_memcmp s1 s2 len else Some (uint a - uint b))"
| "mint_memcmp _ _ (Suc len) = None"

text \<open>The copying functions give the bytes they write, from \<open>dst\<close> on.\<close>

fun mint_strcpy :: "u8 list \<Rightarrow> u8 list option" where
  "mint_strcpy [] = None"
| "mint_strcpy (c # src) = (if c \<noteq> 0 then map_option ((#) c) (mint_strcpy src) else Some [0])"

fun mint_strcat :: "u8 list \<Rightarrow> u8 list \<Rightarrow> u8 list option" where
  "mint_strcat [] src = None"
| "mint_strcat (c # dst) src =
    (if c \<noteq> 0 then map_option ((#) c) (mint_strcat dst src) else mint_strcpy src)"

text \<open>The length is a \<open>long\<close>; the loops stop when it falls below zero.\<close>

fun mint_strncpy :: "u8 list \<Rightarrow> nat \<Rightarrow> u8 list option" where
  "mint_strncpy src 0 = Some []"
| "mint_strncpy [] (Suc len) = None"
| "mint_strncpy (c # src) (Suc len) =
    (if c \<noteq> 0 then map_option ((#) c) (mint_strncpy src len) else Some (0 # replicate len 0))"

fun strncpy_f_loop :: "u8 list \<Rightarrow> nat \<Rightarrow> u8 list option" where
  "strncpy_f_loop [] len = None"
| "strncpy_f_loop (c # src) len =
    (if c \<noteq> 0 \<and> 1 < len then map_option ((#) c) (strncpy_f_loop src (len - 1)) else Some [0])"

definition mint_strncpy_f :: "u8 list \<Rightarrow> int \<Rightarrow> u8 list option" where
  "mint_strncpy_f src len = (if len \<le> 0 then Some [] else strncpy_f_loop src (nat len))"

fun mint_strlwr :: "u8 list \<Rightarrow> u8 list option" where
  "mint_strlwr [] = None"
| "mint_strlwr (c # s) =
    (if c \<noteq> 0 then map_option ((#) (if isupper c then c XOR 0x20 else c)) (mint_strlwr s) else Some (c # s))"

fun mint_strupr :: "u8 list \<Rightarrow> u8 list option" where
  "mint_strupr [] = None"
| "mint_strupr (c # s) =
    (if c \<noteq> 0 then map_option ((#) (if islower c then c XOR 0x20 else c)) (mint_strupr s) else Some (c # s))"

text \<open>\<open>strrev\<close> swaps in place; \<open>p\<close> and \<open>q\<close> are offsets, \<open>q\<close> one past the character to swap next.\<close>

fun strrev_loop :: "nat \<Rightarrow> nat \<Rightarrow> u8 list \<Rightarrow> u8 list" where
  "strrev_loop p q s =
    (if q - 1 > p then strrev_loop (p + 1) (q - 1) (s[q - 1 := s ! p, p := s ! (q - 1)]) else s)"

declare strrev_loop.simps [simp del]

definition mint_strrev :: "u8 list \<Rightarrow> u8 list option" where
  "mint_strrev s =
    (case mint_strlen s of None \<Rightarrow> None | Some n \<Rightarrow> Some (if n \<noteq> 0 then strrev_loop 0 n s else s))"

fun strstr_loop :: "u8 list \<Rightarrow> u8 \<Rightarrow> u8 list \<Rightarrow> int \<Rightarrow> nat option option" where
  "strstr_loop [] firstc wanted len = None"
| "strstr_loop (c # scan) firstc wanted len =
    (let next = (if c = 0 then Some None
                 else map_option (map_option Suc) (strstr_loop scan firstc wanted len))
     in if c \<noteq> firstc then next
        else (case mint_strncmp (c # scan) wanted len of
                None \<Rightarrow> None
              | Some d \<Rightarrow> if d \<noteq> 0 then next else Some (Some 0)))"

definition mint_strstr :: "u8 list \<Rightarrow> u8 list \<Rightarrow> nat option option" where
  "mint_strstr s wanted =
    (case (s, wanted) of
       (c # _, w # _) \<Rightarrow>
         if c = 0 then (if w \<noteq> 0 then Some None else Some (Some 0))
         else if w = 0 then Some (Some 0)
         else (case mint_strlen wanted of
                 None \<Rightarrow> None
               | Some len \<Rightarrow> strstr_loop s w wanted (int len))
     | _ \<Rightarrow> None)"

text \<open>
  The environment: strings \<open>NAME=value\<close> one after the other, then an empty string. The result is
  the memory from the value on.
\<close>

fun skip_string :: "u8 list \<Rightarrow> u8 list option" where
  "skip_string [] = None"
| "skip_string (c # s) = (if c \<noteq> 0 then skip_string s else Some s)"

lemma skip_string_shorter: "skip_string s = Some t \<Longrightarrow> length t < length s"
  by (induction s) (auto split: if_splits)

function getenv_loop :: "u8 list \<Rightarrow> u8 list \<Rightarrow> nat \<Rightarrow> u8 list option option" where
  "getenv_loop [] var len = None"
| "getenv_loop (c # env) var len =
    (if c = 0 then Some None
     else (case mint_strncmp (c # env) var (int len) of
             None \<Rightarrow> None
           | Some d \<Rightarrow>
               if d = 0 \<and> length (c # env) \<le> len then None
               else if d = 0 \<and> (c # env) ! len = 61 then Some (Some (drop (len + 1) (c # env)))
               else (case skip_string (c # env) of
                       None \<Rightarrow> None
                     | Some next \<Rightarrow> getenv_loop next var len)))"
  by pat_completeness auto
termination
  by (relation "measure (\<lambda>(env, var, len). length env)") (auto dest: skip_string_shorter split: if_splits)

definition mint_getenv :: "u8 list option \<Rightarrow> u8 list \<Rightarrow> u8 list option option" where
  "mint_getenv p_env var =
    (case mint_strlen var of
       None \<Rightarrow> None
     | Some len \<Rightarrow>
         (case p_env of
            None \<Rightarrow> Some None
          | Some env \<Rightarrow> if len \<noteq> 0 then getenv_loop env var len else Some None))"

section \<open>Properties\<close>

text \<open>The characters of a C string: a list without zero bytes, followed by one.\<close>

abbreviation cstr :: "u8 list \<Rightarrow> bool" where
  "cstr a \<equiv> 0 \<notin> set a"

lemma strlen_cstr [simp]: "cstr a \<Longrightarrow> mint_strlen (a @ 0 # r) = Some (length a)"
  by (induction a) auto

lemma sint_inj [simp]: "sint (a :: u8) = sint b \<longleftrightarrow> a = b" "sint (a :: u8) = 0 \<longleftrightarrow> a = 0" "0 = sint (a :: u8) \<longleftrightarrow> a = 0"
  using signed_word_eqI[of a b] signed_word_eqI[of a 0] by auto

lemma strcmp_cstr:
  "cstr a \<Longrightarrow> cstr b \<Longrightarrow> \<exists>d. mint_strcmp (a @ 0 # r) (b @ 0 # r') = Some d \<and> (d = 0 \<longleftrightarrow> a = b)"
proof (induction a arbitrary: b)
  case Nil
  then show ?case by (cases b) auto
next
  case (Cons x a)
  then show ?case using Cons.IH[of "tl b"] by (cases b) auto
qed

lemma strncmp_cstr:
  "cstr a \<Longrightarrow> cstr b \<Longrightarrow> \<exists>d. mint_strncmp (a @ 0 # r) (b @ 0 # r') (int n) = Some d \<and>
     (d = 0 \<longleftrightarrow> take n a = take n b)"
proof (induction a arbitrary: b n)
  case Nil
  then show ?case by (cases b; cases n) auto
next
  case (Cons x a)
  then show ?case using Cons.IH[of "tl b" "n - 1"] by (cases b; cases n) auto
qed


lemma lowcase_zero: "lowcase c = 0 \<longleftrightarrow> c = 0"
proof -
  have "(c XOR 0x20) XOR 0x20 = c" by (simp add: xor.assoc)
  then have "c = 0x20" if "c XOR 0x20 = 0" using that by simp
  then show ?thesis by (auto simp: lowcase_def isupper_iff)
qed

lemma lowcase_0 [simp]: "lowcase 0 = 0"
  by (simp add: lowcase_zero)

lemma stricmp_cstr:
  "cstr a \<Longrightarrow> cstr b \<Longrightarrow> \<exists>d. mint_stricmp (a @ 0 # r) (b @ 0 # r') = Some d \<and>
     (d = 0 \<longleftrightarrow> map lowcase a = map lowcase b)"
proof (induction a arbitrary: b)
  case Nil
  then show ?case by (cases b) (auto simp: Let_def lowcase_zero)
next
  case (Cons x a)
  then show ?case
  proof (cases b)
    case Nil
    then show ?thesis using Cons.prems by (simp add: Let_def lowcase_zero)
  next
    case (Cons y b')
    then show ?thesis
      using Cons.prems Cons.IH[of b'] by (cases "lowcase x = lowcase y") (simp_all add: Let_def lowcase_zero)
  qed
qed

lemma strrev_loop_rev: "strrev_loop (length A) (length A + length M) (A @ M @ B) = A @ rev M @ B"
proof (induction "length M" arbitrary: A M B rule: less_induct)
  case less
  consider "M = []" | x where "M = [x]" | x N y where "M = x # N @ [y]"
    by (metis append_Nil list.exhaust rev_exhaust append_Cons)
  then show ?case
  proof cases
    case 1
    then show ?thesis by (subst strrev_loop.simps) auto
  next
    case 2
    then show ?thesis by (subst strrev_loop.simps) simp
  next
    case 3
    have s: "(A @ M @ B)[length A + length M - 1 := (A @ M @ B) ! length A,
        length A := (A @ M @ B) ! (length A + length M - 1)] = (A @ [y]) @ N @ (x # B)"
      using 3 by (simp add: nth_append list_update_append)
    have "strrev_loop (length (A @ [y])) (length (A @ [y]) + length N) ((A @ [y]) @ N @ (x # B)) =
      (A @ [y]) @ rev N @ x # B"
      by (rule less) (simp add: 3)
    moreover have "length A + length M - 1 > length A" "length A + length M - 1 = length (A @ [y]) + length N"
      using 3 by auto
    ultimately show ?thesis
      by (subst strrev_loop.simps) (use s 3 in \<open>simp add: One_nat_def\<close>)
  qed
qed

lemma strrev_cstr: "cstr a \<Longrightarrow> mint_strrev (a @ 0 # r) = Some (rev a @ 0 # r)"
  using strrev_loop_rev[of "[]" a "0 # r"] by (simp add: mint_strrev_def)

lemma strcpy_cstr [simp]: "cstr a \<Longrightarrow> mint_strcpy (a @ 0 # r) = Some (a @ [0])"
  by (induction a) auto

lemma strcat_cstr: "cstr a \<Longrightarrow> cstr b \<Longrightarrow> mint_strcat (a @ 0 # r) (b @ 0 # r') = Some (a @ b @ [0])"
  by (induction a) auto

lemma strncpy_cstr:
  "cstr a \<Longrightarrow> mint_strncpy (a @ 0 # r) n = Some (take n a @ replicate (n - length a) 0)"
proof (induction a arbitrary: n)
  case Nil
  then show ?case by (cases n) auto
next
  case (Cons x a)
  then show ?case by (cases n) auto
qed

lemma strncpy_f_cstr:
  "cstr a \<Longrightarrow> strncpy_f_loop (a @ 0 # r) (Suc n) = Some (take n a @ [0])"
proof (induction a arbitrary: n)
  case (Cons x a)
  then show ?case by (cases n) (auto simp: One_nat_def)
qed simp

lemma strrchr_loop_none:
  "cstr a \<Longrightarrow> which \<noteq> 0 \<Longrightarrow> which \<notin> uint ` set a \<Longrightarrow> strrchr_loop (a @ 0 # r) which i place = Some place"
  by (induction a arbitrary: i) auto

lemma strrchr_loop_last:
  "cstr a \<Longrightarrow> cstr b \<Longrightarrow> w \<noteq> 0 \<Longrightarrow> w \<notin> set b \<Longrightarrow>
   strrchr_loop (a @ w # b @ 0 # r) (uint w) i place = Some (Some (i + length a))"
proof (induction a arbitrary: i place)
  case Nil
  have "uint w \<noteq> 0" using Nil.prems(3) by (metis unsigned_eq_0_iff)
  moreover have "uint w \<notin> uint ` set b" using Nil.prems(4) by (auto dest: unsigned_word_eqI)
  ultimately show ?case using Nil.prems strrchr_loop_none[of b "uint w"] by simp
qed simp

lemma strrchr_signed:
  "cstr a \<Longrightarrow> which < 0 \<Longrightarrow> mint_strrchr (a @ 0 # r) which = Some None"
  unfolding mint_strrchr_def
  by (rule strrchr_loop_none) (auto simp: not_le[symmetric])

lemma strchr_cstr:
  "cstr a \<Longrightarrow> w \<noteq> 0 \<Longrightarrow> mint_strchr (a @ 0 # r) w =
    Some (if w \<in> set a then Some (length (takeWhile (\<lambda>c. c \<noteq> w) a)) else None)"
  by (induction a) auto

text \<open>Searching a string.\<close>

lemma strncmp_prefix:
  assumes "cstr a" "cstr w"
  shows "\<exists>d. mint_strncmp (a @ 0 # r) (w @ 0 # r') (int (length w)) = Some d \<and> (d = 0 \<longleftrightarrow> prefix w a)"
proof -
  have "take (length w) a = w \<longleftrightarrow> prefix w a"
    by (metis append_eq_conv_conj prefix_def)
  then show ?thesis using strncmp_cstr[OF assms, of r r' "length w"] by simp
qed

lemma strstr_loop_cstr:
  assumes "cstr a" "cstr (w # ws)"
  shows "strstr_loop (a @ 0 # r) w (w # ws @ 0 # r') (int (length (w # ws))) =
    Some (if \<exists>i\<le>length a. prefix (w # ws) (drop i a)
          then Some (LEAST i. prefix (w # ws) (drop i a)) else None)"
  using assms(1)
proof (induction a)
  case Nil
  then show ?case using assms(2) by auto
next
  case (Cons c a)
  let ?P = "\<lambda>i. prefix (w # ws) (drop i (c # a))"
  obtain d where d: "mint_strncmp ((c # a) @ 0 # r) (w # ws @ 0 # r') (int (length (w # ws))) = Some d"
    "d = 0 \<longleftrightarrow> prefix (w # ws) (c # a)"
    using strncmp_prefix[OF Cons.prems assms(2), of r r'] by auto
  show ?case
  proof (cases "?P 0")
    case True
    then have "(LEAST i. ?P i) = 0" by (simp add: Least_eq_0)
    then show ?thesis using d True by auto
  next
    case False
    have "strstr_loop ((c # a) @ 0 # r) w (w # ws @ 0 # r') (int (length (w # ws))) =
      map_option (map_option Suc) (strstr_loop (a @ 0 # r) w (w # ws @ 0 # r') (int (length (w # ws))))"
      using d False Cons.prems by (auto simp: Let_def)
    moreover have "(\<exists>i\<le>length (c # a). ?P i) \<longleftrightarrow> (\<exists>i\<le>length a. prefix (w # ws) (drop i a))"
    proof
      assume "\<exists>i\<le>length (c # a). ?P i"
      then obtain i where i: "i \<le> length (c # a)" "?P i" by blast
      then have "i \<noteq> 0" using False by metis
      then obtain j where "i = Suc j" using not0_implies_Suc by blast
      then show "\<exists>i\<le>length a. prefix (w # ws) (drop i a)" using i by auto
    next
      assume "\<exists>i\<le>length a. prefix (w # ws) (drop i a)"
      then obtain i where "i \<le> length a" "?P (Suc i)" by auto
      then show "\<exists>i\<le>length (c # a). ?P i" by (intro exI[of _ "Suc i"]) simp
    qed
    moreover have "(LEAST i. ?P i) = Suc (LEAST i. prefix (w # ws) (drop i a))"
      if ex: "\<exists>i\<le>length a. prefix (w # ws) (drop i a)"
    proof -
      obtain i where "?P (Suc i)" using ex by auto
      from Least_Suc[of ?P, OF this False] show ?thesis by simp
    qed
    ultimately show ?thesis using Cons by auto
  qed
qed


lemma strstr_cstr:
  assumes "cstr a" "cstr b"
  shows "mint_strstr (a @ 0 # r) (b @ 0 # r') =
    Some (if \<exists>i\<le>length a. prefix b (drop i a) then Some (LEAST i. prefix b (drop i a)) else None)"
proof (cases b)
  case Nil
  then have "(LEAST i. prefix b (drop i a)) = 0" by (simp add: Least_eq_0)
  then show ?thesis using assms Nil by (cases a) (auto simp: mint_strstr_def)
next
  case (Cons w ws)
  then show ?thesis
    using assms strstr_loop_cstr[of a w ws r r'] strlen_cstr[of b r']
    by (cases a) (auto simp: mint_strstr_def)
qed

text \<open>The environment as the list of its definitions.\<close>

definition env_entry :: "u8 list \<times> u8 list \<Rightarrow> u8 list" where
  "env_entry e = fst e @ 61 # snd e"

fun env_block :: "(u8 list \<times> u8 list) list \<Rightarrow> u8 list" where
  "env_block [] = [0]"
| "env_block (e # es) = env_entry e @ 0 # env_block es"

definition environ_ok :: "(u8 list \<times> u8 list) list \<Rightarrow> bool" where
  "environ_ok es \<longleftrightarrow> (\<forall>(n, v)\<in>set es. n \<noteq> [] \<and> cstr n \<and> 61 \<notin> set n \<and> cstr v)"

lemma skip_string_cstr: "cstr a \<Longrightarrow> skip_string (a @ 0 # r) = Some r"
  by (induction a) auto

text \<open>A name followed by \<open>=\<close> is found only at its own definition.\<close>

lemma name_match:
  assumes "61 \<notin> set n" "61 \<notin> set x"
  shows "prefix x (n @ 61 # v) \<and> (n @ 61 # v @ 0 # r) ! length x = 61 \<longleftrightarrow> n = x"
proof
  assume *: "prefix x (n @ 61 # v) \<and> (n @ 61 # v @ 0 # r) ! length x = 61"
  then have "prefix x n" using assms(2) by (auto simp: prefix_append prefix_Cons)
  then obtain y where y: "n = x @ y" by (auto simp: prefix_def)
  then have "y = []" using * assms(1) by (cases y) (auto simp: nth_append)
  then show "n = x" using y by simp
qed (auto simp: nth_append)

lemma getenv_loop_block:
  assumes "environ_ok es" "x \<noteq> []" "cstr x" "61 \<notin> set x"
  shows "case map_of es x of
      None \<Rightarrow> getenv_loop (env_block es) (x @ 0 # r) (length x) = Some None
    | Some v \<Rightarrow> \<exists>rest. getenv_loop (env_block es) (x @ 0 # r) (length x) = Some (Some (v @ 0 # rest))"
  using assms(1)
proof (induction es)
  case (Cons e es)
  obtain n v where e: "e = (n, v)" by (cases e)
  have nv: "n \<noteq> []" "cstr n" "61 \<notin> set n" "cstr v" "environ_ok es" using Cons.prems e by (auto simp: environ_ok_def)
  then obtain c env where ce: "env_block (e # es) = c # env" "c \<noteq> 0"
    by (cases n) (auto simp: e env_entry_def)
  have blk: "env_block (e # es) = (n @ 61 # v) @ 0 # env_block es" by (simp add: e env_entry_def)
  obtain d where d: "mint_strncmp (c # env) (x @ 0 # r) (int (length x)) = Some d"
    "d = 0 \<longleftrightarrow> prefix x (n @ 61 # v)"
    using strncmp_prefix[of "n @ 61 # v" x "env_block es" r] nv assms(3) ce(1) blk by auto
  have mem: "c # env = (n @ 61 # v) @ 0 # env_block es" by (rule trans[OF ce(1)[symmetric] blk])
  have len: "length x < length (c # env)" if "d = 0"
    unfolding mem using d(2) that prefix_length_le[of x "n @ 61 # v"] by simp
  have at: "d = 0 \<and> (c # env) ! length x = 61 \<longleftrightarrow> n = x"
    using name_match[OF nv(3) assms(4), of v "env_block es"] d(2) unfolding mem by simp
  show ?case
  proof (cases "n = x")
    case True
    then have "getenv_loop (c # env) (x @ 0 # r) (length x) = Some (Some (drop (length x + 1) (c # env)))"
      using d(1) at len ce(2) by simp
    moreover have "drop (length x + 1) (c # env) = v @ 0 # env_block es" unfolding mem using True by simp
    ultimately have "getenv_loop (env_block (e # es)) (x @ 0 # r) (length x) = Some (Some (v @ 0 # env_block es))"
      unfolding ce(1) by (rule trans[OF _ arg_cong[of _ _ "\<lambda>l. Some (Some l)"]])
    then show ?thesis using True unfolding e by (simp del: env_block.simps)
  next
    case False
    have "skip_string (c # env) = Some (env_block es)"
      using skip_string_cstr[of "n @ 61 # v"] nv ce(1) blk by simp
    then have eq: "getenv_loop (c # env) (x @ 0 # r) (length x) = getenv_loop (env_block es) (x @ 0 # r) (length x)"
      using d(1) at len ce(2) False by auto
    show ?thesis using Cons.IH[OF nv(5)] False unfolding ce(1) eq by (simp add: e)
  qed
qed simp


section \<open>Correctness of the string functions\<close>

text \<open>
  \<open>getenv\<close> returns the value of the first definition of the name in the environment block, and
  \<open>NULL\<close> when there is none: a name that is a prefix of another is not confused with it.
\<close>
theorem getenv_finds_definition:
  assumes "environ_ok es" "x \<noteq> []" "cstr x" "61 \<notin> set x"
  shows "case map_of es x of
      None \<Rightarrow> mint_getenv (Some (env_block es)) (x @ 0 # r) = Some None
    | Some v \<Rightarrow> \<exists>rest. mint_getenv (Some (env_block es)) (x @ 0 # r) = Some (Some (v @ 0 # rest))"
  using getenv_loop_block[OF assms, of r] assms by (simp add: mint_getenv_def split: option.splits)

text \<open>
  \<open>strstr\<close> returns the first position at which the wanted string occurs, and \<open>NULL\<close> exactly when
  it occurs nowhere; it never reads past the end of either string.
\<close>
theorem strstr_finds_first:
  assumes "cstr a" "cstr b"
  shows "mint_strstr (a @ 0 # r) (b @ 0 # r') =
    Some (if \<exists>i\<le>length a. prefix b (drop i a) then Some (LEAST i. prefix b (drop i a)) else None)"
  using strstr_cstr[OF assms] .

text \<open>
  C20: Comparing strings: \<open>strcmp\<close>, \<open>strncmp\<close> and \<open>stricmp\<close> return zero exactly when the strings, their
  first \<open>n\<close> characters, or the strings up to the case of their letters are equal.
\<close>
theorem string_comparisons_exact:
  assumes "cstr a" "cstr b"
  shows "(mint_strcmp (a @ 0 # r) (b @ 0 # r') = Some 0 \<longleftrightarrow> a = b) \<and>
    (mint_strncmp (a @ 0 # r) (b @ 0 # r') (int n) = Some 0 \<longleftrightarrow> take n a = take n b) \<and>
    (mint_stricmp (a @ 0 # r) (b @ 0 # r') = Some 0 \<longleftrightarrow> map lowcase a = map lowcase b)"
  using strcmp_cstr[OF assms, of r r'] strncmp_cstr[OF assms, of r r' n] stricmp_cstr[OF assms, of r r'] by auto

section \<open>Witnesses\<close>

text \<open>\<open>AB=x\<close> and \<open>A=yz\<close>.\<close>

theorem getenv_finds_definition_witness:
  "\<exists>rest. mint_getenv (Some (env_block [([65, 66], [120]), ([65], [121, 122])])) [65, 0] =
     Some (Some (121 # 122 # 0 # rest))"
  using getenv_finds_definition[of "[([65, 66], [120]), ([65], [121, 122])]" "[65]" "[]"] by (simp add: environ_ok_def)

theorem strstr_finds_first_witness:
  "mint_strstr [97, 98, 97, 98, 99, 0] [97, 98, 99, 0] =
     Some (Some (LEAST i. prefix [97, 98, 99] (drop i [97, 98, 97, 98, 99::u8])))"
proof -
  have "\<exists>i\<le>length [97, 98, 97, 98, 99::u8]. prefix [97, 98, 99] (drop i [97, 98, 97, 98, 99::u8])"
    by (intro exI[of _ 2]) simp
  then show ?thesis using strstr_finds_first[of "[97, 98, 97, 98, 99]" "[97, 98, 99]" "[]" "[]"] by simp
qed

theorem string_comparisons_exact_witness:
  "mint_stricmp [65, 98, 0] [97, 66, 0] = Some 0 \<and> mint_strcmp [65, 98, 0] [97, 66, 0] \<noteq> Some 0"
proof -
  have "map lowcase [65, 98] = map lowcase [97, 66::u8]" by (simp add: lowcase_def isupper_iff)
  then show ?thesis using string_comparisons_exact[of "[65, 98]" "[97, 66]" "[]" "[]" 0] by simp
qed

end
