(* ===== verification/Libkern_Num.thy ===== *)
theory Libkern_Num
  imports Libkern_Str
begin

text \<open>
  Numbers and strings of \<open>sys/libkern\<close>: \<open>atol\<close>, \<open>strtol\<close>, \<open>strtoul\<close>, \<open>strtonumber\<close> and \<open>kvsprintf\<close>. A \<open>long\<close>
  is a 32 bit word and an \<open>int\<close> a 16 bit word; arithmetic wraps. Strings are as in \<open>Libkern_Str\<close>.

  \<open>kvsprintf\<close> writes from left to right and nothing twice, so its output is the list of the bytes it
  writes; \<open>cnt\<close> counts the room that it thinks is left. Its arguments are a list of typed values, and
  a conversion that finds none of its type has no result.
\<close>

section \<open>Reading numbers\<close>

definition TIMESTEN :: "'a::len word \<Rightarrow> 'a word" where
  "TIMESTEN x = push_bit 1 (push_bit 2 x + x)"

fun skip_space :: "u8 list \<Rightarrow> (nat \<times> u8 list) option" where
  "skip_space [] = None"
| "skip_space (c # s) =
    (if c \<noteq> 0 \<and> isspace c then map_option (\<lambda>(n, t). (Suc n, t)) (skip_space s) else Some (0, c # s))"

fun atol_signs :: "u8 list \<Rightarrow> bool \<Rightarrow> (bool \<times> u8 list) option" where
  "atol_signs [] negflag = None"
| "atol_signs (c # s) negflag =
    (if c = 45 \<or> c = 43 then atol_signs s (if c = 45 then \<not> negflag else negflag)
     else Some (negflag, c # s))"

fun atol_digits :: "u8 list \<Rightarrow> u32 \<Rightarrow> u32 option" where
  "atol_digits [] d = None"
| "atol_digits (c # s) d =
    (if c \<noteq> 0 \<and> isdigit c then atol_digits s (TIMESTEN d + ucast (c - 48)) else Some d)"

definition mint_atol :: "u8 list \<Rightarrow> u32 option" where
  "mint_atol s =
    (case skip_space s of
       None \<Rightarrow> None
     | Some (_, s) \<Rightarrow>
         (case atol_signs s False of
            None \<Rightarrow> None
          | Some (negflag, s) \<Rightarrow>
              map_option (\<lambda>d. if negflag then - d else d) (atol_digits s 0)))"

text \<open>The value of a digit, or \<open>None\<close> where the loop breaks.\<close>

definition digit_of :: "u8 \<Rightarrow> u8 option" where
  "digit_of c =
    (if 48 \<le> c \<and> c \<le> 57 then Some (c - 48)
     else if isalpha c then Some (ucast (mint_toupper (ucast c)) - 65 + 10)
     else None)"

fun strto_loop :: "u32 \<Rightarrow> u8 list \<Rightarrow> u32 \<Rightarrow> bool \<Rightarrow> nat \<Rightarrow> (u32 \<times> bool \<times> nat) option" where
  "strto_loop base [] i overflow pos = None"
| "strto_loop base (c # s) i overflow pos =
    (if c = 0 then Some (i, overflow, pos)
     else (case digit_of c of
             None \<Rightarrow> Some (i, overflow, pos)
           | Some d \<Rightarrow>
               if unat base \<le> unat d then Some (i, overflow, pos)
               else if i > (- 1) div base \<or> i = (- 1) div base \<and> ucast d > (- 1) mod base
               then strto_loop base s i True (pos + 1)
               else strto_loop base s (i * base + ucast d) overflow (pos + 1)))"

text \<open>The sign: whether it is negative, how many characters, and the rest.\<close>

definition strto_sign :: "u8 list \<Rightarrow> bool \<times> nat \<times> u8 list" where
  "strto_sign s =
    (case s of
       [] \<Rightarrow> (False, 0, [])
     | c # t \<Rightarrow> if c = 45 then (True, 1, t) else if c = 43 then (False, 1, t) else (False, 0, s))"

text \<open>The prefix: the base to use, how many characters, and the rest.\<close>

definition strto_prefix :: "int \<Rightarrow> u8 list \<Rightarrow> (int \<times> nat \<times> u8 list) option" where
  "strto_prefix base s =
    (case s of
       [] \<Rightarrow> None
     | c # t \<Rightarrow>
         if c = 48
         then (if base = 0 \<or> base = 16
               then (case t of
                       [] \<Rightarrow> None
                     | x # u \<Rightarrow>
                         if mint_toupper (ucast x) = 88 then Some (16, 2, u)
                         else Some (if base = 0 then 8 else base, 0, s))
               else Some (base, 0, s))
         else Some (if base = 0 then 10 else base, 0, s))"

text \<open>
  The result and the offset stored in \<open>*endptr\<close>, which stays as it is (\<open>None\<close>) for a bad base.
  \<open>unsgn\<close> distinguishes \<open>strtoul\<close> from \<open>strtol\<close>.
\<close>

definition strtoxx :: "bool \<Rightarrow> u8 list \<Rightarrow> int \<Rightarrow> (u32 \<times> nat option) option" where
  "strtoxx unsgn nptr base =
    (if base < 0 \<or> base = 1 \<or> base > 36 then Some (0, None)
     else (case skip_space nptr of
             None \<Rightarrow> None
           | Some (sp, s) \<Rightarrow>
               if s = [] then None
               else if hd s = 0 then Some (0, Some 0)
               else (case strto_sign s of (negative, sg, s) \<Rightarrow>
                 (case strto_prefix base s of
                    None \<Rightarrow> None
                  | Some (base, pre, s) \<Rightarrow>
                      (let save = sp + sg + pre
                       in case strto_loop (word_of_int base) s 0 False save of
                            None \<Rightarrow> None
                          | Some (i, overflow, pos) \<Rightarrow>
                              if pos = save
                              then Some (0, Some (if save \<ge> 2 \<and>
                                      mint_toupper (ucast (nptr ! (save - 1))) = 88 \<and> nptr ! (save - 2) = 48
                                    then save - 1 else 0))
                              else (let overflow = (overflow \<or> \<not> unsgn \<and>
                                          i > (if negative then 0x80000000 else 0x7fffffff))
                                    in Some (if overflow
                                             then (if unsgn then - 1 else if negative then 0x80000000 else 0x7fffffff)
                                             else if negative then - i else i, Some pos)))))))"

definition mint_strtol :: "u8 list \<Rightarrow> int \<Rightarrow> (u32 \<times> nat option) option" where
  "mint_strtol = strtoxx False"

definition mint_strtoul :: "u8 list \<Rightarrow> int \<Rightarrow> (u32 \<times> nat option) option" where
  "mint_strtoul = strtoxx True"

text \<open>\<open>strtonumber\<close>: \<open>None\<close> in the result is the return value \<open>-1\<close>.\<close>

fun strtonumber_digits :: "u8 list \<Rightarrow> u32 \<Rightarrow> u32 option option" where
  "strtonumber_digits [] r = None"
| "strtonumber_digits (c # crs) r =
    (if 48 \<le>s c \<and> c \<le>s 57
     then (let r = r * 10 + scast (c - 48)
           in if r <s 0 then Some None else strtonumber_digits crs r)
     else Some (if c \<noteq> 0 then None else Some r))"

fun skip_zeros :: "u8 list \<Rightarrow> u8 list" where
  "skip_zeros [] = []"
| "skip_zeros (c # s) = (if c = 48 then skip_zeros s else c # s)"

definition strtonumber_tail :: "u8 list \<Rightarrow> u32 \<Rightarrow> u32 option option" where
  "strtonumber_tail crs sign =
    (case crs of
       [] \<Rightarrow> None
     | c # t \<Rightarrow>
         if c = 48 \<and> t = [] then None
         else if c = 48 \<and> hd t = 0 then Some (Some 0)
         else if c \<le>s 48 \<or> 57 <s c then Some None
         else map_option (map_option (\<lambda>r. r * sign)) (strtonumber_digits crs 0))"

definition strtonumber :: "u8 list \<Rightarrow> bool \<Rightarrow> bool \<Rightarrow> u32 option option" where
  "strtonumber name neg zerolead =
    (if name = [] then None
     else (let minus = (neg \<and> hd name = 45); crs = (if minus then tl name else name);
               sign = (if minus then - 1 else 1)
           in if minus \<and> crs = [] then None
              else if minus \<and> hd crs = 0 then Some None
              else if zerolead
              then (let crs = skip_zeros crs
                    in if crs = [] then None
                       else if hd crs = 0 then Some (if hd name = 48 then Some 0 else None)
                       else strtonumber_tail crs sign)
              else strtonumber_tail crs sign))"

section \<open>Writing numbers\<close>

datatype va_arg = AInt u16 | ALong u32 | AStr "u8 list option"

text \<open>The padding loops of \<open>PUTC\<close> and of \<open>PUTS\<close> and \<open>PUTL\<close>; \<open>width\<close> is an \<open>int\<close> and wraps.\<close>

abbreviation (input) s16 :: "int \<Rightarrow> int" where
  "s16 x \<equiv> signed_take_bit 15 x"

function putc_pad :: "int \<Rightarrow> int \<Rightarrow> u8 list" where
  "putc_pad cnt width = (if cnt > 0 \<and> s16 (width - 1) > 0 then 32 # putc_pad (cnt - 1) (s16 (width - 1)) else [])"
  by pat_completeness auto
termination by (relation "measure (\<lambda>(cnt, width). nat cnt)") auto

declare putc_pad.simps [simp del]

definition PUTC :: "int \<Rightarrow> u8 \<Rightarrow> int \<Rightarrow> u8 list" where
  "PUTC cnt c width = (if cnt \<le> 0 then [] else c # putc_pad (cnt - 1) width)"

function pad :: "u8 \<Rightarrow> int \<Rightarrow> int \<Rightarrow> u8 list" where
  "pad fill cnt width = (if width > 0 \<and> cnt > 0 then fill # pad fill (cnt - 1) (s16 (width - 1)) else [])"
  by pat_completeness auto
termination by (relation "measure (\<lambda>(fill, cnt, width). nat cnt)") auto

declare pad.simps [simp del]

text \<open>The characters of the string, as many as there is room for.\<close>

fun puts_copy :: "int \<Rightarrow> u8 list \<Rightarrow> u8 list option" where
  "puts_copy cnt s =
    (if cnt > 0
     then (case s of
             [] \<Rightarrow> None
           | c # s \<Rightarrow> if c \<noteq> 0 then map_option ((#) c) (puts_copy (cnt - 1) s) else Some [])
     else Some [])"

declare puts_copy.simps [simp del]

definition null_text :: "u8 list" where
  "null_text = [40, 110, 117, 108, 108, 41, 0]"

definition PUTS :: "int \<Rightarrow> u8 list option \<Rightarrow> int \<Rightarrow> u8 list option" where
  "PUTS cnt s width =
    map_option (\<lambda>t. t @ pad 32 (cnt - int (length t)) (s16 (width - int (length t))))
      (puts_copy cnt (case s of None \<Rightarrow> null_text | Some s \<Rightarrow> s))"

text \<open>The digits, the last one first, as they are put into \<open>obuf[32]\<close>: no result if they do not fit.\<close>

definition digit_char :: "nat \<Rightarrow> u8" where
  "digit_char n = (if n < 10 then word_of_nat (48 + n) else word_of_nat (55 + n))"

fun putl_digits :: "nat \<Rightarrow> u32 \<Rightarrow> u32 \<Rightarrow> u8 list option" where
  "putl_digits 0 u base = None"
| "putl_digits (Suc room) u base =
    map_option ((#) (digit_char (unat (u mod base))))
      (if u div base > 0 then putl_digits room (u div base) base else Some [])"

definition PUTL :: "int \<Rightarrow> u32 \<Rightarrow> u32 \<Rightarrow> int \<Rightarrow> u8 \<Rightarrow> bool \<Rightarrow> u8 list option" where
  "PUTL cnt u base width fill_char neg_sign =
    (case putl_digits 32 u base of
       None \<Rightarrow> None
     | Some t \<Rightarrow>
         (let fill = pad fill_char cnt (s16 (width - int (length t)));
              sign = (if neg_sign then [45] else []);
              cnt = cnt - int (length fill) - int (length sign)
          in Some (fill @ sign @ take (nat cnt) (rev t))))"

fun conv_width :: "u16 \<Rightarrow> u8 list \<Rightarrow> (u16 \<times> u8 list) option" where
  "conv_width width [] = None"
| "conv_width width (c # fmt) =
    (if c \<noteq> 0 \<and> isdigit c then conv_width (TIMESTEN width + ucast (c - 48)) fmt else Some (width, c # fmt))"

definition get_long :: "(u16 \<Rightarrow> u32) \<Rightarrow> bool \<Rightarrow> va_arg \<Rightarrow> u32 option" where
  "get_long ext long_flag a =
    (case a of ALong l \<Rightarrow> if long_flag then Some l else None
             | AInt i \<Rightarrow> if long_flag then None else Some (ext i)
             | AStr _ \<Rightarrow> None)"

text \<open>One conversion: the bytes written and the arguments left.\<close>

definition put_arg :: "(va_arg \<Rightarrow> u8 list option) \<Rightarrow> va_arg list \<Rightarrow> (u8 list \<times> va_arg list) option" where
  "put_arg f args =
    (case args of [] \<Rightarrow> None | a # args \<Rightarrow> map_option (\<lambda>out. (out, args)) (f a))"

definition put_unsigned :: "int \<Rightarrow> int \<Rightarrow> u8 \<Rightarrow> u32 \<Rightarrow> u32 option \<Rightarrow> u8 list option" where
  "put_unsigned cnt width fill_char base l =
    (case l of None \<Rightarrow> None | Some l \<Rightarrow> PUTL cnt l base width fill_char False)"

definition convert ::
  "int \<Rightarrow> int \<Rightarrow> u8 \<Rightarrow> bool \<Rightarrow> u8 \<Rightarrow> va_arg list \<Rightarrow> (u8 list \<times> va_arg list) option" where
  "convert cnt width fill_char long_flag c args =
    (if c = 37 then Some (PUTC cnt c width, args)
     else if c = 99 then put_arg (\<lambda>a. case a of AInt i \<Rightarrow> Some (PUTC cnt (ucast i) width) | _ \<Rightarrow> None) args
     else if c = 115 then put_arg (\<lambda>a. case a of AStr s \<Rightarrow> PUTS cnt s width | _ \<Rightarrow> None) args
     else if c = 105 \<or> c = 100
     then put_arg (\<lambda>a. case get_long scast long_flag a of
                         None \<Rightarrow> None
                       | Some l \<Rightarrow>
                           if l <s 0 then PUTL cnt (- l) 10 (s16 (width - 1)) fill_char True
                           else PUTL cnt l 10 width fill_char False) args
     else if c = 111 then put_arg (\<lambda>a. put_unsigned cnt width fill_char 8 (get_long ucast long_flag a)) args
     else if c = 120 then put_arg (\<lambda>a. put_unsigned cnt width fill_char 16 (get_long ucast long_flag a)) args
     else if c = 112 then put_arg (\<lambda>a. put_unsigned cnt width fill_char 16 (get_long ucast True a)) args
     else if c = 117 then put_arg (\<lambda>a. put_unsigned cnt width fill_char 10 (get_long ucast long_flag a)) args
     else Some ([], args))"

lemma conv_width_shorter: "conv_width w fmt = Some (w', fmt') \<Longrightarrow> length fmt' \<le> length fmt"
  by (induction fmt arbitrary: w) (auto split: if_splits simp: le_SucI)

lemma tl_shorter: "x # xs = tl b \<Longrightarrow> length xs < length b"
  by (cases b) auto

function kvsprintf_loop :: "u8 list \<Rightarrow> va_arg list \<Rightarrow> int \<Rightarrow> u8 list option" where
  "kvsprintf_loop [] args cnt = None"
| "kvsprintf_loop (c # fmt) args cnt =
    (if c = 0 then Some []
     else if c \<noteq> 37
     then (let out = PUTC cnt c 1
           in map_option ((@) out) (kvsprintf_loop fmt args (cnt - int (length out))))
     else (case conv_width 0 fmt of
             None \<Rightarrow> None
           | Some (width, fmt1) \<Rightarrow>
               (let fill_char = (if hd fmt = 48 then 48 else 32);
                    long_flag = (hd fmt1 = 108 \<or> hd fmt1 = 76);
                    fmt2 = (if long_flag then tl fmt1 else fmt1)
                in case fmt2 of
                     [] \<Rightarrow> None
                   | c # fmt3 \<Rightarrow>
                       if c = 0 then Some []
                       else (case convert cnt (sint width) fill_char long_flag c args of
                               None \<Rightarrow> None
                             | Some (out, args) \<Rightarrow>
                                 map_option ((@) out) (kvsprintf_loop fmt3 args (cnt - int (length out)))))))"
  by pat_completeness auto
termination
  by (relation "measure (\<lambda>(fmt, args, cnt). length fmt)")
    (auto dest!: conv_width_shorter tl_shorter split: if_splits simp: Let_def)

text \<open>The bytes written, with the final zero.\<close>

definition kvsprintf :: "int \<Rightarrow> u8 list \<Rightarrow> va_arg list \<Rightarrow> u8 list option" where
  "kvsprintf buflen fmt args = map_option (\<lambda>out. out @ [0]) (kvsprintf_loop fmt args (buflen - 1))"


section \<open>The value of digits\<close>

lemma TIMESTEN_ten: "TIMESTEN x = 10 * x"
  by (simp add: TIMESTEN_def push_bit_eq_mult algebra_simps)

definition digits_value :: "nat \<Rightarrow> nat \<Rightarrow> nat list \<Rightarrow> nat" where
  "digits_value b a ds = foldl (\<lambda>a d. a * b + d) a ds"

lemma digits_value_simps [simp]:
  "digits_value b a [] = a" "digits_value b a (d # ds) = digits_value b (a * b + d) ds"
  "digits_value b a (ds @ [d]) = digits_value b a ds * b + d"
  by (simp_all add: digits_value_def)

lemma digits_value_ge: "0 < b \<Longrightarrow> a \<le> digits_value b a ds"
proof (induction ds arbitrary: a)
  case (Cons d ds)
  have "a \<le> a * b + d" using Cons.prems by (cases b) auto
  then show ?case using Cons.IH[of "a * b + d"] Cons.prems by simp
qed simp

lemma cutoff_nat:
  fixes q r i d b :: nat
  assumes "r < b" "d < b"
  shows "q < i \<or> i = q \<and> r < d \<longleftrightarrow> q * b + r < i * b + d"
proof (cases i q rule: linorder_cases)
  case less
  then have "Suc i * b \<le> q * b" by (intro mult_le_mono1) simp
  then show ?thesis using less assms by simp
next
  case equal
  then show ?thesis by simp
next
  case greater
  then have "Suc q * b \<le> i * b" by (intro mult_le_mono1) simp
  then show ?thesis using greater assms by simp
qed

lemma cutoff_word:
  fixes i b d :: u32
  assumes "unat d < unat b"
  shows "i > (- 1) div b \<or> i = (- 1) div b \<and> d > (- 1) mod b \<longleftrightarrow> 2 ^ 32 \<le> unat i * unat b + unat d"
proof -
  have m: "unat (- 1 :: u32) = 4294967295" by (simp add: unsigned_minus_1_eq_mask mask_eq_exp_minus_1)
  have "i > (- 1) div b \<or> i = (- 1) div b \<and> d > (- 1) mod b \<longleftrightarrow>
    unat (- 1 :: u32) div unat b < unat i \<or> unat i = unat (- 1 :: u32) div unat b \<and> unat (- 1 :: u32) mod unat b < unat d"
    by (simp only: word_less_nat_alt word_unat_eq_iff unat_div unat_mod)
  also have "\<dots> \<longleftrightarrow> unat (- 1 :: u32) div unat b * unat b + unat (- 1 :: u32) mod unat b < unat i * unat b + unat d"
    using assms by (intro cutoff_nat) simp_all
  also have "\<dots> \<longleftrightarrow> 2 ^ 32 \<le> unat i * unat b + unat d"
    unfolding div_mult_mod_eq m by (simp add: Suc_le_eq[of 4294967295, simplified])
  finally show ?thesis .
qed

text \<open>A character at which the loop of \<open>strtol\<close> stops.\<close>

definition no_digit :: "nat \<Rightarrow> u8 \<Rightarrow> bool" where
  "no_digit b c \<longleftrightarrow> c = 0 \<or> (case digit_of c of None \<Rightarrow> True | Some d \<Rightarrow> b \<le> unat d)"

definition is_digits :: "nat \<Rightarrow> u8 list \<Rightarrow> nat list \<Rightarrow> bool" where
  "is_digits b cs ds \<longleftrightarrow> list_all2 (\<lambda>c d. c \<noteq> 0 \<and> map_option unat (digit_of c) = Some d \<and> d < b) cs ds"

lemma is_digits_simps [simp]:
  "is_digits b [] ds \<longleftrightarrow> ds = []"
  "is_digits b (c # cs) (d # ds) \<longleftrightarrow> c \<noteq> 0 \<and> map_option unat (digit_of c) = Some d \<and> d < b \<and> is_digits b cs ds"
  "is_digits b cs [] \<longleftrightarrow> cs = []"
  by (auto simp: is_digits_def)

lemma is_digits_length: "is_digits b cs ds \<Longrightarrow> length cs = length ds"
  by (simp add: is_digits_def list_all2_lengthD)

lemma strto_loop_digits:
  assumes "is_digits b cs ds" "no_digit b c" "2 \<le> b" "b \<le> 36"
  shows "\<exists>i' o'. strto_loop (word_of_nat b) (cs @ c # r) i ov pos = Some (i', o', pos + length cs) \<and>
    (o' \<longleftrightarrow> ov \<or> 2 ^ 32 \<le> digits_value b (unat i) ds) \<and>
    (\<not> o' \<longrightarrow> unat i' = digits_value b (unat i) ds)"
  using assms(1)
proof (induction ds arbitrary: cs i ov pos)
  case Nil
  have "unat i < 2 ^ 32" using unsigned_less[of i, where 'a = nat] by simp
  then show ?case using Nil assms(2-4)
    by (auto simp: no_digit_def unat_of_nat split: option.splits)
next
  case (Cons d ds)
  obtain x cs' where cs: "cs = x # cs'" using is_digits_length[OF Cons.prems] by (cases cs) auto
  then obtain w where w: "x \<noteq> 0" "digit_of x = Some w" "unat w = d" "d < b" and rest: "is_digits b cs' ds"
    using Cons.prems by auto
  have b: "unat (word_of_nat b :: u32) = b" using assms(4) by (simp add: unat_of_nat)
  have uw: "unat (ucast w :: u32) = d" using w(3) u8_le[of w] by (simp add: unat_ucast)
  have cut: "i > (- 1) div word_of_nat b \<or> i = (- 1) div word_of_nat b \<and> (ucast w :: u32) > (- 1) mod word_of_nat b \<longleftrightarrow>
    2 ^ 32 \<le> unat i * b + d"
    using cutoff_word[of "ucast w" "word_of_nat b" i] b uw w(4) by simp
  have step: "strto_loop (word_of_nat b) (cs @ c # r) i ov pos =
    (if 2 ^ 32 \<le> unat i * b + d then strto_loop (word_of_nat b) (cs' @ c # r) i True (pos + 1)
     else strto_loop (word_of_nat b) (cs' @ c # r) (i * word_of_nat b + ucast w) ov (pos + 1))"
    unfolding cs append_Cons strto_loop.simps cut[symmetric] using w b by simp
  show ?case
  proof (cases "2 ^ 32 \<le> unat i * b + d")
    case True
    have "2 ^ 32 \<le> digits_value b (unat i * b + d) ds"
      using True digits_value_ge[of b "unat i * b + d" ds] assms(3) by simp
    then show ?thesis using Cons.IH[OF rest, of i True "pos + 1"] step True cs by auto
  next
    case False
    have "unat (i * word_of_nat b + ucast w) = unat i * b + d"
      using False b uw by (simp add: unat_word_ariths)
    then show ?thesis using Cons.IH[OF rest, of "i * word_of_nat b + ucast w" ov "pos + 1"] step False cs by auto
  qed
qed


lemma skip_space_spaces:
  "\<forall>c\<in>set sp. c \<noteq> 0 \<and> isspace c \<Longrightarrow> \<not> isspace c \<Longrightarrow> skip_space (sp @ c # s) = Some (length sp, c # s)"
  by (induction sp) auto

lemma lower_xor: "97 \<le> c \<Longrightarrow> c \<le> 122 \<Longrightarrow> c XOR 0x20 = c - (0x20 :: u8)"
proof -
  assume c: "97 \<le> c" "c \<le> 122"
  have "list_all (\<lambda>n. word_of_nat n XOR 0x20 = word_of_nat n - (0x20 :: u8)) [97..<123]" by code_simp
  moreover have "97 \<le> unat c" "unat c < 123" using c by (simp_all add: word_le_nat_alt)
  then have "unat c \<in> set [97..<123]" unfolding set_upt by simp
  ultimately have "word_of_nat (unat c) XOR 0x20 = word_of_nat (unat c) - (0x20 :: u8)"
    unfolding list_all_iff by blast
  then show ?thesis by simp
qed

lemma digit_of_ranges:
  "digit_of c = (if 48 \<le> c \<and> c \<le> 57 then Some (c - 48) else if 65 \<le> c \<and> c \<le> 90 then Some (c - 55)
     else if 97 \<le> c \<and> c \<le> 122 then Some (c - 87) else None)"
proof -
  have uu: "ucast (ucast c :: u16) = c" by (rule bit_word_eqI) (simp add: bit_simps)
  have "ucast ((ucast c :: u16) XOR 0x20) = c XOR 0x20" by (rule bit_word_eqI) (simp add: bit_simps)
  then have "ucast (mint_toupper (ucast c)) = (if islower c then c - 0x20 else c)"
    using lower_xor[of c] by (simp add: mint_toupper_def uu islower_iff)
  then show ?thesis
    by (auto simp: digit_of_def isalpha_iff isupper_iff islower_iff word_le_nat_alt)
qed

lemma digit_below_10: "digit_of c = Some d \<Longrightarrow> unat d < 10 \<longleftrightarrow> isdigit c"
  by (auto simp: digit_of_ranges isdigit_iff word_le_nat_alt unat_sub split: if_splits)

lemma digit_of_isdigit: "isdigit c \<Longrightarrow> digit_of c = Some (c - 48)"
  by (simp add: digit_of_ranges isdigit_iff)

lemma atol_digits_value:
  assumes "is_digits 10 cs ds" "\<not> isdigit c"
  shows "atol_digits (cs @ c # r) a = Some (a * 10 ^ length ds + word_of_nat (digits_value 10 0 ds))"
proof -
  have "atol_digits (cs @ c # r) a = Some (word_of_nat (digits_value 10 n ds))" if "a = word_of_nat n" for n
    using assms(1) that
  proof (induction ds arbitrary: cs a n)
    case Nil
    then show ?case using assms(2) by simp
  next
    case (Cons d ds)
    obtain x cs' where cs: "cs = x # cs'" using is_digits_length[OF Cons.prems(1)] by (cases cs) auto
    then obtain w where w: "x \<noteq> 0" "digit_of x = Some w" "unat w = d" "d < 10" and rest: "is_digits 10 cs' ds"
      using Cons.prems by auto
    then have x: "isdigit x" using digit_below_10[OF w(2)] by simp
    then have "w = x - 48" using w(2) digit_of_isdigit by simp
    then have "(ucast (x - 48) :: u32) = word_of_nat d" using w(3) by (metis of_nat_unat)
    then have "TIMESTEN a + ucast (x - 48) = word_of_nat (n * 10 + d)"
      using Cons.prems(2) by (simp add: TIMESTEN_ten)
    then show ?case using Cons.IH[OF rest, of _ "n * 10 + d"] x w(1) cs by simp
  qed
  from this[of "unat a"] have "atol_digits (cs @ c # r) a = Some (word_of_nat (digits_value 10 (unat a) ds))" by simp
  moreover have "digits_value 10 (unat a) ds = unat a * 10 ^ length ds + digits_value 10 0 ds"
  proof (induction ds rule: rev_induct)
    case (snoc d ds)
    then show ?case by (simp add: algebra_simps)
  qed simp
  ultimately show ?thesis by simp
qed


section \<open>Reading is exact\<close>

text \<open>A number in a string: spaces, an optional sign, digits, and a character that is none.\<close>

definition sign_chars :: "bool option \<Rightarrow> u8 list" where
  "sign_chars sg = (case sg of None \<Rightarrow> [] | Some True \<Rightarrow> [45] | Some False \<Rightarrow> [43])"

definition number_text :: "u8 list \<Rightarrow> bool option \<Rightarrow> u8 list \<Rightarrow> u8 \<Rightarrow> u8 list \<Rightarrow> u8 list" where
  "number_text sp sg cs c r = sp @ sign_chars sg @ cs @ c # r"

definition clamp_long :: "int \<Rightarrow> int" where
  "clamp_long x = max (- (2 ^ 31)) (min (2 ^ 31 - 1) x)"

lemma digit_of_signs: "digit_of 45 = None" "digit_of 43 = None" "digit_of 0 = None"
  by (simp_all add: digit_of_ranges)

lemma isspace_not_digit: "digit_of c \<noteq> None \<Longrightarrow> \<not> isspace c"
  by (auto simp: isspace_iff digit_of_ranges word_le_nat_alt word_unat_eq_iff split: if_splits)

lemma sint_of_int: "- (2 ^ 31) \<le> x \<Longrightarrow> x < 2 ^ 31 \<Longrightarrow> sint (word_of_int x :: u32) = x"
  by (simp add: signed_of_int signed_take_bit_int_eq_self)

lemma strto_result:
  fixes i :: u32 and V :: nat and neg :: bool
  assumes "ov \<longleftrightarrow> 2 ^ 32 \<le> V" "\<not> ov \<longrightarrow> unat i = V"
  defines "ov' \<equiv> ov \<or> i > (if neg then 0x80000000 else 0x7fffffff)"
  shows "sint (if ov' then (if neg then 0x80000000 else 0x7fffffff) else if neg then - i else i :: u32) =
    clamp_long (if neg then - int V else int V)"
proof -
  have lim: "sint (0x80000000 :: u32) = - (2 ^ 31)" "sint (0x7fffffff :: u32) = 2 ^ 31 - 1"
    using sint_of_int[of "- (2 ^ 31)"] sint_of_int[of "2 ^ 31 - 1"] by simp_all
  have ov': "ov' \<longleftrightarrow> (if neg then 2 ^ 31 else 2 ^ 31 - 1) < V"
    using assms(1,2) unfolding ov'_def by (cases ov) (auto simp: word_less_nat_alt)
  show ?thesis
  proof (cases ov')
    case True
    then show ?thesis using ov' lim by (auto simp: clamp_long_def)
  next
    case False
    then have V: "\<not> ov" "V \<le> (if neg then 2 ^ 31 else 2 ^ 31 - 1)" using ov' unfolding ov'_def by auto
    then have i: "i = word_of_int (int V)" using assms(2) by auto
    have "sint (if neg then - i else i) = (if neg then - int V else int V)"
      using V(2) sint_of_int[of "int V"] sint_of_int[of "- int V"] unfolding i by (auto simp: wi_hom_neg)
    then show ?thesis using False V(2) by (auto simp: clamp_long_def)
  qed
qed

lemma strtoxx_digits:
  assumes sp: "\<forall>c\<in>set sp. c \<noteq> 0 \<and> isspace c" and ds: "is_digits b cs ds" "ds \<noteq> []" "no_digit b c"
    and b: "2 \<le> b" "b \<le> 36" and pre: "b = 16 \<longrightarrow> hd cs \<noteq> 48"
  defines "V \<equiv> digits_value b 0 ds"
  shows "\<exists>w. strtoxx unsgn (number_text sp sg cs c r) (int b) =
      Some (w, Some (length sp + length (sign_chars sg) + length cs)) \<and>
    (if unsgn then w = (if 2 ^ 32 \<le> V then - 1 else if sg = Some True then - word_of_nat V else word_of_nat V)
     else sint w = clamp_long (if sg = Some True then - int V else int V))"
proof -
  obtain x cs' where cs: "cs = x # cs'" using is_digits_length[OF ds(1)] ds(2) by (cases cs) auto
  have x: "x \<noteq> 0" "digit_of x \<noteq> None" using ds cs by (cases ds; auto)+
  let ?t = "sign_chars sg @ cs @ c # r"
  have hdt: "?t \<noteq> []" "hd ?t \<noteq> 0" "\<not> isspace (hd ?t)" "hd ?t # tl ?t = ?t"
    using x cs isspace_not_digit[OF x(2)] by (auto simp: sign_chars_def isspace_iff split: option.splits bool.splits)
  have "skip_space (number_text sp sg cs c r) = Some (length sp, ?t)"
    using skip_space_spaces[OF sp hdt(3), of "tl ?t"] hdt(4) by (simp add: number_text_def)
  moreover have "strto_sign ?t = (sg = Some True, length (sign_chars sg), cs @ c # r)"
    using x cs digit_of_signs by (auto simp: strto_sign_def sign_chars_def split: option.splits bool.splits)
  moreover have "strto_prefix (int b) (cs @ c # r) = Some (int b, 0, cs @ c # r)"
    using b pre cs by (auto simp: strto_prefix_def)
  moreover obtain i ov where l: "strto_loop (word_of_nat b) (cs @ c # r) 0 False (length sp + length (sign_chars sg)) =
      Some (i, ov, length sp + length (sign_chars sg) + length cs)"
    "ov \<longleftrightarrow> 2 ^ 32 \<le> V" "\<not> ov \<longrightarrow> unat i = V"
    using strto_loop_digits[OF ds(1,3) b, of r 0 False] unfolding V_def by fastforce
  moreover have "word_of_int (int b) = (word_of_nat b :: u32)" by simp
  ultimately have eval: "strtoxx unsgn (number_text sp sg cs c r) (int b) =
    (let overflow = (ov \<or> \<not> unsgn \<and> i > (if sg = Some True then 0x80000000 else 0x7fffffff))
     in Some (if overflow then (if unsgn then - 1 else if sg = Some True then 0x80000000 else 0x7fffffff)
              else if sg = Some True then - i else i, Some (length sp + length (sign_chars sg) + length cs)))"
    using b hdt(1,2) cs unfolding strtoxx_def by simp
  show ?thesis
  proof (cases unsgn)
    case True
    have "\<not> ov \<Longrightarrow> word_of_nat V = i" using l(3) by auto
    then show ?thesis unfolding eval using True l(2) by (auto simp: Let_def)
  next
    case False
    show ?thesis
      unfolding eval Let_def
      by (intro exI conjI, rule refl)
        (use strto_result[OF l(2,3), of "sg = Some True"] False in \<open>simp only: if_False simp_thms not_False_eq_True\<close>)
  qed
qed


section \<open>Writing stays in the buffer, up to the minus signs\<close>

lemma putc_pad_length: "length (putc_pad cnt width) \<le> nat cnt"
proof (induction cnt width rule: putc_pad.induct)
  case (1 cnt width)
  then show ?case by (subst putc_pad.simps) auto
qed

lemma pad_length: "length (pad fill cnt width) \<le> nat cnt"
proof (induction fill cnt width rule: pad.induct)
  case (1 fill cnt width)
  then show ?case by (subst pad.simps) auto
qed

lemma puts_copy_length: "puts_copy cnt s = Some t \<Longrightarrow> length t \<le> nat cnt"
proof (induction s arbitrary: cnt t)
  case Nil
  then show ?case by (subst (asm) puts_copy.simps) (auto split: if_splits)
next
  case (Cons c s)
  show ?case
  proof (cases "cnt > 0 \<and> c \<noteq> 0")
    case True
    then obtain t' where t': "t = c # t'" "puts_copy (cnt - 1) s = Some t'"
      using Cons.prems by (subst (asm) puts_copy.simps) auto
    then show ?thesis using Cons.IH[OF t'(2)] True by auto
  next
    case False
    then show ?thesis using Cons.prems by (subst (asm) puts_copy.simps) (auto split: if_splits)
  qed
qed

lemma PUTC_length: "length (PUTC cnt c width) \<le> nat cnt"
  using putc_pad_length[of "cnt - 1" width] by (auto simp: PUTC_def)

lemma PUTS_length: "PUTS cnt s width = Some t \<Longrightarrow> length t \<le> nat cnt"
proof -
  assume "PUTS cnt s width = Some t"
  then obtain u where u: "puts_copy cnt (case s of None \<Rightarrow> null_text | Some s \<Rightarrow> s) = Some u"
    "t = u @ pad 32 (cnt - int (length u)) (s16 (width - int (length u)))"
    by (auto simp: PUTS_def)
  then show ?thesis using puts_copy_length[OF u(1)]
      pad_length[of 32 "cnt - int (length u)" "s16 (width - int (length u))"] by simp
qed

lemma PUTL_length:
  assumes "PUTL cnt u base width fill neg = Some t"
  shows "length t \<le> nat cnt + (if neg then 1 else 0)"
proof -
  obtain ds where "t = pad fill cnt (s16 (width - int (length ds))) @ (if neg then [45] else []) @
      take (nat (cnt - int (length (pad fill cnt (s16 (width - int (length ds))))) - int (length (if neg then [45::u8] else []))))
        (rev ds)"
    using assms by (auto simp: PUTL_def Let_def split: option.splits)
  then show ?thesis using pad_length[of fill cnt "s16 (width - int (length ds))"] by (auto simp: min_def)
qed

text \<open>The arguments that are negative when they are read as signed.\<close>

definition negative :: "va_arg \<Rightarrow> bool" where
  "negative a = (case a of AInt i \<Rightarrow> i <s 0 | ALong l \<Rightarrow> l <s 0 | AStr _ \<Rightarrow> False)"

definition negatives :: "va_arg list \<Rightarrow> nat" where
  "negatives args = length (filter negative args)"

lemma scast_neg: "(scast (i :: u16) :: u32) <s 0 \<longleftrightarrow> i <s 0"
proof -
  have "sint (scast i :: u32) = sint i"
    using sint_ge[of i] sint_lt[of i] by (simp add: signed_scast_eq signed_take_bit_int_eq_self)
  then show ?thesis by (simp add: word_sless_alt)
qed

lemma put_arg_length:
  assumes "put_arg f args = Some (out, args')" "\<And>a out. f a = Some out \<Longrightarrow> length out \<le> n + (if negative a then 1 else 0)"
  shows "length out + negatives args' \<le> n + negatives args"
proof (cases args)
  case (Cons a as)
  then have "f a = Some out" "args' = as" using assms(1) by (auto simp: put_arg_def)
  then show ?thesis using assms(2)[of a out] Cons by (auto simp: negatives_def split: if_splits)
qed (use assms(1) in \<open>simp add: put_arg_def\<close>)

lemma convert_length:
  assumes "convert cnt width fill long c args = Some (out, args')"
  shows "length out + negatives args' \<le> nat cnt + negatives args"
proof -
  have pl: "length out + negatives args' \<le> nat cnt + negatives args"
    if "put_arg f args = Some (out, args')" "\<And>a t. f a = Some t \<Longrightarrow> length t \<le> nat cnt + (if negative a then 1 else 0)" for f
    using put_arg_length[OF that] .
  have u: "length t \<le> nat cnt + n" if "put_unsigned cnt width fill b l = Some t" for b l t n
    using that PUTL_length[of cnt _ b width fill False t]
    by (auto simp: put_unsigned_def split: option.splits intro: trans_le_add1)
  have s: "length t \<le> nat cnt + (if negative a then 1 else 0)"
    if *: "(case get_long scast long a of None \<Rightarrow> None
       | Some l \<Rightarrow> if l <s 0 then PUTL cnt (- l) 10 (s16 (width - 1)) fill True
                   else PUTL cnt l 10 width fill False) = Some t" for a t
  proof -
    obtain l where l: "get_long scast long a = Some l" using * by (auto split: option.splits)
    then have "l <s 0 \<longleftrightarrow> negative a"
      using scast_neg by (auto simp: get_long_def negative_def split: va_arg.splits if_splits)
    then show ?thesis
      using * l PUTL_length[of cnt "- l" 10 "s16 (width - 1)" fill True t] PUTL_length[of cnt l 10 width fill False t]
      by (auto split: if_splits)
  qed
  have cs: "length t \<le> nat cnt + (if negative a then 1 else 0)"
    if "(case a of AInt i \<Rightarrow> Some (PUTC cnt (ucast i) width) | _ \<Rightarrow> None) = Some t \<or>
        (case a of AStr s \<Rightarrow> PUTS cnt s width | _ \<Rightarrow> None) = Some t" for a t
    using that PUTC_length[of cnt _ width] PUTS_length[of cnt _ width t] by (cases a) (auto intro: trans_le_add1 le_SucI)
  show ?thesis
    using assms unfolding convert_def
    by (auto split: if_splits intro!: PUTC_length elim!: pl intro: u s cs)
qed


lemma convert_args:
  assumes "convert cnt width fill long c args = Some (out, args')"
  shows "negatives args' \<le> negatives args"
proof -
  have "negatives args' \<le> negatives args" if "put_arg f args = Some (out, args')" for f
    using that by (cases args) (auto simp: put_arg_def negatives_def)
  then show ?thesis using assms unfolding convert_def by (auto split: if_splits)
qed

lemma kvsprintf_loop_length:
  "kvsprintf_loop fmt args cnt = Some out \<Longrightarrow> length out \<le> nat cnt + negatives args"
proof (induction fmt args cnt arbitrary: out rule: kvsprintf_loop.induct)
  case (2 c fmt args cnt)
  consider "c = 0" | "c \<noteq> 0" "c \<noteq> 37" | "c = 37" by blast
  then show ?case
  proof cases
    case 1
    then show ?thesis using 2(3) by simp
  next
    case 2
    let ?p = "PUTC cnt c 1"
    obtain o2 where o2: "kvsprintf_loop fmt args (cnt - int (length ?p)) = Some o2" "out = ?p @ o2"
      using "2.prems" 2 by (auto simp: Let_def)
    then show ?thesis using "2.IH"(1)[OF 2 refl o2(1)] PUTC_length[of cnt c 1] by simp
  next
    case 3
    show ?thesis
    proof (cases "conv_width 0 fmt")
      case (Some wf)
      obtain width fmt1 where wf: "wf = (width, fmt1)" by (cases wf)
      define lf where "lf = (hd fmt1 = 108 \<or> hd fmt1 = 76)"
      define fmt2 where "fmt2 = (if lf then tl fmt1 else fmt1)"
      define fc where "fc = (if hd fmt = 48 then 48 else 32 :: u8)"
      have *: "(case fmt2 of [] \<Rightarrow> None | c # fmt3 \<Rightarrow> if c = 0 then Some []
          else (case convert cnt (sint width) fc lf c args of None \<Rightarrow> None
            | Some (out, args) \<Rightarrow> map_option ((@) out) (kvsprintf_loop fmt3 args (cnt - int (length out))))) = Some out"
        unfolding fmt2_def lf_def fc_def using "2.prems" 3 Some wf by (simp add: Let_def split del: if_split)
      then obtain d fmt3 where f3: "fmt2 = d # fmt3" by (cases fmt2) auto
      show ?thesis
      proof (cases "d = 0")
        case False
        then obtain o1 args1 o2 where o: "convert cnt (sint width) fc lf d args = Some (o1, args1)"
          "kvsprintf_loop fmt3 args1 (cnt - int (length o1)) = Some o2" "out = o1 @ o2"
          using * f3 by (auto split: option.splits)
        have "length o2 \<le> nat (cnt - int (length o1)) + negatives args1"
          using "2.IH"(2)[OF _ _ Some wf[symmetric] fc_def lf_def fmt2_def f3 False o(1) refl o(2)] 3 by simp
        then show ?thesis using convert_length[OF o(1)] convert_args[OF o(1)] o(3) by simp
      qed (use * f3 in simp)
    qed (use "2.prems" 3 in simp)
  qed
qed simp

section \<open>What is written can be read\<close>

lemma digit_of_char: "n < 16 \<Longrightarrow> digit_char n \<noteq> 0 \<and> map_option unat (digit_of (digit_char n)) = Some n"
proof -
  assume n: "n < 16"
  have "list_all (\<lambda>n. digit_char n \<noteq> 0 \<and> (if 48 \<le> digit_char n \<and> digit_char n \<le> 57 then unat (digit_char n - 48) = n
      else 65 \<le> digit_char n \<and> digit_char n \<le> 90 \<and> unat (digit_char n - 55) = n)) [0..<16]"
    by code_simp
  moreover have "n \<in> set [0..<16]" unfolding set_upt using n by simp
  ultimately show ?thesis unfolding list_all_iff digit_of_ranges by fastforce
qed

lemma is_digits_snoc: "is_digits b cs ds \<Longrightarrow> is_digits b [c] [d] \<Longrightarrow> is_digits b (cs @ [c]) (ds @ [d])"
  unfolding is_digits_def by (rule list_all2_appendI)

lemma putl_digits_value:
  assumes "2 \<le> b" "b \<le> 16"
  shows "unat u < b ^ Suc room \<Longrightarrow> \<exists>t ds. putl_digits (Suc room) u (word_of_nat b) = Some t \<and> t \<noteq> [] \<and>
    length t \<le> Suc room \<and> is_digits b (rev t) ds \<and> digits_value b 0 ds = unat u"
proof (induction room arbitrary: u)
  case 0
  have b: "unat (word_of_nat b :: u32) = b" using assms by (simp add: unat_of_nat)
  have "u div word_of_nat b = 0" "u mod word_of_nat b = u"
    using 0 b by (simp_all add: word_unat_eq_iff unat_div unat_mod)
  then show ?case using 0 digit_of_char[of "unat u"] assms
    by (intro exI[of _ "[digit_char (unat u)]"] exI[of _ "[unat u]"]) (simp add: One_nat_def)
next
  case (Suc room)
  have b: "unat (word_of_nat b :: u32) = b" using assms by (simp add: unat_of_nat)
  let ?q = "u div word_of_nat b" and ?r = "u mod word_of_nat b"
  have r: "unat ?r = unat u mod b" and q: "unat ?q = unat u div b" by (simp_all add: unat_div unat_mod b)
  have rb: "unat ?r < b" using r assms by simp
  note ch = digit_of_char[of "unat ?r"]
  have last: "is_digits b [digit_char (unat ?r)] [unat ?r]" using ch rb assms by simp
  show ?case
  proof (cases "?q > 0")
    case True
    have "unat ?q < b ^ Suc room"
      using Suc.prems q by (simp add: less_mult_imp_div_less mult.commute)
    from Suc.IH[OF this] obtain t ds where t: "putl_digits (Suc room) ?q (word_of_nat b) = Some t" "length t \<le> Suc room"
      "is_digits b (rev t) ds" "digits_value b 0 ds = unat ?q" by blast
    have "digits_value b 0 (ds @ [unat ?r]) = unat u" using t(4) q r by simp
    then show ?thesis
      using True t is_digits_snoc[OF t(3) last]
      by (intro exI[of _ "digit_char (unat ?r) # t"] exI[of _ "ds @ [unat ?r]"]) simp
  next
    case False
    then have "unat ?q = 0" by (simp add: word_less_nat_alt)
    then have "unat ?r = unat u" using q r by (metis div_eq_0_iff mod_less mod_by_0)
    then show ?thesis using False last
      by (intro exI[of _ "[digit_char (unat ?r)]"] exI[of _ "[unat ?r]"]) simp
  qed
qed

lemma putl_digits_mono: "putl_digits n u b = Some t \<Longrightarrow> n \<le> m \<Longrightarrow> putl_digits m u b = Some t"
proof (induction n arbitrary: u t m)
  case (Suc n)
  obtain m' where m: "m = Suc m'" "n \<le> m'" using Suc.prems(2) by (cases m) auto
  then show ?case using Suc.prems(1) Suc.IH[of "u div b" _ m'] by (auto split: if_splits)
qed simp

lemma PUTL_decimal:
  assumes "11 \<le> cnt" "w \<le> 0" "- 100 \<le> w"
  shows "\<exists>cs ds. PUTL cnt u 10 w fill neg = Some ((if neg then [45] else []) @ cs) \<and> is_digits 10 cs ds \<and> ds \<noteq> [] \<and>
    digits_value 10 0 ds = unat u"
proof -
  have "unat u < 10 ^ Suc 9" using unsigned_less[of u, where 'a = nat] by simp
  from putl_digits_value[of 10, OF _ _ this] obtain t ds where t: "putl_digits (Suc 9) u 10 = Some t" "t \<noteq> []"
    "length t \<le> 10" "is_digits 10 (rev t) ds" "digits_value 10 0 ds = unat u" by auto
  have "putl_digits 32 u 10 = Some t" using putl_digits_mono[OF t(1)] by simp
  moreover have "s16 (w - int (length t)) \<le> 0"
    using assms t(3) by (simp add: signed_take_bit_int_eq_self)
  ultimately have "PUTL cnt u 10 w fill neg = Some ((if neg then [45] else []) @ take (nat (cnt - (if neg then 1 else 0))) (rev t))"
    by (simp add: PUTL_def Let_def pad.simps)
  moreover have "length (rev t) \<le> nat (cnt - (if neg then 1 else 0))" using assms(1) t(3) by auto
  ultimately show ?thesis using t is_digits_length[OF t(4)] by (intro exI[of _ "rev t"] exI[of _ ds]) auto
qed


text \<open>The text of a \<open>long\<close>: what \<open>%ld\<close> writes.\<close>

abbreviation (input) fmt_ld :: "u8 list" where
  "fmt_ld \<equiv> [37, 108, 100, 0]"

lemma kvsprintf_ld:
  assumes "12 \<le> buflen"
  shows "\<exists>cs ds. kvsprintf buflen fmt_ld [ALong l] =
      Some (number_text [] (if l <s 0 then Some True else None) cs 0 []) \<and>
    is_digits 10 cs ds \<and> ds \<noteq> [] \<and> int (digits_value 10 0 ds) = \<bar>sint l\<bar>"
proof -
  let ?n = "l <s 0"
  have w: "s16 (0 - 1) = - 1" by (simp add: signed_take_bit_int_eq_self)
  have w01: "(if ?n then - 1 else 0 :: int) \<le> 0" "- 100 \<le> (if ?n then - 1 else 0 :: int)" by simp_all
  obtain cs ds where c: "PUTL (buflen - 1) (if ?n then - l else l) 10 (if ?n then - 1 else 0) 32 ?n =
      Some ((if ?n then [45] else []) @ cs)" "is_digits 10 cs ds" "ds \<noteq> []"
    "digits_value 10 0 ds = unat (if ?n then - l else l)"
    using PUTL_decimal[of "buflen - 1" "if ?n then - 1 else 0" "if ?n then - l else l" 32 ?n] assms
    by (auto split del: if_split simp: w01)
  have neg: "?n \<longleftrightarrow> sint l < 0" by (simp add: word_sless_alt)
  have "int (unat (if ?n then - l else l)) = \<bar>sint l\<bar>"
  proof (cases ?n)
    case True
    have "- l = word_of_int (- sint l)" by simp
    then have "uint (- l) = uint (word_of_int (- sint l) :: u32)" by (rule arg_cong)
    also have "\<dots> = take_bit 32 (- sint l)" unfolding unsigned_of_int by simp
    finally have "uint (- l) = take_bit 32 (- sint l)" .
    then show ?thesis using True neg sint_ge[of l] by (simp add: take_bit_int_eq_self)
  next
    case False
    then show ?thesis using neg sint32_nonneg[of l] by simp
  qed
  moreover have "convert (buflen - 1) 0 32 True 100 [ALong l] = Some ((if ?n then [45] else []) @ cs, [])"
    using c(1) w by (cases ?n) (simp_all add: convert_def put_arg_def get_long_def)
  ultimately show ?thesis
    using c(2-4) by (intro exI[of _ cs] exI[of _ ds])
      (auto simp: kvsprintf_def number_text_def sign_chars_def isdigit_iff Let_def)
qed


lemma number_text_sign:
  "number_text [] (if b then Some True else None) cs 0 [] = (if b then [45] else []) @ cs @ [0]"
  by (simp add: number_text_def sign_chars_def)

lemma atol_number_text:
  assumes "is_digits 10 cs ds" "ds \<noteq> []"
  shows "mint_atol (number_text [] (if b then Some True else None) cs 0 []) =
    Some ((if b then - 1 else 1) * word_of_nat (digits_value 10 0 ds))"
proof -
  obtain x cs' where cs: "cs = x # cs'" using is_digits_length[OF assms(1)] assms(2) by (cases cs) auto
  have x: "x \<noteq> 0" "digit_of x \<noteq> None" using assms cs by (cases ds; auto)+
  then have nx: "\<not> isspace x" "x \<noteq> 45" "x \<noteq> 43" using isspace_not_digit digit_of_signs by auto
  have "\<not> isspace 45" "\<not> isdigit 0" by (simp_all add: isspace_iff isdigit_iff)
  then show ?thesis
    using atol_digits_value[OF assms(1), of 0 "[]" 0] nx x cs unfolding number_text_sign
    by (cases b) (simp_all add: mint_atol_def)
qed

section \<open>Correctness of the conversions\<close>

text \<open>
  C16: Print and parse: every \<open>long\<close>, the smallest one included, that \<open>kvsprintf\<close> writes with \<open>%ld\<close> into a
  buffer of at least twelve bytes is read back by \<open>atol\<close> and by \<open>strtol\<close> with base 10.
\<close>
theorem print_parse_long:
  assumes "12 \<le> buflen"
  shows "\<exists>txt. kvsprintf buflen fmt_ld [ALong l] = Some txt \<and> mint_atol txt = Some l \<and>
    map_option fst (mint_strtol txt 10) = Some l"
proof -
  obtain cs ds where *: "kvsprintf buflen fmt_ld [ALong l] =
      Some (number_text [] (if l <s 0 then Some True else None) cs 0 [])"
    "is_digits 10 cs ds" "ds \<noteq> []" "int (digits_value 10 0 ds) = \<bar>sint l\<bar>"
    using kvsprintf_ld[OF assms] by blast
  have neg: "l <s 0 \<longleftrightarrow> sint l < 0" by (simp add: word_sless_alt)
  then have sl: "(if l <s 0 then - int (digits_value 10 0 ds) else int (digits_value 10 0 ds)) = sint l"
    using *(4) by simp
  have "(if l <s 0 then - 1 else 1) * word_of_nat (digits_value 10 0 ds) = (word_of_int (sint l) :: u32)"
    unfolding sl[symmetric] by simp
  then have "(if l <s 0 then - 1 else 1) * word_of_nat (digits_value 10 0 ds) = l" by simp
  then have atol: "mint_atol (number_text [] (if l <s 0 then Some True else None) cs 0 []) = Some l"
    using atol_number_text[OF *(2,3), of "l <s 0"] by simp
  obtain w e where w: "mint_strtol (number_text [] (if l <s 0 then Some True else None) cs 0 []) 10 = Some (w, e)"
    "sint w = clamp_long (if (if l <s 0 then Some True else None) = Some True
        then - int (digits_value 10 0 ds) else int (digits_value 10 0 ds))"
    using strtoxx_digits[of "[]" 10 cs ds 0 False "if l <s 0 then Some True else None" "[]"] *(2,3)
    by (auto simp: no_digit_def mint_strtol_def simp del: if_split)
  have "clamp_long (sint l) = sint l" using sint_ge[of l] sint_lt[of l] by (simp add: clamp_long_def)
  then have "sint w = sint l" using w(2) sl by (simp split: if_splits)
  then have "w = l" by (rule signed_word_eqI)
  then show ?thesis using *(1) atol w(1) by simp
qed

text \<open>
  C17: \<open>strtol\<close> reads spaces, a sign and digits of the base exactly: it returns the value when that is a
  \<open>long\<close> and the nearest \<open>long\<close> otherwise, whatever the number of digits, and sets the end pointer
  after the last digit. (For base 16 the digits do not start with a zero, which could begin \<open>0x\<close>.)
\<close>
theorem strtol_exact:
  assumes "\<forall>c\<in>set sp. c \<noteq> 0 \<and> isspace c" "is_digits b cs ds" "ds \<noteq> []" "no_digit b c"
    and "2 \<le> b" "b \<le> 36" "b = 16 \<longrightarrow> hd cs \<noteq> 48"
  shows "\<exists>w. mint_strtol (number_text sp sg cs c r) (int b) =
      Some (w, Some (length sp + length (sign_chars sg) + length cs)) \<and>
    sint w = clamp_long (if sg = Some True then - int (digits_value b 0 ds) else int (digits_value b 0 ds))"
  using strtoxx_digits[OF assms, of False sg r] by (simp add: mint_strtol_def)

text \<open>
  C18: \<open>kvsprintf\<close> writes, with the final zero, at most \<open>buflen\<close> bytes and one more for every negative
  number among its arguments: with no negative number it never writes outside its buffer.
\<close>
theorem kvsprintf_bound:
  assumes "1 \<le> buflen" "kvsprintf buflen fmt args = Some out"
  shows "int (length out) \<le> buflen + int (negatives args)"
  using assms kvsprintf_loop_length[of fmt args "buflen - 1"] by (auto simp: kvsprintf_def)

text \<open>
  The minus sign is written without looking at the room that is left: \<open>%d\<close> with a negative number in
  a buffer of one byte writes two.
\<close>
theorem kvsprintf_overflow:
  "kvsprintf 1 [37, 100, 0] [AInt (- 1)] = Some [45, 0]"
proof -
  have "putl_digits 32 (- scast (- 1 :: u16)) 10 = Some [49]" by code_simp
  moreover have "(scast (- 1 :: u16) :: u32) <s 0" by code_simp
  ultimately show ?thesis
    by (simp add: kvsprintf_def convert_def put_arg_def get_long_def PUTL_def pad.simps isdigit_iff)
qed

section \<open>Witnesses\<close>

theorem print_parse_long_witness:
  "\<exists>txt. kvsprintf 12 fmt_ld [ALong (- 2147483648)] = Some txt \<and> mint_atol txt = Some (- 2147483648)"
  using print_parse_long[of 12 "- 2147483648"] by auto

text \<open>\<open> -17\<close> followed by a letter.\<close>

theorem strtol_exact_witness:
  "\<exists>w. mint_strtol [32, 45, 49, 55, 120, 0] 10 = Some (w, Some 4) \<and> sint w = - 17"
proof -
  have "is_digits 10 [49, 55] [1, 7]" "no_digit 10 120" by (simp_all add: digit_of_ranges no_digit_def)
  moreover have four: "(4 :: nat) = Suc (Suc (Suc (Suc 0)))" by simp
  ultimately show ?thesis
    using strtol_exact[of "[32]" 10 "[49, 55]" "[1, 7]" 120 "Some True" "[0]"] unfolding four
    by (simp add: isspace_iff number_text_def sign_chars_def clamp_long_def)
qed

theorem kvsprintf_bound_witness:
  "\<exists>out. kvsprintf 3 [37, 99, 0] [AInt 65] = Some out \<and> int (length out) \<le> 3"
proof -
  have "kvsprintf 3 [37, 99, 0] [AInt 65] = Some [65, 0]"
    by (simp add: kvsprintf_def convert_def put_arg_def PUTC_def putc_pad.simps isdigit_iff)
  then show ?thesis
    using kvsprintf_bound[of 3 "[37, 99, 0]" "[AInt 65]"] by (simp add: negatives_def negative_def word_sless_alt)
qed

end
