(* ===== verification/Libkern_Time.thy ===== *)
theory Libkern_Time
  imports Kern_Prelude "HOL-Library.Signed_Division"
begin

text \<open>
  Dates and times of \<open>sys/libkern\<close>: Unix times (seconds since 1970), GEMDOS dates and times packed
  into 16 bit words, and XBIOS times. Divisions truncate towards zero (\<open>sdiv\<close>, \<open>smod\<close>). Where a
  table is read outside its bounds there is no result.
\<close>

section \<open>Operations\<close>

definition mth_start :: "int list" where
  "mth_start = [0, 31, 59, 90, 120, 151, 181, 212, 243, 273, 304, 334, 365]"

definition unixtime :: "u16 \<Rightarrow> u16 \<Rightarrow> int option" where
  "unixtime time date =
    (let sec = uint (push_bit 1 (time AND 31));
         min = uint (drop_bit 5 time AND 63);
         hour = uint (drop_bit 11 time AND 31);
         mday = uint (date AND 31);
         mon = uint (drop_bit 5 date AND 15) - 1;
         year = 80 + uint (drop_bit 9 date AND 127)
     in if mon < 0 \<or> mon \<ge> 13 then None
        else (let s = (mday - 1) + mth_start ! nat mon +
                    (if year smod 4 \<noteq> 0 then 0 else if mon > 1 then 1 else 0);
                  s = sec + (min * 60) + (hour * 3600) + (s * 86400) + ((year - 70) * 31536000) +
                    ((year - 69) sdiv 4) * 86400
              in Some (signed_take_bit 31 s)))"

definition mon_yday :: "bool \<Rightarrow> int list" where
  "mon_yday leap =
    (if \<not> leap then [0, 31, 59, 90, 120, 151, 181, 212, 243, 273, 304, 334]
     else [0, 31, 60, 91, 121, 152, 182, 213, 244, 274, 305, 335])"

definition LEAPS_THRU_END_OF :: "int \<Rightarrow> int" where
  "LEAPS_THRU_END_OF y = y sdiv 4 - y sdiv 100 + y sdiv 400"

definition isleap :: "int \<Rightarrow> bool" where
  "isleap year \<longleftrightarrow> year smod 4 = 0 \<and> (year smod 100 \<noteq> 0 \<or> year smod 400 = 0)"

text \<open>The loop that corrects the guessed year; the result is the year and the day in it.\<close>

fun year_loop :: "nat \<Rightarrow> int \<Rightarrow> int \<Rightarrow> (int \<times> int) option" where
  "year_loop fuel y days =
    (if days < 0 \<or> days \<ge> (if isleap y then 366 else 365)
     then (case fuel of
             0 \<Rightarrow> None
           | Suc f \<Rightarrow>
               (let yg = y + days sdiv 365 - (if days smod 365 < 0 then 1 else 0);
                    days = days - ((yg - y) * 365 + LEAPS_THRU_END_OF (yg - 1) - LEAPS_THRU_END_OF (y - 1))
                in year_loop f yg days))
     else Some (y, days))"

declare year_loop.simps [simp del]

text \<open>The month, counting down from December; below January there is no entry.\<close>

fun month_loop :: "int list \<Rightarrow> nat \<Rightarrow> int \<Rightarrow> nat option" where
  "month_loop ip 0 days = (if days < ip ! 0 then None else Some 0)"
| "month_loop ip (Suc y) days = (if days < ip ! Suc y then month_loop ip y days else Some (Suc y))"

record calendar =
  c_year :: u16
  c_month :: u16
  c_day :: u16
  c_hour :: u16
  c_minute :: u16
  c_second :: u16

definition unix2calendar :: "nat \<Rightarrow> int \<Rightarrow> calendar option" where
  "unix2calendar fuel tv_sec =
    (let days = tv_sec sdiv 86400; rem = tv_sec smod 86400; rem' = rem smod 3600
     in case year_loop fuel 1970 days of
          None \<Rightarrow> None
        | Some (y, days) \<Rightarrow>
            (let ip = mon_yday (isleap y)
             in case month_loop ip 11 days of
                  None \<Rightarrow> None
                | Some m \<Rightarrow>
                    Some \<lparr>c_year = word_of_int y, c_month = word_of_nat m + 1,
                      c_day = word_of_int (days - ip ! m) + 1, c_hour = word_of_int (rem sdiv 3600),
                      c_minute = word_of_int (rem' sdiv 60), c_second = word_of_int (rem' smod 60)\<rparr>))"

text \<open>
  The bit fields of \<open>struct dostime\<close> from the most significant bit on: 7 bits of year, 4 of month, 5 of
  day, 5 of hour, 6 of minute and 5 of double seconds; a value is reduced to its field.
\<close>

definition pack_dostime :: "nat \<Rightarrow> nat \<Rightarrow> nat \<Rightarrow> nat \<Rightarrow> nat \<Rightarrow> nat \<Rightarrow> u32" where
  "pack_dostime year month day hour minute sec2 =
    word_of_nat (((((year mod 128 * 16 + month mod 16) * 32 + day mod 32) * 32 + hour mod 32) * 64 +
      minute mod 64) * 32 + sec2 mod 32)"

definition unix2xbios :: "nat \<Rightarrow> int \<Rightarrow> u32 option" where
  "unix2xbios fuel tv_sec =
    map_option (\<lambda>c. pack_dostime (unat (c_year c - 1980)) (unat (c_month c)) (unat (c_day c)) (unat (c_hour c))
      (unat (c_minute c)) (unat (drop_bit 1 (c_second c)))) (unix2calendar fuel tv_sec)"

definition swap32 :: "u32 \<Rightarrow> u32" where
  "swap32 x = (push_bit 16 x AND 0xffff0000) OR (drop_bit 16 x AND 0x0000ffff)"

definition dostime :: "nat \<Rightarrow> int \<Rightarrow> u32 option" where
  "dostime fuel tv_sec = map_option swap32 (unix2xbios fuel tv_sec)"

text \<open>\<open>ms_time\<close>: the two words stored through the pointer.\<close>

definition ms_time :: "u32 \<Rightarrow> u16 \<times> u16" where
  "ms_time ms =
    (let secs = ms div 1000;
         tsec = ucast (secs mod 60) :: u16;
         secs = secs div 60;
         tmin = ucast (secs mod 60) :: u16;
         secs = secs div 60;
         thour = ucast (secs mod 24) :: u16;
         secs = secs div 24;
         tday = ucast (secs mod 30) :: u16;
         secs = secs div 30;
         tmonth = ucast (secs mod 12) :: u16;
         tyear = ucast (secs div 12) :: u16
     in (push_bit 11 thour OR push_bit 5 tmin OR drop_bit 1 tsec,
         push_bit 9 tyear OR push_bit 5 (tmonth + 1) OR (tday + 1)))"

section \<open>The calendar\<close>

lemma sdiv_nonneg: "0 \<le> a \<Longrightarrow> 0 < b \<Longrightarrow> a sdiv b = a div (b :: int)"
  by (cases "a = 0") (simp_all add: signed_divide_int_def)

lemma smod_nonneg: "0 \<le> a \<Longrightarrow> 0 < b \<Longrightarrow> a smod b = a mod (b :: int)"
  by (cases "a = 0") (simp_all add: signed_modulo_int_def)

lemma leaps_range:
  assumes "1969 \<le> z" "z \<le> 2099"
  shows "LEAPS_THRU_END_OF z = z div 4 - 15"
proof -
  have "z div 100 - z div 400 = 15"
  proof (cases "z < 2000")
    case True
    then show ?thesis
      using assms int_div_pos_eq[of z 100 19 "z - 1900"] int_div_pos_eq[of z 400 4 "z - 1600"] by simp
  next
    case False
    then show ?thesis
      using assms int_div_pos_eq[of z 100 20 "z - 2000"] int_div_pos_eq[of z 400 5 "z - 2000"] by simp
  qed
  then show ?thesis using assms by (simp add: LEAPS_THRU_END_OF_def sdiv_nonneg)
qed

lemma isleap_range:
  assumes "1970 \<le> y" "y \<le> 2099"
  shows "isleap y \<longleftrightarrow> y mod 4 = 0"
proof -
  have "y = 2000" if "y mod 100 = 0"
  proof -
    have "y = 100 * (y div 100)" using that by (simp add: mod_0_imp_dvd)
    then show ?thesis using assms by presburger
  qed
  then have "y mod 100 \<noteq> 0 \<or> y mod 400 = 0" by auto
  then show ?thesis using assms by (auto simp: isleap_def smod_nonneg)
qed

text \<open>The days before a year.\<close>

definition year_day :: "int \<Rightarrow> int" where
  "year_day y = 365 * (y - 1970) + (y - 1969) div 4"

definition year_len :: "int \<Rightarrow> int" where
  "year_len y = (if y mod 4 = 0 then 366 else 365)"

lemma year_day_diff:
  assumes "1970 \<le> y" "y \<le> 2099" "1970 \<le> g" "g \<le> 2099"
  shows "(g - y) * 365 + LEAPS_THRU_END_OF (g - 1) - LEAPS_THRU_END_OF (y - 1) = year_day g - year_day y"
proof -
  have "(g - 1) div 4 - (y - 1) div 4 = (g - 1969) div 4 - (y - 1969) div 4" by presburger
  then show ?thesis using assms by (simp add: leaps_range year_day_def)
qed


lemma year_day_next: "1970 \<le> y \<Longrightarrow> year_day (y + 1) = year_day y + year_len y"
proof -
  have "(y - 1968) div 4 = (y - 1969) div 4 + (if y mod 4 = 0 then 1 else 0)" by presburger
  then show ?thesis by (simp add: year_day_def year_len_def algebra_simps)
qed

lemma year_loop_exit:
  "1970 \<le> y \<Longrightarrow> y \<le> 2099 \<Longrightarrow> 0 \<le> d \<Longrightarrow> d < year_len y \<Longrightarrow> year_loop f y d = Some (y, d)"
  by (subst year_loop.simps) (simp add: isleap_range year_len_def)

lemma year_loop_ok:
  assumes "0 \<le> d" "d \<le> 24855" "2 \<le> fuel"
  shows "\<exists>y n. year_loop fuel 1970 d = Some (y, n) \<and> 1970 \<le> y \<and> y \<le> 2038 \<and> 0 \<le> n \<and> n < year_len y \<and>
    year_day y + n = d"
proof (cases "d < 365")
  case True
  then show ?thesis
    using assms year_loop_exit[of 1970 d fuel] by (intro exI[of _ 1970] exI[of _ d]) (simp add: year_len_def year_day_def)
next
  case False
  obtain f where f: "fuel = Suc (Suc f)" using assms(3) by (metis Suc_le_D numeral_2_eq_2 Suc_le_mono)
  define g where "g = 1970 + d div 365"
  define e where "e = d - year_day g"
  have g: "1971 \<le> g" "g \<le> 2038"
    using assms False zdiv_mono1[of 365 d 365] zdiv_mono1[of d 24855 365] by (simp_all add: g_def)
  have e: "e = d mod 365 - (g - 1969) div 4" unfolding e_def year_day_def g_def
    by (simp add: minus_mult_div_eq_mod algebra_simps)
  have b: "0 \<le> (g - 1969) div 4" "(g - 1969) div 4 \<le> 17"
    using g zdiv_mono1[of "g - 1969" 69 4] by (simp_all add: pos_imp_zdiv_nonneg_iff)
  have "0 \<le> d mod 365" "d mod 365 < 365" by simp_all
  then have er: "- 17 \<le> e" "e < 365" using e b by auto
  have "year_day 1970 = 0" by (simp add: year_day_def)
  moreover have "\<not> d mod 365 < 0" by simp
  ultimately have step: "year_loop fuel 1970 d = year_loop (Suc f) g e"
    using assms(1) False g year_day_diff[of 1970 g]
    by (subst year_loop.simps) (simp add: isleap_range f Let_def sdiv_nonneg smod_nonneg g_def[symmetric] e_def)
  show ?thesis
  proof (cases "0 \<le> e")
    case True
    then have "year_loop fuel 1970 d = Some (g, e)" using step year_loop_exit[of g e "Suc f"] g er
      by (simp add: year_len_def)
    then show ?thesis using True g er by (intro exI[of _ g] exI[of _ e]) (auto simp: e_def year_len_def)
  next
    case neg: False
    have q: "e sdiv 365 = 0" "e smod 365 = e"
      using neg er by (simp_all add: signed_divide_int_def signed_modulo_int_def)
    have n: "year_day g = year_day (g - 1) + year_len (g - 1)" using year_day_next[of "g - 1"] g by simp
    have "year_loop (Suc f) g e = year_loop f (g - 1) (e + year_len (g - 1))"
      using neg g q n year_day_diff[of g "g - 1"]
      by (subst year_loop.simps) (simp add: isleap_range Let_def)
    moreover have "0 \<le> e + year_len (g - 1)" "e + year_len (g - 1) < year_len (g - 1)"
      using neg er by (auto simp: year_len_def)
    ultimately have "year_loop fuel 1970 d = Some (g - 1, e + year_len (g - 1))"
      using step year_loop_exit[of "g - 1" "e + year_len (g - 1)" f] g by simp
    then show ?thesis
      using \<open>0 \<le> e + year_len (g - 1)\<close> neg g n
      by (intro exI[of _ "g - 1"] exI[of _ "e + year_len (g - 1)"]) (auto simp: e_def)
  qed
qed


lemma month_loop_Some:
  "ip ! 0 \<le> d \<Longrightarrow> \<exists>m\<le>k. month_loop ip k d = Some m \<and> ip ! m \<le> d \<and> (\<forall>j. m < j \<and> j \<le> k \<longrightarrow> d < ip ! j)"
proof (induction k)
  case (Suc k)
  show ?case
  proof (cases "d < ip ! Suc k")
    case True
    from Suc obtain m where "m \<le> k" "month_loop ip k d = Some m" "ip ! m \<le> d" "\<forall>j. m < j \<and> j \<le> k \<longrightarrow> d < ip ! j" by blast
    then show ?thesis using True by (intro exI[of _ m]) (auto simp: le_Suc_eq)
  qed auto
qed auto

lemma month_loop_ok:
  assumes "0 \<le> n" "n < (if leap then 366 else 365)"
  shows "\<exists>m\<le>11. month_loop (mon_yday leap) 11 n = Some m \<and> 0 \<le> n - mon_yday leap ! m \<and> n - mon_yday leap ! m < 31 \<and>
    mon_yday leap ! m = mth_start ! m + (if leap \<and> 1 < m then 1 else 0)"
proof -
  have "mon_yday leap ! 0 \<le> n" using assms(1) by (simp add: mon_yday_def)
  from month_loop_Some[of "mon_yday leap" n 11, OF this] obtain m where m: "m \<le> 11"
    "month_loop (mon_yday leap) 11 n = Some m" "mon_yday leap ! m \<le> n"
    "\<forall>j. m < j \<and> j \<le> 11 \<longrightarrow> n < mon_yday leap ! j" by blast
  have c: "m = 0 \<or> m = 1 \<or> m = 2 \<or> m = 3 \<or> m = 4 \<or> m = 5 \<or> m = 6 \<or> m = 7 \<or> m = 8 \<or> m = 9 \<or> m = 10 \<or> m = 11"
    using m(1) by arith
  have "n - mon_yday leap ! m < 31"
    using c m(4)[rule_format, of "m + 1"] assms(2) by (elim disjE) (auto simp: mon_yday_def split: if_splits)
  moreover have "mon_yday leap ! m = mth_start ! m + (if leap \<and> 1 < m then 1 else 0)"
    using c by (elim disjE) (auto simp: mon_yday_def mth_start_def)
  ultimately show ?thesis using m by auto
qed


section \<open>Packed dates\<close>

lemma and_low:
  "uint (w AND 31 :: u16) = uint w mod 32" "uint (w AND 63 :: u16) = uint w mod 64"
  "uint (w AND 15 :: u16) = uint w mod 16" "uint (w AND 127 :: u16) = uint w mod 128"
proof -
  have m: "(31 :: u16) = mask 5" "(63 :: u16) = mask 6" "(15 :: u16) = mask 4" "(127 :: u16) = mask 7"
    by (simp_all add: mask_eq_exp_minus_1)
  show "uint (w AND 31) = uint w mod 32" "uint (w AND 63) = uint w mod 64"
    "uint (w AND 15) = uint w mod 16" "uint (w AND 127) = uint w mod 128"
    unfolding m take_bit_eq_mask[symmetric] unsigned_take_bit_eq by (simp_all add: take_bit_eq_mod)
qed

lemma swap32_halves:
  "(ucast (drop_bit 16 (swap32 x)) :: u16) = ucast x" "(ucast (swap32 x) :: u16) = ucast (drop_bit 16 x)"
proof -
  have m: "(0xffff0000 :: u32) = push_bit 16 (mask 16)" "(0x0000ffff :: u32) = mask 16"
    by (simp_all add: mask_eq_exp_minus_1 push_bit_eq_mult)
  show "(ucast (drop_bit 16 (swap32 x)) :: u16) = ucast x" "(ucast (swap32 x) :: u16) = ucast (drop_bit 16 x)"
    unfolding swap32_def m by (rule bit_word_eqI; auto simp: bit_simps)+
qed


lemma uint_drop: "uint (drop_bit n (w :: u16)) = uint w div 2 ^ n"
  using unsigned_less[of w, where 'a = int] unfolding unsigned_drop_bit_eq
  by (simp add: drop_bit_eq_div take_bit_int_eq_self)

lemma uint_double: "uint w < 32768 \<Longrightarrow> uint (push_bit 1 (w :: u16)) = 2 * uint w"
  unfolding unsigned_push_bit_eq by (simp add: push_bit_eq_mult take_bit_int_eq_self)

lemma field_mod: "(r :: nat) < n \<Longrightarrow> (q * n + r) mod n = r"
  by simp

lemma field_div: "(r :: nat) < n \<Longrightarrow> (q * n + r) div n = q"
  by simp

text \<open>The fields of a packed date and time.\<close>

lemma unpack_dostime:
  assumes "y < 128" "mo < 16" "d < 32" "h < 32" "mi < 64" "s2 < 32"
  defines "x \<equiv> pack_dostime y mo d h mi s2"
  defines "time \<equiv> (ucast x :: u16)" and "date \<equiv> (ucast (drop_bit 16 x) :: u16)"
  shows "uint (push_bit 1 (time AND 31)) = 2 * int s2" "uint (drop_bit 5 time AND 63) = int mi"
    "uint (drop_bit 11 time AND 31) = int h" "uint (date AND 31) = int d" "uint (drop_bit 5 date AND 15) = int mo"
    "uint (drop_bit 9 date AND 127) = int y"
proof -
  define D where "D = (y * 16 + mo) * 32 + d"
  define T where "T = (h * 64 + mi) * 32 + s2"
  have "h \<le> 31" "mi \<le> 63" "s2 \<le> 31" "y \<le> 127" "mo \<le> 15" "d \<le> 31" using assms(1-6) by simp_all
  then have T: "T < 65536" and D: "D < 65536" by (simp_all add: T_def D_def)
  have x: "x = word_of_nat (D * 65536 + T)"
    using assms(1-6) by (simp add: x_def pack_dostime_def T_def D_def algebra_simps)
  have ux: "unat x = D * 65536 + T" unfolding x unat_of_nat using T D by (simp add: take_bit_eq_mod)
  have ut: "unat time = T" unfolding time_def unat_ucast ux using T by simp
  have ud: "unat date = D"
    unfolding date_def unat_ucast unsigned_drop_bit_eq ux using T D by (simp add: drop_bit_eq_div take_bit_eq_mod)
  have it: "uint time = int T" "uint date = int D" unfolding ut[symmetric] ud[symmetric] by simp_all
  have t: "T mod 32 = s2" "T div 32 mod 64 = mi" "T div 2048 mod 32 = h" "D mod 32 = d" "D div 32 mod 16 = mo"
    "D div 512 mod 128 = y"
  proof -
    have "T div 32 = h * 64 + mi" "D div 32 = y * 16 + mo"
      unfolding T_def D_def by (rule field_div; use assms(1-6) in simp)+
    moreover have "T div 2048 = T div 32 div 64" "D div 512 = D div 32 div 16"
      using div_mult2_eq[of T 32 64] div_mult2_eq[of D 32 16] by simp_all
    ultimately show "T div 32 mod 64 = mi" "T div 2048 mod 32 = h" "D div 32 mod 16 = mo" "D div 512 mod 128 = y"
      using field_mod[of mi 64 h] field_div[of mi 64 h] field_mod[of mo 16 y] field_div[of mo 16 y] assms(1-6)
      by simp_all
    show "T mod 32 = s2" "D mod 32 = d" unfolding T_def D_def by (rule field_mod; use assms(1-6) in simp)+
  qed
  note ti = t[THEN arg_cong, of int, unfolded zmod_int zdiv_int]
  show "uint (push_bit 1 (time AND 31)) = 2 * int s2"
    using ti(1) it(1) assms(6) by (subst uint_double) (simp_all add: and_low)
  show "uint (drop_bit 5 time AND 63) = int mi" using ti(2) by (simp add: and_low uint_drop it)
  show "uint (drop_bit 11 time AND 31) = int h" using ti(3) by (simp add: and_low uint_drop it)
  show "uint (date AND 31) = int d" using ti(4) by (simp add: and_low it)
  show "uint (drop_bit 5 date AND 15) = int mo" using ti(5) by (simp add: and_low uint_drop it)
  show "uint (drop_bit 9 date AND 127) = int y" using ti(6) by (simp add: and_low uint_drop it)
qed

section \<open>Round trips\<close>

lemma rem_fields:
  fixes t :: int
  assumes "0 \<le> t"
  defines "r \<equiv> t mod 86400"
  shows "0 \<le> r div 3600" "r div 3600 < 24" "0 \<le> r mod 3600 div 60" "r mod 3600 div 60 < 60"
    "0 \<le> r mod 3600 mod 60" "r mod 3600 mod 60 < 60"
    "t = 86400 * (t div 86400) + 3600 * (r div 3600) + 60 * (r mod 3600 div 60) + r mod 3600 mod 60"
proof -
  have r: "0 \<le> r" "r < 86400" by (simp_all add: r_def)
  show "0 \<le> r div 3600" "r div 3600 < 24" using r zdiv_mono1[of r 86399 3600] by (simp_all add: pos_imp_zdiv_nonneg_iff)
  have m: "r mod 3600 \<le> 3599" using pos_mod_bound[of 3600 r] by simp
  show "0 \<le> r mod 3600 div 60" "r mod 3600 div 60 < 60" "0 \<le> r mod 3600 mod 60" "r mod 3600 mod 60 < 60"
    using zdiv_mono1[OF m, of 60] by (simp_all add: pos_imp_zdiv_nonneg_iff)
  have "t = 86400 * (t div 86400) + r" by (simp add: r_def)
  moreover have "r = 3600 * (r div 3600) + r mod 3600" by simp
  moreover have "r mod 3600 = 60 * (r mod 3600 div 60) + r mod 3600 mod 60" by simp
  ultimately show "t = 86400 * (t div 86400) + 3600 * (r div 3600) + 60 * (r mod 3600 div 60) + r mod 3600 mod 60"
    by linarith
qed


lemma unix2calendar_ok:
  assumes "0 \<le> t" "t < 2 ^ 31" "2 \<le> fuel"
  shows "\<exists>y n m. unix2calendar fuel t = Some \<lparr>c_year = word_of_int y, c_month = word_of_nat m + 1,
      c_day = word_of_int (n - mon_yday (isleap y) ! m) + 1, c_hour = word_of_int (t mod 86400 div 3600),
      c_minute = word_of_int (t mod 86400 mod 3600 div 60), c_second = word_of_int (t mod 86400 mod 3600 mod 60)\<rparr> \<and>
    1970 \<le> y \<and> y \<le> 2038 \<and> year_day y + n = t div 86400 \<and> 0 \<le> n \<and> n < year_len y \<and> m \<le> 11 \<and>
    0 \<le> n - mon_yday (isleap y) ! m \<and> n - mon_yday (isleap y) ! m < 31 \<and>
    mon_yday (isleap y) ! m = mth_start ! m + (if isleap y \<and> 1 < m then 1 else 0)"
proof -
  have d: "0 \<le> t div 86400" "t div 86400 \<le> 24855"
    using assms zdiv_mono1[of t 2147483647 86400] by (simp_all add: pos_imp_zdiv_nonneg_iff)
  obtain y n where y: "year_loop fuel 1970 (t div 86400) = Some (y, n)" "1970 \<le> y" "y \<le> 2038" "0 \<le> n" "n < year_len y"
    "year_day y + n = t div 86400"
    using year_loop_ok[OF d assms(3)] by blast
  have "n < (if isleap y then 366 else 365)" using y isleap_range[of y] by (simp add: year_len_def)
  from month_loop_ok[OF y(4) this] obtain m where m: "m \<le> 11" "month_loop (mon_yday (isleap y)) 11 n = Some m"
    "0 \<le> n - mon_yday (isleap y) ! m" "n - mon_yday (isleap y) ! m < 31"
    "mon_yday (isleap y) ! m = mth_start ! m + (if isleap y \<and> 1 < m then 1 else 0)" by blast
  have "unix2calendar fuel t = Some \<lparr>c_year = word_of_int y, c_month = word_of_nat m + 1,
      c_day = word_of_int (n - mon_yday (isleap y) ! m) + 1, c_hour = word_of_int (t mod 86400 div 3600),
      c_minute = word_of_int (t mod 86400 mod 3600 div 60), c_second = word_of_int (t mod 86400 mod 3600 mod 60)\<rparr>"
    using assms(1) y(1) m(2) by (simp add: unix2calendar_def sdiv_nonneg smod_nonneg Let_def)
  then show ?thesis using y m by blast
qed

lemma unat_word16: "0 \<le> x \<Longrightarrow> x < 65536 \<Longrightarrow> unat (word_of_int x :: u16) = nat x"
  by (simp add: unsigned_of_int take_bit_int_eq_self)

lemma unat_half: "unat (drop_bit 1 (w :: u16)) = unat w div 2"
proof -
  have "int (unat (drop_bit 1 w)) = int (unat w div 2)" using uint_drop[of 1 w] by (simp add: zdiv_int)
  then show ?thesis by linarith
qed

lemma year_1980: "1970 \<le> y \<Longrightarrow> n < year_len y \<Longrightarrow> 3652 \<le> year_day y + n \<Longrightarrow> 1980 \<le> y"
proof (rule ccontr)
  assume y: "1970 \<le> y" "n < year_len y" "3652 \<le> year_day y + n" "\<not> 1980 \<le> y"
  then have "(y - 1969) div 4 \<le> 2" using zdiv_mono1[of "y - 1969" 10 4] by simp
  moreover have "year_len y \<le> 366" "y = 1979 \<Longrightarrow> year_len y = 365" by (simp_all add: year_len_def)
  ultimately show False using y by (cases "y = 1979") (auto simp: year_day_def)
qed

lemma unix2xbios_ok:
  assumes "315532800 \<le> t" "t < 2 ^ 31" "2 \<le> fuel"
  shows "\<exists>y n m. unix2xbios fuel t = Some (pack_dostime (nat (y - 1980)) (m + 1)
      (nat (n - mon_yday (isleap y) ! m + 1)) (nat (t mod 86400 div 3600)) (nat (t mod 86400 mod 3600 div 60))
      (nat (t mod 86400 mod 3600 mod 60) div 2)) \<and>
    1980 \<le> y \<and> y \<le> 2038 \<and> year_day y + n = t div 86400 \<and> m \<le> 11 \<and>
    0 \<le> n - mon_yday (isleap y) ! m \<and> n - mon_yday (isleap y) ! m < 31 \<and>
    mon_yday (isleap y) ! m = mth_start ! m + (if y mod 4 = 0 \<and> 1 < m then 1 else 0)"
proof -
  have t0: "0 \<le> t" using assms by simp
  obtain y n m where c: "unix2calendar fuel t = Some \<lparr>c_year = word_of_int y, c_month = word_of_nat m + 1,
      c_day = word_of_int (n - mon_yday (isleap y) ! m) + 1, c_hour = word_of_int (t mod 86400 div 3600),
      c_minute = word_of_int (t mod 86400 mod 3600 div 60), c_second = word_of_int (t mod 86400 mod 3600 mod 60)\<rparr>"
    and y: "1970 \<le> y" "y \<le> 2038" "year_day y + n = t div 86400" "n < year_len y" "m \<le> 11"
    "0 \<le> n - mon_yday (isleap y) ! m" "n - mon_yday (isleap y) ! m < 31"
    "mon_yday (isleap y) ! m = mth_start ! m + (if isleap y \<and> 1 < m then 1 else 0)"
    using unix2calendar_ok[OF t0 assms(2,3)] by blast
  have y80: "1980 \<le> y" using year_1980[OF y(1,4)] y(3) zdiv_mono1[OF assms(1), of 86400] by simp
  note r = rem_fields[OF t0]
  have w: "word_of_int y - 1980 = (word_of_int (y - 1980) :: u16)"
    "word_of_nat m + 1 = (word_of_int (int m + 1) :: u16)"
    "word_of_int (n - mon_yday (isleap y) ! m) + 1 = (word_of_int (n - mon_yday (isleap y) ! m + 1) :: u16)"
    by (simp_all add: wi_hom_syms)
  have u1: "unat (word_of_int (y - 1980) :: u16) = nat (y - 1980)" by (rule unat_word16) (use y y80 in linarith)+
  have "unat (word_of_int (int m + 1) :: u16) = nat (int m + 1)" by (rule unat_word16) (use y(5) in linarith)+
  then have u2: "unat (word_of_int (int m + 1) :: u16) = m + 1" by linarith
  have u3: "unat (word_of_int (n - mon_yday (isleap y) ! m + 1) :: u16) = nat (n - mon_yday (isleap y) ! m + 1)"
    by (rule unat_word16) (use y(6,7) in linarith)+
  have u4: "unat (word_of_int (t mod 86400 div 3600) :: u16) = nat (t mod 86400 div 3600)"
    by (rule unat_word16) (use r(1,2) in linarith)+
  have u5: "unat (word_of_int (t mod 86400 mod 3600 div 60) :: u16) = nat (t mod 86400 mod 3600 div 60)"
    by (rule unat_word16) (use r(3,4) in linarith)+
  have u6: "unat (word_of_int (t mod 86400 mod 3600 mod 60) :: u16) = nat (t mod 86400 mod 3600 mod 60)"
    by (rule unat_word16) (use r(5,6) in linarith)+
  have "unix2xbios fuel t = Some (pack_dostime (nat (y - 1980)) (m + 1)
      (nat (n - mon_yday (isleap y) ! m + 1)) (nat (t mod 86400 div 3600)) (nat (t mod 86400 mod 3600 div 60))
      (nat (t mod 86400 mod 3600 mod 60) div 2))"
    unfolding unix2xbios_def c by (simp only: option.map calendar.simps w u1 u2 u3 u4 u5 u6 unat_half)
  moreover have lp: "isleap y = (y mod 4 = 0)" by (rule isleap_range) (use y in linarith)+
  moreover have "mon_yday (isleap y) ! m = mth_start ! m + (if y mod 4 = 0 \<and> 1 < m then 1 else 0)"
    using y(8) by (simp only: lp)
  ultimately show ?thesis using y(2,3,5,6,7) y80 by blast
qed


lemma unixtime_unpack:
  assumes "1980 \<le> y" "y \<le> 2038" "m \<le> 11" "0 \<le> d" "d < 31" "h < 24" "mi < 60" "s < 60"
  defines "x \<equiv> pack_dostime (nat (y - 1980)) (m + 1) (nat (d + 1)) h mi (s div 2)"
  shows "unixtime (ucast x) (ucast (drop_bit 16 x)) = Some (signed_take_bit 31 (2 * int (s div 2) + int mi * 60 +
    int h * 3600 + (d + mth_start ! m + (if y mod 4 = 0 \<and> 1 < m then 1 else 0)) * 86400 + (y - 1970) * 31536000 +
    (y - 1969) div 4 * 86400))"
proof -
  have b: "nat (y - 1980) < 128" "m + 1 < 16" "nat (d + 1) < 32" "h < 32" "mi < 64" "s div 2 < 32"
    using assms(1-8) by auto
  note f = unpack_dostime[OF b, folded x_def]
  have n: "int (nat (y - 1980)) = y - 1980" "int (nat (d + 1)) = d + 1" "int (m + 1) - 1 = int m" "nat (int m) = m"
    using assms(1,4) by simp_all
  have y4: "(80 + (y - 1980)) smod 4 = y mod 4"
  proof -
    have "(y - 1900) mod 4 = y mod 4" by presburger
    then show ?thesis using assms(1) smod_nonneg[of "y - 1900" 4] by simp
  qed
  have y5: "(80 + (y - 1980) - 69) sdiv 4 = (y - 1969) div 4" using assms(1) sdiv_nonneg[of "y - 1969" 4] by simp
  have m: "\<not> (int m < 0 \<or> 13 \<le> int m)" using assms(3) by simp
  show ?thesis
    unfolding unixtime_def f Let_def n y4 y5 if_not_P[OF m] by (simp add: algebra_simps)
qed


section \<open>Correctness of the conversions\<close>

text \<open>
  C19: A Unix time from 1980 on, as far as a signed \<open>long\<close> reaches, is converted by \<open>dostime\<close> into a GEMDOS
  time and date which \<open>unixtime\<close> converts back, up to the odd second that a GEMDOS time cannot hold.
  The loop that guesses the year needs at most two corrections.
\<close>
theorem dostime_unixtime_roundtrip:
  assumes "315532800 \<le> t" "t < 2 ^ 31" "2 \<le> fuel"
  shows "\<exists>x. dostime fuel t = Some x \<and> unixtime (ucast (drop_bit 16 x)) (ucast x) = Some (t - t mod 2)"
proof -
  have t0: "0 \<le> t" using assms by simp
  define H M S where "H = t mod 86400 div 3600" and "M = t mod 86400 mod 3600 div 60" and "S = t mod 86400 mod 3600 mod 60"
  note r = rem_fields[OF t0, folded H_def M_def S_def]
  obtain y n m where x: "unix2xbios fuel t = Some (pack_dostime (nat (y - 1980)) (m + 1)
      (nat (n - mon_yday (isleap y) ! m + 1)) (nat H) (nat M) (nat S div 2))"
    and y: "1980 \<le> y" "y \<le> 2038" "year_day y + n = t div 86400" "m \<le> 11"
    "0 \<le> n - mon_yday (isleap y) ! m" "n - mon_yday (isleap y) ! m < 31"
    "mon_yday (isleap y) ! m = mth_start ! m + (if y mod 4 = 0 \<and> 1 < m then 1 else 0)"
    using unix2xbios_ok[OF assms, folded H_def M_def S_def] by blast
  have hms: "nat H < 24" "nat M < 60" "nat S < 60" using r(1-6) by simp_all
  have S: "2 * int (nat S div 2) = S - S mod 2"
    using r(5) by (simp add: zdiv_int minus_mod_eq_mult_div)
  have S2: "S mod 2 = t mod 2"
    unfolding S_def by (simp add: mod_mod_cancel)
  have "unixtime (ucast (pack_dostime (nat (y - 1980)) (m + 1) (nat (n - mon_yday (isleap y) ! m + 1)) (nat H) (nat M)
      (nat S div 2))) (ucast (drop_bit 16 (pack_dostime (nat (y - 1980)) (m + 1) (nat (n - mon_yday (isleap y) ! m + 1))
      (nat H) (nat M) (nat S div 2)))) = Some (signed_take_bit 31 (S - S mod 2 + M * 60 + H * 3600 + n * 86400 +
      (y - 1970) * 31536000 + (y - 1969) div 4 * 86400))"
    using unixtime_unpack[OF y(1,2,4,5,6) hms] r(1,3) S y(7) by simp
  moreover have "S - S mod 2 + M * 60 + H * 3600 + n * 86400 + (y - 1970) * 31536000 + (y - 1969) div 4 * 86400 = t - t mod 2"
    using r(7) y(3) unfolding S2 year_day_def by (simp add: algebra_simps)
  moreover have "signed_take_bit 31 (t - t mod 2) = t - t mod 2"
  proof (rule signed_take_bit_int_eq_self)
    show "- (2 ^ 31) \<le> t - t mod 2" using t0 assms(1) pos_mod_bound[of 2 t] by simp
    show "t - t mod 2 < 2 ^ 31" using assms(2) pos_mod_sign[of 2 t] by linarith
  qed
  ultimately show ?thesis using x by (simp add: dostime_def swap32_halves)
qed

text \<open>
  \<open>unix2calendar\<close> returns for every Unix time from 1970 on a date of the calendar: the months, days,
  hours, minutes and seconds are in their ranges.
\<close>
theorem unix2calendar_in_range:
  assumes "0 \<le> t" "t < 2 ^ 31" "2 \<le> fuel"
  shows "\<exists>c. unix2calendar fuel t = Some c \<and> c_year c \<in> {1970..2038} \<and> c_month c \<in> {1..12} \<and>
    c_day c \<in> {1..31} \<and> c_hour c \<le> 23 \<and> c_minute c \<le> 59 \<and> c_second c \<le> 59"
proof -
  have le: "word_of_int x \<le> (word_of_int z :: u16) \<longleftrightarrow> x \<le> z" if "0 \<le> x" "x < 65536" "0 \<le> z" "z < 65536" for x z
    using that unat_word16[of x] unat_word16[of z] by (auto simp: word_le_nat_alt)
  obtain y n m where c: "unix2calendar fuel t = Some \<lparr>c_year = word_of_int y, c_month = word_of_nat m + 1,
      c_day = word_of_int (n - mon_yday (isleap y) ! m) + 1, c_hour = word_of_int (t mod 86400 div 3600),
      c_minute = word_of_int (t mod 86400 mod 3600 div 60), c_second = word_of_int (t mod 86400 mod 3600 mod 60)\<rparr>"
    and y: "1970 \<le> y" "y \<le> 2038" "m \<le> 11" "0 \<le> n - mon_yday (isleap y) ! m" "n - mon_yday (isleap y) ! m < 31"
    using unix2calendar_ok[OF assms] by blast
  note r = rem_fields[OF assms(1)]
  have m: "word_of_nat m + 1 = (word_of_int (int m + 1) :: u16)"
    "word_of_int (n - mon_yday (isleap y) ! m) + 1 = (word_of_int (n - mon_yday (isleap y) ! m + 1) :: u16)"
    by (simp_all add: wi_hom_syms)
  have "word_of_int y \<in> {1970..2038 :: u16}" using le[of 1970 y] le[of y 2038] y by simp
  moreover have "word_of_nat m + 1 \<in> {1..12 :: u16}"
    unfolding m using le[of 1 "int m + 1"] le[of "int m + 1" 12] y by simp
  moreover have "word_of_int (n - mon_yday (isleap y) ! m) + 1 \<in> {1..31 :: u16}"
    unfolding m using le[of 1 "n - mon_yday (isleap y) ! m + 1"] le[of "n - mon_yday (isleap y) ! m + 1" 31] y by simp
  moreover have "word_of_int (t mod 86400 div 3600) \<le> (23 :: u16)"
    using le[of "t mod 86400 div 3600" 23] r(1,2) by simp
  moreover have "word_of_int (t mod 86400 mod 3600 div 60) \<le> (59 :: u16)"
    using le[of "t mod 86400 mod 3600 div 60" 59] r(3,4) by simp
  moreover have "word_of_int (t mod 86400 mod 3600 mod 60) \<le> (59 :: u16)"
    using le[of "t mod 86400 mod 3600 mod 60" 59] r(5,6) by simp
  ultimately show ?thesis unfolding c by simp
qed

text \<open>
  Before 1970 the remainders of the truncating divisions are negative: one second before 1970
  is converted to the 65535th second of 1 January 1970.
\<close>
theorem unix2calendar_negative:
  "map_option c_second (unix2calendar 2 (- 1)) = Some 65535 \<and> map_option c_year (unix2calendar 2 (- 1)) = Some 1970"
proof -
  have "(- 1) sdiv 86400 = (0 :: int)" "(- 1) smod 86400 = (- 1 :: int)" "(- 1) smod 3600 = (- 1 :: int)"
    "(- 1) smod 60 = (- 1 :: int)" by (simp_all add: signed_divide_int_def signed_modulo_int_def)
  moreover have "year_loop 2 1970 0 = Some (1970, 0)" using year_loop_exit[of 1970 0 2] by (simp add: year_len_def)
  moreover have "month_loop (mon_yday (isleap 1970)) 11 0 = Some 0"
    by (simp add: isleap_range mon_yday_def numeral_eq_Suc)
  ultimately show ?thesis by (simp add: unix2calendar_def Let_def)
qed

section \<open>Witnesses\<close>

theorem dostime_unixtime_roundtrip_witness:
  "\<exists>x. dostime 2 951827696 = Some x \<and> unixtime (ucast (drop_bit 16 x)) (ucast x) = Some 951827696"
  using dostime_unixtime_roundtrip[of 951827696 2] by simp

theorem unix2calendar_in_range_witness:
  "\<exists>c. unix2calendar 2 951827696 = Some c \<and> c_month c \<in> {1..12}"
  using unix2calendar_in_range[of 951827696 2] by auto

end
