(* ===== verification/Bpf.thy ===== *)
theory Bpf
  imports Kern_Prelude "HOL-Library.Signed_Division"
begin

text \<open>
  The packet filter machine of \<open>sys/sockets/inet4/bpf_filter.c\<close>: the interpreter \<open>bpf_filter\<close> and the check
  \<open>bpf_validate\<close> that a program must pass before the kernel runs it. An access outside the program,
  the sixteen memory words or the packet, and a division by zero, are faults. The scratch memory is
  not initialised, so its contents are an argument. The interpreter's loop has fuel.

  Arithmetic is on 32 bit words; comparisons, division and right shifts are signed. Shift counts are
  taken modulo 64, as the processor's shift instructions do.
\<close>

section \<open>Instructions\<close>

record bpf_insn =
  i_code :: u16
  i_jt :: u8
  i_jf :: u8
  i_k :: u32

abbreviation (input) BPF_LD :: u16 where "BPF_LD \<equiv> 0x00"
abbreviation (input) BPF_LDX :: u16 where "BPF_LDX \<equiv> 0x01"
abbreviation (input) BPF_ST :: u16 where "BPF_ST \<equiv> 0x02"
abbreviation (input) BPF_STX :: u16 where "BPF_STX \<equiv> 0x03"
abbreviation (input) BPF_ALU :: u16 where "BPF_ALU \<equiv> 0x04"
abbreviation (input) BPF_JMP :: u16 where "BPF_JMP \<equiv> 0x05"
abbreviation (input) BPF_RET :: u16 where "BPF_RET \<equiv> 0x06"
abbreviation (input) BPF_MISC :: u16 where "BPF_MISC \<equiv> 0x07"
abbreviation (input) BPF_W :: u16 where "BPF_W \<equiv> 0x00"
abbreviation (input) BPF_H :: u16 where "BPF_H \<equiv> 0x08"
abbreviation (input) BPF_B :: u16 where "BPF_B \<equiv> 0x10"
abbreviation (input) BPF_IMM :: u16 where "BPF_IMM \<equiv> 0x00"
abbreviation (input) BPF_ABS :: u16 where "BPF_ABS \<equiv> 0x20"
abbreviation (input) BPF_IND :: u16 where "BPF_IND \<equiv> 0x40"
abbreviation (input) BPF_MEM :: u16 where "BPF_MEM \<equiv> 0x60"
abbreviation (input) BPF_LEN :: u16 where "BPF_LEN \<equiv> 0x80"
abbreviation (input) BPF_MSH :: u16 where "BPF_MSH \<equiv> 0xa0"
abbreviation (input) BPF_ADD :: u16 where "BPF_ADD \<equiv> 0x00"
abbreviation (input) BPF_SUB :: u16 where "BPF_SUB \<equiv> 0x10"
abbreviation (input) BPF_MUL :: u16 where "BPF_MUL \<equiv> 0x20"
abbreviation (input) BPF_DIV :: u16 where "BPF_DIV \<equiv> 0x30"
abbreviation (input) BPF_OR :: u16 where "BPF_OR \<equiv> 0x40"
abbreviation (input) BPF_AND :: u16 where "BPF_AND \<equiv> 0x50"
abbreviation (input) BPF_LSH :: u16 where "BPF_LSH \<equiv> 0x60"
abbreviation (input) BPF_RSH :: u16 where "BPF_RSH \<equiv> 0x70"
abbreviation (input) BPF_NEG :: u16 where "BPF_NEG \<equiv> 0x80"
abbreviation (input) BPF_JA :: u16 where "BPF_JA \<equiv> 0x00"
abbreviation (input) BPF_JEQ :: u16 where "BPF_JEQ \<equiv> 0x10"
abbreviation (input) BPF_JGT :: u16 where "BPF_JGT \<equiv> 0x20"
abbreviation (input) BPF_JGE :: u16 where "BPF_JGE \<equiv> 0x30"
abbreviation (input) BPF_JSET :: u16 where "BPF_JSET \<equiv> 0x40"
abbreviation (input) BPF_K :: u16 where "BPF_K \<equiv> 0x00"
abbreviation (input) BPF_X :: u16 where "BPF_X \<equiv> 0x08"
abbreviation (input) BPF_A :: u16 where "BPF_A \<equiv> 0x10"
abbreviation (input) BPF_TAX :: u16 where "BPF_TAX \<equiv> 0x00"
abbreviation (input) BPF_TXA :: u16 where "BPF_TXA \<equiv> 0x80"
abbreviation (input) BPF_MEMWORDS :: nat where "BPF_MEMWORDS \<equiv> 16"

definition BPF_CLASS :: "u16 \<Rightarrow> u16" where "BPF_CLASS code = code AND 0x07"
definition BPF_OP :: "u16 \<Rightarrow> u16" where "BPF_OP code = code AND 0xf0"

section \<open>The interpreter\<close>

record bpf_state =
  s_pc :: int
  s_A :: u32
  s_X :: u32
  s_mem :: "u32 list"

datatype bpf_fault = Bad_pc | Bad_mem | Bad_packet | Div_zero

datatype bpf_out = Return u32 | Continue bpf_state | Fault bpf_fault

text \<open>\<open>continue\<close> goes to the instruction after the one at \<open>pc\<close>.\<close>

definition next_pc :: "bpf_state \<Rightarrow> bpf_out" where
  "next_pc s = Continue (s\<lparr>s_pc := s_pc s + 1\<rparr>)"

text \<open>
  The program counter is an index, unbounded as the program text is not: an offset outside the program is
  \<open>Bad_pc\<close> in the next step. The code adds to a pointer, where an offset times the size of an instruction wraps
  around the address space; offsets that big never lead back into a program that fits into memory but by that wrap.
\<close>

definition jump :: "int \<Rightarrow> bpf_state \<Rightarrow> bpf_out" where
  "jump off s = next_pc (s\<lparr>s_pc := s_pc s + off\<rparr>)"

definition EXTRACT_SHORT :: "u8 list \<Rightarrow> nat \<Rightarrow> u32" where
  "EXTRACT_SHORT p k = push_bit 8 (ucast (p ! k)) OR ucast (p ! (k + 1))"

definition EXTRACT_LONG :: "u8 list \<Rightarrow> nat \<Rightarrow> u32" where
  "EXTRACT_LONG p k = push_bit 24 (ucast (p ! k)) OR push_bit 16 (ucast (p ! (k + 1))) OR
     push_bit 8 (ucast (p ! (k + 2))) OR ucast (p ! (k + 3))"

text \<open>Loads from the packet; the sum in the bounds check wraps.\<close>

definition load_w :: "u8 list \<Rightarrow> u32 \<Rightarrow> u32 \<Rightarrow> bpf_state \<Rightarrow> bpf_out" where
  "load_w p buflen k s =
    (if k + 4 > buflen then Return 0
     else if length p < unat k + 4 then Fault Bad_packet
     else next_pc (s\<lparr>s_A := EXTRACT_LONG p (unat k)\<rparr>))"

definition load_h :: "u8 list \<Rightarrow> u32 \<Rightarrow> u32 \<Rightarrow> bpf_state \<Rightarrow> bpf_out" where
  "load_h p buflen k s =
    (if k + 2 > buflen then Return 0
     else if length p < unat k + 2 then Fault Bad_packet
     else next_pc (s\<lparr>s_A := EXTRACT_SHORT p (unat k)\<rparr>))"

definition load_b :: "u8 list \<Rightarrow> u32 \<Rightarrow> u32 \<Rightarrow> bpf_state \<Rightarrow> bpf_out" where
  "load_b p buflen k s =
    (if k \<ge> buflen then Return 0
     else if length p \<le> unat k then Fault Bad_packet
     else next_pc (s\<lparr>s_A := ucast (p ! unat k)\<rparr>))"

definition exec_load :: "u8 list \<Rightarrow> u32 \<Rightarrow> u32 \<Rightarrow> bpf_insn \<Rightarrow> bpf_state \<Rightarrow> bpf_out option" where
  "exec_load p wirelen buflen i s =
    (let c = i_code i; k = i_k i
     in if c = BPF_LD OR BPF_W OR BPF_ABS then Some (load_w p buflen k s)
        else if c = BPF_LD OR BPF_H OR BPF_ABS then Some (load_h p buflen k s)
        else if c = BPF_LD OR BPF_B OR BPF_ABS then Some (load_b p buflen k s)
        else if c = BPF_LD OR BPF_W OR BPF_LEN then Some (next_pc (s\<lparr>s_A := wirelen\<rparr>))
        else if c = BPF_LDX OR BPF_W OR BPF_LEN then Some (next_pc (s\<lparr>s_X := wirelen\<rparr>))
        else if c = BPF_LD OR BPF_W OR BPF_IND then Some (load_w p buflen (s_X s + k) s)
        else if c = BPF_LD OR BPF_H OR BPF_IND then Some (load_h p buflen (s_X s + k) s)
        else if c = BPF_LD OR BPF_B OR BPF_IND then Some (load_b p buflen (s_X s + k) s)
        else if c = BPF_LDX OR BPF_MSH OR BPF_B
        then Some (if k \<ge> buflen then Return 0
                   else if length p \<le> unat k then Fault Bad_packet
                   else next_pc (s\<lparr>s_X := push_bit 2 (ucast (p ! unat k) AND 0xf)\<rparr>))
        else None)"

definition exec_mem :: "bpf_insn \<Rightarrow> bpf_state \<Rightarrow> bpf_out option" where
  "exec_mem i s =
    (let c = i_code i; k = i_k i
     in if c = BPF_LD OR BPF_IMM then Some (next_pc (s\<lparr>s_A := k\<rparr>))
        else if c = BPF_LDX OR BPF_IMM then Some (next_pc (s\<lparr>s_X := k\<rparr>))
        else if c = BPF_LD OR BPF_MEM
        then Some (if unat k < length (s_mem s) then next_pc (s\<lparr>s_A := s_mem s ! unat k\<rparr>) else Fault Bad_mem)
        else if c = BPF_LDX OR BPF_MEM
        then Some (if unat k < length (s_mem s) then next_pc (s\<lparr>s_X := s_mem s ! unat k\<rparr>) else Fault Bad_mem)
        else if c = BPF_ST
        then Some (if unat k < length (s_mem s) then next_pc (s\<lparr>s_mem := (s_mem s)[unat k := s_A s]\<rparr>) else Fault Bad_mem)
        else if c = BPF_STX
        then Some (if unat k < length (s_mem s) then next_pc (s\<lparr>s_mem := (s_mem s)[unat k := s_X s]\<rparr>) else Fault Bad_mem)
        else None)"

definition branch :: "bool \<Rightarrow> bpf_insn \<Rightarrow> bpf_state \<Rightarrow> bpf_out" where
  "branch b i s = jump (if b then uint (i_jt i) else uint (i_jf i)) s"

definition exec_jump :: "bpf_insn \<Rightarrow> bpf_state \<Rightarrow> bpf_out option" where
  "exec_jump i s =
    (let c = i_code i; k = i_k i; A = s_A s; X = s_X s
     in if c = BPF_JMP OR BPF_JA then Some (jump (sint k) s)
        else if c = BPF_JMP OR BPF_JGT OR BPF_K then Some (branch (k <s A) i s)
        else if c = BPF_JMP OR BPF_JGE OR BPF_K then Some (branch (k \<le>s A) i s)
        else if c = BPF_JMP OR BPF_JEQ OR BPF_K then Some (branch (A = k) i s)
        else if c = BPF_JMP OR BPF_JSET OR BPF_K then Some (branch (A AND k \<noteq> 0) i s)
        else if c = BPF_JMP OR BPF_JGT OR BPF_X then Some (branch (X <s A) i s)
        else if c = BPF_JMP OR BPF_JGE OR BPF_X then Some (branch (X \<le>s A) i s)
        else if c = BPF_JMP OR BPF_JEQ OR BPF_X then Some (branch (A = X) i s)
        else if c = BPF_JMP OR BPF_JSET OR BPF_X then Some (branch (A AND X \<noteq> 0) i s)
        else None)"

definition alu_op :: "u16 \<Rightarrow> u32 \<Rightarrow> u32 \<Rightarrow> u32 option" where
  "alu_op opc A v =
    (if opc = BPF_ADD then Some (A + v)
     else if opc = BPF_SUB then Some (A - v)
     else if opc = BPF_MUL then Some (A * v)
     else if opc = BPF_DIV then Some (word_of_int (sint A sdiv sint v))
     else if opc = BPF_AND then Some (A AND v)
     else if opc = BPF_OR then Some (A OR v)
     else if opc = BPF_LSH then Some (push_bit (unat v mod 64) A)
     else if opc = BPF_RSH then Some (signed_drop_bit (unat v mod 64) A)
     else None)"

text \<open>The cases \<open>BPF_ALU|op|BPF_X\<close> and \<open>BPF_ALU|op|BPF_K\<close>, \<open>BPF_ALU|BPF_NEG\<close> and the \<open>BPF_MISC\<close> ones.\<close>

definition exec_alu :: "bpf_insn \<Rightarrow> bpf_state \<Rightarrow> bpf_out option" where
  "exec_alu i s =
    (let c = i_code i; A = s_A s; X = s_X s
     in if c = BPF_ALU OR BPF_NEG then Some (next_pc (s\<lparr>s_A := - A\<rparr>))
        else if c = BPF_MISC OR BPF_TAX then Some (next_pc (s\<lparr>s_X := A\<rparr>))
        else if c = BPF_MISC OR BPF_TXA then Some (next_pc (s\<lparr>s_A := X\<rparr>))
        else if c = BPF_ALU OR BPF_DIV OR BPF_X \<and> X = 0 then Some (Return 0)
        else if c = BPF_ALU OR BPF_DIV OR BPF_K \<and> i_k i = 0 then Some (Fault Div_zero)
        else if c = BPF_ALU OR BPF_OP c OR BPF_X then map_option (\<lambda>r. next_pc (s\<lparr>s_A := r\<rparr>)) (alu_op (BPF_OP c) A X)
        else if c = BPF_ALU OR BPF_OP c OR BPF_K then map_option (\<lambda>r. next_pc (s\<lparr>s_A := r\<rparr>)) (alu_op (BPF_OP c) A (i_k i))
        else None)"

definition exec_ret :: "bpf_insn \<Rightarrow> bpf_state \<Rightarrow> bpf_out option" where
  "exec_ret i s =
    (if i_code i = BPF_RET OR BPF_K then Some (Return (i_k i))
     else if i_code i = BPF_RET OR BPF_A then Some (Return (s_A s))
     else None)"

fun first_some :: "'a option list \<Rightarrow> 'a \<Rightarrow> 'a" where
  "first_some [] d = d"
| "first_some (x # xs) d = (case x of Some y \<Rightarrow> y | None \<Rightarrow> first_some xs d)"

definition bpf_step :: "bpf_insn list \<Rightarrow> u8 list \<Rightarrow> u32 \<Rightarrow> u32 \<Rightarrow> bpf_state \<Rightarrow> bpf_out" where
  "bpf_step prog p wirelen buflen s =
    (if s_pc s < 0 \<or> int (length prog) \<le> s_pc s then Fault Bad_pc
     else let i = prog ! nat (s_pc s)
          in first_some [exec_ret i s, exec_load p wirelen buflen i s, exec_mem i s, exec_jump i s, exec_alu i s]
               (Return 0))"

fun bpf_run :: "nat \<Rightarrow> bpf_insn list \<Rightarrow> u8 list \<Rightarrow> u32 \<Rightarrow> u32 \<Rightarrow> bpf_state \<Rightarrow> (bpf_fault + u32) option" where
  "bpf_run 0 prog p wirelen buflen s = None"
| "bpf_run (Suc fuel) prog p wirelen buflen s =
    (case bpf_step prog p wirelen buflen s of
       Return r \<Rightarrow> Some (Inr r)
     | Fault e \<Rightarrow> Some (Inl e)
     | Continue s \<Rightarrow> bpf_run fuel prog p wirelen buflen s)"

text \<open>A null program accepts every packet.\<close>

definition bpf_filter ::
  "nat \<Rightarrow> u32 list \<Rightarrow> bpf_insn list option \<Rightarrow> u8 list \<Rightarrow> u32 \<Rightarrow> u32 \<Rightarrow> (bpf_fault + u32) option" where
  "bpf_filter fuel mem pc p wirelen buflen =
    (case pc of
       None \<Rightarrow> Some (Inr (- 1))
     | Some prog \<Rightarrow> bpf_run fuel prog p wirelen buflen \<lparr>s_pc = 0, s_A = 0, s_X = 0, s_mem = mem\<rparr>)"

section \<open>The check of a program\<close>

text \<open>The sum of \<open>from\<close> and the \<open>long\<close> offset wraps; those with the byte offsets are in range.\<close>

definition insn_ok :: "nat \<Rightarrow> nat \<Rightarrow> bpf_insn \<Rightarrow> bool" where
  "insn_ok len i q =
    (let from = int i + 1
     in if BPF_CLASS (i_code q) = BPF_JMP \<and>
          (if BPF_OP (i_code q) = BPF_JA then signed_take_bit 31 (from + sint (i_k q)) \<ge> int len
           else from + uint (i_jt q) \<ge> int len \<or> from + uint (i_jf q) \<ge> int len) then False
        else if (BPF_CLASS (i_code q) = BPF_ST \<or> BPF_CLASS (i_code q) = BPF_LD \<and> i_code q AND 0xe0 = BPF_MEM) \<and>
          (sint (i_k q) \<ge> int BPF_MEMWORDS \<or> sint (i_k q) < 0) then False
        else if i_code q = BPF_ALU OR BPF_DIV OR BPF_K \<and> i_k q = 0 then False
        else True)"

fun validate_loop :: "nat \<Rightarrow> nat \<Rightarrow> bpf_insn list \<Rightarrow> bool" where
  "validate_loop len i [] = True"
| "validate_loop len i (q # f) = (if insn_ok len i q then validate_loop len (i + 1) f else False)"

text \<open>The program has \<open>len\<close> instructions; the last one of none is out of bounds.\<close>

definition bpf_validate :: "bpf_insn list \<Rightarrow> bool option" where
  "bpf_validate f =
    (if \<not> validate_loop (length f) 0 f then Some False
     else if f = [] then None
     else Some (BPF_CLASS (i_code (last f)) = BPF_RET))"


section \<open>One step\<close>

text \<open>An instruction that ends the program, cannot read the packet, or goes on to the next one.\<close>

definition straight :: "bpf_state \<Rightarrow> bpf_out \<Rightarrow> bool" where
  "straight s out \<longleftrightarrow> (case out of Return _ \<Rightarrow> True | Fault e \<Rightarrow> e = Bad_packet
     | Continue t \<Rightarrow> s_pc t = s_pc s + 1 \<and> length (s_mem t) = length (s_mem s))"

lemma straight_simps [simp]:
  "straight s (Return r)" "straight s (Fault e) \<longleftrightarrow> e = Bad_packet"
  "s_pc t = s_pc s \<Longrightarrow> length (s_mem t) = length (s_mem s) \<Longrightarrow> straight s (next_pc t)"
  by (simp_all add: straight_def next_pc_def)

lemma load_straight [simp]:
  "straight s (load_w p b k s)" "straight s (load_h p b k s)" "straight s (load_b p b k s)"
  by (simp_all add: load_w_def load_h_def load_b_def)

lemma exec_load_straight: "exec_load p w b i s = Some out \<Longrightarrow> straight s out"
  by (auto simp: exec_load_def Let_def split: if_splits)

lemma exec_alu_straight:
  "exec_alu i s = Some out \<Longrightarrow> \<not> (i_code i = 0x34 \<and> i_k i = 0) \<Longrightarrow> straight s out"
  by (auto simp: exec_alu_def Let_def split: if_splits)

lemma exec_ret_straight: "exec_ret i s = Some out \<Longrightarrow> straight s out"
  by (auto simp: exec_ret_def split: if_splits)

lemma exec_mem_straight:
  assumes "exec_mem i s = Some out" "i_code i \<in> {0x60, 0x61, 0x02, 0x03} \<Longrightarrow> unat (i_k i) < length (s_mem s)"
  shows "straight s out"
  using assms by (auto simp: exec_mem_def Let_def split: if_splits)

lemma exec_jump_cases:
  assumes "exec_jump i s = Some out"
  obtains (ja) "i_code i = 0x05" "out = jump (sint (i_k i)) s"
  | (cond) off where "BPF_CLASS (i_code i) = BPF_JMP" "BPF_OP (i_code i) \<noteq> BPF_JA"
      "off = uint (i_jt i) \<or> off = uint (i_jf i)" "out = jump off s"
proof -
  have "i_code i = 0x05 \<and> out = jump (sint (i_k i)) s \<or>
    i_code i \<in> {0x25, 0x35, 0x15, 0x45, 0x2d, 0x3d, 0x1d, 0x4d} \<and> (\<exists>b. out = branch b i s)"
    using assms by (auto simp: exec_jump_def Let_def split: if_splits)
  then show ?thesis
  proof
    assume "i_code i = 0x05 \<and> out = jump (sint (i_k i)) s"
    then show ?thesis using ja by blast
  next
    assume *: "i_code i \<in> {0x25, 0x35, 0x15, 0x45, 0x2d, 0x3d, 0x1d, 0x4d} \<and> (\<exists>b. out = branch b i s)"
    then obtain b where b: "out = branch b i s" by blast
    have "BPF_CLASS (i_code i) = BPF_JMP" "BPF_OP (i_code i) \<noteq> BPF_JA"
      using * by (auto simp: BPF_CLASS_def BPF_OP_def)
    then show ?thesis using cond b by (auto simp: branch_def split: if_splits)
  qed
qed

lemma ret_class:
  assumes "BPF_CLASS (i_code i) = BPF_RET"
  shows "exec_load p w b i s = None" "exec_mem i s = None" "exec_jump i s = None" "exec_alu i s = None"
proof -
  have n: "i_code i \<noteq> c" if "c AND 7 \<noteq> 6" for c using assms that by (auto simp: BPF_CLASS_def)
  show "exec_load p w b i s = None" "exec_mem i s = None" "exec_jump i s = None"
    using n by (simp_all add: exec_load_def exec_mem_def exec_jump_def Let_def)
  have "(BPF_ALU OR x) AND 7 \<noteq> 6" if "x AND 7 = 0" for x :: u16
    using that by (simp add: bit.conj_disj_distrib2)
  moreover have "(BPF_OP c OR BPF_X) AND 7 = 0" "(BPF_OP c OR BPF_K) AND 7 = 0" for c
    by (simp_all add: BPF_OP_def bit.conj_disj_distrib2 and.assoc)
  ultimately show "exec_alu i s = None" using n by (simp add: exec_alu_def Let_def)
qed

section \<open>Programs that pass the check\<close>

lemma validate_loop_all:
  "validate_loop len i f \<longleftrightarrow> (\<forall>j < length f. insn_ok len (i + j) (f ! j))"
proof (induction f arbitrary: i)
  case (Cons q f)
  have "(\<forall>j < length (q # f). insn_ok len (i + j) ((q # f) ! j)) \<longleftrightarrow>
    insn_ok len i q \<and> (\<forall>j < length f. insn_ok len (i + 1 + j) (f ! j))"
    by (auto simp: less_Suc_eq_0_disj)
  then show ?case by (simp add: Cons)
qed simp

lemma bpf_validate_accepts:
  "bpf_validate f = Some True \<longleftrightarrow>
    f \<noteq> [] \<and> BPF_CLASS (i_code (last f)) = BPF_RET \<and> (\<forall>j < length f. insn_ok (length f) j (f ! j))"
  by (auto simp: bpf_validate_def validate_loop_all)

text \<open>
  What the check leaves out: an unconditional jump must not go back or so far that the sum in its
  check wraps, and the index of \<open>LDX|MEM\<close> and \<open>STX\<close> must be one of the sixteen words.
\<close>

definition strict_insn :: "nat \<Rightarrow> bpf_insn \<Rightarrow> bool" where
  "strict_insn i q \<longleftrightarrow>
    (i_code q = BPF_JMP OR BPF_JA \<longrightarrow> 0 \<le> sint (i_k q) \<and> int i + 1 + sint (i_k q) < 2 ^ 31) \<and>
    (i_code q = BPF_LDX OR BPF_MEM \<or> i_code q = BPF_STX \<longrightarrow> unat (i_k q) < BPF_MEMWORDS)"

definition strict_prog :: "bpf_insn list \<Rightarrow> bool" where
  "strict_prog f \<longleftrightarrow> (\<forall>j < length f. strict_insn j (f ! j))"

lemma sint_unat_small:
  fixes k :: u32
  assumes "0 \<le> sint k" "sint k < 16"
  shows "unat k < 16"
proof -
  have "uint k = sint k" using assms(1) sint32_nonneg by auto
  then show ?thesis using assms by (simp add: unat_eq_nat_uint)
qed

lemma insn_ok_ja:
  assumes "insn_ok len i q" "strict_insn i q" "i_code q = BPF_JMP OR BPF_JA"
  shows "0 \<le> sint (i_k q)" "int i + 1 + sint (i_k q) < int len"
proof -
  have *: "0 \<le> sint (i_k q)" "int i + 1 + sint (i_k q) < 2 ^ 31"
    using assms(2,3) by (auto simp: strict_insn_def)
  have "signed_take_bit 31 (int i + 1 + sint (i_k q)) = int i + 1 + sint (i_k q)"
    using * by (intro signed_take_bit_int_eq_self) auto
  then show "int i + 1 + sint (i_k q) < int len"
    using assms(1,3) by (simp add: insn_ok_def BPF_CLASS_def BPF_OP_def Let_def split: if_splits)
  show "0 \<le> sint (i_k q)" by (rule *)
qed

lemma insn_ok_cond:
  assumes "insn_ok len i q" "BPF_CLASS (i_code q) = BPF_JMP" "BPF_OP (i_code q) \<noteq> BPF_JA"
  shows "int i + 1 + uint (i_jt q) < int len" "int i + 1 + uint (i_jf q) < int len"
  using assms by (simp_all add: insn_ok_def Let_def split: if_splits)

lemma insn_ok_mem:
  assumes "insn_ok len i q" "strict_insn i q" "i_code q \<in> {0x60, 0x61, 0x02, 0x03}"
  shows "unat (i_k q) < 16"
proof (cases "i_code q = 0x61 \<or> i_code q = 0x03")
  case True
  then show ?thesis using assms(2) by (auto simp: strict_insn_def)
next
  case False
  then have "i_code q = 0x60 \<or> i_code q = 0x02" using assms(3) by auto
  then have "0 \<le> sint (i_k q) \<and> sint (i_k q) < 16"
    using assms(1) by (auto simp: insn_ok_def BPF_CLASS_def BPF_OP_def Let_def split: if_splits)
  then show ?thesis by (simp add: sint_unat_small)
qed

lemma insn_ok_div: "insn_ok len i q \<Longrightarrow> \<not> (i_code q = 0x34 \<and> i_k q = 0)"
  by (auto simp: insn_ok_def BPF_CLASS_def BPF_OP_def Let_def)

text \<open>A step ends the program, fails to read the packet, or goes forward inside the program.\<close>

definition forward :: "nat \<Rightarrow> bpf_state \<Rightarrow> bpf_out \<Rightarrow> bool" where
  "forward len s out \<longleftrightarrow> (case out of Return _ \<Rightarrow> True | Fault e \<Rightarrow> e = Bad_packet
     | Continue t \<Rightarrow> s_pc s < s_pc t \<and> s_pc t < int len \<and> length (s_mem t) = length (s_mem s))"

lemma straight_forward: "straight s out \<Longrightarrow> s_pc s + 1 < int len \<Longrightarrow> forward len s out"
  by (auto simp: straight_def forward_def split: bpf_out.splits)

lemma jump_forward:
  "0 \<le> off \<Longrightarrow> s_pc s + 1 + off < int len \<Longrightarrow> forward len s (jump off s)"
  by (simp add: jump_def next_pc_def forward_def)

lemma first_some_cases:
  "first_some xs d = d \<or> Some (first_some xs d) \<in> set xs"
  by (induction xs) (auto split: option.splits)

lemma step_last:
  assumes "BPF_CLASS (i_code i) = BPF_RET"
  shows "\<exists>r. first_some [exec_ret i s, exec_load p w b i s, exec_mem i s, exec_jump i s, exec_alu i s] (Return 0)
    = Return r"
  by (simp add: ret_class[OF assms] exec_ret_def)

lemma step_forward:
  assumes ok: "bpf_validate prog = Some True" "strict_prog prog"
    and pc: "0 \<le> s_pc s" "s_pc s < int (length prog)" and mem: "length (s_mem s) = BPF_MEMWORDS"
  shows "forward (length prog) s (bpf_step prog p w b s)"
proof -
  define n where "n = nat (s_pc s)"
  define i where "i = prog ! n"
  define outs where "outs = [exec_ret i s, exec_load p w b i s, exec_mem i s, exec_jump i s, exec_alu i s]"
  have n: "n < length prog" "int n = s_pc s" using pc by (auto simp: n_def)
  have i: "insn_ok (length prog) n i" "strict_insn n i"
    using ok n by (auto simp: bpf_validate_accepts strict_prog_def i_def)
  have step: "bpf_step prog p w b s = first_some outs (Return 0)"
    using pc by (simp add: bpf_step_def Let_def outs_def i_def n_def)
  show ?thesis
  proof (cases "n = length prog - 1")
    case True
    then have "BPF_CLASS (i_code i) = BPF_RET"
      using ok(1) by (auto simp: bpf_validate_accepts i_def last_conv_nth)
    then obtain r where "bpf_step prog p w b s = Return r"
      using step_last[of i s p w b] unfolding step outs_def by blast
    then show ?thesis by (simp add: forward_def)
  next
    case False
    then have next_in: "s_pc s + 1 < int (length prog)" using n by simp
    have "forward (length prog) s out" if o: "Some out \<in> set outs" for out
    proof -
      consider "exec_ret i s = Some out" | "exec_load p w b i s = Some out" | "exec_mem i s = Some out"
        | "exec_jump i s = Some out" | "exec_alu i s = Some out"
        using o unfolding outs_def by auto
      then show ?thesis
      proof cases
        case 4
        then show ?thesis
        proof (cases rule: exec_jump_cases)
          case ja
          then show ?thesis using insn_ok_ja[OF i] n(2) by (simp add: jump_forward)
        next
          case (cond off)
          have "s_pc s + 1 + off < int (length prog)" "0 \<le> off"
            using cond(3) insn_ok_cond[OF i(1) cond(1,2)] n(2) by auto
          then show ?thesis using cond(4) by (simp add: jump_forward)
        qed
      qed (use next_in exec_ret_straight exec_load_straight exec_alu_straight[OF _ insn_ok_div[OF i(1)]]
            exec_mem_straight[of i s out] insn_ok_mem[OF i] mem straight_forward in auto)
    qed
    then show ?thesis using first_some_cases[of outs "Return 0"] unfolding step
      by (auto simp: forward_def)
  qed
qed

section \<open>Reads of the packet\<close>

text \<open>
  The only reads outside the packet: a word or half word at an offset so close to \<open>2 ^ 32\<close> that the
  sum in the bounds check wraps.
\<close>

definition wraps :: "nat \<Rightarrow> u32 \<Rightarrow> bool" where
  "wraps n k \<longleftrightarrow> 2 ^ 32 \<le> unat k + n"

definition wrapped_load :: "bpf_insn list \<Rightarrow> bpf_state \<Rightarrow> bool" where
  "wrapped_load prog s =
    (let i = prog ! nat (s_pc s); c = i_code i
     in c = BPF_LD OR BPF_W OR BPF_ABS \<and> wraps 4 (i_k i) \<or> c = BPF_LD OR BPF_H OR BPF_ABS \<and> wraps 2 (i_k i) \<or>
        c = BPF_LD OR BPF_W OR BPF_IND \<and> wraps 4 (s_X s + i_k i) \<or>
        c = BPF_LD OR BPF_H OR BPF_IND \<and> wraps 2 (s_X s + i_k i))"

lemma not_wraps_add:
  assumes "\<not> wraps n k"
  shows "unat (k + of_nat n :: u32) = unat k + n"
proof -
  have "unat (of_nat n :: u32) = n" using assms by (simp add: wraps_def unat_of_nat)
  then show ?thesis using assms by (simp add: wraps_def unat_word_ariths)
qed

lemma load_fault:
  assumes "length p = unat b"
  shows "load_w p b k s = Fault e \<Longrightarrow> wraps 4 k" "load_h p b k s = Fault e \<Longrightarrow> wraps 2 k"
    "load_b p b k s \<noteq> Fault e"
  using assms not_wraps_add[of 4 k] not_wraps_add[of 2 k]
  by (auto simp: load_w_def load_h_def load_b_def next_pc_def word_le_nat_alt word_less_nat_alt not_less split: if_splits)

lemma exec_load_fault:
  assumes "length p = unat b" "exec_load p w b (prog ! nat (s_pc s)) s = Some (Fault e)"
  shows "wrapped_load prog s"
  using assms(2) load_fault[OF assms(1)]
  by (auto simp: exec_load_def wrapped_load_def next_pc_def Let_def word_le_nat_alt assms(1) split: if_splits)

lemma other_no_packet_fault:
  "exec_ret i s \<noteq> Some (Fault Bad_packet)" "exec_mem i s \<noteq> Some (Fault Bad_packet)"
  "exec_jump i s \<noteq> Some (Fault Bad_packet)" "exec_alu i s \<noteq> Some (Fault Bad_packet)"
  by (auto simp: exec_ret_def exec_mem_def exec_jump_def exec_alu_def branch_def jump_def next_pc_def Let_def)

lemma step_packet_fault:
  assumes "length p = unat b" "bpf_step prog p w b s = Fault Bad_packet"
  shows "wrapped_load prog s"
proof -
  define i where "i = prog ! nat (s_pc s)"
  define outs where "outs = [exec_ret i s, exec_load p w b i s, exec_mem i s, exec_jump i s, exec_alu i s]"
  have "first_some outs (Return 0) = Fault Bad_packet"
    using assms(2) by (auto simp: bpf_step_def Let_def outs_def i_def split: if_splits)
  then have "Some (Fault Bad_packet) \<in> set outs" using first_some_cases[of outs "Return 0"] by auto
  then have "exec_load p w b i s = Some (Fault Bad_packet)"
    using other_no_packet_fault[of i s] unfolding outs_def by auto
  then show ?thesis using exec_load_fault[OF assms(1)] by (simp add: i_def)
qed

inductive bpf_reaches :: "bpf_insn list \<Rightarrow> u8 list \<Rightarrow> u32 \<Rightarrow> u32 \<Rightarrow> bpf_state \<Rightarrow> bpf_state \<Rightarrow> bool"
  for prog p w b where
  here: "bpf_reaches prog p w b s s"
| there: "bpf_step prog p w b s = Continue t \<Longrightarrow> bpf_reaches prog p w b t u \<Longrightarrow> bpf_reaches prog p w b s u"

lemma bpf_run_ends:
  assumes ok: "bpf_validate prog = Some True" "strict_prog prog" "length p = unat b"
    and "0 \<le> s_pc s" "s_pc s < int (length prog)" "length (s_mem s) = BPF_MEMWORDS"
    and "int (length prog) - s_pc s \<le> int fuel"
  shows "\<exists>r. bpf_run fuel prog p w b s = Some r \<and>
    (r = Inl Bad_packet \<and> (\<exists>t. bpf_reaches prog p w b s t \<and> wrapped_load prog t) \<or> (\<exists>v. r = Inr v))"
  using assms(4-)
proof (induction fuel arbitrary: s)
  case (Suc fuel)
  have f: "forward (length prog) s (bpf_step prog p w b s)"
    by (rule step_forward[OF ok(1,2) Suc.prems(1-3)])
  show ?case
  proof (cases "bpf_step prog p w b s")
    case (Continue t)
    then have "s_pc s < s_pc t" "s_pc t < int (length prog)" "length (s_mem t) = length (s_mem s)"
      using f by (auto simp: forward_def)
    then have "\<exists>r. bpf_run fuel prog p w b t = Some r \<and>
      (r = Inl Bad_packet \<and> (\<exists>u. bpf_reaches prog p w b t u \<and> wrapped_load prog u) \<or> (\<exists>v. r = Inr v))"
      using Suc.IH[of t] Suc.prems by simp
    then show ?thesis using Continue there[OF Continue] by auto
  next
    case (Fault e)
    then have "e = Bad_packet" "wrapped_load prog s"
      using f step_packet_fault[OF ok(3)] by (auto simp: forward_def)
    then show ?thesis using Fault here[of prog p w b s] by auto
  qed simp
qed simp

section \<open>Properties\<close>

text \<open>The state in which \<open>bpf_filter\<close> enters its loop.\<close>

definition bpf_start :: "u32 list \<Rightarrow> bpf_state" where
  "bpf_start mem = \<lparr>s_pc = 0, s_A = 0, s_X = 0, s_mem = mem\<rparr>"

text \<open>
  C22: a program that \<open>bpf_validate\<close> accepts, whose unconditional jumps go forward and whose \<open>LDX|MEM\<close>
  and \<open>STX\<close> use the sixteen words, always ends: within as many steps as it has instructions
  \<open>bpf_filter\<close> returns a value, whatever the packet and the contents of the memory words. It never
  leaves the program or the memory words and never divides by zero, and it reads outside the packet
  only at a word or half word load whose offset is so large that the bounds check wraps.
\<close>

theorem validated_filter_ends:
  assumes "bpf_validate prog = Some True" "strict_prog prog"
    and "length mem = BPF_MEMWORDS" "length p = unat buflen" "length prog \<le> fuel"
  shows "\<exists>r. bpf_filter fuel mem (Some prog) p wirelen buflen = Some r \<and>
    (r = Inl Bad_packet \<and> (\<exists>t. bpf_reaches prog p wirelen buflen (bpf_start mem) t \<and> wrapped_load prog t) \<or>
     (\<exists>v. r = Inr v))"
proof -
  have "prog \<noteq> []" using assms(1) by (simp add: bpf_validate_accepts)
  then show ?thesis
    using bpf_run_ends[OF assms(1,2,4), of "bpf_start mem"] assms(3,5)
    by (simp add: bpf_filter_def bpf_start_def)
qed

definition arp_filter :: "bpf_insn list" where
  "arp_filter =
    [\<lparr>i_code = 0x28, i_jt = 0, i_jf = 0, i_k = 12\<rparr>,
     \<lparr>i_code = 0x15, i_jt = 0, i_jf = 1, i_k = 0x806\<rparr>,
     \<lparr>i_code = 0x06, i_jt = 0, i_jf = 0, i_k = 1500\<rparr>,
     \<lparr>i_code = 0x06, i_jt = 0, i_jf = 0, i_k = 0\<rparr>]"

lemma arp_filter_ok: "bpf_validate arp_filter = Some True" "strict_prog arp_filter"
  by (simp_all add: arp_filter_def bpf_validate_def strict_prog_def strict_insn_def insn_ok_def Let_def
        BPF_CLASS_def BPF_OP_def All_less_Suc)

theorem validated_filter_ends_witness:
  "bpf_validate arp_filter = Some True \<and> strict_prog arp_filter \<and>
   (\<exists>r. bpf_filter 4 (replicate 16 0) (Some arp_filter) (replicate 12 0 @ [8, 6]) 14 14 = Some r \<and>
    (r = Inl Bad_packet \<and> (\<exists>t. bpf_reaches arp_filter (replicate 12 0 @ [8, 6]) 14 14 (bpf_start (replicate 16 0)) t \<and>
       wrapped_load arp_filter t) \<or> (\<exists>v. r = Inr v)))"
proof -
  have "length arp_filter \<le> 4" by (simp add: arp_filter_def)
  then show ?thesis
    using validated_filter_ends[OF arp_filter_ok, of "replicate 16 0" "replicate 12 0 @ [8, 6]" 14 4 14] arp_filter_ok
    by simp
qed

text \<open>An instruction that \<open>bpf_validate\<close> would not let a careful checker accept, put into a program.\<close>

definition plain_insn :: "u16 \<Rightarrow> u32 \<Rightarrow> bpf_insn" where
  "plain_insn code k = \<lparr>i_code = code, i_jt = 0, i_jf = 0, i_k = k\<rparr>"

lemma validate_update:
  assumes "bpf_validate prog = Some True" "Suc i < length prog" "insn_ok (length prog) i q"
  shows "bpf_validate (prog[i := q]) = Some True"
proof -
  have "last (prog[i := q]) = last prog" using assms(2) by (subst last_list_update) auto
  then show ?thesis using assms by (auto simp: bpf_validate_accepts nth_list_update)
qed

lemma unchecked_insn_ok:
  "insn_ok len i (plain_insn BPF_STX k)" "insn_ok len i (plain_insn (BPF_LDX OR BPF_MEM) k)"
  "insn_ok len i (plain_insn (BPF_LD OR BPF_W OR BPF_ABS) k)"
  by (simp_all add: plain_insn_def insn_ok_def BPF_CLASS_def BPF_OP_def Let_def)

lemma self_jump_ok: "i < len \<Longrightarrow> len < 2 ^ 31 \<Longrightarrow> insn_ok len i (plain_insn (BPF_JMP OR BPF_JA) (- 1))"
  by (simp add: plain_insn_def insn_ok_def BPF_CLASS_def BPF_OP_def Let_def signed_take_bit_int_eq_self)

lemma bad_index_step:
  assumes "i < length prog" "s_pc s = int i" "length (s_mem s) \<le> unat k" "c = BPF_STX \<or> c = BPF_LDX OR BPF_MEM"
  shows "bpf_step (prog[i := plain_insn c k]) p wirelen buflen s = Fault Bad_mem"
  using assms by (auto simp: bpf_step_def plain_insn_def exec_ret_def exec_load_def exec_mem_def Let_def)

lemma far_load_step:
  assumes "i < length prog" "s_pc s = int i" "length p < unat k + 4" "k + 4 \<le> buflen"
  shows "bpf_step (prog[i := plain_insn (BPF_LD OR BPF_W OR BPF_ABS) k]) p wirelen buflen s = Fault Bad_packet"
  using assms by (auto simp: bpf_step_def plain_insn_def exec_ret_def exec_load_def load_w_def Let_def)

lemma self_jump_runs:
  assumes "i < length prog" "s_pc s = int i"
  shows "bpf_run fuel (prog[i := plain_insn (BPF_JMP OR BPF_JA) (- 1)]) p wirelen buflen s = None"
  using assms by (induction fuel arbitrary: s)
    (simp_all add: bpf_step_def plain_insn_def exec_ret_def exec_load_def exec_mem_def exec_jump_def jump_def
      next_pc_def Let_def)

text \<open>
  C23: \<open>bpf_validate\<close> alone does not protect the kernel. Take any program it accepts, of less than
  2 ^ 31 instructions, and any instruction of it but the last. It accepts the program too with that
  instruction replaced by an \<open>STX\<close> or an \<open>LDX|MEM\<close> of any index, by a word load at any absolute
  offset, or by a jump to itself; and whenever the run of the program gets there, the first two
  access memory beyond the sixteen words if the index is 16 or more, the load reads outside the
  packet, whatever its length and contents, if the offset is one of the last four of the 32 bit
  numbers and its end wraps to at most the length of the packet, and the jump never returns whatever
  the fuel.
\<close>

theorem validate_lets_bad_programs_pass:
  assumes "bpf_validate prog = Some True" "Suc i < length prog" "length prog < 2 ^ 31"
    and "s_pc s = int i" "length (s_mem s) = BPF_MEMWORDS" "length p = unat buflen"
  shows "(\<forall>c \<in> {BPF_STX, BPF_LDX OR BPF_MEM}.
      bpf_validate (prog[i := plain_insn c k]) = Some True \<and>
      (BPF_MEMWORDS \<le> unat k \<longrightarrow>
        bpf_run (Suc fuel) (prog[i := plain_insn c k]) p wirelen buflen s = Some (Inl Bad_mem))) \<and>
    bpf_validate (prog[i := plain_insn (BPF_LD OR BPF_W OR BPF_ABS) k]) = Some True \<and>
      (2 ^ 32 - 4 \<le> unat k \<and> k + 4 \<le> buflen \<longrightarrow>
        bpf_run (Suc fuel) (prog[i := plain_insn (BPF_LD OR BPF_W OR BPF_ABS) k]) p wirelen buflen s
          = Some (Inl Bad_packet)) \<and>
    bpf_validate (prog[i := plain_insn (BPF_JMP OR BPF_JA) (- 1)]) = Some True \<and>
      bpf_run fuel (prog[i := plain_insn (BPF_JMP OR BPF_JA) (- 1)]) p wirelen buflen s = None"
proof -
  have i: "i < length prog" using assms(2) by simp
  have b: "unat buflen < 2 ^ 32" using unsigned_less[of buflen, where 'a = nat] by simp
  show ?thesis
    using validate_update[OF assms(1,2) unchecked_insn_ok(1)] validate_update[OF assms(1,2) unchecked_insn_ok(2)]
      validate_update[OF assms(1,2) unchecked_insn_ok(3)] validate_update[OF assms(1,2) self_jump_ok[OF i assms(3)]]
      bad_index_step[OF i assms(4)] far_load_step[OF i assms(4), of p k buflen wirelen]
      self_jump_runs[OF i assms(4)] b assms(5,6)
    by auto
qed

theorem validate_lets_bad_programs_pass_witness:
  "bpf_run 1 (arp_filter[0 := plain_insn BPF_STX 100]) [] 0 0 (bpf_start (replicate 16 0)) = Some (Inl Bad_mem) \<and>
   bpf_run 1 (arp_filter[0 := plain_insn (BPF_LD OR BPF_W OR BPF_ABS) (- 4)]) [] 0 0 (bpf_start (replicate 16 0))
     = Some (Inl Bad_packet) \<and>
   bpf_run 5 (arp_filter[0 := plain_insn (BPF_JMP OR BPF_JA) (- 1)]) [] 0 0 (bpf_start (replicate 16 0)) = None"
proof -
  have h: "Suc 0 < length arp_filter" "length arp_filter < 2 ^ 31" "s_pc (bpf_start (replicate 16 0)) = int 0"
    "length (s_mem (bpf_start (replicate 16 0))) = BPF_MEMWORDS" "length [] = unat (0 :: u32)"
    by (simp_all add: arp_filter_def bpf_start_def)
  have u: "unat (- 4 :: u32) = 4294967292" by simp
  show ?thesis
    using validate_lets_bad_programs_pass[OF arp_filter_ok(1) h, of 100 0 0]
      validate_lets_bad_programs_pass[OF arp_filter_ok(1) h, of "- 4" 0 0]
      validate_lets_bad_programs_pass[OF arp_filter_ok(1) h, of 0 5 0] u
    by simp
qed

end
