(* ===== verification/Rendez.thy ===== *)
theory Rendez
  imports Timeouts
begin

text \<open>
  Messages and semaphores of \<open>sys/rendez.c\<close>: \<open>Pmsg\<close>, a rendezvous through the mailbox fields of
  \<open>struct proc\<close>, and \<open>Psemaphore\<close>, a list of semaphores with their owners.

  A call that blocks is split where it calls \<open>sleep\<close>: \<open>sys_p_msg\<close> ends with \<open>Msg_block\<close> and one round of
  its loop is \<open>msg_iter\<close> (or \<open>msg_awake\<close>, when the process slept); \<open>sema_get\<close> ends with \<open>Sema_block\<close>
  and goes on with \<open>sema_awake\<close>. \<open>mem\<close> is the address \<open>kmalloc\<close> returns for a timeout.
\<close>

section \<open>Pmsg\<close>

record message =
  msg_long1 :: u32
  msg_long2 :: u32
  msg_pid :: int

datatype msg_out = Msg_done int message kernel | Msg_block int kernel

definition is_writer :: "u32 \<Rightarrow> kernel \<Rightarrow> pptr \<Rightarrow> bool" where
  "is_writer mbid k p \<longleftrightarrow> (mb_mode (procs k p) = 1 \<or> mb_mode (procs k p) = 2) \<and> mb_mbid (procs k p) = mbid"

definition is_reader :: "u32 \<Rightarrow> kernel \<Rightarrow> pptr \<Rightarrow> bool" where
  "is_reader mbid k p \<longleftrightarrow> mb_mode (procs k p) = 0 \<and> mb_mbid (procs k p) = mbid"

text \<open>The mailbox on which a process in mode 2 waits for its reply.\<close>

definition reply_box :: "proc \<Rightarrow> u32" where
  "reply_box x = 0xFFFF0000 OR word_of_int (pid x)"

text \<open>\<open>dosleep\<close>, up to the loop.\<close>

definition msg_dosleep :: "bool \<Rightarrow> int \<Rightarrow> u32 \<Rightarrow> message \<Rightarrow> kernel \<Rightarrow> msg_out" where
  "msg_dosleep noblock mode mbid ptr k =
    (if noblock then Msg_done (- 1) ptr k
     else Msg_block mode (upd_proc (curproc k) (\<lambda>x. x\<lparr>mb_mbid := mbid, mb_mode := mode\<rparr>) k))"

definition mark_rendezvous :: "pptr \<Rightarrow> kernel \<Rightarrow> kernel option" where
  "mark_rendezvous p k =
    (let k = upd_proc p (\<lambda>x. x\<lparr>mb_mode := - 1, wait_cond := 0\<rparr>) k
     in if wait_q (procs k p) \<noteq> READY_Q then move_q (wait_q (procs k p)) READY_Q p k else Some k)"

definition msg_read :: "pptr \<Rightarrow> message \<Rightarrow> kernel \<Rightarrow> msg_out option" where
  "msg_read p ptr k =
    (let x = procs k p;
         ptr = \<lparr>msg_long1 = mb_long1 x, msg_long2 = mb_long2 x, msg_pid = pid x\<rparr>
     in if mb_mode x = 2
        then Some (Msg_done 0 ptr (upd_proc p (\<lambda>x. x\<lparr>mb_mbid := reply_box x, mb_mode := 0\<rparr>) k))
        else do {
          k \<leftarrow> mark_rendezvous p (upd_proc p (\<lambda>x. x\<lparr>mb_writer := pid (procs k (curproc k))\<rparr>) k);
          Some (Msg_done 0 ptr k) })"

definition msg_write :: "bool \<Rightarrow> int \<Rightarrow> pptr \<Rightarrow> message \<Rightarrow> kernel \<Rightarrow> msg_out option" where
  "msg_write noblock mode p ptr k = do {
     k \<leftarrow> mark_rendezvous p (upd_proc p (\<lambda>x. x\<lparr>mb_writer := pid (procs k (curproc k)),
             mb_long1 := msg_long1 ptr, mb_long2 := msg_long2 ptr\<rparr>) k);
     Some (if mode = 2 then msg_dosleep noblock 0 (reply_box (procs k (curproc k))) ptr k
           else Msg_done 0 (ptr\<lparr>msg_pid := pid (procs k p)\<rparr>) k) }"

definition sys_p_msg :: "u16 \<Rightarrow> u32 \<Rightarrow> message \<Rightarrow> kernel \<Rightarrow> msg_out option" where
  "sys_p_msg mode0 mbid ptr k =
    (let noblock = (mode0 AND 0x8000 \<noteq> 0);
         mode = sint (mode0 AND NOT 0x8000)
     in if mode = 0 then
          (case List.find (is_writer mbid k) (proclist k) of
             Some p \<Rightarrow> msg_read p ptr k
           | None \<Rightarrow> Some (msg_dosleep noblock 0 mbid ptr k))
        else if mode = 1 \<or> mode = 2 then
          (case List.find (is_reader mbid k) (proclist k) of
             Some p \<Rightarrow> msg_write noblock mode p ptr k
           | None \<Rightarrow> Some (msg_dosleep noblock mode mbid ptr
               (upd_proc (curproc k) (\<lambda>x. x\<lparr>mb_long1 := msg_long1 ptr, mb_long2 := msg_long2 ptr\<rparr>) k)))
        else Some (Msg_done ENOSYS ptr k))"

text \<open>The loop around \<open>sleep\<close> and what follows it.\<close>

datatype msg_round = Msg_sleeping kernel | Msg_again kernel | Msg_finished int message kernel

definition msg_check :: "int \<Rightarrow> message \<Rightarrow> kernel \<Rightarrow> msg_round" where
  "msg_check mode ptr k =
    (let x = proc_of k
     in if mb_mode x \<noteq> - 1 then Msg_again k
        else Msg_finished 0 ((if mode = 0 then ptr\<lparr>msg_long1 := mb_long1 x, msg_long2 := mb_long2 x\<rparr> else ptr)
               \<lparr>msg_pid := mb_writer x\<rparr>) k)"

definition msg_iter :: "sleep_env \<Rightarrow> bool \<Rightarrow> int \<Rightarrow> message \<Rightarrow> kernel \<Rightarrow> msg_round option" where
  "msg_iter env ints_on mode ptr k =
    (case sleep env ints_on WAIT_Q WAIT_MB k of
       None \<Rightarrow> None
     | Some (Switch k) \<Rightarrow> Some (Msg_sleeping k)
     | Some (Stay _ k) \<Rightarrow> Some (msg_check mode ptr k))"

definition msg_awake :: "sleep_env \<Rightarrow> bool \<Rightarrow> u32 \<Rightarrow> int \<Rightarrow> message \<Rightarrow> kernel \<Rightarrow> msg_round" where
  "msg_awake env ints_on onsigs mode ptr k = msg_check mode ptr (snd (sleep_resume env ints_on WAIT_MB onsigs k))"

section \<open>Psemaphore\<close>

definition unsemame :: "pptr \<Rightarrow> u32 \<Rightarrow> kernel \<Rightarrow> kernel option" where
  "unsemame p arg k = do {
     k \<leftarrow> (if wait_q (procs k p) = WAIT_Q then move_q WAIT_Q READY_Q p k else Some k);
     Some (upd_proc p (\<lambda>x. x\<lparr>wait_cond := 0\<rparr>) k) }"

fun find_sema :: "u32 \<Rightarrow> sema list \<Rightarrow> sema option" where
  "find_sema sid [] = None"
| "find_sema sid (s # ss) = (if sema_id s = sid then Some s else find_sema sid ss)"

fun set_owner :: "u32 \<Rightarrow> int \<Rightarrow> sema list \<Rightarrow> sema list" where
  "set_owner sid v [] = []"
| "set_owner sid v (s # ss) = (if sema_id s = sid then s\<lparr>sema_owner := v\<rparr> # ss else s # set_owner sid v ss)"

fun unlink_sema :: "u32 \<Rightarrow> sema list \<Rightarrow> sema list" where
  "unlink_sema sid [] = []"
| "unlink_sema sid (s # ss) = (if sema_id s = sid then ss else s # unlink_sema sid ss)"

datatype sema_out = Sema_done int kernel | Sema_block "nat option" kernel

definition sema_create :: "bool \<Rightarrow> u32 \<Rightarrow> kernel \<Rightarrow> int \<times> kernel" where
  "sema_create kmalloc_ok sid k =
    (case find_sema sid (semalist k) of
       Some s \<Rightarrow> (EACCES, k)
     | None \<Rightarrow>
         if \<not> kmalloc_ok then (ENOMEM, k)
         else (E_OK, k\<lparr>semalist := \<lparr>sema_id = sid, sema_owner = pid (proc_of k)\<rparr> # semalist k\<rparr>))"

definition cancel_ptr :: "nat option \<Rightarrow> kernel \<Rightarrow> kernel" where
  "cancel_ptr timeout_ptr k = (case timeout_ptr of None \<Rightarrow> k | Some t \<Rightarrow> canceltimeout t k)"

text \<open>\<open>loop\<close>, up to \<open>sleep\<close>; \<open>unsemame_addr\<close> is the address of the timeout's function.\<close>

definition sema_get ::
  "nat \<Rightarrow> nat option \<Rightarrow> u32 \<Rightarrow> int \<Rightarrow> nat option \<Rightarrow> kernel \<Rightarrow> sema_out option" where
  "sema_get unsemame_addr mem sid timeout timeout_ptr k =
    (case find_sema sid (semalist k) of
       None \<Rightarrow> Some (Sema_done EBADARG (cancel_ptr timeout_ptr k))
     | Some s \<Rightarrow>
         if sema_owner s = pid (proc_of k) then Some (Sema_done EERROR k)
         else if sema_owner s = - 1
         then Some (Sema_done 0 (cancel_ptr timeout_ptr (k\<lparr>semalist := set_owner sid (pid (proc_of k)) (semalist k)\<rparr>)))
         else if timeout = 0 then Some (Sema_done EACCES k)
         else if timeout \<noteq> - 1 \<and> timeout_ptr = None
         then do {
           (timeout_ptr, k) \<leftarrow> addtimeout mem (curproc k) timeout unsemame_addr k;
           Some (Sema_block timeout_ptr k) }
         else Some (Sema_block timeout_ptr k))"

text \<open>After \<open>sleep\<close>; \<open>Inl\<close> is the return, \<open>Inr\<close> the jump to \<open>loop\<close>.\<close>

definition sema_awake :: "nat option \<Rightarrow> kernel \<Rightarrow> int + nat option" where
  "sema_awake timeout_ptr k = (if wait_cond (proc_of k) \<noteq> WAIT_SEMA then Inl EACCES else Inr timeout_ptr)"

definition sema_release :: "int \<Rightarrow> u32 \<Rightarrow> kernel \<Rightarrow> (int \<times> kernel) option" where
  "sema_release mode sid k =
    (case find_sema sid (semalist k) of
       None \<Rightarrow> Some (EBADARG, k)
     | Some s \<Rightarrow>
         if sema_owner s \<noteq> pid (proc_of k) \<and> sema_owner s \<noteq> - 1 then Some (EACCES, k)
         else do {
           k \<leftarrow> wake WAIT_Q WAIT_SEMA
                  (k\<lparr>semalist := (if mode = 3 then set_owner sid (- 1) (semalist k) else unlink_sema sid (semalist k))\<rparr>);
           Some (E_OK, k) })"

definition sys_p_semaphore ::
  "nat \<Rightarrow> nat option \<Rightarrow> bool \<Rightarrow> int \<Rightarrow> u32 \<Rightarrow> int \<Rightarrow> kernel \<Rightarrow> sema_out option" where
  "sys_p_semaphore unsemame_addr mem kmalloc_ok mode sid timeout k =
    (if mode = 0 then (let (r, k) = sema_create kmalloc_ok sid k in Some (Sema_done r k))
     else if mode = 2 then sema_get unsemame_addr mem sid timeout None k
     else if mode = 3 \<or> mode = 1 then do { (r, k) \<leftarrow> sema_release mode sid k; Some (Sema_done r k) }
     else Some (Sema_done ENOSYS k))"

definition free_semaphores :: "int \<Rightarrow> kernel \<Rightarrow> kernel option" where
  "free_semaphores p k =
    (let didsomething = list_ex (\<lambda>s. sema_owner s = p) (semalist k);
         k = k\<lparr>semalist := map (\<lambda>s. if sema_owner s = p then s\<lparr>sema_owner := - 1\<rparr> else s) (semalist k)\<rparr>
     in if didsomething then wake WAIT_Q WAIT_SEMA k else Some k)"

section \<open>Rendezvous\<close>

text \<open>What a rendezvous reads and writes of a process.\<close>

definition mbox :: "proc \<Rightarrow> int \<times> u32 \<times> u32 \<times> u32 \<times> int \<times> int" where
  "mbox x = (mb_mode x, mb_mbid x, mb_long1 x, mb_long2 x, mb_writer x, pid x)"

lemma mbox_core: "mbox (proc_core x) = mbox x"
  by (simp add: mbox_def)

lemma upd_proc_fields [simp]:
  "proclist (upd_proc p f k) = proclist k" "curproc (upd_proc p f k) = curproc k"
  "semalist (upd_proc p f k) = semalist k"
  by (simp_all add: upd_proc_def)

lemma mark_rendezvous_ok:
  assumes "queues_ok k" "wait_q (procs k p) \<noteq> CURPROC_Q"
  shows "\<exists>k'. mark_rendezvous p k = Some k' \<and> queues_ok k' \<and> wait_q (procs k' p) = READY_Q \<and>
    q_frame (upd_proc p (\<lambda>x. x\<lparr>mb_mode := - 1, wait_cond := 0\<rparr>) k) k' \<and>
    (\<forall>x. x \<noteq> p \<longrightarrow> wait_q (procs k' x) = wait_q (procs k x))"
proof -
  define k1 where "k1 = upd_proc p (\<lambda>x. x\<lparr>mb_mode := - 1, wait_cond := 0\<rparr>) k"
  have ok: "queues_ok k1" unfolding k1_def by (rule queues_ok_upd) (use assms in auto)
  have wq: "wait_q (procs k1 x) = wait_q (procs k x)" for x by (simp add: k1_def)
  have eq: "mark_rendezvous p k = (if wait_q (procs k1 p) \<noteq> READY_Q
      then move_q (wait_q (procs k1 p)) READY_Q p k1 else Some k1)"
    by (simp add: mark_rendezvous_def k1_def Let_def)
  show ?thesis
  proof (cases "wait_q (procs k1 p) = READY_Q")
    case True
    then show ?thesis using ok wq eq by (simp add: k1_def[symmetric])
  next
    case False
    then show ?thesis
      using move_q_ok[OF ok, of p "wait_q (procs k1 p)" READY_Q] assms(2) wq eq
      by (auto simp: k1_def[symmetric])
  qed
qed

text \<open>The other side of a rendezvous with \<open>p\<close>: \<open>p\<close> is ready and finds the data of the rendezvous.\<close>

definition meets :: "pptr \<Rightarrow> proc \<Rightarrow> kernel \<Rightarrow> kernel \<Rightarrow> bool" where
  "meets p x k k' \<longleftrightarrow> queues_ok k' \<and> wait_q (procs k' p) = READY_Q \<and>
     mbox (procs k' p) = mbox (x\<lparr>mb_mode := - 1\<rparr>) \<and>
     (\<forall>y. y \<noteq> p \<longrightarrow> mbox (procs k' y) = mbox (procs k y) \<and> wait_q (procs k' y) = wait_q (procs k y)) \<and>
     curproc k' = curproc k \<and> proclist k' = proclist k"

lemma mark_meets:
  assumes "queues_ok k" "wait_q (procs k p) \<noteq> CURPROC_Q"
    and f: "\<And>x. q_prev (f x) = q_prev x \<and> q_next (f x) = q_next x \<and> wait_q (f x) = wait_q x"
  shows "\<exists>k'. mark_rendezvous p (upd_proc p f k) = Some k' \<and> meets p (f (procs k p)) k k'"
proof -
  define k1 where "k1 = upd_proc p f k"
  define k2 where "k2 = upd_proc p (\<lambda>x. x\<lparr>mb_mode := - 1, wait_cond := 0\<rparr>) k1"
  have "queues_ok k1" unfolding k1_def by (rule queues_ok_upd) (use assms in auto)
  moreover have wq: "wait_q (procs k1 x) = wait_q (procs k x)" for x using f by (simp add: k1_def)
  ultimately obtain k' where k': "mark_rendezvous p k1 = Some k'" "queues_ok k'"
    "wait_q (procs k' p) = READY_Q" "q_frame k2 k'"
    "\<forall>x. x \<noteq> p \<longrightarrow> wait_q (procs k' x) = wait_q (procs k1 x)"
    using mark_rendezvous_ok[of k1 p] assms(2) unfolding k2_def by auto
  have "mbox (procs k' x) = mbox (procs k2 x)" for x
    by (rule q_frame_proc[where f = mbox, OF k'(4)]) (rule mbox_core)
  moreover have "curproc k' = curproc k2" "proclist k' = proclist k2"
    by (simp_all add: q_frame_core[OF k'(4)])
  ultimately show ?thesis
    using k' wq by (auto simp: meets_def k2_def k1_def mbox_def)
qed

lemma msg_read_meets:
  assumes "queues_ok k" "wait_q (procs k a) \<noteq> CURPROC_Q" "mb_mode (procs k a) \<noteq> 2"
  shows "\<exists>k'. msg_read a buf k =
      Some (Msg_done 0 \<lparr>msg_long1 = mb_long1 (procs k a), msg_long2 = mb_long2 (procs k a), msg_pid = pid (procs k a)\<rparr> k') \<and>
    meets a ((procs k a)\<lparr>mb_writer := pid (proc_of k)\<rparr>) k k'"
  using mark_meets[OF assms(1,2), of "\<lambda>x. x\<lparr>mb_writer := pid (procs k (curproc k))\<rparr>"] assms(3)
  by (auto simp: msg_read_def Let_def proc_of_def)

lemma msg_write_meets:
  assumes "queues_ok k" "wait_q (procs k a) \<noteq> CURPROC_Q" "mode \<noteq> 2"
  shows "\<exists>k'. msg_write noblock mode a m k = Some (Msg_done 0 (m\<lparr>msg_pid := pid (procs k a)\<rparr>) k') \<and>
    meets a ((procs k a)\<lparr>mb_writer := pid (proc_of k), mb_long1 := msg_long1 m, mb_long2 := msg_long2 m\<rparr>) k k'"
  using mark_meets[OF assms(1,2), of "\<lambda>x. x\<lparr>mb_writer := pid (procs k (curproc k)),
    mb_long1 := msg_long1 m, mb_long2 := msg_long2 m\<rparr>"] assms(3)
  by (auto simp: msg_write_def Let_def proc_of_def meets_def mbox_def)

text \<open>The first process that waits on the other side.\<close>

definition first_writer :: "u32 \<Rightarrow> kernel \<Rightarrow> pptr \<Rightarrow> bool" where
  "first_writer mbid k a \<longleftrightarrow> List.find (is_writer mbid k) (proclist k) = Some a"

definition first_reader :: "u32 \<Rightarrow> kernel \<Rightarrow> pptr \<Rightarrow> bool" where
  "first_reader mbid k a \<longleftrightarrow> List.find (is_reader mbid k) (proclist k) = Some a"

lemma mode_bits [simp]:
  "(0 :: u16) AND 0x8000 = 0" "(1 :: u16) AND 0x8000 = 0" "(2 :: u16) AND 0x8000 = 0"
  "sint ((0 :: u16) AND NOT 0x8000) = 0" "sint ((1 :: u16) AND NOT 0x8000) = 1"
  "sint ((2 :: u16) AND NOT 0x8000) = 2"
  by simp_all

lemma pmsg_block_writer:
  assumes "sys_p_msg 1 mbid m k = Some (Msg_block mode k1)"
  shows "mode = 1" "\<exists>w. mbox (procs k1 (curproc k)) = (1, mbid, msg_long1 m, msg_long2 m, w, pid (proc_of k))"
  using assms
  by (auto simp: sys_p_msg_def msg_dosleep_def msg_write_def mbox_def proc_of_def split: option.splits bind_splits)

lemma pmsg_block_reader:
  assumes "sys_p_msg 0 mbid m k = Some (Msg_block mode k1)"
  shows "mode = 0" "\<exists>x y w. mbox (procs k1 (curproc k)) = (0, mbid, x, y, w, pid (proc_of k))"
  using assms
  by (auto simp: sys_p_msg_def msg_dosleep_def msg_read_def mbox_def proc_of_def Let_def
      split: option.splits bind_splits if_splits)

lemma check_meets:
  assumes "meets a x k k'"
  shows "msg_check mode m (k'\<lparr>curproc := a\<rparr>) =
    Msg_finished 0 ((if mode = 0 then m\<lparr>msg_long1 := mb_long1 x, msg_long2 := mb_long2 x\<rparr> else m)
      \<lparr>msg_pid := mb_writer x\<rparr>) (k'\<lparr>curproc := a\<rparr>)"
  using assms by (simp add: msg_check_def proc_of_def meets_def mbox_def Let_def)

section \<open>Properties of Pmsg\<close>

text \<open>
  A blocked writer meets the reader that comes later. If a process blocks in \<open>Pmsg(1, mbid, m)\<close> and
  is the first writer when another process calls \<open>Pmsg(0, mbid, buf)\<close>, the reader returns at once with
  the two longs of \<open>m\<close> and the writer's pid; the writer is put on the ready queue and its call ends
  with the reader's pid in \<open>m\<close>. The queues stay consistent.
\<close>

theorem pmsg_write_then_read:
  assumes "sys_p_msg 1 mbid m k = Some (Msg_block mode k1)" "a = curproc k"
    and "mbox (procs k2 a) = mbox (procs k1 a)" "first_writer mbid k2 a"
    and "queues_ok k2" "wait_q (procs k2 a) \<noteq> CURPROC_Q"
  shows "\<exists>k3. sys_p_msg 0 mbid buf k2 = Some (Msg_done 0 (m\<lparr>msg_pid := pid (proc_of k)\<rparr>) k3) \<and>
    queues_ok k3 \<and> wait_q (procs k3 a) = READY_Q \<and>
    msg_check mode m (k3\<lparr>curproc := a\<rparr>) = Msg_finished 0 (m\<lparr>msg_pid := pid (proc_of k2)\<rparr>) (k3\<lparr>curproc := a\<rparr>)"
proof -
  have b: "mode = 1" "mb_mode (procs k2 a) = 1" "mb_long1 (procs k2 a) = msg_long1 m"
    "mb_long2 (procs k2 a) = msg_long2 m" "pid (procs k2 a) = pid (proc_of k)"
    using pmsg_block_writer[OF assms(1)] assms(2,3) by (auto simp: mbox_def)
  obtain k3 where k3: "msg_read a buf k2 = Some (Msg_done 0 (m\<lparr>msg_pid := pid (proc_of k)\<rparr>) k3)"
    "meets a ((procs k2 a)\<lparr>mb_writer := pid (proc_of k2)\<rparr>) k2 k3"
    using msg_read_meets[OF assms(5,6), of buf] b by auto
  have "sys_p_msg 0 mbid buf k2 = msg_read a buf k2"
    using assms(4) by (simp add: sys_p_msg_def first_writer_def)
  then show ?thesis using k3 check_meets[OF k3(2), of mode m] b(1) by (auto simp: meets_def)
qed

text \<open>
  C23: a blocked reader meets the writer that comes later: if a process blocks in \<open>Pmsg(0, mbid, buf)\<close>
  and is the first reader when another process calls \<open>Pmsg(1, mbid, m)\<close>, the writer returns at once
  with the reader's pid; the reader is put on the ready queue and its call ends with the two longs
  of \<open>m\<close> and the writer's pid in \<open>buf\<close>.
\<close>

theorem pmsg_read_then_write:
  assumes "sys_p_msg 0 mbid buf k = Some (Msg_block mode k1)" "a = curproc k"
    and "mbox (procs k2 a) = mbox (procs k1 a)" "first_reader mbid k2 a"
    and "queues_ok k2" "wait_q (procs k2 a) \<noteq> CURPROC_Q"
  shows "\<exists>k3. sys_p_msg 1 mbid m k2 = Some (Msg_done 0 (m\<lparr>msg_pid := pid (proc_of k)\<rparr>) k3) \<and>
    queues_ok k3 \<and> wait_q (procs k3 a) = READY_Q \<and>
    msg_check mode buf (k3\<lparr>curproc := a\<rparr>) = Msg_finished 0 (m\<lparr>msg_pid := pid (proc_of k2)\<rparr>) (k3\<lparr>curproc := a\<rparr>)"
proof -
  have b: "mode = 0" "pid (procs k2 a) = pid (proc_of k)"
    using pmsg_block_reader[OF assms(1)] assms(2,3) by (auto simp: mbox_def)
  obtain k3 where k3: "msg_write False 1 a m k2 = Some (Msg_done 0 (m\<lparr>msg_pid := pid (proc_of k)\<rparr>) k3)"
    "meets a ((procs k2 a)\<lparr>mb_writer := pid (proc_of k2), mb_long1 := msg_long1 m, mb_long2 := msg_long2 m\<rparr>) k2 k3"
    using msg_write_meets[OF assms(5,6), of 1 False m] b by auto
  have "sys_p_msg 1 mbid m k2 = msg_write False 1 a m k2"
    using assms(4) by (simp add: sys_p_msg_def first_reader_def)
  then show ?thesis using k3 check_meets[OF k3(2), of mode buf] b(1) by (auto simp: meets_def)
qed

text \<open>
  C24: a request with a reply, sent while the server waits. If another process blocks already as the
  first reader of \<open>mbid\<close> when a client sends \<open>m\<close> in mode 2, the client turns into a reader of its reply
  mailbox, the server's call ends with \<open>m\<close> and the client's pid, and when a process then writes a
  reply to that mailbox, the client being its first reader still, it does not block: its call
  returns at once and the client's call ends with the reply and the writer's pid. Without a waiting
  reader the client blocks as a writer instead and the reply is lost
  (\<open>pmsg_blocked_request_loses_reply\<close>, below).
\<close>

theorem pmsg_request_reply:
  assumes "first_reader mbid k b" "queues_ok k" "wait_q (procs k b) \<noteq> CURPROC_Q" "b \<noteq> curproc k" "a = curproc k"
  shows "\<exists>k1. sys_p_msg 2 mbid m k = Some (Msg_block 0 k1) \<and> wait_q (procs k1 b) = READY_Q \<and>
    msg_check 0 buf (k1\<lparr>curproc := b\<rparr>) = Msg_finished 0 (m\<lparr>msg_pid := pid (procs k a)\<rparr>) (k1\<lparr>curproc := b\<rparr>) \<and>
    (\<forall>k2. mbox (procs k2 a) = mbox (procs k1 a) \<and> first_reader (reply_box (procs k a)) k2 a \<and> queues_ok k2 \<and>
       wait_q (procs k2 a) \<noteq> CURPROC_Q \<longrightarrow>
       (\<exists>k3. sys_p_msg 1 (reply_box (procs k a)) reply k2 = Some (Msg_done 0 (reply\<lparr>msg_pid := pid (procs k a)\<rparr>) k3) \<and>
          wait_q (procs k3 a) = READY_Q \<and>
          msg_check 0 m (k3\<lparr>curproc := a\<rparr>) =
            Msg_finished 0 (reply\<lparr>msg_pid := pid (proc_of k2)\<rparr>) (k3\<lparr>curproc := a\<rparr>)))"
proof -
  define f :: "proc \<Rightarrow> proc" where "f = (\<lambda>x. x\<lparr>mb_writer := pid (procs k a), mb_long1 := msg_long1 m, mb_long2 := msg_long2 m\<rparr>)"
  obtain k0 where k0: "mark_rendezvous b (upd_proc b f k) = Some k0" "meets b (f (procs k b)) k k0"
    using mark_meets[OF assms(2,3), of f] by (auto simp: f_def)
  have cur: "mbox (procs k0 a) = mbox (procs k a)" "curproc k0 = a"
    using k0(2) assms(4,5) by (auto simp: meets_def)
  then have box: "reply_box (procs k0 a) = reply_box (procs k a)" "pid (procs k0 a) = pid (procs k a)"
    by (simp_all add: mbox_def reply_box_def)
  define k1 where "k1 = upd_proc a (\<lambda>x. x\<lparr>mb_mbid := reply_box (procs k a), mb_mode := 0\<rparr>) k0"
  have "sys_p_msg 2 mbid m k = msg_write False 2 b m k"
    using assms(1) by (simp add: sys_p_msg_def first_reader_def)
  also have "\<dots> = Some (Msg_block 0 k1)"
    using k0(1) cur box by (simp add: msg_write_def msg_dosleep_def k1_def f_def assms(5))
  finally have 1: "sys_p_msg 2 mbid m k = Some (Msg_block 0 k1)" .
  have b: "procs k1 b = procs k0 b" using assms(4,5) by (simp add: k1_def)
  have 2: "msg_check 0 buf (k1\<lparr>curproc := b\<rparr>) = Msg_finished 0 (m\<lparr>msg_pid := pid (procs k a)\<rparr>) (k1\<lparr>curproc := b\<rparr>)"
    using k0(2) b by (auto simp: msg_check_def proc_of_def meets_def mbox_def Let_def f_def)
  have "\<exists>k3. sys_p_msg 1 (reply_box (procs k a)) reply k2 = Some (Msg_done 0 (reply\<lparr>msg_pid := pid (procs k a)\<rparr>) k3) \<and>
      wait_q (procs k3 a) = READY_Q \<and>
      msg_check 0 m (k3\<lparr>curproc := a\<rparr>) = Msg_finished 0 (reply\<lparr>msg_pid := pid (proc_of k2)\<rparr>) (k3\<lparr>curproc := a\<rparr>)"
    if h: "mbox (procs k2 a) = mbox (procs k1 a)" "first_reader (reply_box (procs k a)) k2 a" "queues_ok k2"
      "wait_q (procs k2 a) \<noteq> CURPROC_Q" for k2
  proof -
    have p: "pid (procs k2 a) = pid (procs k a)" using h(1) box by (simp add: mbox_def k1_def)
    obtain k3 where k3: "msg_write False 1 a reply k2 = Some (Msg_done 0 (reply\<lparr>msg_pid := pid (procs k a)\<rparr>) k3)"
      "meets a ((procs k2 a)\<lparr>mb_writer := pid (proc_of k2), mb_long1 := msg_long1 reply, mb_long2 := msg_long2 reply\<rparr>) k2 k3"
      using msg_write_meets[OF h(3,4), of 1 False reply] p by auto
    have "sys_p_msg 1 (reply_box (procs k a)) reply k2 = msg_write False 1 a reply k2"
      using h(2) by (simp add: sys_p_msg_def first_reader_def)
    then show ?thesis using k3 check_meets[OF k3(2), of 0 m] by (auto simp: meets_def)
  qed
  then show ?thesis using 1 2 k0(2) b by (auto simp: meets_def)
qed

text \<open>
  A request that has to wait loses its reply. If the client blocks in mode 2 and a server reads the
  request later, the server gets the request and the client becomes a reader of its reply mailbox.
  When the server then writes the reply, the client's call ends with the request still in its
  buffer: only the server's pid is stored, because the code looks at the mode of the call and not,
  as its comment says, at the mode of the process.
\<close>

theorem pmsg_blocked_request_loses_reply:
  assumes "sys_p_msg 2 mbid m k = Some (Msg_block 2 k1)" "a = curproc k"
    and "mbox (procs k2 a) = mbox (procs k1 a)" "first_writer mbid k2 a"
  shows "\<exists>k3. sys_p_msg 0 mbid buf k2 = Some (Msg_done 0 (m\<lparr>msg_pid := pid (procs k a)\<rparr>) k3) \<and>
    is_reader (reply_box (procs k a)) k3 a \<and>
    (\<forall>k4. mbox (procs k4 a) = mbox (procs k3 a) \<and> first_reader (reply_box (procs k a)) k4 a \<and> queues_ok k4 \<and>
       wait_q (procs k4 a) \<noteq> CURPROC_Q \<longrightarrow>
       (\<exists>k5. sys_p_msg 1 (reply_box (procs k a)) reply k4 = Some (Msg_done 0 (reply\<lparr>msg_pid := pid (procs k a)\<rparr>) k5) \<and>
          msg_check 2 m (k5\<lparr>curproc := a\<rparr>) = Msg_finished 0 (m\<lparr>msg_pid := pid (proc_of k4)\<rparr>) (k5\<lparr>curproc := a\<rparr>)))"
proof -
  have k1: "k1 = upd_proc a (\<lambda>x. x\<lparr>mb_mbid := mbid, mb_mode := 2\<rparr>)
      (upd_proc a (\<lambda>x. x\<lparr>mb_long1 := msg_long1 m, mb_long2 := msg_long2 m\<rparr>) k)"
    using assms(1,2) by (auto simp: sys_p_msg_def msg_dosleep_def msg_write_def split: option.splits bind_splits)
  have b: "mb_mode (procs k2 a) = 2" "mb_long1 (procs k2 a) = msg_long1 m" "mb_long2 (procs k2 a) = msg_long2 m"
    "pid (procs k2 a) = pid (procs k a)" using assms(3) by (auto simp: k1 mbox_def)
  define k3 where "k3 = upd_proc a (\<lambda>x. x\<lparr>mb_mbid := reply_box x, mb_mode := 0\<rparr>) k2"
  have "sys_p_msg 0 mbid buf k2 = Some (Msg_done 0 (m\<lparr>msg_pid := pid (procs k a)\<rparr>) k3)"
    using assms(4) b by (simp add: sys_p_msg_def first_writer_def msg_read_def k3_def)
  moreover have "is_reader (reply_box (procs k a)) k3 a" using b(4) by (simp add: is_reader_def k3_def reply_box_def)
  moreover have "\<exists>k5. sys_p_msg 1 (reply_box (procs k a)) reply k4 = Some (Msg_done 0 (reply\<lparr>msg_pid := pid (procs k a)\<rparr>) k5) \<and>
      msg_check 2 m (k5\<lparr>curproc := a\<rparr>) = Msg_finished 0 (m\<lparr>msg_pid := pid (proc_of k4)\<rparr>) (k5\<lparr>curproc := a\<rparr>)"
    if h: "mbox (procs k4 a) = mbox (procs k3 a)" "first_reader (reply_box (procs k a)) k4 a" "queues_ok k4"
      "wait_q (procs k4 a) \<noteq> CURPROC_Q" for k4
  proof -
    have p: "pid (procs k4 a) = pid (procs k a)" using h(1) b(4) by (simp add: mbox_def k3_def)
    obtain k5 where k5: "msg_write False 1 a reply k4 = Some (Msg_done 0 (reply\<lparr>msg_pid := pid (procs k a)\<rparr>) k5)"
      "meets a ((procs k4 a)\<lparr>mb_writer := pid (proc_of k4), mb_long1 := msg_long1 reply, mb_long2 := msg_long2 reply\<rparr>) k4 k5"
      using msg_write_meets[OF h(3,4), of 1 False reply] p by auto
    then show ?thesis using h(2) check_meets[OF k5(2), of 2 m] by (simp add: sys_p_msg_def first_reader_def)
  qed
  ultimately show ?thesis by blast
qed

section \<open>No missed rendezvous\<close>

fun out_kernel :: "msg_out \<Rightarrow> kernel" where
  "out_kernel (Msg_done r ptr k) = k"
| "out_kernel (Msg_block mode k) = k"

text \<open>
  The states the kernel goes through: calls of \<open>Pmsg\<close>, and steps of the rest of the kernel, after which
  every process has the mailbox fields of a process before (its own, or those of its parent).
\<close>

definition mwait :: "proc \<Rightarrow> int \<times> u32" where
  "mwait x = (mb_mode x, mb_mbid x)"

inductive pmsg_reach :: "kernel \<Rightarrow> bool" where
  boot: "pmsg_reach init_proc"
| call: "pmsg_reach k \<Longrightarrow> sys_p_msg mode mbid ptr k = Some out \<Longrightarrow> pmsg_reach (out_kernel out)"
| other: "pmsg_reach k \<Longrightarrow> \<forall>p\<in>set (proclist k'). \<exists>q\<in>set (proclist k). mwait (procs k' p) = mwait (procs k q) \<Longrightarrow>
    pmsg_reach k'"

definition is_reply_box :: "u32 \<Rightarrow> bool" where
  "is_reply_box mbid \<longleftrightarrow> mbid AND 0xFFFF0000 = 0xFFFF0000"

lemma reply_box_is [simp]: "is_reply_box (reply_box x)"
  by (simp add: is_reply_box_def reply_box_def bit.conj_disj_distrib2 or.commute) 

definition no_missed :: "kernel \<Rightarrow> bool" where
  "no_missed k \<longleftrightarrow> (\<forall>mbid. \<not> is_reply_box mbid \<longrightarrow>
     (\<forall>p\<in>set (proclist k). \<forall>q\<in>set (proclist k). \<not> (is_reader mbid k p \<and> is_writer mbid k q)))"

lemma is_mwait: "is_reader mbid k p \<longleftrightarrow> mwait (procs k p) = (0, mbid)"
  "is_writer mbid k p \<longleftrightarrow> mwait (procs k p) = (1, mbid) \<or> mwait (procs k p) = (2, mbid)"
  by (auto simp: is_reader_def is_writer_def mwait_def)

text \<open>Steps after which every process waits as before or for no one but a reply.\<close>

definition settles :: "kernel \<Rightarrow> kernel \<Rightarrow> bool" where
  "settles k k' \<longleftrightarrow> proclist k' = proclist k \<and>
     (\<forall>p. mwait (procs k' p) = mwait (procs k p) \<or> fst (mwait (procs k' p)) = - 1 \<or>
          fst (mwait (procs k' p)) = 0 \<and> is_reply_box (snd (mwait (procs k' p))))"

lemma settles_trans: "settles k k1 \<Longrightarrow> settles k1 k2 \<Longrightarrow> settles k k2"
  unfolding settles_def by metis

lemma settles_no_missed:
  assumes "no_missed k" "settles k k'"
  shows "no_missed k'"
  unfolding no_missed_def is_mwait
proof (intro allI impI ballI notI)
  fix mbid p q
  assume h: "\<not> is_reply_box mbid" "p \<in> set (proclist k')" "q \<in> set (proclist k')"
    "mwait (procs k' p) = (0, mbid) \<and> (mwait (procs k' q) = (1, mbid) \<or> mwait (procs k' q) = (2, mbid))"
  then have "mwait (procs k p) = (0, mbid)" "mwait (procs k q) = (1, mbid) \<or> mwait (procs k q) = (2, mbid)"
    using assms(2)[unfolded settles_def] by (metis fst_conv snd_conv zero_neq_neg_one)
      (use h assms(2)[unfolded settles_def, THEN conjunct2, rule_format, of q] in auto)
  then show False using h assms unfolding no_missed_def settles_def is_mwait by metis
qed

lemma mark_settles:
  assumes "mark_rendezvous p (upd_proc p f k) = Some k'" "\<And>x. mwait (f x) = mwait x"
  shows "settles k k'"
proof -
  define k1 where "k1 = upd_proc p (\<lambda>x. x\<lparr>mb_mode := - 1, wait_cond := 0\<rparr>) (upd_proc p f k)"
  have "q_frame k1 k'"
    using assms(1) q_frame_trans[OF rm_q_frame add_q_frame]
    by (auto simp: mark_rendezvous_def Let_def k1_def[symmetric] move_q_eq split: if_splits option.splits)
  then have "mwait (procs k' x) = mwait (procs k1 x)" "proclist k' = proclist k1" for x
    by (auto simp: mwait_def q_frame_core)
  then show ?thesis by (auto simp: settles_def k1_def mwait_def)
qed

lemma msg_dosleep_no_missed:
  assumes "no_missed k" "mode = 0 \<Longrightarrow> is_reply_box mbid \<or> (\<forall>p\<in>set (proclist k). \<not> is_writer mbid k p)"
    and "mode \<noteq> 0 \<Longrightarrow> \<forall>p\<in>set (proclist k). \<not> is_reader mbid k p"
  shows "no_missed (out_kernel (msg_dosleep noblock mode mbid ptr k))"
  using assms by (auto simp: msg_dosleep_def no_missed_def is_reader_def is_writer_def)

lemma msg_read_no_missed:
  assumes "no_missed k" "msg_read p ptr k = Some out"
  shows "no_missed (out_kernel out)"
proof -
  have "settles k (out_kernel out)"
  proof (cases "mb_mode (procs k p) = 2")
    case True
    then show ?thesis using assms(2) by (auto simp: msg_read_def settles_def mwait_def Let_def)
  next
    case False
    then obtain k1 where "mark_rendezvous p (upd_proc p (\<lambda>x. x\<lparr>mb_writer := pid (procs k (curproc k))\<rparr>) k) = Some k1"
      "out_kernel out = k1" using assms(2) by (auto simp: msg_read_def Let_def split: bind_splits)
    then show ?thesis using mark_settles by (auto simp: mwait_def)
  qed
  then show ?thesis using assms(1) settles_no_missed by blast
qed

lemma msg_write_no_missed:
  assumes "no_missed k" "msg_write noblock mode p ptr k = Some out"
  shows "no_missed (out_kernel out)"
proof -
  obtain k1 where k1: "mark_rendezvous p (upd_proc p (\<lambda>x. x\<lparr>mb_writer := pid (procs k (curproc k)),
      mb_long1 := msg_long1 ptr, mb_long2 := msg_long2 ptr\<rparr>) k) = Some k1"
    and out: "out = (if mode = 2 then msg_dosleep noblock 0 (reply_box (procs k1 (curproc k1))) ptr k1
           else Msg_done 0 (ptr\<lparr>msg_pid := pid (procs k1 p)\<rparr>) k1)"
    using assms(2) by (auto simp: msg_write_def split: bind_splits)
  have "no_missed k1" using mark_settles[OF k1] assms(1) settles_no_missed by (simp add: mwait_def)
  then show ?thesis using msg_dosleep_no_missed[of k1 0] by (simp add: out)
qed

lemma sys_p_msg_no_missed:
  assumes "no_missed k" "sys_p_msg mode mbid ptr k = Some out"
  shows "no_missed (out_kernel out)"
proof -
  define m where "m = sint (mode AND NOT 0x8000)"
  define nb where "nb = (mode AND 0x8000 \<noteq> 0)"
  define k1 where "k1 = upd_proc (curproc k) (\<lambda>x. x\<lparr>mb_long1 := msg_long1 ptr, mb_long2 := msg_long2 ptr\<rparr>) k"
  have "no_missed k1" unfolding k1_def
    using assms(1) by (rule settles_no_missed) (simp add: settles_def mwait_def)
  then have w: "no_missed (out_kernel (msg_dosleep nb m mbid ptr k1))"
    if "List.find (is_reader mbid k) (proclist k) = None" "m \<noteq> 0"
    using that msg_dosleep_no_missed[of k1 m mbid nb ptr] by (auto simp: find_None_iff is_mwait k1_def mwait_def)
  have r: "no_missed (out_kernel (msg_dosleep nb 0 mbid ptr k))"
    if "List.find (is_writer mbid k) (proclist k) = None"
    using that assms(1) msg_dosleep_no_missed[of k 0 mbid nb ptr] by (auto simp: find_None_iff)
  show ?thesis
    using assms(2) r w msg_read_no_missed[OF assms(1)] msg_write_no_missed[OF assms(1)] assms(1)
    unfolding sys_p_msg_def Let_def m_def[symmetric] nb_def[symmetric] k1_def[symmetric]
    by (auto split: if_splits option.splits)
qed

text \<open>
  C25: no rendezvous is missed. In no reachable state does one process wait to read a mailbox and
  another to write it, except for the reply mailboxes of mode 2, where the code accepts it.
\<close>

theorem pmsg_no_missed_rendezvous:
  assumes "pmsg_reach k" "p \<in> set (proclist k)" "q \<in> set (proclist k)"
    and "is_reader mbid k p" "is_writer mbid k q"
  shows "is_reply_box mbid"
proof -
  have "no_missed k" using assms(1)
  proof induction
    case boot
    then show ?case by (simp add: no_missed_def init_proc_def is_writer_def zero_proc_def)
  next
    case (call k mode mbid ptr out)
    then show ?case using sys_p_msg_no_missed by blast
  next
    case (other k k')
    then show ?case unfolding no_missed_def is_mwait by metis
  qed
  then show ?thesis using assms(2-) by (auto simp: no_missed_def)
qed

text \<open>
  Every process starts as a reader of mailbox 0, because its mailbox fields are zero. A write to
  mailbox 0 by the first process is a rendezvous with itself: the call succeeds and leaves the
  running process on the ready queue.
\<close>

theorem pmsg_mailbox_zero:
  "\<exists>k'. sys_p_msg 1 0 m init_proc = Some (Msg_done 0 (m\<lparr>msg_pid := 0\<rparr>) k') \<and>
    curproc k' = 0 \<and> wait_q (procs k' 0) = READY_Q \<and> q_head (sysq k' READY_Q) = Some 0"
  by (simp add: sys_p_msg_def msg_write_def mark_rendezvous_def move_q_def rm_q_def add_q_def is_reader_def
      init_proc_def zero_proc_def Let_def upd_proc_def set_head_def set_tail_def)

section \<open>Semaphores as a table of owners\<close>

definition sema_owners :: "kernel \<Rightarrow> u32 \<Rightarrow> int option" where
  "sema_owners k sid = map_option sema_owner (find_sema sid (semalist k))"

definition semas_ok :: "kernel \<Rightarrow> bool" where
  "semas_ok k \<longleftrightarrow> distinct (map sema_id (semalist k))"

lemma find_sema_None: "find_sema sid l = None \<longleftrightarrow> sid \<notin> set (map sema_id l)"
  by (induction l) auto

lemma find_sema_set_owner:
  "map_option sema_owner (find_sema i (set_owner sid v l)) =
    (if i = sid \<and> find_sema sid l \<noteq> None then Some v else map_option sema_owner (find_sema i l))"
  by (induction l) auto

lemma find_sema_unlink:
  "distinct (map sema_id l) \<Longrightarrow> find_sema i (unlink_sema sid l) = (if i = sid then None else find_sema i l)"
  by (induction l) (auto simp: find_sema_None)

lemma find_sema_free:
  "map_option sema_owner (find_sema i (map (\<lambda>s. if sema_owner s = p then s\<lparr>sema_owner := - 1\<rparr> else s) l)) =
    map_option (\<lambda>v. if v = p then - 1 else v) (map_option sema_owner (find_sema i l))"
  by (induction l) auto

lemma sema_ids [simp]:
  "map sema_id (set_owner sid v l) = map sema_id l"
  "map sema_id (map (\<lambda>s. if sema_owner s = p then s\<lparr>sema_owner := - 1\<rparr> else s) l) = map sema_id l"
  by (induction l) auto

lemma unlink_distinct: "distinct (map sema_id l) \<Longrightarrow> distinct (map sema_id (unlink_sema sid l))"
proof (induction l)
  case (Cons s l)
  have "set (map sema_id (unlink_sema sid l)) \<subseteq> set (map sema_id l)" for l
    by (induction l) auto
  then show ?case using Cons by auto
qed simp

lemma semalist_disposetimeout [simp]: "semalist (disposetimeout t k) = semalist k"
  by (simp add: disposetimeout_def)

lemma semalist_cancel_ptr [simp]: "semalist (cancel_ptr tp k) = semalist k"
  by (auto simp: cancel_ptr_def canceltimeout_def canceltimeout_common_def split: option.splits)

lemma semalist_addtimeout:
  assumes "addtimeout mem p d f k = Some (r, k')"
  shows "semalist k' = semalist k"
  using assms
  by (auto simp: addtimeout_def addtimeout_common_def inserttimeout_def newtimeout_def Let_def
      split: option.splits if_splits)

lemma move_q_semalist: "move_q q r p k = Some k' \<Longrightarrow> semalist k' = semalist k"
  using q_frame_core(18)[OF q_frame_trans[OF rm_q_frame add_q_frame]]
  by (auto simp: move_q_eq split: option.splits)

lemma do_wake_loop_semalist: "do_wake_loop fuel que cond h k = Some k' \<Longrightarrow> semalist k' = semalist k"
proof (induction fuel que cond h k rule: do_wake_loop.induct)
  case (3 fuel que cond p k)
  then show ?case
    by (auto simp: Let_def move_q_semalist split: if_splits option.splits)
qed simp_all

lemma semalist_wake: "wake que cond k = Some k' \<Longrightarrow> semalist k' = semalist k"
  by (auto simp: wake_def do_wake_def dest!: do_wake_loop_semalist split: if_splits)

section \<open>Ownership\<close>

text \<open>
  What users of a lock rely on: a step of one process takes no lock from another, and gives a
  process a lock only if it is the process itself and the lock was free or new.
\<close>

locale owned_locks =
  fixes inv :: "'s \<Rightarrow> bool"
    and owner :: "'s \<Rightarrow> 'i \<Rightarrow> int option"
    and step :: "int \<Rightarrow> 's \<Rightarrow> 's \<Rightarrow> bool"
  assumes step_inv: "inv s \<Longrightarrow> step p s s' \<Longrightarrow> inv s'"
    and keeps_others: "inv s \<Longrightarrow> step p s s' \<Longrightarrow> owner s i = Some q \<Longrightarrow> q \<noteq> p \<Longrightarrow> q \<noteq> - 1 \<Longrightarrow> owner s' i = Some q"
    and takes_free: "inv s \<Longrightarrow> step p s s' \<Longrightarrow> owner s' i = Some q \<Longrightarrow> q \<noteq> - 1 \<Longrightarrow> owner s i \<noteq> Some q \<Longrightarrow>
      q = p \<and> (owner s i = None \<or> owner s i = Some (- 1))"
begin

inductive steps :: "int list \<Rightarrow> 's \<Rightarrow> 's \<Rightarrow> bool" where
  none: "steps [] s s"
| more: "step p s t \<Longrightarrow> steps ps t u \<Longrightarrow> steps (p # ps) s u"

lemma lock_steps_inv: "steps ps s u \<Longrightarrow> inv s \<Longrightarrow> inv u"
  by (induction rule: steps.induct) (auto intro: step_inv)

lemma held_until_own_step:
  "steps ps s u \<Longrightarrow> inv s \<Longrightarrow> owner s i = Some q \<Longrightarrow> q \<notin> set ps \<Longrightarrow> q \<noteq> - 1 \<Longrightarrow> owner u i = Some q"
proof (induction rule: steps.induct)
  case (more p s t ps u)
  then have "owner t i = Some q" using keeps_others[of s p t i q] by auto
  then show ?case using more step_inv by auto
qed simp

lemma new_owner_acted:
  "steps ps s u \<Longrightarrow> inv s \<Longrightarrow> owner u i = Some q \<Longrightarrow> owner s i \<noteq> Some q \<Longrightarrow> q \<noteq> - 1 \<Longrightarrow> q \<in> set ps"
proof (induction rule: steps.induct)
  case (more p s t ps u)
  show ?case
  proof (cases "owner t i = Some q")
    case True
    then show ?thesis using takes_free[OF more.prems(1) more.hyps(1) True] more.prems by simp
  next
    case False
    then show ?thesis using more step_inv by auto
  qed
qed simp

end

text \<open>A step of the process with pid \<open>p\<close>.\<close>

inductive sema_step :: "int \<Rightarrow> kernel \<Rightarrow> kernel \<Rightarrow> bool" where
  call_done: "pid (proc_of k) = p \<Longrightarrow> sys_p_semaphore u mem ok mode sid t k = Some (Sema_done r k') \<Longrightarrow> sema_step p k k'"
| call_block: "pid (proc_of k) = p \<Longrightarrow> sys_p_semaphore u mem ok mode sid t k = Some (Sema_block tp k') \<Longrightarrow> sema_step p k k'"
| again_done: "pid (proc_of k) = p \<Longrightarrow> sema_get u mem sid t tp k = Some (Sema_done r k') \<Longrightarrow> sema_step p k k'"
| again_block: "pid (proc_of k) = p \<Longrightarrow> sema_get u mem sid t tp k = Some (Sema_block tp' k') \<Longrightarrow> sema_step p k k'"
| exits: "free_semaphores p k = Some k' \<Longrightarrow> sema_step p k k'"
| other: "semalist k' = semalist k \<Longrightarrow> sema_step p k k'"

text \<open>The lists a process can leave behind.\<close>

inductive sema_effect :: "int \<Rightarrow> sema list \<Rightarrow> sema list \<Rightarrow> bool" for p l where
  same: "sema_effect p l l"
| made: "find_sema i l = None \<Longrightarrow> sema_effect p l (\<lparr>sema_id = i, sema_owner = p\<rparr> # l)"
| taken: "find_sema i l = Some s \<Longrightarrow> sema_owner s = - 1 \<Longrightarrow> sema_effect p l (set_owner i p l)"
| freed: "find_sema i l = Some s \<Longrightarrow> sema_owner s = p \<or> sema_owner s = - 1 \<Longrightarrow> sema_effect p l (set_owner i (- 1) l)"
| removed: "find_sema i l = Some s \<Longrightarrow> sema_owner s = p \<or> sema_owner s = - 1 \<Longrightarrow> sema_effect p l (unlink_sema i l)"
| released_all: "sema_effect p l (map (\<lambda>s. if sema_owner s = p then s\<lparr>sema_owner := - 1\<rparr> else s) l)"

lemma sema_get_effect:
  "sema_get u mem sid t tp k = Some (Sema_done r k') \<Longrightarrow> sema_effect (pid (proc_of k)) (semalist k) (semalist k')"
  "sema_get u mem sid t tp k = Some (Sema_block tp' k') \<Longrightarrow> semalist k' = semalist k"
  by (auto simp: sema_get_def intro: sema_effect.intros dest: semalist_addtimeout split: option.splits if_splits bind_splits)

lemma sema_release_effect:
  "sema_release mode sid k = Some (r, k') \<Longrightarrow> sema_effect (pid (proc_of k)) (semalist k) (semalist k')"
  by (auto simp: sema_release_def intro: sema_effect.intros dest!: semalist_wake split: option.splits if_splits bind_splits)

lemma sema_create_effect:
  "sema_create ok sid k = (r, k') \<Longrightarrow> sema_effect (pid (proc_of k)) (semalist k) (semalist k')"
  by (auto simp: sema_create_def intro: sema_effect.intros split: option.splits if_splits)

lemma sema_step_effect:
  assumes "sema_step p k k'"
  shows "sema_effect p (semalist k) (semalist k')"
  using assms
proof cases
  case (call_done u mem ok mode sid t r)
  then show ?thesis
    using sema_create_effect[of ok sid k r k'] sema_get_effect(1)[of u mem sid t None k r k']
      sema_release_effect[of mode sid k r k']
    by (auto simp: sys_p_semaphore_def intro: same split: if_splits prod.splits bind_splits)
next
  case (call_block u mem ok mode sid t tp)
  then have "semalist k' = semalist k"
    using sema_get_effect(2)[of u mem sid t None k tp k']
    by (auto simp: sys_p_semaphore_def split: if_splits prod.splits bind_splits)
  then show ?thesis by (simp add: same)
next
  case (exits)
  then have "semalist k' = map (\<lambda>s. if sema_owner s = p then s\<lparr>sema_owner := - 1\<rparr> else s) (semalist k)"
    by (auto simp: free_semaphores_def Let_def dest!: semalist_wake split: if_splits)
  then show ?thesis by (simp add: released_all)
qed (use sema_get_effect same in auto)

interpretation sl: owned_locks semas_ok sema_owners sema_step
proof unfold_locales
  fix s s' :: kernel and p q :: int and i :: u32
  assume inv: "semas_ok s" and st: "sema_step p s s'"
  have e: "sema_effect p (semalist s) (semalist s')" by (rule sema_step_effect[OF st])
  have d: "distinct (map sema_id (semalist s))" using inv by (simp add: semas_ok_def)
  show "semas_ok s'"
    using e d unlink_distinct[OF d] unfolding semas_ok_def
    by cases (auto simp: find_sema_None simp del: map_map)
  show "sema_owners s' i = Some q" if "sema_owners s i = Some q" "q \<noteq> p" "q \<noteq> - 1"
    using e that unfolding sema_owners_def
    by cases (auto simp: find_sema_set_owner find_sema_unlink[OF d] find_sema_free)
  show "q = p \<and> (sema_owners s i = None \<or> sema_owners s i = Some (- 1))"
    if "sema_owners s' i = Some q" "q \<noteq> - 1" "sema_owners s i \<noteq> Some q"
    using e that unfolding sema_owners_def
    by cases (auto simp: find_sema_set_owner find_sema_unlink[OF d] find_sema_free split: if_splits)
qed

section \<open>Properties of Psemaphore\<close>

text \<open>
  C26: semaphores are exclusive. Along any sequence of \<open>Psemaphore\<close> calls, retries of blocked calls and
  process exits, a process that owns a semaphore owns it until it acts itself, and a process becomes
  the owner only by its own action.
\<close>

theorem psemaphore_exclusive:
  assumes "sl.steps ps k k'" "semas_ok k" "q \<noteq> - 1"
  shows "(sema_owners k sid = Some q \<and> q \<notin> set ps \<longrightarrow> sema_owners k' sid = Some q) \<and>
    (sema_owners k' sid = Some q \<and> sema_owners k sid \<noteq> Some q \<longrightarrow> q \<in> set ps)"
  using sl.held_until_own_step[OF assms(1,2)] sl.new_owner_acted[OF assms(1,2)] assms(3) by blast

text \<open>
  C27: handing over. When the owner releases or destroys a semaphore, every process that waits for a
  semaphore is put on the ready queue, in order, and each of them tries again: after a release the
  first one to run gets the semaphore, after a destruction it is told that there is none.
\<close>

theorem psemaphore_handover:
  assumes "queues_rep k Q" "queues_known k Q" "semas_ok k" "sema_owners k sid = Some (pid (proc_of k))"
    and "mode = 1 \<or> mode = 3"
  shows "\<exists>k'. sema_release mode sid k = Some (E_OK, k') \<and>
    queues_rep k' (Q(WAIT_Q := filter (\<lambda>p. wait_cond (procs k p) \<noteq> WAIT_SEMA) (Q WAIT_Q),
       READY_Q := Q READY_Q @ filter (\<lambda>p. wait_cond (procs k p) = WAIT_SEMA) (Q WAIT_Q))) \<and>
    (\<forall>p tp. p \<in> set (Q WAIT_Q) \<and> wait_cond (procs k p) = WAIT_SEMA \<and> pid (procs k p) \<noteq> - 1 \<longrightarrow>
       sema_awake tp (k'\<lparr>curproc := p\<rparr>) = Inr tp \<and>
       (\<exists>k2. sema_get u mem sid t tp (k'\<lparr>curproc := p\<rparr>) = Some (Sema_done (if mode = 3 then 0 else EBADARG) k2) \<and>
          sema_owners k2 sid = (if mode = 3 then Some (pid (procs k p)) else None)))"
proof -
  define l where "l = (if mode = 3 then set_owner sid (- 1) (semalist k) else unlink_sema sid (semalist k))"
  obtain s where s: "find_sema sid (semalist k) = Some s" "sema_owner s = pid (proc_of k)"
    using assms(4) by (auto simp: sema_owners_def)
  have l: "map_option sema_owner (find_sema sid l) = (if mode = 3 then Some (- 1) else None)"
    using s assms(3) by (simp add: l_def find_sema_set_owner find_sema_unlink semas_ok_def)
  have rep: "queues_rep (k\<lparr>semalist := l\<rparr>) Q" using assms(1) by (rule queues_rep_kernel) simp_all
  have known: "queues_known (k\<lparr>semalist := l\<rparr>) Q" using assms(2) by (simp add: queues_known_def)
  obtain k' c where k': "wake WAIT_Q WAIT_SEMA (k\<lparr>semalist := l\<rparr>) = Some k'"
    "q_frame (k\<lparr>semalist := l, sleepcond := c\<rparr>) k'"
    "queues_rep k' (Q(WAIT_Q := filter (\<lambda>p. wait_cond (procs k p) \<noteq> WAIT_SEMA) (Q WAIT_Q),
       READY_Q := Q READY_Q @ filter (\<lambda>p. wait_cond (procs k p) = WAIT_SEMA) (Q WAIT_Q)))"
    using wake_rep[OF rep known, of WAIT_Q WAIT_SEMA] by auto
  have same: "semalist k' = l" "wait_cond (procs k' p) = wait_cond (procs k p)" "pid (procs k' p) = pid (procs k p)" for p
    using q_frame_core[OF k'(2)] by simp_all
  have rel: "sema_release mode sid k = Some (E_OK, k')"
    using s k'(1) by (simp add: sema_release_def l_def)
  have "\<exists>k2. sema_get u mem sid t tp (k'\<lparr>curproc := p\<rparr>) = Some (Sema_done (if mode = 3 then 0 else EBADARG) k2) \<and>
      sema_owners k2 sid = (if mode = 3 then Some (pid (procs k p)) else None)"
    if "pid (procs k p) \<noteq> - 1" for p tp
  proof (cases "mode = 3")
    case True
    then obtain s' where "find_sema sid l = Some s'" "sema_owner s' = - 1" using l by auto
    then show ?thesis using that True find_sema_set_owner[of sid sid "pid (procs k p)" l]
      by (simp add: sema_get_def same proc_of_def sema_owners_def)
  next
    case False
    then have "find_sema sid l = None" using l by simp
    then show ?thesis using False by (simp add: sema_get_def same sema_owners_def)
  qed
  then show ?thesis using rel k'(3) by (auto simp: sema_awake_def proc_of_def same)
qed

section \<open>The properties on example states\<close>

definition demo_writer :: kernel where
  "demo_writer = upd_proc 1 (\<lambda>x. x\<lparr>mb_long1 := 11, mb_long2 := 22, mb_mbid := 5, mb_mode := 1\<rparr>) demo_kernel"

definition demo_reader :: kernel where
  "demo_reader = upd_proc 1 (\<lambda>x. x\<lparr>mb_mbid := 5, mb_mode := 0\<rparr>) demo_kernel"

definition demo_msg :: message where
  "demo_msg = \<lparr>msg_long1 = 11, msg_long2 = 22, msg_pid = 0\<rparr>"

lemma demo_queues_ok: "queues_ok demo_kernel" "queues_ok demo_writer" "queues_ok demo_reader"
proof -
  show "queues_ok demo_kernel" using demo_queues_rep demo_queues_known by (auto simp: queues_ok_def)
  then show "queues_ok demo_writer" "queues_ok demo_reader"
    unfolding demo_writer_def demo_reader_def by (auto intro: queues_ok_upd)
qed

theorem pmsg_write_then_read_witness:
  "\<exists>k3. sys_p_msg 0 5 demo_msg demo_writer = Some (Msg_done 0 (demo_msg\<lparr>msg_pid := 1\<rparr>) k3) \<and> queues_ok k3 \<and>
    wait_q (procs k3 1) = READY_Q"
proof -
  have b: "sys_p_msg 1 5 demo_msg (demo_kernel\<lparr>curproc := 1\<rparr>) = Some (Msg_block 1 (demo_writer\<lparr>curproc := 1\<rparr>))"
    by (simp add: sys_p_msg_def is_reader_def demo_procs_def zero_proc_def msg_dosleep_def demo_writer_def
        demo_msg_def upd_proc_def)
  have w: "first_writer 5 demo_writer 1" "wait_q (procs demo_writer 1) \<noteq> CURPROC_Q"
    by (simp_all add: first_writer_def demo_writer_def is_writer_def demo_procs_def zero_proc_def)
  show ?thesis
    using pmsg_write_then_read[OF b _ _ w(1) demo_queues_ok(2) w(2), of demo_msg]
    by (auto simp: proc_of_def demo_procs_def zero_proc_def)
qed

theorem pmsg_read_then_write_witness:
  "\<exists>k3. sys_p_msg 1 5 demo_msg demo_reader = Some (Msg_done 0 (demo_msg\<lparr>msg_pid := 1\<rparr>) k3) \<and> queues_ok k3 \<and>
    wait_q (procs k3 1) = READY_Q"
proof -
  have b: "sys_p_msg 0 5 buf (demo_kernel\<lparr>curproc := 1\<rparr>) = Some (Msg_block 0 (demo_reader\<lparr>curproc := 1\<rparr>))"
    by (simp add: sys_p_msg_def is_writer_def demo_procs_def zero_proc_def msg_dosleep_def demo_reader_def upd_proc_def)
  have w: "first_reader 5 demo_reader 1" "wait_q (procs demo_reader 1) \<noteq> CURPROC_Q"
    by (simp_all add: first_reader_def demo_reader_def is_reader_def demo_procs_def zero_proc_def)
  show ?thesis
    using pmsg_read_then_write[OF b _ _ w(1) demo_queues_ok(3) w(2), of demo_msg]
    by (auto simp: proc_of_def demo_procs_def zero_proc_def)
qed

theorem pmsg_request_reply_witness:
  "\<exists>k1. sys_p_msg 2 5 demo_msg demo_reader = Some (Msg_block 0 k1) \<and> wait_q (procs k1 1) = READY_Q"
proof -
  have "first_reader 5 demo_reader 1" "wait_q (procs demo_reader 1) \<noteq> CURPROC_Q" "1 \<noteq> curproc demo_reader"
    by (simp_all add: first_reader_def demo_reader_def is_reader_def demo_procs_def zero_proc_def)
  then show ?thesis using pmsg_request_reply[OF _ demo_queues_ok(3), of 5 1 0 demo_msg demo_msg demo_msg]
    by (auto simp: demo_reader_def)
qed

definition demo_request :: kernel where
  "demo_request = upd_proc 1 (\<lambda>x. x\<lparr>mb_mode := 2\<rparr>) demo_writer"

definition demo_turned :: kernel where
  "demo_turned = upd_proc 1 (\<lambda>x. x\<lparr>mb_mbid := 0xFFFF0001, mb_mode := 0\<rparr>) demo_request"

theorem pmsg_blocked_request_loses_reply_witness:
  "sys_p_msg 0 5 demo_msg demo_request = Some (Msg_done 0 (demo_msg\<lparr>msg_pid := 1\<rparr>) demo_turned) \<and>
   (\<exists>k5. sys_p_msg 1 0xFFFF0001 \<lparr>msg_long1 = 77, msg_long2 = 88, msg_pid = 0\<rparr> demo_turned =
       Some (Msg_done 0 \<lparr>msg_long1 = 77, msg_long2 = 88, msg_pid = 1\<rparr> k5) \<and>
     msg_check 2 demo_msg (k5\<lparr>curproc := 1\<rparr>) = Msg_finished 0 demo_msg (k5\<lparr>curproc := 1\<rparr>))"
proof -
  have b: "sys_p_msg 2 5 demo_msg (demo_kernel\<lparr>curproc := 1\<rparr>) = Some (Msg_block 2 (demo_request\<lparr>curproc := 1\<rparr>))"
    by (simp add: sys_p_msg_def is_reader_def demo_procs_def zero_proc_def msg_dosleep_def demo_writer_def
        demo_request_def demo_msg_def upd_proc_def)
  have w: "first_writer 5 demo_request 1"
    by (simp add: first_writer_def demo_request_def demo_writer_def is_writer_def demo_procs_def zero_proc_def)
  have r: "sys_p_msg 0 5 demo_msg demo_request = Some (Msg_done 0 (demo_msg\<lparr>msg_pid := 1\<rparr>) demo_turned)"
    by (simp add: sys_p_msg_def msg_read_def is_writer_def reply_box_def demo_turned_def demo_request_def demo_writer_def
        demo_procs_def zero_proc_def demo_msg_def upd_proc_def)
  have box: "reply_box (procs (demo_kernel\<lparr>curproc := 1\<rparr>) 1) = 0xFFFF0001"
    by (simp add: reply_box_def demo_procs_def zero_proc_def)
  have f: "first_reader 0xFFFF0001 demo_turned 1" "wait_q (procs demo_turned 1) \<noteq> CURPROC_Q"
    by (simp_all add: first_reader_def demo_turned_def demo_request_def demo_writer_def is_reader_def demo_procs_def zero_proc_def)
  have ok: "queues_ok demo_turned"
    unfolding demo_turned_def demo_request_def using demo_queues_ok(2) by (auto intro!: queues_ok_upd)
  have p: "pid (demo_procs 1) = 1" "pid (proc_of demo_turned) = 0" "demo_msg\<lparr>msg_pid := 0\<rparr> = demo_msg"
    by (simp_all add: proc_of_def demo_turned_def demo_request_def demo_writer_def demo_procs_def zero_proc_def demo_msg_def)
  let ?reply = "\<lparr>msg_long1 = 77, msg_long2 = 88, msg_pid = 0\<rparr>"
  obtain k3 where k3: "sys_p_msg 0 5 demo_msg demo_request = Some (Msg_done 0 (demo_msg\<lparr>msg_pid := 1\<rparr>) k3)"
    "\<forall>k4. mbox (procs k4 1) = mbox (procs k3 1) \<and> first_reader 0xFFFF0001 k4 1 \<and> queues_ok k4 \<and>
       wait_q (procs k4 1) \<noteq> CURPROC_Q \<longrightarrow>
       (\<exists>k5. sys_p_msg 1 0xFFFF0001 ?reply k4 = Some (Msg_done 0 (?reply\<lparr>msg_pid := 1\<rparr>) k5) \<and>
          msg_check 2 demo_msg (k5\<lparr>curproc := 1\<rparr>) = Msg_finished 0 (demo_msg\<lparr>msg_pid := pid (proc_of k4)\<rparr>) (k5\<lparr>curproc := 1\<rparr>))"
    using pmsg_blocked_request_loses_reply[OF b _ _ w, of demo_msg ?reply] unfolding box by (auto simp: p(1) simp del: One_nat_def)
  have "k3 = demo_turned" using k3(1) r by simp
  then show ?thesis using k3(2)[rule_format, of demo_turned] f ok r by (simp add: p(2,3))
qed

text \<open>
  Process 1 writes to mailbox 7 in mode 2, process 2 writes to the reply mailbox of process 1, and
  process 0 reads mailbox 7.
\<close>

definition reply_k0 :: kernel where
  "reply_k0 = init_proc\<lparr>procs := (\<lambda>p. zero_proc\<lparr>pid := int p\<rparr>), proclist := [0, 1, 2], curproc := 1\<rparr>"

definition reply_k1 :: kernel where
  "reply_k1 = upd_proc 1 (\<lambda>x. x\<lparr>mb_long1 := 11, mb_long2 := 22, mb_mbid := 7, mb_mode := 2\<rparr>) reply_k0"

definition reply_k2 :: kernel where
  "reply_k2 = upd_proc 2 (\<lambda>x. x\<lparr>mb_long1 := 11, mb_long2 := 22, mb_mbid := 0xFFFF0001, mb_mode := 1\<rparr>)
     (reply_k1\<lparr>curproc := 2\<rparr>)"

definition reply_k3 :: kernel where
  "reply_k3 = upd_proc 1 (\<lambda>x. x\<lparr>mb_mbid := 0xFFFF0001, mb_mode := 0\<rparr>) (reply_k2\<lparr>curproc := 0\<rparr>)"

lemmas reply_defs = reply_k0_def reply_k1_def reply_k2_def reply_k3_def

lemma reply_reach: "pmsg_reach reply_k3"
proof -
  have 0: "pmsg_reach reply_k0"
    by (rule pmsg_reach.other[OF boot]) (simp add: reply_k0_def init_proc_def mwait_def zero_proc_def)
  have "sys_p_msg 2 7 demo_msg reply_k0 = Some (Msg_block 2 reply_k1)"
    by (simp add: sys_p_msg_def is_reader_def msg_dosleep_def reply_defs demo_msg_def upd_proc_def zero_proc_def)
  then have 1: "pmsg_reach reply_k1" using pmsg_reach.call[OF 0] by fastforce
  have "pmsg_reach (reply_k1\<lparr>curproc := 2\<rparr>)" by (rule pmsg_reach.other[OF 1]) auto
  moreover have "sys_p_msg 1 0xFFFF0001 demo_msg (reply_k1\<lparr>curproc := 2\<rparr>) = Some (Msg_block 1 reply_k2)"
    by (simp add: sys_p_msg_def is_reader_def msg_dosleep_def reply_defs demo_msg_def upd_proc_def zero_proc_def)
  ultimately have 2: "pmsg_reach reply_k2" using pmsg_reach.call by fastforce
  have "pmsg_reach (reply_k2\<lparr>curproc := 0\<rparr>)" by (rule pmsg_reach.other[OF 2]) auto
  moreover have "sys_p_msg 0 7 demo_msg (reply_k2\<lparr>curproc := 0\<rparr>) =
      Some (Msg_done 0 \<lparr>msg_long1 = 11, msg_long2 = 22, msg_pid = 1\<rparr> reply_k3)"
    by (simp add: sys_p_msg_def is_writer_def msg_read_def reply_defs upd_proc_def zero_proc_def reply_box_def Let_def)
  ultimately show ?thesis using pmsg_reach.call by fastforce
qed

theorem pmsg_no_missed_rendezvous_witness:
  "pmsg_reach reply_k3 \<and> is_reader 0xFFFF0001 reply_k3 1 \<and> is_writer 0xFFFF0001 reply_k3 2 \<and> is_reply_box 0xFFFF0001"
proof -
  have "is_reader 0xFFFF0001 reply_k3 1" "is_writer 0xFFFF0001 reply_k3 2" "proclist reply_k3 = [0, 1, 2]"
    by (simp_all add: is_reader_def is_writer_def reply_defs)
  then show ?thesis using pmsg_no_missed_rendezvous[OF reply_reach, of 1 2 "0xFFFF0001"] reply_reach by simp
qed

definition demo_sema :: kernel where
  "demo_sema = upd_proc 2 (\<lambda>x. x\<lparr>wait_cond := WAIT_SEMA\<rparr>) (demo_kernel\<lparr>semalist := [\<lparr>sema_id = 5, sema_owner = 0\<rparr>]\<rparr>)"

lemma demo_sema_rep: "queues_rep demo_sema demo_queues" "queues_known demo_sema demo_queues"
proof -
  have "queues_rep (demo_kernel\<lparr>semalist := [\<lparr>sema_id = 5, sema_owner = 0\<rparr>]\<rparr>) demo_queues"
    using demo_queues_rep by (rule queues_rep_kernel) simp_all
  then show "queues_rep demo_sema demo_queues" unfolding demo_sema_def by (intro queues_rep_upd) simp_all
  show "queues_known demo_sema demo_queues" using demo_queues_known by (simp add: demo_sema_def queues_known_def)
qed

theorem psemaphore_exclusive_witness:
  "sl.steps [1] (demo_sema\<lparr>curproc := 1\<rparr>) (demo_sema\<lparr>curproc := 1\<rparr>) \<and> sema_owners (demo_sema\<lparr>curproc := 1\<rparr>) 5 = Some 0"
proof -
  have "sys_p_semaphore 0 None True 2 5 0 (demo_sema\<lparr>curproc := 1\<rparr>) = Some (Sema_done EACCES (demo_sema\<lparr>curproc := 1\<rparr>))"
    by (simp add: sys_p_semaphore_def sema_get_def demo_sema_def proc_of_def demo_procs_def zero_proc_def)
  then have "sema_step 1 (demo_sema\<lparr>curproc := 1\<rparr>) (demo_sema\<lparr>curproc := 1\<rparr>)"
    by (rule call_done[rotated]) (simp add: demo_sema_def proc_of_def demo_procs_def zero_proc_def)
  then have st: "sl.steps [1] (demo_sema\<lparr>curproc := 1\<rparr>) (demo_sema\<lparr>curproc := 1\<rparr>)" by (blast intro: sl.steps.intros)
  have "semas_ok (demo_sema\<lparr>curproc := 1\<rparr>)" "sema_owners (demo_sema\<lparr>curproc := 1\<rparr>) 5 = Some 0"
    by (simp_all add: semas_ok_def sema_owners_def demo_sema_def)
  then show ?thesis using psemaphore_exclusive[OF st] st by simp
qed

theorem psemaphore_handover_witness:
  "\<exists>k'. sema_release 3 5 demo_sema = Some (E_OK, k') \<and>
    (\<exists>k2. sema_get 9 None 5 100 None (k'\<lparr>curproc := 2\<rparr>) = Some (Sema_done 0 k2) \<and> sema_owners k2 5 = Some 2)"
proof -
  have "semas_ok demo_sema" "sema_owners demo_sema 5 = Some (pid (proc_of demo_sema))"
    by (simp_all add: semas_ok_def sema_owners_def demo_sema_def proc_of_def demo_procs_def zero_proc_def)
  from psemaphore_handover[OF demo_sema_rep this, of 3 9 None 100]
  obtain k' where k': "sema_release 3 5 demo_sema = Some (E_OK, k')"
    "\<forall>p tp. p \<in> set (demo_queues WAIT_Q) \<and> wait_cond (procs demo_sema p) = WAIT_SEMA \<and> pid (procs demo_sema p) \<noteq> - 1 \<longrightarrow>
       sema_awake tp (k'\<lparr>curproc := p\<rparr>) = Inr tp \<and>
       (\<exists>k2. sema_get 9 None 5 100 tp (k'\<lparr>curproc := p\<rparr>) = Some (Sema_done 0 k2) \<and>
          sema_owners k2 5 = Some (pid (procs demo_sema p)))" by auto
  have "2 \<in> set (demo_queues WAIT_Q)" "wait_cond (procs demo_sema 2) = WAIT_SEMA" "pid (procs demo_sema 2) = 2"
    by (simp_all add: demo_queues_def demo_sema_def demo_procs_def zero_proc_def)
  then show ?thesis using k'(1) k'(2)[rule_format, of 2 None] by auto
qed

end
