(* ===== verification/Signals.thy ===== *)
theory Signals
  imports Scheduler Cred
begin

text \<open>
  Signals: posting, delivery and stopping (\<open>sys/signal.c\<close>) and the system calls of \<open>sys/dossig.c\<close>.

  Signal numbers are natural numbers and the sets of pending and masked signals are 32 bit words.
  \<open>sig_env\<close> holds the routines of other parts of the kernel that delivery calls: the entry into a
  user's handler (\<open>sendsig\<close>, true when it fails), the process extensions, the message about a fatal
  signal, and \<open>sleep\<close> as the calling process sees it, from the call to its return. A process that ends
  does not come back: \<open>Terminate\<close> and \<open>Pterm\<close> are the calls of \<open>terminate\<close> and \<open>kernel_pterm\<close> with
  their exit code. A failing assertion is \<open>None\<close>. The model is that of the 680x0 kernels.
\<close>

section \<open>Constants\<close>

abbreviation (input) NSIG :: nat where "NSIG \<equiv> 32"
abbreviation (input) SIGINT :: nat where "SIGINT \<equiv> 2"
abbreviation (input) SIGFPE :: nat where "SIGFPE \<equiv> 8"
abbreviation (input) SIGKILL :: nat where "SIGKILL \<equiv> 9"
abbreviation (input) SIGBUS :: nat where "SIGBUS \<equiv> 10"
abbreviation (input) SIGSEGV :: nat where "SIGSEGV \<equiv> 11"
abbreviation (input) SIGTERM :: nat where "SIGTERM \<equiv> 15"
abbreviation (input) SIGSTOP :: nat where "SIGSTOP \<equiv> 17"
abbreviation (input) SIGTSTP :: nat where "SIGTSTP \<equiv> 18"
abbreviation (input) SIGCONT :: nat where "SIGCONT \<equiv> 19"
abbreviation (input) SIGCHLD :: nat where "SIGCHLD \<equiv> 20"
abbreviation (input) SIGTTIN :: nat where "SIGTTIN \<equiv> 21"
abbreviation (input) SIGTTOU :: nat where "SIGTTOU \<equiv> 22"
abbreviation (input) SIGWINCH :: nat where "SIGWINCH \<equiv> 28"
abbreviation (input) SIG_DFL :: u32 where "SIG_DFL \<equiv> 0"
abbreviation (input) SIG_IGN :: u32 where "SIG_IGN \<equiv> 1"
abbreviation (input) SA_NODEFER :: u16 where "SA_NODEFER \<equiv> 0x0010"
abbreviation (input) SA_NOCLDSTOP :: u16 where "SA_NOCLDSTOP \<equiv> 0x0001"
abbreviation (input) SA_RESETHAND :: u16 where "SA_RESETHAND \<equiv> 0x8000"

definition sigbit :: "nat \<Rightarrow> u32" where
  "sigbit sig = push_bit sig 1"

definition UNMASKABLE :: u32 where
  "UNMASKABLE = 1 OR sigbit SIGKILL OR sigbit SIGCONT OR sigbit SIGSTOP"

definition STOPSIGS :: u32 where
  "STOPSIGS = sigbit SIGTTIN OR sigbit SIGTTOU OR sigbit SIGTSTP OR sigbit SIGSTOP"

definition SAUSER :: u16 where
  "SAUSER = SA_NODEFER OR SA_NOCLDSTOP OR SA_RESETHAND"

section \<open>Posting a signal\<close>

definition pid2proc :: "int \<Rightarrow> kernel \<Rightarrow> pptr option" where
  "pid2proc n k = List.find (\<lambda>p. pid (procs k p) = n) (proclist k)"

definition SIGACTION :: "kernel \<Rightarrow> pptr \<Rightarrow> nat \<Rightarrow> sigaction" where
  "SIGACTION k p sig = sigacts k (p_sigacts (procs k p)) sig"

definition is_dead :: "kernel \<Rightarrow> pptr \<Rightarrow> bool" where
  "is_dead k p \<longleftrightarrow> wait_q (procs k p) = ZOMBIE_Q \<or> wait_q (procs k p) = TSR_Q"

definition ignores :: "kernel \<Rightarrow> pptr \<Rightarrow> nat \<Rightarrow> bool" where
  "ignores k p sig \<longleftrightarrow> sa_handler (SIGACTION k p sig) = SIG_IGN \<and> ptracer (procs k p) = None \<and> sig \<noteq> SIGCONT"

definition post_sig :: "pptr \<Rightarrow> nat \<Rightarrow> kernel \<Rightarrow> kernel option" where
  "post_sig p sig k =
    (if sig \<ge> NSIG then None
     else if is_dead k p then Some k
     else if pid (procs k p) = 1 \<and> (sig = SIGKILL \<or> sig = SIGSTOP) then Some k
     else if p_flag (procs k p) AND P_FLAG_SLB \<noteq> 0 then Some k
     else if sig = SIGKILL \<and> p_flag (procs k p) AND P_FLAG_SYS \<noteq> 0 then Some k
     else if sig = 0 \<or> ignores k p sig then Some k
     else
      (let k = upd_proc p (\<lambda>x. x\<lparr>sigpending := sigpending x OR sigbit sig\<rparr>) k
       in if p_sigmask (procs k p) AND sigbit sig \<noteq> 0 then Some k
          else if wait_q (procs k p) \<noteq> CURPROC_Q \<and> wait_q (procs k p) \<noteq> READY_Q
          then move_q (wait_q (procs k p)) READY_Q p k
          else Some k))"

definition may_signal :: "kernel \<Rightarrow> pptr \<Rightarrow> bool" where
  "may_signal k p \<longleftrightarrow>
    (let c = pcreds k (p_cred (proc_of k)); uc = ucreds k (ucr c); t = pcreds k (p_cred (procs k p))
     in suser uc \<or> euid uc = suid t \<or> euid uc = ruid t \<or> ruid c = suid t \<or> ruid c = ruid t)"

definition send_sig :: "pptr \<Rightarrow> nat \<Rightarrow> bool \<Rightarrow> kernel \<Rightarrow> (int \<times> kernel) option" where
  "send_sig p sig priv k =
    (let priv = priv \<or> may_signal k p;
         priv = priv \<or> (sig = SIGCONT \<and> pgrp (proc_of k) = pgrp (procs k p))
     in if \<not> priv then Some (EACCES, k)
        else if sig = 0 then Some (0, k)
        else if is_dead k p then Some (0, k)
        else if ignores k p sig then Some (0, k)
        else map_option (\<lambda>k. (0, k)) (post_sig p sig k))"

fun killgroup_loop :: "int \<Rightarrow> nat \<Rightarrow> bool \<Rightarrow> pptr list \<Rightarrow> bool \<Rightarrow> int \<Rightarrow> kernel \<Rightarrow> (int \<times> kernel) option" where
  "killgroup_loop grp sig priv [] found ret k = Some (if found then E_OK else ret, k)"
| "killgroup_loop grp sig priv (p # ps) found ret k =
    (if is_dead k p \<or> pgrp (procs k p) \<noteq> grp then killgroup_loop grp sig priv ps found ret k
     else case send_sig p sig priv k of
       None \<Rightarrow> None
     | Some (last_error, k) \<Rightarrow>
         if last_error \<noteq> 0 then killgroup_loop grp sig priv ps found last_error k
         else killgroup_loop grp sig priv ps True ret k)"

definition killgroup :: "int \<Rightarrow> nat \<Rightarrow> bool \<Rightarrow> kernel \<Rightarrow> (int \<times> kernel) option" where
  "killgroup grp sig priv k =
    (if grp < 0 then Some (EINTERNAL, k)
     else if sig \<ge> NSIG then Some (EINVAL, k)
     else killgroup_loop grp sig priv (proclist k) False ENOENT k)"

definition ikill :: "int \<Rightarrow> nat \<Rightarrow> kernel \<Rightarrow> (int \<times> kernel) option" where
  "ikill n sig k =
    (if sig \<ge> NSIG then Some (EBADARG, k)
     else if n < 0 then killgroup (- n) sig True k
     else if n = 0 then killgroup (pgrp (proc_of k)) sig True k
     else case pid2proc n k of
       None \<Rightarrow> Some (ENOENT, k)
     | Some p \<Rightarrow>
         if is_dead k p then Some (ENOENT, k)
         else if sig \<noteq> 0 then map_option (\<lambda>k. (E_OK, k)) (post_sig p sig k)
         else Some (E_OK, k))"

section \<open>Delivery\<close>

record sig_env =
  s_sendsig :: "nat \<Rightarrow> kernel \<Rightarrow> bool \<times> kernel"
  s_ext_on_signal :: "nat \<Rightarrow> kernel \<Rightarrow> kernel"
  s_ext_on_stop :: "nat \<Rightarrow> kernel \<Rightarrow> kernel"
  s_bombs :: "nat \<Rightarrow> kernel \<Rightarrow> kernel"
  s_sleep :: "nat \<Rightarrow> u32 \<Rightarrow> kernel \<Rightarrow> kernel"
  s_pwaitpid :: u32

datatype sig_out = Goes_on kernel | Terminate int kernel | Pterm int kernel

definition upd_cur :: "(proc \<Rightarrow> proc) \<Rightarrow> kernel \<Rightarrow> kernel" where
  "upd_cur f k = upd_proc (curproc k) f k"

text \<open>The parent or the tracer learns that the process stops.\<close>

definition notify_stop :: "sig_env \<Rightarrow> kernel \<Rightarrow> kernel option" where
  "notify_stop env k =
    (case ptracer (proc_of k) of
       Some t \<Rightarrow> post_sig t SIGCHLD k
     | None \<Rightarrow>
         (case pid2proc (ppid (proc_of k)) k of
            None \<Rightarrow> Some k
          | Some p \<Rightarrow>
              if sa_flags (SIGACTION k p SIGCHLD) AND SA_NOCLDSTOP \<noteq> 0 then Some k
              else do {
                k \<leftarrow> post_sig p SIGCHLD k;
                if wait_q (procs k p) = WAIT_Q \<and> wait_cond (procs k p) = s_pwaitpid env
                then move_q WAIT_Q READY_Q p k else Some k }))"

definition stop :: "sig_env \<Rightarrow> nat \<Rightarrow> kernel \<Rightarrow> kernel option" where
  "stop env sig k =
    (if sig \<ge> NSIG then None
     else if pid (proc_of k) = 0 then Some k
     else do {
       k \<leftarrow> notify_stop env k;
       let oldmask = p_sigmask (proc_of k);
       k \<leftarrow> (if ptracer (proc_of k) = None
              then (if sigbit sig AND STOPSIGS = 0 then None
                    else Some (upd_cur (\<lambda>x. x\<lparr>p_sigmask := p_sigmask x OR NOT (UNMASKABLE OR of_nat SIGTERM)\<rparr>) k))
              else Some k);
       let k = s_ext_on_stop env sig k;
       let k = s_sleep env STOP_Q (of_nat (256 * sig) OR 127) k;
       Some (upd_cur (\<lambda>x. x\<lparr>p_sigmask := oldmask, sigpending := sigpending x AND NOT STOPSIGS\<rparr>) k) })"

definition default_action :: "sig_env \<Rightarrow> nat \<Rightarrow> kernel \<Rightarrow> sig_out option" where
  "default_action env sig k =
    (if sig = SIGWINCH \<or> sig = SIGCHLD \<or> sig = SIGFPE then Some (Goes_on k)
     else if sig = SIGSTOP \<or> sig = SIGTSTP \<or> sig = SIGTTIN \<or> sig = SIGTTOU then map_option Goes_on (stop env sig k)
     else if sig = SIGCONT then Some (Goes_on (upd_cur (\<lambda>x. x\<lparr>sigpending := sigpending x AND NOT STOPSIGS\<rparr>) k))
     else
      (let k = upd_cur (\<lambda>x. x\<lparr>signaled := True\<rparr>) k
       in if sig = SIGINT \<and> domain (proc_of k) = DOM_TOS then Some (Pterm ENOSYS k)
          else
           (let k = s_bombs env sig k
            in if p_sigmask (proc_of k) AND 1 \<noteq> 0 \<or> sig = SIGKILL
               then Some (Terminate (256 * int sig) k) else Some (Pterm (256 * int sig) k))))"

definition handle_sig :: "sig_env \<Rightarrow> nat \<Rightarrow> kernel \<Rightarrow> sig_out option" where
  "handle_sig env sig k =
    (if sig \<ge> NSIG then None
     else
      (let k = s_ext_on_signal env sig k;
           k = upd_cur (\<lambda>x. x\<lparr>last_sig := sig\<rparr>) k;
           h = sa_handler (SIGACTION k (curproc k) sig)
       in if h = SIG_IGN then Some (Goes_on k)
          else if h = SIG_DFL then default_action env sig k
          else case s_sendsig env sig k of
            (failed, k) \<Rightarrow> if failed then default_action env sig k else Some (Goes_on k)))"

text \<open>The mask while the handler of signal \<open>i\<close> runs.\<close>

definition handler_mask :: "sigaction \<Rightarrow> nat \<Rightarrow> u32 \<Rightarrow> u32" where
  "handler_mask a i msk =
    (let msk = msk OR sa_mask a
     in if sa_flags a AND SA_NODEFER \<noteq> 0 \<and> sa_mask a AND sigbit i = 0
        then msk AND NOT (sigbit i) else msk OR sigbit i)"

definition deliver :: "sig_env \<Rightarrow> nat \<Rightarrow> kernel \<Rightarrow> sig_out option" where
  "deliver env i k =
    (let omask = p_sigmask (proc_of k);
         k = upd_cur (\<lambda>x. x\<lparr>p_sigmask := handler_mask (SIGACTION k (curproc k) i) i (p_sigmask x)\<rparr>) k
     in case handle_sig env i k of
          None \<Rightarrow> None
        | Some (Goes_on k) \<Rightarrow> Some (Goes_on (upd_cur (\<lambda>x. x\<lparr>p_sigmask := omask\<rparr>) k))
        | Some out \<Rightarrow> Some out)"

text \<open>One pass over the signals; \<open>Inl\<close> is the jump to \<open>top\<close>.\<close>

fun check_pass :: "sig_env \<Rightarrow> u32 \<Rightarrow> bool \<Rightarrow> nat list \<Rightarrow> kernel \<Rightarrow> (kernel + sig_out) option" where
  "check_pass env sigs deliversig [] k = Some (Inr (Goes_on k))"
| "check_pass env sigs deliversig (i # is) k =
    (if sigs AND sigbit i = 0 then check_pass env sigs deliversig is k
     else
      (let k = upd_cur (\<lambda>x. x\<lparr>sigpending := sigpending x AND NOT (sigbit i)\<rparr>) k
       in if ptracer (proc_of k) \<noteq> None \<and> \<not> deliversig \<and> i \<noteq> SIGCONT \<and> i \<noteq> SIGKILL
          then map_option Inl (stop env i k)
          else case deliver env i k of
            None \<Rightarrow> None
          | Some (Goes_on k) \<Rightarrow> check_pass env sigs deliversig is k
          | Some out \<Rightarrow> Some (Inr out)))"

text \<open>The signals to handle: a traced process tells its tracer of masked ones too.\<close>

definition sigs_to_check :: "proc \<Rightarrow> u32" where
  "sigs_to_check x =
    (if ptracer x = None \<or> sigpending x AND 1 \<noteq> 0 then sigpending x AND NOT (p_sigmask x) else sigpending x)"

fun check_top :: "nat \<Rightarrow> sig_env \<Rightarrow> kernel \<Rightarrow> sig_out option" where
  "check_top 0 env k = None"
| "check_top (Suc fuel) env k =
    (let x = proc_of k;
         sigs = sigs_to_check x
     in if sigs = 0 then Some (Goes_on k)
        else case check_pass env sigs (sigpending x AND 1 \<noteq> 0) [1..<NSIG]
               (upd_cur (\<lambda>x. x\<lparr>sigpending := sigpending x AND NOT 1\<rparr>) k) of
          None \<Rightarrow> None
        | Some (Inl k) \<Rightarrow> check_top fuel env k
        | Some (Inr out) \<Rightarrow> Some out)"

definition check_sigs :: "nat \<Rightarrow> sig_env \<Rightarrow> kernel \<Rightarrow> sig_out option" where
  "check_sigs fuel env k = (if pid (proc_of k) = 0 then Some (Goes_on k) else check_top fuel env k)"

definition raise :: "nat \<Rightarrow> sig_env \<Rightarrow> nat \<Rightarrow> kernel \<Rightarrow> sig_out option" where
  "raise fuel env sig k = do { k \<leftarrow> post_sig (curproc k) sig k; check_sigs fuel env k }"

section \<open>System calls\<close>

text \<open>A call that returns has a result, or the process ended in \<open>check_sigs\<close>.\<close>

datatype 'a sys_out = Ret 'a kernel | Ended sig_out

definition returns :: "'a \<Rightarrow> sig_out option \<Rightarrow> 'a sys_out option" where
  "returns r out = map_option (\<lambda>out. case out of Goes_on k \<Rightarrow> Ret r k | _ \<Rightarrow> Ended out) out"

text \<open>\<open>Pkill\<close> up to \<open>check_sigs\<close>.\<close>

definition p_kill_post :: "int \<Rightarrow> int \<Rightarrow> kernel \<Rightarrow> (int \<times> kernel) option" where
  "p_kill_post n sig k =
    (if sig < 0 \<or> sig \<ge> int NSIG then Some (EBADARG, k)
     else
      (let k = (if sig = int SIGSEGV \<or> sig = int SIGBUS
                then upd_cur (\<lambda>x. x\<lparr>exception_pc := syscall_pc x, exception_addr := - 1\<rparr>) k else k)
       in if n < 0 then killgroup (signed_take_bit 15 (- n)) (nat sig) False k
          else if n = 0 then killgroup (pgrp (proc_of k)) (nat sig) False k
          else case pid2proc n k of
            None \<Rightarrow> Some (ENOENT, k)
          | Some p \<Rightarrow>
              if is_dead k p then Some (ENOENT, k)
              else if euid (ucreds k (ucr (pcreds k (p_cred (proc_of k))))) \<noteq> 0 \<and>
                ruid (pcreds k (p_cred (proc_of k))) \<noteq> ruid (pcreds k (p_cred (procs k p)))
              then Some (EACCES, k)
              else if sig \<noteq> 0 then map_option (\<lambda>k. (E_OK, k)) (post_sig p (nat sig) k)
              else Some (E_OK, k)))"

definition sys_p_kill :: "nat \<Rightarrow> sig_env \<Rightarrow> int \<Rightarrow> int \<Rightarrow> kernel \<Rightarrow> int sys_out option" where
  "sys_p_kill fuel env n sig k = do {
     (r, k) \<leftarrow> p_kill_post n sig k;
     if r = E_OK then returns r (check_sigs fuel env k) else Some (Ret r k) }"

definition upd_sigact :: "pptr \<Rightarrow> nat \<Rightarrow> (sigaction \<Rightarrow> sigaction) \<Rightarrow> kernel \<Rightarrow> kernel" where
  "upd_sigact p sig f k =
    (let a = p_sigacts (procs k p)
     in k\<lparr>sigacts := (sigacts k)(a := (sigacts k a)(sig := f (sigacts k a sig)))\<rparr>)"

text \<open>The result: error code, the old action for \<open>oact\<close>, and the state.\<close>

definition sys_p_sigaction :: "int \<Rightarrow> sigaction option \<Rightarrow> kernel \<Rightarrow> int \<times> sigaction option \<times> kernel" where
  "sys_p_sigaction sig act k =
    (if sig < 1 \<or> sig \<ge> int NSIG then (EBADARG, None, k)
     else if act \<noteq> None \<and> (sig = int SIGKILL \<or> sig = int SIGSTOP) then (EACCES, None, k)
     else
      (let n = nat sig; p = curproc k; old = SIGACTION k p n;
           oact = old\<lparr>sa_flags := sa_flags old AND SAUSER\<rparr>;
           k = (case act of
                  None \<Rightarrow> k
                | Some act \<Rightarrow>
                    (let k = upd_sigact p n (\<lambda>a. a\<lparr>sa_handler := sa_handler act,
                               sa_mask := sa_mask act AND NOT UNMASKABLE,
                               sa_flags := (sa_flags a AND NOT SAUSER) OR (sa_flags act AND SAUSER)\<rparr>) k;
                         k = (if sa_handler act = SIG_IGN
                              then upd_cur (\<lambda>x. x\<lparr>sigpending := sigpending x AND NOT (sigbit n)\<rparr>) k else k)
                     in upd_cur (\<lambda>x. x\<lparr>p_sigmask := p_sigmask x AND NOT (sigbit n)\<rparr>) k))
       in (E_OK, Some oact, k)))"

text \<open>The result is an error code or the old handler.\<close>

definition sys_p_signal :: "int \<Rightarrow> u32 \<Rightarrow> kernel \<Rightarrow> (int + u32) \<times> kernel" where
  "sys_p_signal sig handler k =
    (if sig < 1 \<or> sig \<ge> int NSIG then (Inl EBADARG, k)
     else if sig = int SIGKILL \<or> sig = int SIGSTOP then (Inl EACCES, k)
     else
      (let n = nat sig; ret = sa_handler (SIGACTION k (curproc k) n);
           k = upd_sigact (curproc k) n (\<lambda>a. a\<lparr>sa_handler := handler, sa_mask := 0, sa_flags := 0\<rparr>) k;
           k = (if handler = SIG_IGN
                then upd_cur (\<lambda>x. x\<lparr>sigpending := sigpending x AND NOT (sigbit n)\<rparr>) k else k)
       in (Inr ret, upd_cur (\<lambda>x. x\<lparr>p_sigmask := p_sigmask x AND NOT (sigbit n)\<rparr>) k)))"

definition sys_p_sigblock :: "u32 \<Rightarrow> kernel \<Rightarrow> u32 \<times> kernel" where
  "sys_p_sigblock msk k =
    (let msk = msk AND NOT UNMASKABLE
     in (p_sigmask (proc_of k), upd_cur (\<lambda>x. x\<lparr>p_sigmask := p_sigmask x OR msk\<rparr>) k))"

definition sys_p_sigsetmask :: "nat \<Rightarrow> sig_env \<Rightarrow> u32 \<Rightarrow> kernel \<Rightarrow> u32 sys_out option" where
  "sys_p_sigsetmask fuel env msk k =
    returns (p_sigmask (proc_of k))
      (check_sigs fuel env (upd_cur (\<lambda>x. x\<lparr>p_sigmask := msk AND NOT UNMASKABLE\<rparr>) k))"

definition sys_p_sigpending :: "nat \<Rightarrow> sig_env \<Rightarrow> kernel \<Rightarrow> u32 sys_out option" where
  "sys_p_sigpending fuel env k =
    (case check_sigs fuel env k of
       None \<Rightarrow> None
     | Some (Goes_on k) \<Rightarrow> Some (Ret (sigpending (proc_of k) AND NOT 1) k)
     | Some out \<Rightarrow> Some (Ended out))"

definition sys_p_sigpause :: "nat \<Rightarrow> sig_env \<Rightarrow> u32 \<Rightarrow> kernel \<Rightarrow> int sys_out option" where
  "sys_p_sigpause fuel env msk k =
    (let oldmask = p_sigmask (proc_of k);
         k = upd_cur (\<lambda>x. x\<lparr>p_sigmask := msk AND NOT UNMASKABLE\<rparr>) k
     in case (if sigpending (proc_of k) AND NOT (p_sigmask (proc_of k)) \<noteq> 0 then check_sigs fuel env k
              else Some (Goes_on (s_sleep env IO_Q (- 1) k))) of
          None \<Rightarrow> None
        | Some (Goes_on k) \<Rightarrow>
            returns E_OK (check_sigs fuel env (upd_cur (\<lambda>x. x\<lparr>p_sigmask := oldmask\<rparr>) k))
        | Some out \<Rightarrow> Some (Ended out))"

section \<open>What posting changes\<close>

lemma upd_cur_fields [simp]:
  "proclist (upd_cur f k) = proclist k" "curproc (upd_cur f k) = curproc k"
  "procs (upd_cur f k) = (procs k)(curproc k := f (procs k (curproc k)))"
  "sysq (upd_cur f k) = sysq k" "sigacts (upd_cur f k) = sigacts k"
  "pcreds (upd_cur f k) = pcreds k" "ucreds (upd_cur f k) = ucreds k"
  by (simp_all add: upd_cur_def upd_proc_def)

definition deliverable :: "kernel \<Rightarrow> pptr \<Rightarrow> nat \<Rightarrow> bool" where
  "deliverable k p sig \<longleftrightarrow> \<not> is_dead k p \<and> \<not> (pid (procs k p) = 1 \<and> (sig = SIGKILL \<or> sig = SIGSTOP)) \<and>
     p_flag (procs k p) AND P_FLAG_SLB = 0 \<and> \<not> (sig = SIGKILL \<and> p_flag (procs k p) AND P_FLAG_SYS \<noteq> 0) \<and>
     sig \<noteq> 0 \<and> \<not> ignores k p sig"

text \<open>All but the queue links and the pending signals.\<close>

definition sig_core :: "proc \<Rightarrow> proc" where
  "sig_core x = (proc_core x)\<lparr>sigpending := 0\<rparr>"

definition sig_frame :: "kernel \<Rightarrow> kernel \<Rightarrow> bool" where
  "sig_frame k k' \<longleftrightarrow> k'\<lparr>procs := procs k, sysq := sysq k\<rparr> = k \<and> (\<forall>x. sig_core (procs k' x) = sig_core (procs k x))"

lemma sig_frame_refl [simp]: "sig_frame k k"
  by (simp add: sig_frame_def)

lemma sig_frame_trans: "sig_frame a b \<Longrightarrow> sig_frame b c \<Longrightarrow> sig_frame a c"
  by (cases a; cases b; cases c) (auto simp: sig_frame_def)

lemma q_frame_sig_frame: "q_frame k k' \<Longrightarrow> sig_frame k k'"
  by (simp add: q_frame_def sig_frame_def sig_core_def)

lemma sig_frame_pending: "sig_frame k (upd_proc p (\<lambda>x. x\<lparr>sigpending := f x\<rparr>) k)"
  by (cases k) (simp add: sig_frame_def upd_proc_def sig_core_def proc_core_def)

lemma sig_frame_proc:
  assumes "sig_frame k k'" and "\<And>y. f (sig_core y) = f y"
  shows "f (procs k' x) = f (procs k x)"
  using assms by (metis sig_frame_def)

lemma sig_frame_kernel:
  assumes "sig_frame k k'" and "\<And>k p q. f (k\<lparr>procs := p, sysq := q\<rparr>) = f k"
  shows "f k' = f k"
  using assms by (metis sig_frame_def)

lemma sig_frame_same:
  assumes "sig_frame k k'"
  shows "pid (procs k' x) = pid (procs k x)" "pgrp (procs k' x) = pgrp (procs k x)"
    "p_flag (procs k' x) = p_flag (procs k x)" "p_cred (procs k' x) = p_cred (procs k x)"
    "p_sigacts (procs k' x) = p_sigacts (procs k x)" "ptracer (procs k' x) = ptracer (procs k x)"
    "p_sigmask (procs k' x) = p_sigmask (procs k x)" "wait_cond (procs k' x) = wait_cond (procs k x)"
    "proclist k' = proclist k" "curproc k' = curproc k" "sigacts k' = sigacts k"
    "pcreds k' = pcreds k" "ucreds k' = ucreds k"
  by (rule sig_frame_proc[OF assms], simp add: sig_core_def; fail | rule sig_frame_kernel[OF assms], simp; fail)+

lemma sig_frame_tests:
  assumes "sig_frame k k'"
  shows "may_signal k' p = may_signal k p" "ignores k' p sig = ignores k p sig"
    "pgrp (proc_of k') = pgrp (proc_of k)"
  by (simp_all add: may_signal_def ignores_def SIGACTION_def proc_of_def sig_frame_same[OF assms])

lemma post_sig_ok:
  assumes "queues_ok k" "sig < NSIG"
  shows "\<exists>k'. post_sig p sig k = Some k' \<and> queues_ok k' \<and> sig_frame k k' \<and>
    (\<forall>x. sigpending (procs k' x) =
       (if x = p \<and> deliverable k p sig then sigpending (procs k x) OR sigbit sig else sigpending (procs k x))) \<and>
    (\<forall>x. wait_q (procs k' x) =
       (if x = p \<and> deliverable k p sig \<and> p_sigmask (procs k p) AND sigbit sig = 0 \<and> wait_q (procs k p) \<noteq> CURPROC_Q
        then READY_Q else wait_q (procs k x)))"
proof (cases "deliverable k p sig")
  case False
  then have "post_sig p sig k = Some k" using assms(2) by (auto simp: post_sig_def deliverable_def)
  then show ?thesis using False assms(1) by simp
next
  case True
  define k1 where "k1 = upd_proc p (\<lambda>x. x\<lparr>sigpending := sigpending x OR sigbit sig\<rparr>) k"
  have ok: "queues_ok k1" unfolding k1_def by (rule queues_ok_upd) (use assms in auto)
  have fr: "sig_frame k k1" unfolding k1_def by (rule sig_frame_pending)
  have eq: "post_sig p sig k = (if p_sigmask (procs k1 p) AND sigbit sig \<noteq> 0 then Some k1
      else if wait_q (procs k1 p) \<noteq> CURPROC_Q \<and> wait_q (procs k1 p) \<noteq> READY_Q
      then move_q (wait_q (procs k1 p)) READY_Q p k1 else Some k1)"
    using True assms(2) by (auto simp: post_sig_def deliverable_def k1_def Let_def)
  have k1: "wait_q (procs k1 x) = wait_q (procs k x)" "p_sigmask (procs k1 x) = p_sigmask (procs k x)"
    "sigpending (procs k1 x) = (if x = p then sigpending (procs k x) OR sigbit sig else sigpending (procs k x))" for x
    by (simp_all add: k1_def)
  show ?thesis
  proof (cases "p_sigmask (procs k1 p) AND sigbit sig = 0 \<and> wait_q (procs k1 p) \<noteq> CURPROC_Q \<and> wait_q (procs k1 p) \<noteq> READY_Q")
    case move: True
    then obtain k' where k': "move_q (wait_q (procs k1 p)) READY_Q p k1 = Some k'" "queues_ok k'" "q_frame k1 k'"
      "\<forall>x. wait_q (procs k' x) = (if x = p then READY_Q else wait_q (procs k1 x))"
      using move_q_ok[OF ok, of p "wait_q (procs k1 p)" READY_Q] by auto
    have "sig_frame k k'" by (rule sig_frame_trans[OF fr q_frame_sig_frame[OF k'(3)]])
    then show ?thesis
      using k' move True by (auto simp: eq k1 q_frame_core(5)[OF k'(3)])
  next
    case False
    then have "post_sig p sig k = Some k1" by (auto simp: eq)
    then show ?thesis using False ok fr True by (auto simp: k1)
  qed
qed

section \<open>Who receives a signal\<close>

definition permitted :: "kernel \<Rightarrow> bool \<Rightarrow> nat \<Rightarrow> pptr \<Rightarrow> bool" where
  "permitted k priv sig p \<longleftrightarrow> priv \<or> may_signal k p \<or> (sig = SIGCONT \<and> pgrp (proc_of k) = pgrp (procs k p))"

definition member_of :: "kernel \<Rightarrow> int \<Rightarrow> pptr \<Rightarrow> bool" where
  "member_of k grp p \<longleftrightarrow> \<not> is_dead k p \<and> pgrp (procs k p) = grp"

text \<open>Signal \<open>sig\<close> was posted to exactly the processes \<open>P\<close>.\<close>

definition posted :: "nat \<Rightarrow> (pptr \<Rightarrow> bool) \<Rightarrow> kernel \<Rightarrow> kernel \<Rightarrow> bool" where
  "posted sig P k k' \<longleftrightarrow> queues_ok k' \<and> sig_frame k k' \<and>
     (\<forall>x. sigpending (procs k' x) =
        (if P x \<and> deliverable k x sig then sigpending (procs k x) OR sigbit sig else sigpending (procs k x))) \<and>
     (\<forall>x. wait_q (procs k' x) =
        (if P x \<and> deliverable k x sig \<and> p_sigmask (procs k x) AND sigbit sig = 0 \<and> wait_q (procs k x) \<noteq> CURPROC_Q
         then READY_Q else wait_q (procs k x)))"

lemma posted_none: "queues_ok k \<Longrightarrow> posted sig (\<lambda>x. False) k k"
  by (simp add: posted_def)

lemma post_sig_posted:
  "queues_ok k \<Longrightarrow> sig < NSIG \<Longrightarrow> \<exists>k'. post_sig p sig k = Some k' \<and> posted sig (\<lambda>x. x = p) k k'"
  using post_sig_ok[of k sig p] unfolding posted_def by auto

lemma posted_dead: "posted sig P k k' \<Longrightarrow> is_dead k' x = is_dead k x"
  by (auto simp: posted_def is_dead_def deliverable_def)

lemma posted_tests:
  assumes "posted sig P k k'"
  shows "deliverable k' x s = deliverable k x s" "permitted k' priv s x = permitted k priv s x"
    "member_of k' grp x = member_of k grp x"
proof -
  have f: "sig_frame k k'" using assms by (simp add: posted_def)
  show "deliverable k' x s = deliverable k x s"
    by (simp add: deliverable_def posted_dead[OF assms] sig_frame_same[OF f] sig_frame_tests[OF f])
  show "permitted k' priv s x = permitted k priv s x"
    by (simp add: permitted_def sig_frame_same[OF f] sig_frame_tests[OF f])
  show "member_of k' grp x = member_of k grp x"
    by (simp add: member_of_def posted_dead[OF assms] sig_frame_same[OF f])
qed

lemma posted_trans:
  assumes a: "posted sig P k k1" and b: "posted sig R k1 k2"
  shows "posted sig (\<lambda>x. P x \<or> R x) k k2"
proof -
  have f: "sig_frame k k1" "sig_frame k1 k2" using a b by (simp_all add: posted_def)
  show ?thesis
    using a b unfolding posted_def
    by (auto simp: posted_tests[OF a] sig_frame_same[OF f(1)] or.assoc intro: sig_frame_trans[OF f])
qed

lemma send_sig_posted:
  assumes "queues_ok k" "sig < NSIG" "\<not> is_dead k p"
  shows "\<exists>k'. send_sig p sig priv k = Some (if permitted k priv sig p then 0 else EACCES, k') \<and>
    posted sig (\<lambda>x. x = p \<and> permitted k priv sig p) k k'"
proof -
  obtain k' where k': "post_sig p sig k = Some k'" "posted sig (\<lambda>x. x = p) k k'"
    using post_sig_posted[OF assms(1,2)] by blast
  have n: "posted sig (\<lambda>x. x = p) k k" if "\<not> deliverable k p sig"
    using assms(1) that by (auto simp: posted_def)
  have "sig = 0 \<or> ignores k p sig \<Longrightarrow> \<not> deliverable k p sig" by (auto simp: deliverable_def)
  then show ?thesis using k' n posted_none[OF assms(1)] assms(3)
    by (auto simp: send_sig_def Let_def permitted_def)
qed

lemma killgroup_loop_posted:
  assumes "queues_ok k" "sig < NSIG" "distinct ps"
  shows "\<exists>k'. killgroup_loop grp sig priv ps found ret k =
      Some (if found \<or> (\<exists>x\<in>set ps. member_of k grp x \<and> permitted k priv sig x) then E_OK
            else if \<exists>x\<in>set ps. member_of k grp x then EACCES else ret, k') \<and>
    posted sig (\<lambda>x. x \<in> set ps \<and> member_of k grp x \<and> permitted k priv sig x) k k'"
  using assms
proof (induction ps arbitrary: k found ret)
  case Nil
  then show ?case using posted_none by simp
next
  case (Cons p ps)
  show ?case
  proof (cases "member_of k grp p")
    case False
    then have loop: "killgroup_loop grp sig priv (p # ps) found ret k = killgroup_loop grp sig priv ps found ret k"
      by (auto simp: member_of_def)
    have P: "(\<lambda>x. x \<in> set (p # ps) \<and> member_of k grp x \<and> permitted k priv sig x) =
        (\<lambda>x. x \<in> set ps \<and> member_of k grp x \<and> permitted k priv sig x)" using False by auto
    have E: "(\<exists>x\<in>set (p # ps). member_of k grp x \<and> permitted k priv sig x) =
        (\<exists>x\<in>set ps. member_of k grp x \<and> permitted k priv sig x)"
      "(\<exists>x\<in>set (p # ps). member_of k grp x) = (\<exists>x\<in>set ps. member_of k grp x)" using False by auto
    have "distinct ps" using Cons.prems(3) by simp
    then show ?thesis unfolding loop P E by (rule Cons.IH[OF Cons.prems(1,2)])
  next
    case True
    let ?c = "permitted k priv sig p"
    have d: "\<not> is_dead k p" using True by (simp add: member_of_def)
    obtain k1 where k1: "send_sig p sig priv k = Some (if ?c then 0 else EACCES, k1)" "posted sig (\<lambda>x. x = p \<and> ?c) k k1"
      using send_sig_posted[OF Cons.prems(1,2) d] by blast
    have ok: "queues_ok k1" using k1(2) by (simp add: posted_def)
    have loop: "killgroup_loop grp sig priv (p # ps) found ret k =
        killgroup_loop grp sig priv ps (found \<or> ?c) (if ?c then ret else EACCES) k1"
      using True k1(1) by (auto simp: member_of_def EACCES_def)
    obtain k' where k': "killgroup_loop grp sig priv ps (found \<or> ?c) (if ?c then ret else EACCES) k1 =
        Some (if found \<or> ?c \<or> (\<exists>x\<in>set ps. member_of k grp x \<and> permitted k priv sig x) then E_OK
            else if \<exists>x\<in>set ps. member_of k grp x then EACCES else if ?c then ret else EACCES, k')"
      "posted sig (\<lambda>x. x \<in> set ps \<and> member_of k grp x \<and> permitted k priv sig x) k1 k'"
      using Cons.IH[OF ok Cons.prems(2), of "found \<or> ?c" "if ?c then ret else EACCES"] Cons.prems(3)
      unfolding posted_tests[OF k1(2)] disj_assoc distinct.simps by blast
    have "(\<lambda>x. (x = p \<and> ?c) \<or> (x \<in> set ps \<and> member_of k grp x \<and> permitted k priv sig x)) =
        (\<lambda>x. x \<in> set (p # ps) \<and> member_of k grp x \<and> permitted k priv sig x)" using True by auto
    then have "posted sig (\<lambda>x. x \<in> set (p # ps) \<and> member_of k grp x \<and> permitted k priv sig x) k k'"
      using posted_trans[OF k1(2) k'(2)] by simp
    then show ?thesis using k'(1) True unfolding loop by auto
  qed
qed

lemma killgroup_posted:
  assumes "queues_ok k" "sig < NSIG" "distinct (proclist k)" "0 \<le> grp"
  shows "\<exists>k'. killgroup grp sig priv k =
      Some (if \<exists>x\<in>set (proclist k). member_of k grp x \<and> permitted k priv sig x then E_OK
            else if \<exists>x\<in>set (proclist k). member_of k grp x then EACCES else ENOENT, k') \<and>
    posted sig (\<lambda>x. x \<in> set (proclist k) \<and> member_of k grp x \<and> permitted k priv sig x) k k'"
  using killgroup_loop_posted[OF assms(1-3), of grp priv False ENOENT] assms(2,4) by (simp add: killgroup_def)

lemma killgroup_some:
  assumes "queues_ok k" "sig < NSIG" "distinct (proclist k)" "killgroup grp sig priv k = Some (r, k')"
  shows "\<exists>P. posted sig P k k' \<and> (\<forall>x. P x \<longrightarrow> permitted k priv sig x \<and> r = E_OK)"
proof (cases "0 \<le> grp")
  case True
  then show ?thesis using killgroup_posted[OF assms(1-3) True, of priv] assms(4) by auto
next
  case False
  then show ?thesis using assms posted_none by (auto simp: killgroup_def)
qed

lemma p_kill_post_posted:
  assumes "queues_ok k" "distinct (proclist k)" "p_kill_post n sig k = Some (r, k')"
  shows "(r = EBADARG \<and> k' = k) \<or> (\<exists>k0 P f. k0 = upd_cur f k \<and> 0 \<le> sig \<and> sig < 32 \<and>
    (\<forall>x. \<exists>a b. f x = x\<lparr>exception_pc := a, exception_addr := b\<rparr>) \<and>
    posted (nat sig) P k0 k' \<and> (\<forall>x. P x \<longrightarrow> permitted k0 False (nat sig) x \<and> r = E_OK))"
proof (cases "sig < 0 \<or> 32 \<le> sig")
  case True
  then show ?thesis using assms(3) by (auto simp: p_kill_post_def)
next
  case False
  define f :: "proc \<Rightarrow> proc" where "f = (\<lambda>x. if sig = int SIGSEGV \<or> sig = int SIGBUS
    then x\<lparr>exception_pc := syscall_pc x, exception_addr := - 1\<rparr> else x)"
  define k0 where "k0 = upd_cur f k"
  have f: "\<exists>a b. f x = x\<lparr>exception_pc := a, exception_addr := b\<rparr>" for x
    by (cases x) (auto simp: f_def)
  have k0: "(if sig = int SIGSEGV \<or> sig = int SIGBUS
      then upd_cur (\<lambda>x. x\<lparr>exception_pc := syscall_pc x, exception_addr := - 1\<rparr>) k else k) = k0"
    by (cases k) (auto simp: k0_def f_def upd_cur_def upd_proc_def)
  have ok: "queues_ok k0" unfolding k0_def upd_cur_def
    using assms(1) by (rule queues_ok_upd) (auto simp: f_def)
  have sig: "nat sig < 32" and d: "distinct (proclist k0)" using False assms(2) by (auto simp: k0_def)
  have kill: "p_kill_post n sig k =
    (if n < 0 then killgroup (signed_take_bit 15 (- n)) (nat sig) False k0
     else if n = 0 then killgroup (pgrp (proc_of k0)) (nat sig) False k0
     else case pid2proc n k0 of
            None \<Rightarrow> Some (ENOENT, k0)
          | Some p \<Rightarrow>
              if is_dead k0 p then Some (ENOENT, k0)
              else if euid (ucreds k0 (ucr (pcreds k0 (p_cred (proc_of k0))))) \<noteq> 0 \<and>
                ruid (pcreds k0 (p_cred (proc_of k0))) \<noteq> ruid (pcreds k0 (p_cred (procs k0 p)))
              then Some (EACCES, k0)
              else if sig \<noteq> 0 then map_option (\<lambda>k. (E_OK, k)) (post_sig p (nat sig) k0)
              else Some (E_OK, k0))"
    using False unfolding p_kill_post_def k0 Let_def by simp
  have "\<exists>P. posted (nat sig) P k0 k' \<and> (\<forall>x. P x \<longrightarrow> permitted k0 False (nat sig) x \<and> r = E_OK)"
  proof (cases "n \<le> 0")
    case True
    then show ?thesis using killgroup_some[OF ok sig d] assms(3) unfolding kill by (auto split: if_splits)
  next
    case pos: False
    consider "k' = k0" | p where "post_sig p (nat sig) k0 = Some k'" "may_signal k0 p" "r = E_OK"
      using assms(3) pos unfolding kill
      by (auto simp: may_signal_def suser_def Let_def split: option.splits if_splits)
    then show ?thesis
    proof cases
      case 1
      then show ?thesis using posted_none[OF ok] by auto
    next
      case 2
      then show ?thesis using post_sig_posted[OF ok sig, of p] by (auto simp: permitted_def)
    qed
  qed
  then show ?thesis using False f k0_def by fastforce
qed

section \<open>Masks and unstoppable signals\<close>

text \<open>
  The signals of \<open>UNMASKABLE\<close> are neither in the mask of the running process nor in that of one of its actions, and
  \<open>SIGKILL\<close> and \<open>SIGSTOP\<close> have their default action. While a handler runs, or while the process sleeps
  in \<open>stop\<close> or \<open>Pvfork\<close>, its mask is open: the mask with which it is to go on is set afterwards.
\<close>

definition acts_ok :: "kernel \<Rightarrow> bool" where
  "acts_ok k \<longleftrightarrow> (\<forall>i. sa_mask (SIGACTION k (curproc k) i) AND UNMASKABLE = 0) \<and>
     sa_handler (SIGACTION k (curproc k) SIGKILL) = SIG_DFL \<and> sa_handler (SIGACTION k (curproc k) SIGSTOP) = SIG_DFL"

definition masks_ok :: "kernel \<Rightarrow> bool" where
  "masks_ok k \<longleftrightarrow> acts_ok k \<and> p_sigmask (proc_of k) AND UNMASKABLE = 0"

definition masks_but :: "pptr \<Rightarrow> kernel \<Rightarrow> bool" where
  "masks_but c k \<longleftrightarrow> curproc k = c \<and> acts_ok k"

text \<open>
  What a call relies on: when a handler returns or the process runs again after a sleep, its table of
  actions is still in order. Nothing is assumed about masks, nor about other processes.
\<close>

definition masks_env :: "sig_env \<Rightarrow> bool" where
  "masks_env env \<longleftrightarrow> (\<forall>c k sig que cond. masks_but c k \<longrightarrow>
     masks_but c (snd (s_sendsig env sig k)) \<and> masks_but c (s_ext_on_signal env sig k) \<and>
     masks_but c (s_ext_on_stop env sig k) \<and> masks_but c (s_bombs env sig k) \<and> masks_but c (s_sleep env que cond k))"

lemma SIGACTION_upd_cur:
  "(\<And>x. p_sigacts (f x) = p_sigacts x) \<Longrightarrow> SIGACTION (upd_cur f k) p i = SIGACTION k p i"
  by (simp add: SIGACTION_def)

lemma acts_ok_upd: "(\<And>x. p_sigacts (f x) = p_sigacts x) \<Longrightarrow> acts_ok (upd_cur f k) = acts_ok k"
  by (simp add: acts_ok_def SIGACTION_upd_cur)

lemma proc_of_upd_cur [simp]: "proc_of (upd_cur f k) = f (proc_of k)"
  by (simp add: proc_of_def)

lemma masks_but_close:
  "masks_but c k \<Longrightarrow> m AND UNMASKABLE = 0 \<Longrightarrow> masks_ok (upd_cur (\<lambda>x. x\<lparr>p_sigmask := m\<rparr>) k)"
  by (simp add: masks_but_def masks_ok_def acts_ok_upd)

lemma masks_ok_but: "masks_ok k \<Longrightarrow> masks_but (curproc k) k"
  by (auto simp: masks_but_def masks_ok_def)

lemma masks_but_upd: "masks_but c k \<Longrightarrow> (\<And>x. p_sigacts (f x) = p_sigacts x) \<Longrightarrow> masks_but c (upd_cur f k)"
  by (simp add: masks_but_def acts_ok_upd)

lemma masks_ok_upd:
  "masks_ok k \<Longrightarrow> (\<And>x. p_sigacts (f x) = p_sigacts x) \<Longrightarrow>
   (\<And>x. p_sigmask (f x) AND UNMASKABLE = 0 \<or> p_sigmask (f x) = p_sigmask x) \<Longrightarrow> masks_ok (upd_cur f k)"
  unfolding masks_ok_def by (metis acts_ok_upd proc_of_upd_cur)

lemma masks_but_sig_frame: "sig_frame k k' \<Longrightarrow> masks_but c k \<Longrightarrow> masks_but c k'"
  by (auto simp: masks_but_def acts_ok_def SIGACTION_def sig_frame_same)

lemma move_q_sig_frame: "move_q q r p k = Some k' \<Longrightarrow> sig_frame k k'"
  using q_frame_sig_frame[OF q_frame_trans[OF rm_q_frame add_q_frame]] by (auto simp: move_q_eq split: option.splits)

lemma post_sig_sig_frame: "post_sig p sig k = Some k' \<Longrightarrow> sig_frame k k'"
  using sig_frame_pending sig_frame_trans[OF sig_frame_pending move_q_sig_frame]
  by (auto simp: post_sig_def Let_def split: if_splits)

lemma notify_stop_sig_frame: "notify_stop env k = Some k' \<Longrightarrow> sig_frame k k'"
  using post_sig_sig_frame sig_frame_trans[OF post_sig_sig_frame move_q_sig_frame]
  by (auto simp: notify_stop_def split: option.splits if_splits bind_splits)

lemma masks_envD:
  assumes "masks_env env" "masks_but c k"
  shows "masks_but c (snd (s_sendsig env sig k))" "masks_but c (s_ext_on_signal env sig k)"
    "masks_but c (s_ext_on_stop env sig k)" "masks_but c (s_bombs env sig k)" "masks_but c (s_sleep env que cond k)"
  using assms by (simp_all add: masks_env_def)

lemma stop_masks:
  assumes "stop env sig k = Some k'" "masks_env env" "masks_but c k"
  shows "masks_but c k'"
  using assms
  by (auto simp: stop_def Let_def dest!: notify_stop_sig_frame masks_but_sig_frame[of k]
      intro!: masks_but_upd masks_envD split: if_splits bind_splits)

fun sig_kernel :: "sig_out \<Rightarrow> kernel" where
  "sig_kernel (Goes_on k) = k"
| "sig_kernel (Terminate c k) = k"
| "sig_kernel (Pterm c k) = k"

lemma default_masks:
  "default_action env sig k = Some out \<Longrightarrow> masks_env env \<Longrightarrow> masks_but c k \<Longrightarrow> masks_but c (sig_kernel out)"
  by (auto simp: default_action_def Let_def intro!: masks_but_upd masks_envD dest: stop_masks split: if_splits)

lemma handle_masks:
  assumes "handle_sig env sig k = Some out" "masks_env env" "masks_but c k"
  shows "masks_but c (sig_kernel out)"
proof -
  define k1 where "k1 = upd_cur (\<lambda>x. x\<lparr>last_sig := sig\<rparr>) (s_ext_on_signal env sig k)"
  have 1: "masks_but c k1" unfolding k1_def using masks_envD(2)[OF assms(2,3)] by (rule masks_but_upd) simp
  have 2: "masks_but c (snd (s_sendsig env sig k1))" using assms(2) 1 by (simp add: masks_env_def)
  show ?thesis
    using assms(1) 1 2 default_masks[OF _ assms(2)]
    unfolding handle_sig_def Let_def k1_def[symmetric] by (auto split: if_splits prod.splits)
qed

lemma deliver_masks:
  assumes "deliver env i k = Some (Goes_on k')" "masks_env env" "masks_ok k"
  shows "masks_ok k' \<and> curproc k' = curproc k"
proof -
  define k1 where "k1 = upd_cur (\<lambda>x. x\<lparr>p_sigmask := handler_mask (SIGACTION k (curproc k) i) i (p_sigmask x)\<rparr>) k"
  obtain k2 where k2: "handle_sig env i k1 = Some (Goes_on k2)"
    "k' = upd_cur (\<lambda>x. x\<lparr>p_sigmask := p_sigmask (proc_of k)\<rparr>) k2"
    using assms(1) by (auto simp: deliver_def Let_def k1_def split: option.splits sig_out.splits)
  have "masks_but (curproc k) k1" unfolding k1_def using masks_ok_but[OF assms(3)] by (rule masks_but_upd) simp
  then have b: "masks_but (curproc k) k2" using handle_masks[OF k2(1) assms(2)] by simp
  have "p_sigmask (proc_of k) AND UNMASKABLE = 0" using assms(3) by (simp add: masks_ok_def)
  then show ?thesis using masks_but_close[OF b] b by (simp add: k2(2) masks_but_def)
qed

lemma stop_masks_ok:
  assumes "stop env sig k = Some k'" "masks_env env" "masks_ok k"
  shows "masks_ok k' \<and> curproc k' = curproc k"
proof -
  have b: "masks_but (curproc k) k'" using stop_masks[OF assms(1,2) masks_ok_but[OF assms(3)]] .
  have "p_sigmask (proc_of k') AND UNMASKABLE = 0"
  proof (cases "pid (proc_of k) = 0")
    case True
    then show ?thesis using assms(1,3) by (auto simp: stop_def masks_ok_def split: if_splits)
  next
    case False
    then obtain k1 k2 where k1: "notify_stop env k = Some k1"
      "k' = upd_cur (\<lambda>x. x\<lparr>p_sigmask := p_sigmask (proc_of k1), sigpending := sigpending x AND NOT STOPSIGS\<rparr>) k2"
      using assms(1) by (auto simp: stop_def Let_def split: if_splits bind_splits)
    have "p_sigmask (proc_of k1) = p_sigmask (proc_of k)"
      using notify_stop_sig_frame[OF k1(1)] by (simp add: proc_of_def sig_frame_same)
    then show ?thesis using assms(3) by (simp add: k1(2) masks_ok_def)
  qed
  then show ?thesis using b unfolding masks_ok_def masks_but_def by metis
qed

lemma check_pass_masks:
  assumes "check_pass env sigs ds is k = Some out" "masks_env env" "masks_ok k"
  shows "(\<forall>k'. out = Inl k' \<or> out = Inr (Goes_on k') \<longrightarrow> masks_ok k')"
  using assms
proof (induction env sigs ds "is" k rule: check_pass.induct)
  case (2 env sigs ds i "is" k)
  define k1 where "k1 = upd_cur (\<lambda>x. x\<lparr>sigpending := sigpending x AND NOT (sigbit i)\<rparr>) k"
  have 1: "masks_ok k1" unfolding k1_def using 2(5) by (rule masks_ok_upd) simp_all
  show ?case
  proof (cases "sigs AND sigbit i = 0")
    case True
    then show ?thesis using 2 by simp
  next
    case False
    show ?thesis
      using 2(3) False 2(2)[OF False k1_def _ _ _ _ 2(4)] stop_masks_ok[OF _ 2(4) 1] deliver_masks[OF _ 2(4) 1]
      unfolding check_pass.simps(2) if_not_P[OF False] Let_def k1_def[symmetric]
      by (auto split: if_splits option.splits sig_out.splits)
  qed
qed auto

lemma check_top_masks:
  "check_top fuel env k = Some (Goes_on k') \<Longrightarrow> masks_env env \<Longrightarrow> masks_ok k \<Longrightarrow> masks_ok k'"
proof (induction fuel arbitrary: k)
  case (Suc fuel)
  define k1 where "k1 = upd_cur (\<lambda>x. x\<lparr>sigpending := sigpending x AND NOT 1\<rparr>) k"
  have "masks_ok k1" unfolding k1_def using Suc.prems(3) by (rule masks_ok_upd) simp_all
  then show ?case
    using Suc.prems Suc.IH check_pass_masks[OF _ Suc.prems(2), where k = k1]
    unfolding check_top.simps Let_def k1_def[symmetric]
    by (auto split: if_splits option.splits sum.splits)
qed simp

lemma check_sigs_masks:
  "check_sigs fuel env k = Some (Goes_on k') \<Longrightarrow> masks_env env \<Longrightarrow> masks_ok k \<Longrightarrow> masks_ok k'"
  using check_top_masks by (auto simp: check_sigs_def split: if_splits)

lemma masks_ok_sig_frame: "sig_frame k k' \<Longrightarrow> masks_ok k \<Longrightarrow> masks_ok k'"
  by (simp add: masks_ok_def acts_ok_def SIGACTION_def proc_of_def sig_frame_same)

lemma send_sig_sig_frame: "send_sig p sig priv k = Some (r, k') \<Longrightarrow> sig_frame k k'"
  by (auto simp: send_sig_def Let_def post_sig_sig_frame split: if_splits)

lemma killgroup_loop_sig_frame: "killgroup_loop grp sig priv ps found ret k = Some (r, k') \<Longrightarrow> sig_frame k k'"
proof (induction grp sig priv ps found ret k rule: killgroup_loop.induct)
  case (2 grp sig priv p ps found ret k)
  then show ?case
    by (auto split: if_splits option.splits prod.splits dest!: send_sig_sig_frame intro: sig_frame_trans)
qed simp

lemma p_kill_post_masks:
  assumes "p_kill_post n sig k = Some (r, k')" "masks_ok k"
  shows "masks_ok k'"
proof (cases "sig < 0 \<or> 32 \<le> sig")
  case True
  then show ?thesis using assms by (auto simp: p_kill_post_def)
next
  case False
  define k0 where "k0 = (if sig = int SIGSEGV \<or> sig = int SIGBUS
    then upd_cur (\<lambda>x. x\<lparr>exception_pc := syscall_pc x, exception_addr := - 1\<rparr>) k else k)"
  have "masks_ok k0" using assms(2) masks_ok_upd[OF assms(2)] by (simp add: k0_def)
  moreover have "sig_frame k0 k'"
    using assms(1) False unfolding p_kill_post_def Let_def k0_def[symmetric]
    by (auto simp: killgroup_def dest: killgroup_loop_sig_frame post_sig_sig_frame split: if_splits option.splits)
  ultimately show ?thesis using masks_ok_sig_frame by blast
qed

lemma upd_sigact_masks:
  assumes "masks_ok k" "sig \<noteq> SIGKILL" "sig \<noteq> SIGSTOP" "\<And>a. sa_mask (f a) AND UNMASKABLE = 0"
  shows "masks_ok (upd_sigact p sig f k)"
  using assms by (auto simp: masks_ok_def acts_ok_def SIGACTION_def proc_of_def upd_sigact_def Let_def)

lemma and_not_unmaskable [simp]: "(m AND NOT UNMASKABLE) AND UNMASKABLE = 0"
  by (simp add: and.assoc)

lemma and_unmaskable_mono: "m AND UNMASKABLE = 0 \<Longrightarrow> (m AND n) AND UNMASKABLE = 0"
proof -
  assume m: "m AND UNMASKABLE = 0"
  have "(m AND n) AND UNMASKABLE = n AND (m AND UNMASKABLE)" by (simp add: and.assoc and.left_commute)
  then show ?thesis using m by simp
qed

lemma masks_ok_clear: "masks_ok k \<Longrightarrow> masks_ok (upd_cur (\<lambda>x. x\<lparr>p_sigmask := p_sigmask x AND n\<rparr>) k)"
  by (simp add: masks_ok_def acts_ok_upd and_unmaskable_mono)

text \<open>What \<open>Psigaction\<close> and \<open>Psignal\<close> have in common.\<close>

definition install :: "nat \<Rightarrow> u32 \<Rightarrow> (sigaction \<Rightarrow> sigaction) \<Rightarrow> kernel \<Rightarrow> kernel" where
  "install n h f k =
    (let k = upd_sigact (curproc k) n f k;
         k = (if h = SIG_IGN then upd_cur (\<lambda>x. x\<lparr>sigpending := sigpending x AND NOT (sigbit n)\<rparr>) k else k)
     in upd_cur (\<lambda>x. x\<lparr>p_sigmask := p_sigmask x AND NOT (sigbit n)\<rparr>) k)"

lemma install_masks:
  assumes "masks_ok k" "n \<noteq> SIGKILL" "n \<noteq> SIGSTOP" "\<And>a. sa_mask (f a) AND UNMASKABLE = 0"
  shows "masks_ok (install n h f k)"
proof -
  define k1 where "k1 = upd_sigact (curproc k) n f k"
  have "masks_ok k1" unfolding k1_def using assms by (rule upd_sigact_masks)
  moreover from this have "masks_ok (upd_cur (\<lambda>x. x\<lparr>sigpending := sigpending x AND NOT (sigbit n)\<rparr>) k1)"
    by (rule masks_ok_upd) simp_all
  ultimately show ?thesis unfolding install_def Let_def k1_def[symmetric] by (intro masks_ok_clear) simp
qed

lemma sigaction_install:
  "sys_p_sigaction sig act k =
    (if sig < 1 \<or> sig \<ge> int NSIG then (EBADARG, None, k)
     else if act \<noteq> None \<and> (sig = int SIGKILL \<or> sig = int SIGSTOP) then (EACCES, None, k)
     else (E_OK, Some ((SIGACTION k (curproc k) (nat sig))\<lparr>sa_flags := sa_flags (SIGACTION k (curproc k) (nat sig)) AND SAUSER\<rparr>),
       case act of None \<Rightarrow> k | Some act \<Rightarrow> install (nat sig) (sa_handler act)
         (\<lambda>a. a\<lparr>sa_handler := sa_handler act, sa_mask := sa_mask act AND NOT UNMASKABLE,
                sa_flags := (sa_flags a AND NOT SAUSER) OR (sa_flags act AND SAUSER)\<rparr>) k))"
  by (cases act) (simp_all add: sys_p_sigaction_def install_def Let_def)

lemma signal_install:
  "sys_p_signal sig h k =
    (if sig < 1 \<or> sig \<ge> int NSIG then (Inl EBADARG, k)
     else if sig = int SIGKILL \<or> sig = int SIGSTOP then (Inl EACCES, k)
     else (Inr (sa_handler (SIGACTION k (curproc k) (nat sig))),
       install (nat sig) h (\<lambda>a. a\<lparr>sa_handler := h, sa_mask := 0, sa_flags := 0\<rparr>) k))"
  by (simp add: sys_p_signal_def install_def Let_def)

lemma nat_not_unstoppable: "1 \<le> sig \<Longrightarrow> sig \<noteq> 9 \<Longrightarrow> sig \<noteq> 17 \<Longrightarrow> nat sig \<noteq> SIGKILL \<and> nat sig \<noteq> SIGSTOP"
  by linarith

lemma sigaction_masks:
  assumes "sys_p_sigaction sig act k = (r, oact, k')" "masks_ok k"
  shows "masks_ok k'"
proof (cases "k' = k")
  case False
  then obtain a where act: "act = Some a" using assms(1) by (cases act) (auto simp: sigaction_install split: if_splits)
  with False have a: "1 \<le> sig" "sig \<noteq> 9" "sig \<noteq> 17"
    "k' = install (nat sig) (sa_handler a) (\<lambda>x. x\<lparr>sa_handler := sa_handler a, sa_mask := sa_mask a AND NOT UNMASKABLE,
            sa_flags := (sa_flags x AND NOT SAUSER) OR (sa_flags a AND SAUSER)\<rparr>) k"
    using assms(1) unfolding sigaction_install act by (auto split: if_splits)
  show ?thesis unfolding a(4) using nat_not_unstoppable[OF a(1-3)] assms(2) by (intro install_masks) auto
qed (use assms in simp)

lemma signal_masks:
  assumes "sys_p_signal sig h k = (r, k')" "masks_ok k"
  shows "masks_ok k'"
proof (cases "k' = k")
  case False
  then have a: "1 \<le> sig" "sig \<noteq> 9" "sig \<noteq> 17" "k' = install (nat sig) h (\<lambda>x. x\<lparr>sa_handler := h, sa_mask := 0, sa_flags := 0\<rparr>) k"
    using assms(1) unfolding signal_install by (auto split: if_splits)
  show ?thesis unfolding a(4) using nat_not_unstoppable[OF a(1-3)] assms(2) by (intro install_masks) auto
qed (use assms in simp)

lemma sigblock_masks: "sys_p_sigblock m k = (r, k') \<Longrightarrow> masks_ok k \<Longrightarrow> masks_ok k'"
  by (auto simp: sys_p_sigblock_def Let_def masks_ok_def acts_ok_upd bit.conj_disj_distrib2)

lemma setmask_masks: "masks_ok k \<Longrightarrow> masks_ok (upd_cur (\<lambda>x. x\<lparr>p_sigmask := m AND NOT UNMASKABLE\<rparr>) k)"
  by (rule masks_ok_upd) simp_all

lemma returns_Ret: "returns r out = Some (Ret r' k) \<longleftrightarrow> r' = r \<and> out = Some (Goes_on k)"
proof (cases out)
  case (Some a)
  then show ?thesis by (cases a) (auto simp: returns_def)
qed (simp add: returns_def)

lemma masks_but_cur: "masks_but c k \<Longrightarrow> masks_but (curproc k) k"
  by (simp add: masks_but_def)

lemma sigpause_masks:
  assumes "sys_p_sigpause fuel env m k = Some (Ret r k')" "masks_env env" "masks_ok k"
  shows "masks_ok k'"
proof -
  define k1 where "k1 = upd_cur (\<lambda>x. x\<lparr>p_sigmask := m AND NOT UNMASKABLE\<rparr>) k"
  have 1: "masks_ok k1" unfolding k1_def using assms(3) by (rule setmask_masks)
  obtain k2 where k2: "k2 = s_sleep env IO_Q (- 1) k1 \<or> check_sigs fuel env k1 = Some (Goes_on k2)"
    "check_sigs fuel env (upd_cur (\<lambda>x. x\<lparr>p_sigmask := p_sigmask (proc_of k)\<rparr>) k2) = Some (Goes_on k')"
    using assms(1) unfolding sys_p_sigpause_def Let_def k1_def[symmetric]
    by (auto simp: returns_Ret split: if_splits option.splits sig_out.splits)
  have b: "masks_but (curproc k2) k2"
    using k2(1)
  proof
    assume "k2 = s_sleep env IO_Q (- 1) k1"
    then show ?thesis using masks_but_cur[OF masks_envD(5)[OF assms(2) masks_ok_but[OF 1]]] by simp
  next
    assume "check_sigs fuel env k1 = Some (Goes_on k2)"
    then show ?thesis using check_sigs_masks[OF _ assms(2) 1] masks_ok_but by blast
  qed
  have "p_sigmask (proc_of k) AND UNMASKABLE = 0" using assms(3) by (simp add: masks_ok_def)
  then show ?thesis using check_sigs_masks[OF k2(2) assms(2)] masks_but_close[OF b] by simp
qed

text \<open>
  A signal call of the running process that returns to it, or what happens between two of its calls
  (other processes run): that leaves its mask and its actions as they are.
\<close>

inductive sig_call :: "sig_env \<Rightarrow> kernel \<Rightarrow> kernel \<Rightarrow> bool" for env where
  call_kill: "sys_p_kill fuel env n sig k = Some (Ret r k') \<Longrightarrow> sig_call env k k'"
| call_sigaction: "sys_p_sigaction n act k = (r, oact, k') \<Longrightarrow> sig_call env k k'"
| call_signal: "sys_p_signal n h k = (old, k') \<Longrightarrow> sig_call env k k'"
| call_sigblock: "sys_p_sigblock m k = (om, k') \<Longrightarrow> sig_call env k k'"
| call_sigsetmask: "sys_p_sigsetmask fuel env m k = Some (Ret om k') \<Longrightarrow> sig_call env k k'"
| call_sigpending: "sys_p_sigpending fuel env k = Some (Ret om k') \<Longrightarrow> sig_call env k k'"
| call_sigpause: "sys_p_sigpause fuel env m k = Some (Ret r k') \<Longrightarrow> sig_call env k k'"
| call_raise: "raise fuel env i k = Some (Goes_on k') \<Longrightarrow> sig_call env k k'"
| between_calls: "curproc k' = curproc k \<Longrightarrow> p_sigmask (proc_of k') = p_sigmask (proc_of k) \<Longrightarrow>
    (\<And>i. SIGACTION k' (curproc k) i = SIGACTION k (curproc k) i) \<Longrightarrow> sig_call env k k'"

lemma sig_call_masks:
  assumes "sig_call env k k'" "masks_env env" "masks_ok k"
  shows "masks_ok k'"
  using assms(1)
proof cases
  case (call_kill fuel n sig r)
  then show ?thesis
    using p_kill_post_masks[OF _ assms(3)] check_sigs_masks[OF _ assms(2)]
    by (auto simp: sys_p_kill_def returns_Ret split: bind_splits if_splits)
next
  case (call_sigsetmask fuel m om)
  then show ?thesis using check_sigs_masks[OF _ assms(2) setmask_masks[OF assms(3)]]
    by (auto simp: sys_p_sigsetmask_def returns_Ret)
next
  case (call_sigpending fuel om)
  then show ?thesis using check_sigs_masks[OF _ assms(2,3)]
    by (auto simp: sys_p_sigpending_def split: option.splits sig_out.splits)
next
  case (call_sigpause fuel m r)
  then show ?thesis using sigpause_masks assms(2,3) by blast
next
  case (call_raise fuel i)
  then show ?thesis
    using check_sigs_masks[OF _ assms(2)] masks_ok_sig_frame[OF post_sig_sig_frame assms(3)]
    by (auto simp: raise_def split: bind_splits)
next
  case between_calls
  then show ?thesis using assms(3) by (simp add: masks_ok_def acts_ok_def)
next
  case call_sigaction
  then show ?thesis using sigaction_masks assms(3) by blast
next
  case call_signal
  then show ?thesis using signal_masks assms(3) by blast
next
  case call_sigblock
  then show ?thesis using sigblock_masks assms(3) by blast
qed

section \<open>Delivery of the pending signals\<close>

lemma bit_sigbit: "i < 32 \<Longrightarrow> bit (sigbit i) j \<longleftrightarrow> j = i"
  by (auto simp: sigbit_def bit_exp_iff)

lemma and_sigbit: "i < 32 \<Longrightarrow> m AND sigbit i = 0 \<longleftrightarrow> \<not> bit m i"
proof
  assume i: "i < 32" and z: "m AND sigbit i = 0"
  have "bit (m AND sigbit i) i \<longleftrightarrow> bit m i" using i by (simp add: bit_and_iff bit_sigbit)
  then show "\<not> bit m i" using z by simp
next
  assume "i < 32" "\<not> bit m i"
  then show "m AND sigbit i = 0" by (intro bit_word_eqI) (auto simp: bit_and_iff bit_sigbit)
qed

lemma check_pass_skip:
  "\<forall>i\<in>set is. sigs AND sigbit i = 0 \<Longrightarrow> check_pass env sigs ds (is @ js) k = check_pass env sigs ds js k"
  by (induction "is") auto

text \<open>The running process \<open>c\<close> has the default action for \<open>SIGKILL\<close>, and the signal is pending.\<close>

definition armed :: "pptr \<Rightarrow> kernel \<Rightarrow> bool" where
  "armed c k \<longleftrightarrow> curproc k = c \<and> sa_handler (SIGACTION k c SIGKILL) = SIG_DFL"

definition doomed :: "pptr \<Rightarrow> kernel \<Rightarrow> bool" where
  "doomed c k \<longleftrightarrow> armed c k \<and> bit (sigpending (proc_of k)) SIGKILL"

definition spares_kill :: "(kernel \<Rightarrow> kernel) \<Rightarrow> bool" where
  "spares_kill g \<longleftrightarrow> (\<forall>c k. (armed c k \<longrightarrow> armed c (g k)) \<and> (doomed c k \<longrightarrow> doomed c (g k)))"

text \<open>What delivery calls, when it returns to the process, has not taken \<open>SIGKILL\<close> back nor given it a handler.\<close>

definition kill_env :: "sig_env \<Rightarrow> bool" where
  "kill_env env \<longleftrightarrow> (\<forall>sig que cond. spares_kill (\<lambda>k. snd (s_sendsig env sig k)) \<and> spares_kill (s_ext_on_signal env sig) \<and>
     spares_kill (s_ext_on_stop env sig) \<and> spares_kill (s_bombs env sig) \<and> spares_kill (s_sleep env que cond))"

lemma kill_envD:
  assumes "kill_env env" "doomed c k"
  shows "doomed c (snd (s_sendsig env sig k))" "doomed c (s_ext_on_signal env sig k)"
    "doomed c (s_ext_on_stop env sig k)" "doomed c (s_sleep env que cond k)"
  using assms by (simp_all add: kill_env_def spares_kill_def)

lemma armed_upd:
  "armed c k \<Longrightarrow> (\<And>x. p_sigacts (f x) = p_sigacts x) \<Longrightarrow> armed c (upd_cur f k)"
  unfolding armed_def by (simp add: SIGACTION_upd_cur)

lemma doomed_upd:
  "doomed c k \<Longrightarrow> (\<And>x. p_sigacts (f x) = p_sigacts x) \<Longrightarrow>
   (\<And>x. bit (sigpending x) SIGKILL \<Longrightarrow> bit (sigpending (f x)) SIGKILL) \<Longrightarrow> doomed c (upd_cur f k)"
  unfolding doomed_def by (simp add: armed_upd)

lemma handle_kill:
  assumes "kill_env env" "armed c k"
  shows "\<exists>k'. handle_sig env SIGKILL k = Some (Terminate (256 * 9) k')"
proof -
  define k1 where "k1 = upd_cur (\<lambda>x. x\<lparr>last_sig := SIGKILL\<rparr>) (s_ext_on_signal env SIGKILL k)"
  have "armed c (s_ext_on_signal env SIGKILL k)" using assms by (simp add: kill_env_def spares_kill_def)
  then have "armed c k1" unfolding k1_def by (rule armed_upd) simp
  then have "sa_handler (SIGACTION k1 (curproc k1) SIGKILL) = SIG_DFL" by (simp add: armed_def)
  then show ?thesis by (simp add: handle_sig_def Let_def k1_def default_action_def)
qed

lemma deliver_kill:
  assumes "kill_env env" "armed c k"
  shows "\<exists>k'. deliver env SIGKILL k = Some (Terminate (256 * 9) k')"
proof -
  define k1 where "k1 = upd_cur (\<lambda>x. x\<lparr>p_sigmask := handler_mask (SIGACTION k (curproc k) SIGKILL) SIGKILL (p_sigmask x)\<rparr>) k"
  have "armed c k1" unfolding k1_def using assms(2) by (rule armed_upd) simp
  then show ?thesis using handle_kill[OF assms(1)] by (fastforce simp: deliver_def Let_def k1_def)
qed

lemma bit_not_sigbit: "i < 32 \<Longrightarrow> i \<noteq> j \<Longrightarrow> bit (m :: u32) j \<Longrightarrow> bit (m AND NOT (sigbit i)) j"
  by (auto simp: bit_and_iff bit_not_iff bit_sigbit dest: bit_imp_le_length)

lemma kill_not_stop: "bit (m :: u32) SIGKILL \<Longrightarrow> bit (m AND NOT STOPSIGS) SIGKILL"
  by (simp add: STOPSIGS_def bit_and_iff bit_or_iff bit_not_iff bit_sigbit)

lemma move_q_pending: "move_q q r p k = Some k' \<Longrightarrow> sigpending (procs k' x) = sigpending (procs k x)"
  using q_frame_core(5)[OF q_frame_trans[OF rm_q_frame add_q_frame]] by (auto simp: move_q_eq split: option.splits)

lemma post_sig_pending:
  "post_sig p sig k = Some k' \<Longrightarrow> bit (sigpending (procs k x)) j \<Longrightarrow> bit (sigpending (procs k' x)) j"
  by (auto simp: post_sig_def Let_def move_q_pending bit_or_iff split: if_splits)

lemma notify_stop_doomed:
  assumes "notify_stop env k = Some k'" "doomed c k"
  shows "doomed c k'"
proof -
  have "bit (sigpending (procs k x)) j \<Longrightarrow> bit (sigpending (procs k' x)) j" for x j
    using assms(1)
    by (auto simp: notify_stop_def post_sig_pending move_q_pending split: option.splits if_splits bind_splits)
  then show ?thesis
    using assms(2) by (auto simp: doomed_def armed_def SIGACTION_def proc_of_def
        sig_frame_same[OF notify_stop_sig_frame[OF assms(1)]])
qed

lemma stop_doomed:
  assumes "stop env sig k = Some k'" "kill_env env" "doomed c k"
  shows "doomed c k' \<and> p_sigmask (proc_of k') = p_sigmask (proc_of k)"
proof (cases "pid (proc_of k) = 0")
  case True
  then show ?thesis using assms(1,3) by (auto simp: stop_def split: if_splits)
next
  case False
  then obtain k1 k2 k3 where k: "notify_stop env k = Some k1" "k2 = k1 \<or> (\<exists>m. k2 = upd_cur (\<lambda>x. x\<lparr>p_sigmask := p_sigmask x OR m\<rparr>) k1)"
    "k3 = s_sleep env STOP_Q (of_nat (256 * sig) OR 127) (s_ext_on_stop env sig k2)"
    "k' = upd_cur (\<lambda>x. x\<lparr>p_sigmask := p_sigmask (proc_of k1), sigpending := sigpending x AND NOT STOPSIGS\<rparr>) k3"
    using assms(1) by (auto simp: stop_def Let_def split: if_splits bind_splits)
  have "doomed c k2" using k(2) notify_stop_doomed[OF k(1) assms(3)] by (auto intro: doomed_upd)
  then have "doomed c k3" unfolding k(3) using kill_envD(3,4)[OF assms(2)] by blast
  then have "doomed c k'" unfolding k(4) by (rule doomed_upd) (simp_all add: kill_not_stop)
  moreover have "p_sigmask (proc_of k1) = p_sigmask (proc_of k)"
    using notify_stop_sig_frame[OF k(1)] by (simp add: proc_of_def sig_frame_same)
  ultimately show ?thesis by (simp add: k(4))
qed

lemma default_doomed:
  assumes "default_action env sig k = Some (Goes_on k')" "kill_env env" "doomed c k"
  shows "doomed c k'"
proof -
  have cont: "doomed c (upd_cur (\<lambda>x. x\<lparr>sigpending := sigpending x AND NOT STOPSIGS\<rparr>) k)"
    using assms(3) by (rule doomed_upd) (simp_all add: kill_not_stop)
  show ?thesis
    using assms(1,3) cont stop_doomed[OF _ assms(2,3)] by (auto simp: default_action_def Let_def split: if_splits)
qed

lemma handle_doomed:
  assumes "handle_sig env i k = Some (Goes_on k')" "kill_env env" "doomed c k"
  shows "doomed c k'"
proof -
  define k1 where "k1 = upd_cur (\<lambda>x. x\<lparr>last_sig := i\<rparr>) (s_ext_on_signal env i k)"
  have 1: "doomed c k1" unfolding k1_def using kill_envD(2)[OF assms(2,3)] by (rule doomed_upd) simp_all
  obtain bad k2 where k2: "s_sendsig env i k1 = (bad, k2)" by (cases "s_sendsig env i k1")
  have 2: "doomed c k2" using kill_envD(1)[OF assms(2) 1, of i] k2 by simp
  show ?thesis
    using assms(1) 1 2 default_doomed[OF _ assms(2) 1] default_doomed[OF _ assms(2) 2]
    unfolding handle_sig_def Let_def k1_def[symmetric] by (auto simp: k2 split: if_splits)
qed

lemma deliver_doomed:
  assumes "deliver env i k = Some (Goes_on k')" "kill_env env" "doomed c k"
  shows "doomed c k' \<and> p_sigmask (proc_of k') = p_sigmask (proc_of k)"
proof -
  define k1 where "k1 = upd_cur (\<lambda>x. x\<lparr>p_sigmask := handler_mask (SIGACTION k (curproc k) i) i (p_sigmask x)\<rparr>) k"
  obtain k2 where k2: "handle_sig env i k1 = Some (Goes_on k2)"
    "k' = upd_cur (\<lambda>x. x\<lparr>p_sigmask := p_sigmask (proc_of k)\<rparr>) k2"
    using assms(1) by (auto simp: deliver_def Let_def k1_def split: option.splits sig_out.splits)
  have "doomed c k1" unfolding k1_def using assms(3) by (rule doomed_upd) simp_all
  from handle_doomed[OF k2(1) assms(2) this] have "doomed c k'" unfolding k2(2) by (rule doomed_upd) simp_all
  then show ?thesis by (simp add: k2(2))
qed

text \<open>A pass that has \<open>SIGKILL\<close> before it does not come to its end; only a traced process stops first.\<close>

lemma check_pass_doomed:
  assumes "check_pass env sigs ds is k = Some out" "kill_env env" "doomed c k" "SIGKILL \<in> set is" "bit sigs SIGKILL"
    and "\<forall>i\<in>set is. i < 32"
  shows "out \<noteq> Inr (Goes_on k') \<and> (out = Inl k' \<longrightarrow> doomed c k' \<and> p_sigmask (proc_of k') = p_sigmask (proc_of k))"
  using assms(1,3-6)
proof (induction "is" arbitrary: k)
  case (Cons i "is")
  show ?case
  proof (cases "sigs AND sigbit i = 0")
    case True
    then have "SIGKILL \<in> set is" using Cons.prems(3,4) by (auto simp: and_sigbit)
    then show ?thesis using Cons.IH[of k] Cons.prems True by simp
  next
    case False
    define k1 where "k1 = upd_cur (\<lambda>x. x\<lparr>sigpending := sigpending x AND NOT (sigbit i)\<rparr>) k"
    note run = Cons.prems(1)[unfolded check_pass.simps(2) if_not_P[OF False] Let_def, folded k1_def]
    have arm: "armed c k1" unfolding k1_def using Cons.prems(2) by (intro armed_upd) (simp_all add: doomed_def)
    show ?thesis
    proof (cases "i = SIGKILL")
      case True
      then obtain k3 where "deliver env i k1 = Some (Terminate (256 * 9) k3)" using deliver_kill[OF assms(2) arm] by blast
      then show ?thesis using run True by auto
    next
      case other: False
      have d: "doomed c k1" unfolding k1_def using Cons.prems(2)
        by (rule doomed_upd) (use Cons.prems(5) other in \<open>auto intro: bit_not_sigbit\<close>)
      have m: "p_sigmask (proc_of k1) = p_sigmask (proc_of k)" by (simp add: k1_def)
      show ?thesis
      proof (cases "ptracer (proc_of k1) \<noteq> None \<and> \<not> ds \<and> i \<noteq> SIGCONT \<and> i \<noteq> SIGKILL")
        case True
        then show ?thesis using run stop_doomed[OF _ assms(2) d] m by auto
      next
        case no: False
        note run = run[unfolded if_not_P[OF no]]
        show ?thesis
        proof (cases "\<exists>k2. deliver env i k1 = Some (Goes_on k2)")
          case True
          then obtain k2 where k2: "deliver env i k1 = Some (Goes_on k2)" by blast
          note dk = deliver_doomed[OF k2 assms(2) d]
          have "check_pass env sigs ds is k2 = Some out" using run k2 by simp
          from Cons.IH[OF this] dk m other Cons.prems(3-5) show ?thesis by auto
        qed (use run in \<open>auto split: option.splits sig_out.splits\<close>)
      qed
    qed
  qed
qed simp

lemma check_top_doomed:
  assumes "kill_env env" "doomed c k" "\<not> bit (p_sigmask (proc_of k)) SIGKILL"
  shows "check_top fuel env k \<noteq> Some (Goes_on k')"
  using assms(2,3)
proof (induction fuel arbitrary: k)
  case (Suc fuel)
  define sigs where "sigs = sigs_to_check (proc_of k)"
  define k1 where "k1 = upd_cur (\<lambda>x. x\<lparr>sigpending := sigpending x AND NOT 1\<rparr>) k"
  have b: "bit sigs SIGKILL"
    using Suc.prems by (auto simp: sigs_def sigs_to_check_def doomed_def bit_and_iff bit_not_iff)
  then have ne: "sigs \<noteq> 0" by auto
  have d: "doomed c k1" unfolding k1_def using Suc.prems(1)
    by (rule doomed_upd) (simp_all add: bit_and_iff bit_not_iff bit_1_iff)
  have m: "p_sigmask (proc_of k1) = p_sigmask (proc_of k)" by (simp add: k1_def)
  have top: "check_top (Suc fuel) env k =
      (case check_pass env sigs (sigpending (proc_of k) AND 1 \<noteq> 0) [1..<NSIG] k1 of
         None \<Rightarrow> None | Some (Inl k) \<Rightarrow> check_top fuel env k | Some (Inr out) \<Rightarrow> Some out)"
    using ne unfolding check_top.simps Let_def sigs_def[symmetric] k1_def[symmetric] by simp
  show ?case
  proof (cases "check_pass env sigs (sigpending (proc_of k) AND 1 \<noteq> 0) [1..<NSIG] k1")
    case (Some out)
    note p = check_pass_doomed[OF Some assms(1) d _ b]
    show ?thesis
    proof (cases out)
      case (Inl k2)
      then show ?thesis unfolding top Some using p[of k2] Suc.IH[of k2] Suc.prems(2) m by simp
    next
      case (Inr o')
      then show ?thesis unfolding top Some using p[of k'] by simp
    qed
  next
    case None
    show ?thesis unfolding top None by simp
  qed
qed simp

lemma check_top_kill:
  assumes "kill_env env" "doomed (curproc k) k" "\<not> bit (p_sigmask (proc_of k)) SIGKILL"
    and low: "\<forall>i\<in>set [1..<9]. \<not> bit (sigs_to_check (proc_of k)) i"
  shows "\<exists>k'. check_top (Suc n) env k = Some (Terminate (256 * 9) k')"
proof -
  define sigs where "sigs = sigs_to_check (proc_of k)"
  define k1 where "k1 = upd_cur (\<lambda>x. x\<lparr>sigpending := sigpending x AND NOT 1\<rparr>) k"
  define k2 where "k2 = upd_cur (\<lambda>x. x\<lparr>sigpending := sigpending x AND NOT (sigbit SIGKILL)\<rparr>) k1"
  define ds where "ds = (sigpending (proc_of k) AND 1 \<noteq> 0)"
  have b: "bit sigs SIGKILL"
    using assms(2,3) by (auto simp: sigs_def sigs_to_check_def doomed_def bit_and_iff bit_not_iff)
  then have ne: "sigs \<noteq> 0" "sigs AND sigbit SIGKILL \<noteq> 0" by (auto simp: and_sigbit)
  have "armed (curproc k) k2"
    unfolding k2_def k1_def using assms(2) by (intro armed_upd) (simp_all add: doomed_def)
  then obtain k4 where d: "deliver env SIGKILL k2 = Some (Terminate (256 * 9) k4)"
    using deliver_kill[OF assms(1)] by blast
  have u: "[1..<32] = [1..<9] @ SIGKILL # [10..<32]" by (simp add: upt_rec)
  have "check_pass env sigs ds [1..<32] k1 = check_pass env sigs ds (SIGKILL # [10..<32]) k1"
    unfolding u using low by (intro check_pass_skip) (auto simp: and_sigbit sigs_def)
  also have "\<dots> = Some (Inr (Terminate (256 * 9) k4))" using ne(2) d by (simp add: k2_def[symmetric] Let_def)
  finally show ?thesis using ne(1)
    unfolding check_top.simps Let_def k1_def[symmetric] sigs_def[symmetric] ds_def[symmetric] by simp
qed

text \<open>
  What the handling of a caught signal is: the signal is no longer pending, the mask is that of the
  handler, the extensions are told, the handler runs unless the signal is ignored, and the mask is
  what it was.
\<close>

definition entered :: "sig_env \<Rightarrow> nat \<Rightarrow> kernel \<Rightarrow> kernel" where
  "entered env i k =
    upd_cur (\<lambda>x. x\<lparr>last_sig := i\<rparr>)
      (s_ext_on_signal env i
        (upd_cur (\<lambda>x. x\<lparr>sigpending := sigpending x AND NOT (sigbit i),
           p_sigmask := handler_mask (SIGACTION k (curproc k) i) i (p_sigmask x)\<rparr>) k))"

definition handled :: "sig_env \<Rightarrow> nat \<Rightarrow> kernel \<Rightarrow> kernel" where
  "handled env i k =
    upd_cur (\<lambda>x. x\<lparr>p_sigmask := p_sigmask (proc_of k)\<rparr>)
      (if sa_handler (SIGACTION k (curproc k) i) = SIG_IGN then entered env i k
       else snd (s_sendsig env i (entered env i k)))"

text \<open>
  Handlers that return to the process, do not make it traced, and change at most the action of their own
  signal (as \<open>SA_RESETHAND\<close> asks for).
\<close>

definition kept :: "(nat \<Rightarrow> bool) \<Rightarrow> kernel \<Rightarrow> kernel \<Rightarrow> bool" where
  "kept J k k' \<longleftrightarrow> curproc k' = curproc k \<and> ptracer (proc_of k') = ptracer (proc_of k) \<and>
     (\<forall>j. J j \<longrightarrow> SIGACTION k' (curproc k) j = SIGACTION k (curproc k) j)"

definition handlers_return :: "sig_env \<Rightarrow> bool" where
  "handlers_return env \<longleftrightarrow> (\<forall>i k. \<not> fst (s_sendsig env i k) \<and>
     kept (\<lambda>j. j \<noteq> i) k (snd (s_sendsig env i k)) \<and> kept (\<lambda>j. True) k (s_ext_on_signal env i k))"

text \<open>Handlers that, in addition, make no signal pending nor take one back.\<close>

definition handlers_post_none :: "sig_env \<Rightarrow> bool" where
  "handlers_post_none env \<longleftrightarrow> (\<forall>i k. sigpending (proc_of (snd (s_sendsig env i k))) = sigpending (proc_of k) \<and>
     sigpending (proc_of (s_ext_on_signal env i k)) = sigpending (proc_of k))"

lemma kept_upd: "(\<And>x. p_sigacts (f x) = p_sigacts x \<and> ptracer (f x) = ptracer x) \<Longrightarrow> kept J k (upd_cur f k)"
  by (simp add: kept_def SIGACTION_upd_cur)

lemma kept_trans: "kept J k k1 \<Longrightarrow> kept J k1 k2 \<Longrightarrow> kept J k k2"
  by (simp add: kept_def)

lemma kept_weaken: "kept J k k1 \<Longrightarrow> (\<And>j. L j \<Longrightarrow> J j) \<Longrightarrow> kept L k k1"
  by (simp add: kept_def)

lemma entered_kept:
  assumes "handlers_return env"
  shows "kept (\<lambda>j. True) k (entered env i k)"
proof -
  have ext: "kept (\<lambda>j. True) k0 (s_ext_on_signal env i k0)" for k0 using assms by (simp add: handlers_return_def)
  let ?k = "upd_cur (\<lambda>x. x\<lparr>sigpending := sigpending x AND NOT (sigbit i),
      p_sigmask := handler_mask (SIGACTION k (curproc k) i) i (p_sigmask x)\<rparr>) k"
  have "kept (\<lambda>j. True) k ?k" by (rule kept_upd) simp
  then have "kept (\<lambda>j. True) k (s_ext_on_signal env i ?k)" using ext by (rule kept_trans)
  then show ?thesis unfolding entered_def by (rule kept_trans) (rule kept_upd, simp)
qed

lemma handled_kept:
  assumes "handlers_return env"
  shows "kept (\<lambda>j. j \<noteq> i) k (handled env i k)"
proof -
  have e: "kept (\<lambda>j. j \<noteq> i) k (entered env i k)" using entered_kept[OF assms] by (rule kept_weaken) simp
  have "kept (\<lambda>j. j \<noteq> i) k (snd (s_sendsig env i (entered env i k)))"
    using assms by (intro kept_trans[OF e]) (simp add: handlers_return_def)
  with e have "kept (\<lambda>j. j \<noteq> i) k (if sa_handler (SIGACTION k (curproc k) i) = SIG_IGN then entered env i k
       else snd (s_sendsig env i (entered env i k)))" by simp
  then show ?thesis unfolding handled_def by (rule kept_trans) (rule kept_upd, simp)
qed

lemma handled_mask [simp]: "p_sigmask (proc_of (handled env i k)) = p_sigmask (proc_of k)"
  by (simp add: handled_def)

lemma handled_pending:
  "handlers_post_none env \<Longrightarrow> sigpending (proc_of (handled env i k)) = sigpending (proc_of k) AND NOT (sigbit i)"
  by (simp add: handled_def entered_def handlers_post_none_def)

lemma deliver_handled:
  assumes "handlers_return env" "i < 32" "sa_handler (SIGACTION k (curproc k) i) \<noteq> SIG_DFL"
  shows "deliver env i (upd_cur (\<lambda>x. x\<lparr>sigpending := sigpending x AND NOT (sigbit i)\<rparr>) k) = Some (Goes_on (handled env i k))"
proof -
  let ?k1 = "upd_cur (\<lambda>x. x\<lparr>sigpending := sigpending x AND NOT (sigbit i)\<rparr>) k"
  let ?k2 = "upd_cur (\<lambda>x. x\<lparr>p_sigmask := handler_mask (SIGACTION ?k1 (curproc ?k1) i) i (p_sigmask x)\<rparr>) ?k1"
  have k2: "?k2 = upd_cur (\<lambda>x. x\<lparr>sigpending := sigpending x AND NOT (sigbit i),
      p_sigmask := handler_mask (SIGACTION k (curproc k) i) i (p_sigmask x)\<rparr>) k"
    by (simp add: SIGACTION_upd_cur) (simp add: upd_cur_def upd_proc_def)
  have h: "SIGACTION (entered env i k) (curproc (entered env i k)) i = SIGACTION k (curproc k) i"
    using entered_kept[OF assms(1), of k i] by (simp add: kept_def)
  have ret: "\<not> fst (s_sendsig env i (entered env i k))" using assms(1) by (simp add: handlers_return_def)
  have "handle_sig env i ?k2 = Some (Goes_on (if sa_handler (SIGACTION k (curproc k) i) = SIG_IGN then entered env i k
       else snd (s_sendsig env i (entered env i k))))"
    using assms(2,3) h ret unfolding handle_sig_def k2 Let_def
    by (cases "s_sendsig env i (entered env i k)") (simp add: entered_def[symmetric])
  then show ?thesis by (simp add: deliver_def Let_def handled_def)
qed

lemma check_pass_handled:
  assumes "handlers_return env" "\<forall>i\<in>set is. i < 32" "distinct is"
    and "\<forall>i\<in>set is. bit sigs i \<longrightarrow> sa_handler (SIGACTION k (curproc k) i) \<noteq> SIG_DFL"
    and "ptracer (proc_of k) = None"
  shows "check_pass env sigs ds is k = Some (Inr (Goes_on (fold (handled env) (filter (bit sigs) is) k)))"
  using assms(2-)
proof (induction "is" arbitrary: k)
  case (Cons i "is")
  show ?case
  proof (cases "bit sigs i")
    case False
    then show ?thesis using Cons.IH[of k] Cons.prems by (simp add: and_sigbit)
  next
    case True
    define k1 where "k1 = upd_cur (\<lambda>x. x\<lparr>sigpending := sigpending x AND NOT (sigbit i)\<rparr>) k"
    have "i < 32" using Cons.prems(1) by simp
    have d: "deliver env i k1 = Some (Goes_on (handled env i k))"
      unfolding k1_def using Cons.prems(1,3) True by (intro deliver_handled[OF assms(1)]) auto
    have kept: "curproc (handled env i k) = curproc k" "ptracer (proc_of (handled env i k)) = None"
      "j \<in> set is \<Longrightarrow> SIGACTION (handled env i k) (curproc k) j = SIGACTION k (curproc k) j" for j
      using handled_kept[OF assms(1), of i k] Cons.prems(2,4) by (auto simp: kept_def)
    have "ptracer (proc_of k1) = None" using Cons.prems(4) by (simp add: k1_def)
    then have "check_pass env sigs ds (i # is) k = check_pass env sigs ds is (handled env i k)"
      using True d \<open>i < 32\<close> by (simp add: and_sigbit k1_def[symmetric] Let_def)
    also have "\<dots> = Some (Inr (Goes_on (fold (handled env) (filter (bit sigs) is) (handled env i k))))"
      by (rule Cons.IH) (use Cons.prems kept in auto)
    finally show ?thesis using True by simp
  qed
qed simp

lemma handled_fold_mask: "p_sigmask (proc_of (fold (handled env) is k)) = p_sigmask (proc_of k)"
  by (induction "is" arbitrary: k) simp_all

lemma handled_fold_pending:
  assumes "handlers_post_none env" "\<forall>i\<in>set is. i < 32"
  shows "bit (sigpending (proc_of (fold (handled env) is k))) j \<longleftrightarrow> bit (sigpending (proc_of k)) j \<and> j \<notin> set is"
  using assms(2)
proof (induction "is" arbitrary: k)
  case (Cons i "is")
  have "bit (sigpending (proc_of (handled env i k))) j \<longleftrightarrow> bit (sigpending (proc_of k)) j \<and> j \<noteq> i"
    using Cons.prems unfolding handled_pending[OF assms(1)]
    by (auto simp: bit_and_iff bit_not_iff bit_sigbit dest: bit_imp_le_length)
  then show ?case using Cons by auto
qed simp

section \<open>Properties\<close>

text \<open>
  C28: a signal to a process group is posted to exactly the live members the sender may signal: it
  becomes pending there unless the process ignores it or is protected from it, a sleeping member
  that does not mask it is moved to the ready queue, and no other process changes. The sender may signal
  a process as for \<open>Pkill\<close> of a single one: also by its real user id, which the comment on
  \<open>killgroup\<close> denies. The call
  succeeds if one member may be signalled, and otherwise tells missing permission from an empty
  group.
\<close>

theorem killgroup_exact:
  assumes "queues_ok k" "sig < NSIG" "distinct (proclist k)" "0 \<le> grp"
  shows "\<exists>k'. killgroup grp sig priv k =
      Some (if \<exists>x\<in>set (proclist k). member_of k grp x \<and> permitted k priv sig x then E_OK
            else if \<exists>x\<in>set (proclist k). member_of k grp x then EACCES else ENOENT, k') \<and>
    posted sig (\<lambda>x. x \<in> set (proclist k) \<and> member_of k grp x \<and> permitted k priv sig x) k k'"
  using assms by (rule killgroup_posted)

text \<open>
  C29: \<open>Pkill\<close> needs permission. It posts the signal, which may change the pending signals and the queue
  only of a process that the caller may signal (the caller is the super user, or one of its real
  and effective ids is the real or saved id of the process), or of one in the caller's group when the
  signal is \<open>SIGCONT\<close>. When the call reports an error, it changed no process in this way. When it succeeds,
  what follows is only the caller's check of its own pending signals, which is not part of the
  permission check (it may stop the caller and tell its parent so).
\<close>

theorem pkill_needs_permission:
  assumes "queues_ok k" "distinct (proclist k)" "sys_p_kill fuel env n sig k = Some out"
  shows "\<exists>r k1. p_kill_post n sig k = Some (r, k1) \<and>
    (if r = E_OK then returns r (check_sigs fuel env k1) = Some out else out = Ret r k1) \<and>
    (\<forall>q. sigpending (procs k1 q) \<noteq> sigpending (procs k q) \<or> wait_q (procs k1 q) \<noteq> wait_q (procs k q) \<longrightarrow>
      r = E_OK \<and> (may_signal k q \<or> sig = int SIGCONT \<and> pgrp (proc_of k) = pgrp (procs k q)))"
proof -
  obtain r k1 where 1: "p_kill_post n sig k = Some (r, k1)"
    "if r = E_OK then returns r (check_sigs fuel env k1) = Some out else out = Ret r k1"
    using assms(3) by (auto simp: sys_p_kill_def split: bind_splits if_splits)
  have "r = E_OK \<and> (may_signal k q \<or> sig = int SIGCONT \<and> pgrp (proc_of k) = pgrp (procs k q))"
    if ch: "sigpending (procs k1 q) \<noteq> sigpending (procs k q) \<or> wait_q (procs k1 q) \<noteq> wait_q (procs k q)" for q
  proof -
    obtain k0 P f where k0: "k0 = upd_cur f k" "0 \<le> sig" "sig < 32"
      "\<forall>x. \<exists>a b. f x = x\<lparr>exception_pc := a, exception_addr := b\<rparr>" "posted (nat sig) P k0 k1"
      "\<forall>x. P x \<longrightarrow> permitted k0 False (nat sig) x \<and> r = E_OK"
      using p_kill_post_posted[OF assms(1,2) 1(1)] ch by auto
    obtain a b where f: "f (procs k (curproc k)) = (procs k (curproc k))\<lparr>exception_pc := a, exception_addr := b\<rparr>"
      using k0(4) by blast
    have "P q" using k0(5) ch by (auto simp: posted_def k0(1) f split: if_splits)
    then have "permitted k0 False (nat sig) q" "r = E_OK" using k0(6) by blast+
    then show ?thesis
      using k0(2) by (auto simp: permitted_def may_signal_def proc_of_def k0(1) f Let_def split: if_splits)
  qed
  with 1 show ?thesis by blast
qed

text \<open>
  C30: no sequence of signal calls lets a process put \<open>SIGKILL\<close>, \<open>SIGSTOP\<close> or \<open>SIGCONT\<close> into its mask or into
  the mask of one of its actions, or change the default action of \<open>SIGKILL\<close> and \<open>SIGSTOP\<close>, whatever the
  calls are and whatever they do in \<open>check_sigs\<close>, as long as the process gets its table of actions
  back in order from its handlers and its sleeps (another process that shares the table could change it)
  and nothing else changes its mask between its calls. The masks the kernel sets while a handler runs or the
  process sleeps (\<open>Pvfork\<close> masks \<open>SIGSTOP\<close> and \<open>SIGCONT\<close>, a handler of \<open>SIGCONT\<close> runs with it masked)
  are gone when the call returns.
\<close>

theorem signal_calls_keep_unmaskable:
  assumes "masks_env env" "masks_ok k" "(sig_call env)\<^sup>*\<^sup>* k k'"
  shows "masks_ok k'"
  using assms(3,2) by (induction rule: rtranclp_induct) (auto intro: sig_call_masks[OF _ assms(1)])

text \<open>
  C31: \<open>SIGKILL\<close> kills. A process that is neither init nor a system process or shared library, does not
  mask \<open>SIGKILL\<close> and has its default action (the signal calls allow nothing else), gets the signal and is
  made ready if it slept. While the signal is pending it never gets out of \<open>check_sigs\<close> again: whatever
  other signals are handled first, whether it is traced or not, whatever its handlers do as long as they
  return, the call ends in the termination of the process. With no signal of a lower number to
  handle first the call ends at once, with exit code 9 shifted by 8.
\<close>

theorem sigkill_kills:
  assumes "queues_ok k" "\<not> is_dead k p" "pid (procs k p) \<notin> {0, 1}"
    and "p_flag (procs k p) AND P_FLAG_SLB = 0" "p_flag (procs k p) AND P_FLAG_SYS = 0"
    and "\<not> bit (p_sigmask (procs k p)) SIGKILL" "sa_handler (SIGACTION k p SIGKILL) = SIG_DFL"
    and "kill_env env"
  shows "\<exists>k'. post_sig p SIGKILL k = Some k' \<and> wait_q (procs k' p) \<in> {CURPROC_Q, READY_Q} \<and>
    bit (sigpending (procs k' p)) SIGKILL \<and>
    (\<forall>k2. curproc k2 = p \<and> pid (procs k2 p) = pid (procs k p) \<and> bit (sigpending (procs k2 p)) SIGKILL \<and>
       \<not> bit (p_sigmask (procs k2 p)) SIGKILL \<and> sa_handler (SIGACTION k2 p SIGKILL) = SIG_DFL \<longrightarrow>
       (\<forall>fuel k3. check_sigs fuel env k2 \<noteq> Some (Goes_on k3)) \<and>
       ((\<forall>i\<in>set [1..<9]. \<not> bit (sigs_to_check (procs k2 p)) i) \<longrightarrow>
         (\<forall>fuel>0. \<exists>k3. check_sigs fuel env k2 = Some (Terminate (256 * 9) k3))))"
proof -
  obtain k' where k': "post_sig p SIGKILL k = Some k'" "posted SIGKILL (\<lambda>x. x = p) k k'"
    using post_sig_posted[OF assms(1), of SIGKILL p] by auto
  have d: "deliverable k p SIGKILL" using assms(2-5,7) by (simp add: deliverable_def ignores_def)
  have "p_sigmask (procs k p) AND sigbit SIGKILL = 0" using assms(6) by (simp add: and_sigbit)
  then have w: "wait_q (procs k' p) \<in> {CURPROC_Q, READY_Q}" "bit (sigpending (procs k' p)) SIGKILL"
    using k'(2) d by (auto simp: posted_def bit_or_iff bit_sigbit)
  have "(\<forall>fuel k3. check_sigs fuel env k2 \<noteq> Some (Goes_on k3)) \<and>
      ((\<forall>i\<in>set [1..<9]. \<not> bit (sigs_to_check (procs k2 p)) i) \<longrightarrow>
        (\<forall>fuel>0. \<exists>k3. check_sigs fuel env k2 = Some (Terminate (256 * 9) k3)))"
    if h: "curproc k2 = p" "pid (procs k2 p) = pid (procs k p)" "bit (sigpending (procs k2 p)) SIGKILL"
      "\<not> bit (p_sigmask (procs k2 p)) SIGKILL" "sa_handler (SIGACTION k2 p SIGKILL) = SIG_DFL" for k2
  proof -
    have k2: "doomed (curproc k2) k2" "\<not> bit (p_sigmask (proc_of k2)) SIGKILL" "pid (proc_of k2) \<noteq> 0"
      using h assms(3) by (simp_all add: doomed_def armed_def proc_of_def)
    have "\<exists>k3. check_sigs fuel env k2 = Some (Terminate (256 * 9) k3)"
      if "\<forall>i\<in>set [1..<9]. \<not> bit (sigs_to_check (procs k2 p)) i" "0 < fuel" for fuel
      using check_top_kill[OF assms(8) k2(1,2), of "fuel - 1"] that h(1) k2(3) by (simp add: check_sigs_def proc_of_def)
    then show ?thesis using check_top_doomed[OF assms(8) k2(1,2)] k2(3) by (simp add: check_sigs_def)
  qed
  then show ?thesis using k'(1) w by blast
qed

text \<open>
  C32: when the process is not traced and each of its pending unmasked signals is caught or ignored, by handlers
  that return, \<open>check_sigs\<close> handles exactly these signals, each once and the lowest first: the signal
  stops to be pending, its handler is entered with the mask of its action, and the mask of the process is
  restored after it, and at the end. When the handlers post no signals, exactly the masked signals are still pending.
\<close>

theorem check_sigs_drains:
  assumes "handlers_return env" "ptracer (proc_of k) = None" "pid (proc_of k) \<noteq> 0"
    and "\<forall>i\<in>{1..<32}. bit (sigpending (proc_of k)) i \<and> \<not> bit (p_sigmask (proc_of k)) i \<longrightarrow>
      sa_handler (SIGACTION k (curproc k) i) \<noteq> SIG_DFL"
    and "\<exists>i\<in>{1..<32}. bit (sigpending (proc_of k)) i \<and> \<not> bit (p_sigmask (proc_of k)) i"
  shows "\<exists>k'. check_sigs (Suc n) env k = Some (Goes_on k') \<and>
    k' = fold (handled env) (filter (\<lambda>i. bit (sigpending (proc_of k)) i \<and> \<not> bit (p_sigmask (proc_of k)) i) [1..<32])
      (upd_cur (\<lambda>x. x\<lparr>sigpending := sigpending x AND NOT 1\<rparr>) k) \<and>
    p_sigmask (proc_of k') = p_sigmask (proc_of k) \<and>
    (handlers_post_none env \<longrightarrow> (\<forall>i\<in>{1..<32}. bit (sigpending (proc_of k')) i \<longleftrightarrow>
      bit (sigpending (proc_of k)) i \<and> bit (p_sigmask (proc_of k)) i))"
proof -
  define sigs where "sigs = sigs_to_check (proc_of k)"
  define k1 where "k1 = upd_cur (\<lambda>x. x\<lparr>sigpending := sigpending x AND NOT 1\<rparr>) k"
  let ?P = "\<lambda>i. bit (sigpending (proc_of k)) i \<and> \<not> bit (p_sigmask (proc_of k)) i"
  define k' where "k' = fold (handled env) (filter ?P [1..<32]) k1"
  have b: "bit sigs i \<longleftrightarrow> ?P i" if "i < 32" for i
    using assms(2) that by (auto simp: sigs_def sigs_to_check_def bit_and_iff bit_not_iff)
  have ne: "sigs \<noteq> 0"
  proof
    assume z: "sigs = 0"
    obtain i where "i < 32" "?P i" using assms(5) by auto
    then show False using b[of i] z by simp
  qed
  have f: "filter (bit sigs) [1..<32] = filter ?P [1..<32]" using b by (intro filter_cong) auto
  have "\<forall>i\<in>set [1..<32]. bit sigs i \<longrightarrow> sa_handler (SIGACTION k1 (curproc k1) i) \<noteq> SIG_DFL"
    using assms(4) b by (auto simp: k1_def SIGACTION_upd_cur)
  then have "check_pass env sigs (sigpending (proc_of k) AND 1 \<noteq> 0) [1..<32] k1 = Some (Inr (Goes_on k'))"
    unfolding k'_def f[symmetric] by (intro check_pass_handled[OF assms(1)]) (use assms(2) in \<open>simp_all add: k1_def\<close>)
  then have "check_sigs (Suc n) env k = Some (Goes_on k')"
    using assms(3) ne unfolding check_sigs_def check_top.simps Let_def sigs_def[symmetric] k1_def[symmetric] by simp
  moreover have "p_sigmask (proc_of k') = p_sigmask (proc_of k)"
    unfolding k'_def handled_fold_mask by (simp add: k1_def)
  moreover have "bit (sigpending (proc_of k')) i \<longleftrightarrow> bit (sigpending (proc_of k)) i \<and> bit (p_sigmask (proc_of k)) i"
    if "handlers_post_none env" "i \<in> {1..<32}" for i
  proof -
    have "bit (sigpending (proc_of k')) i \<longleftrightarrow> bit (sigpending (proc_of k1)) i \<and> i \<notin> set (filter ?P [1..<32])"
      unfolding k'_def by (rule handled_fold_pending[OF that(1)]) auto
    moreover have "bit (sigpending (proc_of k1)) i = bit (sigpending (proc_of k)) i"
      using that(2) unfolding k1_def proc_of_upd_cur by (simp add: bit_and_iff bit_not_iff bit_1_iff)
    ultimately show ?thesis using that(2) by auto
  qed
  ultimately show ?thesis unfolding k'_def k1_def by blast
qed

text \<open>
  The effect of the constant \<open>SIGTERM\<close> in the mask of a stopped process: it masks \<open>SIGTERM\<close>, and only
  the signals 1 to 3 and the unmaskable ones can get through.
\<close>

lemma stop_masks_sigterm:
  "filter (\<lambda>i. \<not> bit (NOT (UNMASKABLE OR of_nat SIGTERM) :: u32) i) [0..<32] = [0, 1, 2, 3, SIGKILL, SIGSTOP, SIGCONT]"
  by (simp add: UNMASKABLE_def sigbit_def upt_rec bit_not_iff)

section \<open>The properties on an example state\<close>

text \<open>
  Processes 1, 2 and 3 sleep, 4 and 5 are ready, and process 6, of user 7, runs. Users: 1 and 3 are
  of user 7, the others of the super user; 1, 2 and 3 are process group 9.
\<close>

definition demo_sig :: kernel where
  "demo_sig = demo_kernel\<lparr>procs := (\<lambda>p. (demo_procs p)\<lparr>pid := int p + 10, pgrp := (if p \<in> {1, 2, 3} then 9 else 0),
       p_cred := (if p \<in> {1, 3, 6} then 1 else 0)\<rparr>),
     curproc := 6, proclist := [0, 1, 2, 3, 4, 5, 6],
     pcreds := (\<lambda>_. \<lparr>ucr = 0, ruid = 0, rgid = 0, suid = 0, sgid = 0, pc_links = 1\<rparr>)
       (1 := \<lparr>ucr = 1, ruid = 7, rgid = 0, suid = 7, sgid = 0, pc_links = 1\<rparr>),
     ucreds := (\<lambda>_. \<lparr>euid = 0, egid = 0, groups = replicate 8 0, ngroups = 0, uc_links = 1\<rparr>)
       (1 := \<lparr>euid = 7, egid = 0, groups = replicate 8 0, ngroups = 0, uc_links = 1\<rparr>)\<rparr>"

definition demo_env :: sig_env where
  "demo_env = \<lparr>s_sendsig = (\<lambda>i k. (False, k)), s_ext_on_signal = (\<lambda>i k. k), s_ext_on_stop = (\<lambda>i k. k),
     s_bombs = (\<lambda>i k. k), s_sleep = (\<lambda>q c k. k), s_pwaitpid = 5\<rparr>"

lemma demo_env_ok: "masks_env demo_env" "kill_env demo_env"
  by (simp_all add: masks_env_def kill_env_def spares_kill_def demo_env_def)

lemma demo_sig_fields [simp]:
  "proclist demo_sig = [0, 1, 2, 3, 4, 5, 6]" "curproc demo_sig = 6" "sigacts demo_sig = (\<lambda>_. init_sigacts)"
  "procs demo_sig = (\<lambda>p. (demo_procs p)\<lparr>pid := int p + 10, pgrp := (if p \<in> {1, 2, 3} then 9 else 0),
       p_cred := (if p \<in> {1, 3, 6} then 1 else 0)\<rparr>)"
  by (simp_all add: demo_sig_def demo_kernel_def init_proc_def)

lemma queues_rep_links:
  assumes "queues_rep k Q" "sysq k' = sysq k"
    and l: "\<And>x. q_prev (procs k' x) = q_prev (procs k x) \<and> q_next (procs k' x) = q_next (procs k x) \<and>
      wait_q (procs k' x) = wait_q (procs k x)"
  shows "queues_rep k' Q"
proof -
  have "queue_rep k' q (Q q)" if "q \<noteq> CURPROC_Q" for q
    using queue_rep_cong[OF queues_repD(1)[OF assms(1) that]] assms(2) l by simp
  then show ?thesis using assms(1) l by (simp add: queues_rep_def)
qed

lemma demo_sig_queues: "queues_ok demo_sig"
proof -
  have "queues_rep demo_sig demo_queues"
    by (rule queues_rep_links[OF demo_queues_rep]) (simp_all add: demo_sig_def)
  moreover have "queues_known demo_sig demo_queues" by (auto simp: queues_known_def demo_queues_def)
  ultimately show ?thesis by (auto simp: queues_ok_def)
qed

lemma demo_sig_masks: "masks_ok demo_sig"
  by (auto simp: masks_ok_def acts_ok_def SIGACTION_def proc_of_def init_sigacts_def zero_sigaction_def demo_procs_def zero_proc_def)

lemma demo_sig_group:
  "member_of demo_sig 9 1" "permitted demo_sig False 15 1" "deliverable demo_sig 1 15" "\<not> permitted demo_sig False 15 2"
  by (simp_all add: member_of_def permitted_def may_signal_def is_dead_def deliverable_def ignores_def
      SIGACTION_def init_sigacts_def zero_sigaction_def proc_of_def suser_def demo_procs_def zero_proc_def,
      simp_all add: demo_sig_def)

lemma demo_sig_members: "\<exists>x\<in>set (proclist demo_sig). member_of demo_sig 9 x \<and> permitted demo_sig False 15 x"
  using demo_sig_group(1,2) by (intro bexI[of _ 1]) auto

theorem killgroup_exact_witness:
  "\<exists>k'. killgroup 9 15 False demo_sig = Some (E_OK, k') \<and>
    bit (sigpending (procs k' 1)) 15 \<and> wait_q (procs k' 1) = READY_Q \<and> sigpending (procs k' 2) = 0"
proof -
  have p: "p_sigmask (procs demo_sig 1) = 0" "wait_q (procs demo_sig 1) = WAIT_Q" "sigpending (procs demo_sig 2) = 0"
    by (simp_all add: demo_procs_def zero_proc_def)
  obtain k' where k': "killgroup 9 15 False demo_sig = Some (E_OK, k')"
    "posted 15 (\<lambda>x. x \<in> set (proclist demo_sig) \<and> member_of demo_sig 9 x \<and> permitted demo_sig False 15 x) demo_sig k'"
    using killgroup_exact[OF demo_sig_queues, of 15 9 False] demo_sig_members by auto
  have "bit (sigpending (procs k' 1)) 15" "wait_q (procs k' 1) = READY_Q" "sigpending (procs k' 2) = 0"
    using k'(2) demo_sig_group p unfolding posted_def by (simp_all add: bit_or_iff bit_sigbit del: demo_sig_fields(4))
  then show ?thesis using k'(1) by blast
qed

theorem pkill_needs_permission_witness:
  "\<exists>k1. p_kill_post (- 9) 15 demo_sig = Some (E_OK, k1) \<and> sigpending (procs k1 1) \<noteq> sigpending (procs demo_sig 1) \<and>
    may_signal demo_sig 1 \<and> sys_p_kill 1 demo_env (- 9) 15 demo_sig = Some (Ret E_OK k1)"
proof -
  obtain k' where k': "killgroup 9 15 False demo_sig = Some (E_OK, k')"
    "posted 15 (\<lambda>x. x \<in> set (proclist demo_sig) \<and> member_of demo_sig 9 x \<and> permitted demo_sig False 15 x) demo_sig k'"
    using killgroup_posted[OF demo_sig_queues, of 15 9 False] demo_sig_members by auto
  have post: "p_kill_post (- 9) 15 demo_sig = Some (E_OK, k')"
    using k'(1) by (simp add: p_kill_post_def signed_take_bit_int_eq_self)
  have z: "sigpending (procs demo_sig x) = 0" for x by (simp add: demo_procs_def zero_proc_def)
  have "sigpending (procs k' 1) = sigpending (procs demo_sig 1) OR sigbit 15"
    using k'(2) demo_sig_group unfolding posted_def by (simp del: demo_sig_fields(4))
  moreover have "sigbit 15 \<noteq> 0" by (simp add: sigbit_def)
  ultimately have ch: "sigpending (procs k' 1) \<noteq> sigpending (procs demo_sig 1)" unfolding z by simp
  have "\<not> member_of demo_sig 9 6" by (simp add: member_of_def)
  then have "sigpending (procs k' 6) = 0" using k'(2) z unfolding posted_def by (simp del: demo_sig_fields(4))
  moreover have "curproc k' = 6" using k'(2) sig_frame_same(10)[of demo_sig k'] by (simp add: posted_def)
  ultimately have "check_sigs 1 demo_env k' = Some (Goes_on k')"
    by (simp add: check_sigs_def sigs_to_check_def proc_of_def One_nat_def Let_def)
  then have "sys_p_kill 1 demo_env (- 9) 15 demo_sig = Some (Ret E_OK k')"
    using post by (simp add: sys_p_kill_def returns_def)
  from pkill_needs_permission[OF demo_sig_queues _ this] this post ch
  show ?thesis by (auto simp del: demo_sig_fields(4))
qed

theorem signal_calls_keep_unmaskable_witness:
  "masks_ok (snd (sys_p_sigblock (- 1) demo_sig)) \<and> p_sigmask (procs (snd (sys_p_sigblock (- 1) demo_sig)) 6) \<noteq> 0"
proof -
  have "sig_call demo_env demo_sig (snd (sys_p_sigblock (- 1) demo_sig))"
    by (rule call_sigblock[of "- 1" _ "fst (sys_p_sigblock (- 1) demo_sig)"]) simp
  then have "(sig_call demo_env)\<^sup>*\<^sup>* demo_sig (snd (sys_p_sigblock (- 1) demo_sig))" by (rule r_into_rtranclp)
  from signal_calls_keep_unmaskable[OF demo_env_ok(1) demo_sig_masks this]
  show ?thesis by (simp add: sys_p_sigblock_def UNMASKABLE_def sigbit_def demo_procs_def zero_proc_def)
qed

theorem sigkill_kills_witness:
  "\<exists>k' k3. post_sig 1 SIGKILL demo_sig = Some k' \<and>
    check_sigs 1 demo_env (k'\<lparr>curproc := 1\<rparr>) = Some (Terminate (256 * 9) k3)"
proof -
  have h: "\<not> is_dead demo_sig 1" "pid (procs demo_sig 1) \<notin> {0, 1}" "p_flag (procs demo_sig 1) AND P_FLAG_SLB = 0"
    "p_flag (procs demo_sig 1) AND P_FLAG_SYS = 0" "\<not> bit (p_sigmask (procs demo_sig 1)) SIGKILL"
    "sa_handler (SIGACTION demo_sig 1 SIGKILL) = SIG_DFL"
    by (simp_all add: is_dead_def demo_procs_def zero_proc_def SIGACTION_def init_sigacts_def zero_sigaction_def)
  obtain k1 where k1: "post_sig 1 SIGKILL demo_sig = Some k1" "posted SIGKILL (\<lambda>x. x = 1) demo_sig k1"
    using post_sig_posted[OF demo_sig_queues, of SIGKILL 1] by auto
  have z: "sigpending (procs demo_sig 1) = 0" by (simp add: demo_procs_def zero_proc_def)
  have f: "sig_frame demo_sig k1" "sigpending (procs k1 1) = sigbit SIGKILL \<or> sigpending (procs k1 1) = 0"
    using k1(2) z by (auto simp: posted_def split: if_splits)
  let ?k = "k1\<lparr>curproc := 1\<rparr>"
  have "\<not> bit (sigs_to_check (procs k1 1)) i" if "i \<in> set [1..<9]" for i
    using f(2) that by (auto simp: sigs_to_check_def bit_and_iff bit_sigbit)
  then show ?thesis
    using sigkill_kills[OF demo_sig_queues h demo_env_ok(2)] k1(1) h(5,6) sig_frame_same[OF f(1)]
    by (auto simp del: demo_sig_fields(4) simp: SIGACTION_def dest!: spec[of _ ?k] spec[of _ "1 :: nat"])
qed

text \<open>
  Process 6 catches \<open>SIGINT\<close> and masks signal 3; both are pending. Its handler leaves the mask with which it ran
  in the register file of the example (\<open>exception_pc\<close>).
\<close>

definition demo_catch :: kernel where
  "demo_catch = upd_sigact 6 SIGINT (\<lambda>a. a\<lparr>sa_handler := 100\<rparr>)
     (upd_cur (\<lambda>x. x\<lparr>sigpending := 12, p_sigmask := 8\<rparr>) demo_sig)"

definition demo_log :: sig_env where
  "demo_log = demo_env\<lparr>s_sendsig := \<lambda>i k. (False, upd_cur (\<lambda>x. x\<lparr>exception_pc := p_sigmask x\<rparr>) k)\<rparr>"

lemma demo_log_ok: "handlers_return demo_log" "handlers_post_none demo_log"
  by (simp_all add: handlers_return_def handlers_post_none_def kept_def demo_log_def demo_env_def SIGACTION_upd_cur)

theorem check_sigs_drains_witness:
  "\<exists>k'. check_sigs 1 demo_log demo_catch = Some (Goes_on k') \<and> last_sig (proc_of k') = 2 \<and>
    exception_pc (proc_of k') = 12 \<and> p_sigmask (proc_of k') = 8 \<and>
    bit (sigpending (proc_of k')) 3 \<and> \<not> bit (sigpending (proc_of k')) 2"
proof -
  have p: "proc_of demo_catch = (procs demo_sig 6)\<lparr>sigpending := 12, p_sigmask := 8\<rparr>" "curproc demo_catch = 6"
    by (simp_all add: demo_catch_def proc_of_def upd_sigact_def Let_def)
  have q: "sigpending (proc_of demo_catch) = 12" "p_sigmask (proc_of demo_catch) = 8" "ptracer (proc_of demo_catch) = None"
    "pid (proc_of demo_catch) = 16"
    by (simp_all add: p demo_procs_def zero_proc_def)
  have c: "SIGACTION demo_catch 6 2 = zero_sigaction\<lparr>sa_handler := 100\<rparr>"
    by (simp add: SIGACTION_def demo_catch_def upd_sigact_def Let_def demo_procs_def zero_proc_def init_sigacts_def)
  have bits: "bit (12 :: u32) i \<longleftrightarrow> i = 2 \<or> i = 3" "bit (8 :: u32) i \<longleftrightarrow> i = 3" if "i < 32" for i
  proof -
    have e: "(12 :: u32) = sigbit 2 OR sigbit 3" "(8 :: u32) = sigbit 3" by (simp_all add: sigbit_def)
    show "bit (12 :: u32) i \<longleftrightarrow> i = 2 \<or> i = 3" "bit (8 :: u32) i \<longleftrightarrow> i = 3"
      unfolding e bit_or_iff by (simp_all add: bit_sigbit)
  qed
  have P: "bit (12 :: u32) i \<and> \<not> bit (8 :: u32) i \<longleftrightarrow> i = 2" if "i < 32" for i using bits[OF that] by auto
  have L: "filter (\<lambda>i. bit (12 :: u32) i \<and> \<not> bit (8 :: u32) i) [1..<32] = [2]"
  proof -
    have "filter (\<lambda>i. bit (12 :: u32) i \<and> \<not> bit (8 :: u32) i) [1..<32] = filter (\<lambda>i. i = 2) [1..<32]"
      using P by (intro filter_cong) auto
    then show ?thesis by (simp add: upt_rec)
  qed
  have h: "\<forall>i\<in>{1..<32}. bit (12 :: u32) i \<and> \<not> bit (8 :: u32) i \<longrightarrow> sa_handler (SIGACTION demo_catch 6 i) \<noteq> SIG_DFL"
    using P c by auto
  have e: "\<exists>i\<in>{1..<32}. bit (12 :: u32) i \<and> \<not> bit (8 :: u32) i" using P[of 2] by (intro bexI[of _ 2]) auto
  obtain k' where k': "check_sigs 1 demo_log demo_catch = Some (Goes_on k')"
    "k' = handled demo_log 2 (upd_cur (\<lambda>x. x\<lparr>sigpending := sigpending x AND NOT 1\<rparr>) demo_catch)"
    "p_sigmask (proc_of k') = 8"
    "\<forall>i\<in>{1..<32}. bit (sigpending (proc_of k')) i \<longleftrightarrow> bit (12 :: u32) i \<and> bit (8 :: u32) i"
    using check_sigs_drains[OF demo_log_ok(1) q(3), of 0] h e demo_log_ok(2) unfolding q p(2) L
    by (auto simp: One_nat_def)
  have "handler_mask (zero_sigaction\<lparr>sa_handler := 100\<rparr>) 2 8 = 12"
    by (simp add: handler_mask_def zero_sigaction_def sigbit_def)
  then have "last_sig (proc_of k') = 2 \<and> exception_pc (proc_of k') = 12"
    unfolding k'(2) handled_def entered_def using c q(2) by (simp add: demo_log_def demo_env_def p(2) SIGACTION_upd_cur)
  moreover have "bit (sigpending (proc_of k')) 3" "\<not> bit (sigpending (proc_of k')) 2" using k'(4) bits by auto
  ultimately show ?thesis using k'(1,3) by blast
qed

end
