(* ===== verification/Resource.thy ===== *)
theory Resource
  imports Signals
begin

text \<open>
  Priorities and resource limits (\<open>sys/k_resource.c\<close>). \<open>who\<close>, \<open>pri\<close> and \<open>delta\<close> are 16 bit; inside the kernel a
  high \<open>pri\<close> is a high priority, while the calls \<open>Pgetpriority\<close> and \<open>Psetpriority\<close> use the Unix
  convention of the opposite sign. \<open>recalc_maxmem\<close> and \<open>memused\<close> are routines of the memory management.
\<close>

section \<open>Priorities\<close>

abbreviation (input) PRIO_PROCESS :: int where "PRIO_PROCESS \<equiv> 0"
abbreviation (input) PRIO_PGRP :: int where "PRIO_PGRP \<equiv> 1"
abbreviation (input) PRIO_USER :: int where "PRIO_USER \<equiv> 2"
abbreviation (input) PRIO_MIN :: int where "PRIO_MIN \<equiv> - 20"
abbreviation (input) PRIO_MAX :: int where "PRIO_MAX \<equiv> 20"

definition euid_of :: "kernel \<Rightarrow> pptr \<Rightarrow> u16" where
  "euid_of k p = euid (ucreds k (ucr (pcreds k (p_cred (procs k p)))))"

text \<open>The highest \<open>pri\<close> of the selected processes, and how many there are.\<close>

fun max_pri :: "kernel \<Rightarrow> (pptr \<Rightarrow> bool) \<Rightarrow> pptr list \<Rightarrow> int \<times> nat \<Rightarrow> int \<times> nat" where
  "max_pri k P [] (m, hits) = (m, hits)"
| "max_pri k P (p # ps) (m, hits) =
    (if P p then max_pri k P ps (if pri (procs k p) > m then pri (procs k p) else m, hits + 1)
     else max_pri k P ps (m, hits))"

definition highest_of :: "kernel \<Rightarrow> (pptr \<Rightarrow> bool) \<Rightarrow> int" where
  "highest_of k P = (case max_pri k P (proclist k) (PRIO_MIN, 0) of
     (m, hits) \<Rightarrow> if hits > 0 then - m + PRIO_MAX else ESRCH)"

definition sys_pgetpriority :: "int \<Rightarrow> int \<Rightarrow> kernel \<Rightarrow> int" where
  "sys_pgetpriority which who k =
    (if which = PRIO_PROCESS then
       (if who < 0 then EINVAL
        else case pid2proc (if who = 0 then pid (proc_of k) else who) k of
          None \<Rightarrow> ESRCH
        | Some p \<Rightarrow> - pri (procs k p) + PRIO_MAX)
     else if which = PRIO_PGRP then
       (if who < 0 then EINVAL
        else highest_of k (\<lambda>p. pgrp (procs k p) = (if who = 0 then pgrp (proc_of k) else who)))
     else if which = PRIO_USER then
       (if who < 0 then EINVAL
        else highest_of k (\<lambda>p. euid_of k p = (if who = 0 then euid_of k (curproc k) else word_of_int who)))
     else EINVAL)"

definition not_owner :: "kernel \<Rightarrow> pptr \<Rightarrow> bool" where
  "not_owner k p \<longleftrightarrow> euid_of k (curproc k) \<noteq> 0 \<and> euid_of k (curproc k) \<noteq> euid_of k p"

definition set_pri :: "int \<Rightarrow> pptr \<Rightarrow> kernel \<Rightarrow> kernel" where
  "set_pri v p k = upd_proc p (\<lambda>x. x\<lparr>curpri := - v, pri := - v\<rparr>) k"

text \<open>The loop of \<open>PRIO_PGRP\<close>: the test of the group counts only.\<close>

fun set_group_loop :: "int \<Rightarrow> int \<Rightarrow> pptr list \<Rightarrow> nat \<Rightarrow> int \<Rightarrow> kernel \<Rightarrow> nat \<times> int \<times> kernel" where
  "set_group_loop who v [] hits retval k = (hits, retval, k)"
| "set_group_loop who v (p # ps) hits retval k =
    (let hits = (if pgrp (procs k p) = who then hits + 1 else hits)
     in if not_owner k p then set_group_loop who v ps hits EACCES k
        else set_group_loop who v ps hits retval (set_pri v p k))"

fun set_user_loop :: "u16 \<Rightarrow> int \<Rightarrow> pptr list \<Rightarrow> nat \<Rightarrow> kernel \<Rightarrow> nat \<times> kernel" where
  "set_user_loop who v [] hits k = (hits, k)"
| "set_user_loop who v (p # ps) hits k =
    (if euid_of k p = who then set_user_loop who v ps (hits + 1) (set_pri v p k)
     else set_user_loop who v ps hits k)"

definition sys_psetpriority :: "int \<Rightarrow> int \<Rightarrow> int \<Rightarrow> kernel \<Rightarrow> int \<times> kernel" where
  "sys_psetpriority which who pri0 k =
    (let v = (if pri0 < PRIO_MIN then PRIO_MIN else if pri0 > PRIO_MAX then PRIO_MAX else pri0)
     in if v < 0 \<and> \<not> suser (ucreds k (ucr (pcreds k (p_cred (proc_of k))))) then (EPERM, k)
        else if which = PRIO_PROCESS then
          (if who < 0 then (EINVAL, k)
           else case pid2proc (if who = 0 then pid (proc_of k) else who) k of
             None \<Rightarrow> (ESRCH, k)
           | Some p \<Rightarrow> if not_owner k p then (EACCES, k) else (E_OK, set_pri v p k))
        else if which = PRIO_PGRP then
          (if who < 0 then (EINVAL, k)
           else case set_group_loop (if who = 0 then pgrp (proc_of k) else who) v (proclist k) 0 0 k of
             (hits, retval, k) \<Rightarrow> if hits = 0 then (ESRCH, k) else (retval, k))
        else if which = PRIO_USER then
          (if who < 0 then (EINVAL, k)
           else
             (let who = (if who = 0 then euid_of k (curproc k) else word_of_int who);
                  retval = (if who \<noteq> euid_of k (curproc k) then EACCES else 0)
              in case set_user_loop who v (proclist k) 0 k of
                   (hits, k) \<Rightarrow> if hits = 0 then (ESRCH, k) else (retval, k)))
        else (EINVAL, k))"

text \<open>The sum is passed on as a \<open>short\<close>.\<close>

definition sys_prenice :: "int \<Rightarrow> int \<Rightarrow> kernel \<Rightarrow> int \<times> kernel" where
  "sys_prenice n delta k =
    (if n < 0 then (ESRCH, k)
     else
      (let p = sys_pgetpriority PRIO_PROCESS n k
       in if p < 0 then (p, k)
          else
           (let p = p - PRIO_MAX
            in if delta \<noteq> 0 then
                 (let p = p + delta
                  in case sys_psetpriority PRIO_PROCESS n (signed_take_bit 15 p) k of
                       (r, k) \<Rightarrow> if r < E_OK then (r, k) else ((- p) mod 65536, k))
               else ((- p) mod 65536, k))))"

definition sys_pnice :: "int \<Rightarrow> kernel \<Rightarrow> int \<times> kernel" where
  "sys_pnice delta k = sys_prenice (pid (proc_of k)) delta k"

section \<open>Usage and limits\<close>

definition sys_prusage :: "(kernel \<Rightarrow> pptr \<Rightarrow> u32) \<Rightarrow> kernel \<Rightarrow> int \<times> u32 list" where
  "sys_prusage memused k =
    (let x = proc_of k in (E_OK, [systime x, usrtime x, chldstime x, chldutime x, memused k (curproc k)]))"

definition sys_psetlimit :: "(pptr \<Rightarrow> kernel \<Rightarrow> kernel) \<Rightarrow> int \<Rightarrow> u32 \<Rightarrow> kernel \<Rightarrow> (int + u32) \<times> kernel" where
  "sys_psetlimit recalc_maxmem i v k =
    (let p = curproc k; x = proc_of k
     in if i = 1 then (Inr (maxcpu x), if 0 \<le>s v then upd_proc p (\<lambda>x. x\<lparr>maxcpu := v\<rparr>) k else k)
        else if i = 2 then
          (Inr (maxcore x), if 0 \<le>s v then recalc_maxmem p (upd_proc p (\<lambda>x. x\<lparr>maxcore := v\<rparr>) k) else k)
        else if i = 3 then
          (Inr (maxdata x), if 0 \<le>s v then recalc_maxmem p (upd_proc p (\<lambda>x. x\<lparr>maxdata := v\<rparr>) k) else k)
        else (Inl ENOSYS, k))"

section \<open>What the calls can change\<close>

text \<open>
  \<open>prio_change k k'\<close>: from \<open>k\<close> to \<open>k'\<close> only priorities changed, each new one lies in the range,
  and is positive only when the caller is the superuser.
\<close>

definition no_pri :: "proc \<Rightarrow> proc" where
  "no_pri x = x\<lparr>pri := 0, curpri := 0\<rparr>"

definition prio_change :: "kernel \<Rightarrow> kernel \<Rightarrow> bool" where
  "prio_change k k' \<longleftrightarrow> k\<lparr>procs := no_pri \<circ> procs k\<rparr> = k'\<lparr>procs := no_pri \<circ> procs k'\<rparr> \<and>
     (\<forall>p. pri (procs k' p) = pri (procs k p) \<or>
        (- 20 \<le> pri (procs k' p) \<and> pri (procs k' p) \<le> 20 \<and> (0 < pri (procs k' p) \<longrightarrow> euid_of k (curproc k) = 0)))"

lemma prio_change_refl [simp]: "prio_change k k"
  by (simp add: prio_change_def)

lemma no_pri_eqD:
  "no_pri x = no_pri y \<Longrightarrow> pid x = pid y \<and> pgrp x = pgrp y \<and> p_cred x = p_cred y"
  by (cases x, cases y) (simp add: no_pri_def)

lemma prio_change_frame:
  assumes "prio_change k k'"
  shows "proclist k' = proclist k" "curproc k' = curproc k" "euid_of k' = euid_of k"
    "pid (procs k' p) = pid (procs k p)" "pgrp (procs k' p) = pgrp (procs k p)"
proof -
  have eq: "k\<lparr>procs := no_pri \<circ> procs k\<rparr> = k'\<lparr>procs := no_pri \<circ> procs k'\<rparr>"
    using assms by (simp add: prio_change_def)
  have f: "no_pri (procs k p) = no_pri (procs k' p)" for p
    using arg_cong[OF eq, of "\<lambda>k. procs k p"] by simp
  show "proclist k' = proclist k" "curproc k' = curproc k"
    using arg_cong[OF eq, of proclist] arg_cong[OF eq, of curproc] by simp_all
  show "pid (procs k' p) = pid (procs k p)" "pgrp (procs k' p) = pgrp (procs k p)"
    using no_pri_eqD[OF f] by simp_all
  have "pcreds k' = pcreds k" "ucreds k' = ucreds k"
    using arg_cong[OF eq, of pcreds] arg_cong[OF eq, of ucreds] by simp_all
  then show "euid_of k' = euid_of k"
    using no_pri_eqD[OF f] by (simp add: euid_of_def fun_eq_iff)
qed

lemma prio_change_trans:
  assumes "prio_change k k1" "prio_change k1 k2"
  shows "prio_change k k2"
  using assms(1,2) prio_change_frame(2,3)[OF assms(1)] unfolding prio_change_def
  by (metis (no_types, lifting))

lemma prio_change_set_pri:
  assumes "- 20 \<le> v" "v \<le> 20" "v < 0 \<longrightarrow> euid_of k (curproc k) = 0"
  shows "prio_change k (set_pri v p k)"
  using assms by (auto simp: prio_change_def set_pri_def upd_proc_def no_pri_def fun_eq_iff intro!: kernel.equality)

lemma set_group_change:
  "\<lbrakk>- 20 \<le> v; v \<le> 20; v < 0 \<longrightarrow> euid_of k (curproc k) = 0\<rbrakk> \<Longrightarrow>
   prio_change k (snd (snd (set_group_loop who v ps hits r k)))"
proof (induction ps arbitrary: hits r k)
  case (Cons p ps)
  have 1: "prio_change k (set_pri v p k)" by (rule prio_change_set_pri) (use Cons.prems in auto)
  show ?case
    using Cons.IH[of k] Cons.IH[of "set_pri v p k"] Cons.prems prio_change_frame(2,3)[OF 1]
      prio_change_trans[OF 1] by (simp add: Let_def)
qed simp

lemma set_user_change:
  "\<lbrakk>- 20 \<le> v; v \<le> 20; v < 0 \<longrightarrow> euid_of k (curproc k) = 0\<rbrakk> \<Longrightarrow>
   prio_change k (snd (set_user_loop who v ps hits k))"
proof (induction ps arbitrary: hits k)
  case (Cons p ps)
  have 1: "prio_change k (set_pri v p k)" by (rule prio_change_set_pri) (use Cons.prems in auto)
  show ?case
    using Cons.IH[of k] Cons.IH[of "set_pri v p k"] Cons.prems prio_change_frame(2,3)[OF 1]
      prio_change_trans[OF 1] by simp
qed simp

definition clamp_pri :: "int \<Rightarrow> int" where
  "clamp_pri v = max (- 20) (min 20 v)"

lemma clamp_pri_code:
  "(if v < PRIO_MIN then PRIO_MIN else if v > PRIO_MAX then PRIO_MAX else v) = clamp_pri v"
  by (auto simp: clamp_pri_def)

lemma clamp_pri_range: "- 20 \<le> clamp_pri v" "clamp_pri v \<le> 20"
  by (auto simp: clamp_pri_def)

lemma psetpriority_change: "prio_change k (snd (sys_psetpriority which who v k))"
proof (cases "clamp_pri v < 0 \<and> euid_of k (curproc k) \<noteq> 0")
  case True
  then show ?thesis by (simp add: sys_psetpriority_def clamp_pri_code suser_def euid_of_def proc_of_def)
next
  case False
  then have c: "clamp_pri v < 0 \<longrightarrow> euid_of k (curproc k) = 0" by blast
  note r = clamp_pri_range[of v] c
  show ?thesis
    unfolding sys_psetpriority_def clamp_pri_code Let_def
    by (simp add: case_prod_beta set_group_change[OF r] set_user_change[OF r] prio_change_set_pri[OF r] split: option.split)
qed

lemma prenice_change: "prio_change k (snd (sys_prenice n d k))"
  using psetpriority_change[of k 0 n "signed_take_bit 15 (sys_pgetpriority 0 n k - 20 + d)"]
  by (simp add: sys_prenice_def Let_def case_prod_beta)

datatype prio_call = Psetpriority int int int | Prenice int int | Pnice int

fun do_call :: "prio_call \<Rightarrow> kernel \<Rightarrow> kernel" where
  "do_call (Psetpriority which who v) k = snd (sys_psetpriority which who v k)"
| "do_call (Prenice n d) k = snd (sys_prenice n d k)"
| "do_call (Pnice d) k = snd (sys_pnice d k)"

lemma do_call_change: "prio_change k (do_call c k)"
  by (cases c) (simp_all add: psetpriority_change prenice_change sys_pnice_def)

lemma calls_change: "prio_change k (fold do_call cs k)"
  by (induction cs arbitrary: k) (auto intro: prio_change_trans[OF do_call_change])

text \<open>
  C33: No sequence of calls of \<open>Psetpriority\<close>, \<open>Prenice\<close> and \<open>Pnice\<close>, with any arguments, moves a priority
  out of the range of -20 to 20, and without superuser privileges none gives a process a positive priority
  it did not have before.
\<close>

theorem priorities_confined:
  "(\<forall>p. - 20 \<le> pri (procs k p) \<and> pri (procs k p) \<le> 20 \<longrightarrow>
      - 20 \<le> pri (procs (fold do_call cs k) p) \<and> pri (procs (fold do_call cs k) p) \<le> 20) \<and>
   (\<not> suser (ucreds k (ucr (pcreds k (p_cred (proc_of k))))) \<longrightarrow>
      (\<forall>p. 0 < pri (procs (fold do_call cs k) p) \<longrightarrow> pri (procs (fold do_call cs k) p) = pri (procs k p)))"
proof -
  have "pri (procs (fold do_call cs k) p) = pri (procs k p) \<or>
      - 20 \<le> pri (procs (fold do_call cs k) p) \<and> pri (procs (fold do_call cs k) p) \<le> 20 \<and>
      (0 < pri (procs (fold do_call cs k) p) \<longrightarrow> euid_of k (curproc k) = 0)" for p
    using calls_change[of k cs] by (auto simp: prio_change_def)
  note p = this
  have "euid_of k (curproc k) = euid (ucreds k (ucr (pcreds k (p_cred (proc_of k)))))"
    by (simp add: euid_of_def proc_of_def)
  then show ?thesis using p unfolding suser_def by metis
qed

theorem priorities_confined_witness:
  "- 20 \<le> pri (procs (fold do_call [Prenice 0 (- 30), Pnice 50] init_proc) 0) \<and>
   pri (procs (fold do_call [Prenice 0 (- 30), Pnice 50] init_proc) 0) \<le> 20"
proof -
  have "pri (procs init_proc 0) = 0" by (simp add: init_proc_def zero_proc_def)
  then show ?thesis
    using priorities_confined[of init_proc "[Prenice 0 (- 30), Pnice 50]"] by (auto simp del: fold.simps)
qed

section \<open>Reading back\<close>

lemma euid_of_set_pri [simp]: "euid_of (set_pri v p k) = euid_of k"
  by (auto simp: euid_of_def set_pri_def upd_proc_def fun_eq_iff)

lemma not_owner_set_pri [simp]: "not_owner (set_pri v p k) = not_owner k"
  by (auto simp: not_owner_def fun_eq_iff) (simp_all add: set_pri_def upd_proc_def)

lemma set_pri_frame [simp]:
  "pgrp (procs (set_pri v p k) q) = pgrp (procs k q)" "pid (procs (set_pri v p k) q) = pid (procs k q)"
  "proclist (set_pri v p k) = proclist k" "curproc (set_pri v p k) = curproc k"
  "pri (procs (set_pri v p k) q) = (if q = p then - v else pri (procs k q))"
  by (simp_all add: set_pri_def upd_proc_def)

lemma max_pri_const:
  "\<lbrakk>\<forall>p \<in> set ps. P p \<longrightarrow> pri (procs k p) = a; m \<le> a; 0 < h \<longrightarrow> m = a\<rbrakk> \<Longrightarrow>
   max_pri k P ps (m, h) = (if 0 < h \<or> (\<exists>p \<in> set ps. P p) then a else m, h + length (List.filter P ps))"
proof (induction ps arbitrary: m h)
  case (Cons p ps)
  then show ?case by (cases "P p") auto
qed simp

lemma highest_of_const:
  assumes "\<forall>p \<in> set (proclist k). P p \<longrightarrow> pri (procs k p) = - v" "v \<le> 20" "\<exists>p \<in> set (proclist k). P p"
  shows "highest_of k P = v + 20"
proof -
  have "List.filter P (proclist k) \<noteq> []" using assms(3) by (auto simp: filter_empty_conv)
  then show ?thesis
    using max_pri_const[of "proclist k" P k "- v" "- 20" 0] assms by (auto simp: highest_of_def)
qed

lemma set_group_denied: "fst (snd (set_group_loop who v ps h EACCES k)) = EACCES"
  by (induction ps arbitrary: h k) (auto simp: Let_def)

lemma set_group_effect:
  "set_group_loop who v ps hits r k = (h, 0, k') \<Longrightarrow> r = 0 \<Longrightarrow>
   h = hits + length (List.filter (\<lambda>p. pgrp (procs k p) = who) ps) \<and>
   (\<forall>p. pri (procs k' p) = (if p \<in> set ps then - v else pri (procs k p)))"
proof (induction ps arbitrary: hits r k)
  case (Cons p ps)
  have "\<not> not_owner k p"
  proof
    assume n: "not_owner k p"
    define h1 where "h1 = (if pgrp (procs k p) = who then hits + 1 else hits)"
    have "set_group_loop who v ps h1 EACCES k = (h, 0, k')" using Cons.prems n by (simp add: h1_def Let_def)
    then show False using set_group_denied[of who v ps h1 k] by (simp add: errno)
  qed
  then show ?case using Cons.prems Cons.IH[of _ 0 "set_pri v p k"] by (fastforce simp: Let_def split: if_splits)
qed simp

lemma set_user_effect:
  "set_user_loop u v ps hits k = (h, k') \<Longrightarrow>
   h = hits + length (List.filter (\<lambda>p. euid_of k p = u) ps) \<and>
   (\<forall>p. pri (procs k' p) = (if p \<in> set ps \<and> euid_of k p = u then - v else pri (procs k p)))"
proof (induction ps arbitrary: hits k)
  case (Cons p ps)
  then show ?case by (cases "euid_of k p = u") (fastforce dest: Cons.IH)+
qed auto

lemma pid2proc_cong:
  "proclist k' = proclist k \<Longrightarrow> (\<And>p. pid (procs k' p) = pid (procs k p)) \<Longrightarrow> pid2proc n k' = pid2proc n k"
  by (simp add: pid2proc_def)

text \<open>
  What a successful \<open>Psetpriority\<close> sets, \<open>Pgetpriority\<close> with the same selection reads, plus 20: the
  value moved into the range of -20 to 20, be it for a process, for a process group or for a user.
\<close>

theorem setpriority_getpriority:
  assumes "sys_psetpriority which who v k = (E_OK, k')"
  shows "sys_pgetpriority which who k' = max (- 20) (min 20 v) + 20"
proof -
  have ch: "prio_change k k'" using psetpriority_change[of k which who v] assms by simp
  note fr = prio_change_frame[OF ch] and r = clamp_pri_range[of v]
  have pr: "pid2proc n k' = pid2proc n k" for n by (rule pid2proc_cong) (simp_all add: fr)
  have ids: "pid (proc_of k') = pid (proc_of k)" "pgrp (proc_of k') = pgrp (proc_of k)"
    by (simp_all add: proc_of_def fr)
  consider "which = 0" | "which = 1" | "which = 2"
    using assms by (auto simp: sys_psetpriority_def Let_def errno split: if_splits)
  then have "sys_pgetpriority which who k' = clamp_pri v + 20"
  proof cases
    case 1
    then show ?thesis using assms unfolding sys_psetpriority_def clamp_pri_code Let_def
      by (auto simp: sys_pgetpriority_def pr ids errno split: if_splits option.splits)
  next
    case 2
    let ?g = "if who = 0 then pgrp (proc_of k) else who"
    obtain h where h: "set_group_loop ?g (clamp_pri v) (proclist k) 0 0 k = (h, 0, k')" "h \<noteq> 0" "\<not> who < 0"
      using assms 2 unfolding sys_psetpriority_def clamp_pri_code Let_def
      by (auto simp: errno split: if_splits prod.splits)
    have "highest_of k' (\<lambda>p. pgrp (procs k' p) = ?g) = clamp_pri v + 20"
      using set_group_effect[OF h(1)] h(2) r by (intro highest_of_const) (auto simp: fr filter_empty_conv)
    then show ?thesis using 2 h(3) by (cases "who = 0") (simp_all add: sys_pgetpriority_def ids)
  next
    case 3
    let ?u = "if who = 0 then euid_of k (curproc k) else word_of_int who"
    obtain h where h: "set_user_loop ?u (clamp_pri v) (proclist k) 0 k = (h, k')" "h \<noteq> 0" "\<not> who < 0"
      using assms 3 unfolding sys_psetpriority_def clamp_pri_code Let_def
      by (auto simp: errno split: if_splits prod.splits)
    have "highest_of k' (\<lambda>p. euid_of k' p = ?u) = clamp_pri v + 20"
      using set_user_effect[OF h(1)] h(2) r by (intro highest_of_const) (auto simp: fr filter_empty_conv)
    then show ?thesis using 3 h(3) by (cases "who = 0") (simp_all add: sys_pgetpriority_def fr)
  qed
  then show ?thesis by (simp add: clamp_pri_def)
qed

lemma init_psetpriority:
  "sys_psetpriority 2 0 (- 30) init_proc = (E_OK, set_pri (- 20) 0 init_proc)"
  by (simp add: sys_psetpriority_def init_proc_def zero_proc_def proc_of_def suser_def euid_of_def errno)

theorem setpriority_getpriority_witness:
  "sys_psetpriority 2 0 (- 30) init_proc = (E_OK, set_pri (- 20) 0 init_proc) \<and>
   sys_pgetpriority 2 0 (set_pri (- 20) 0 init_proc) = 0"
  using setpriority_getpriority[OF init_psetpriority] init_psetpriority by simp

section \<open>Selections that are wider than they should be\<close>

lemma set_group_loop_all:
  "\<forall>p \<in> set ps. \<not> not_owner k p \<Longrightarrow> set_group_loop who v ps hits 0 k =
   (hits + length (List.filter (\<lambda>p. pgrp (procs k p) = who) ps), 0, fold (set_pri v) ps k)"
  by (induction ps arbitrary: hits k) (auto simp: Let_def)

lemma fold_set_pri:
  "pri (procs (fold (set_pri v) ps k) p) = (if p \<in> set ps then - v else pri (procs k p))"
  by (induction ps arbitrary: k) auto

text \<open>
  \<open>Psetpriority\<close> changes processes the caller did not select or does not own. For a process group, the
  superuser's call changes the priority of every process of the system, because only the count depends on
  the group. For a user, the call lowers the priority of the processes of any other user, whoever
  calls, while its result \<open>EACCES\<close> says that the caller is not their owner.
\<close>

theorem setpriority_hits_others:
  "(euid_of k (curproc k) = 0 \<and> 0 < who \<and> (\<exists>p \<in> set (proclist k). pgrp (procs k p) = who) \<longrightarrow>
      (\<exists>k'. sys_psetpriority PRIO_PGRP who v k = (0, k') \<and>
        (\<forall>p \<in> set (proclist k). pri (procs k' p) = - clamp_pri v))) \<and>
   (0 < who \<and> who < 2 ^ 15 \<and> euid_of k (curproc k) \<noteq> word_of_int who \<and> 0 \<le> v \<and>
    (\<exists>p \<in> set (proclist k). euid_of k p = word_of_int who) \<longrightarrow>
      (\<exists>k'. sys_psetpriority PRIO_USER who v k = (EACCES, k') \<and>
        (\<forall>p \<in> set (proclist k). euid_of k p = word_of_int who \<longrightarrow> pri (procs k' p) = - clamp_pri v)))"
proof (intro conjI impI)
  assume a: "euid_of k (curproc k) = 0 \<and> 0 < who \<and> (\<exists>p \<in> set (proclist k). pgrp (procs k p) = who)"
  then have l: "set_group_loop who (clamp_pri v) (proclist k) 0 0 k =
      (length (List.filter (\<lambda>p. pgrp (procs k p) = who) (proclist k)), 0, fold (set_pri (clamp_pri v)) (proclist k) k)"
    using set_group_loop_all[of "proclist k" k who "clamp_pri v" 0] by (simp add: not_owner_def)
  have "sys_psetpriority PRIO_PGRP who v k = (0, fold (set_pri (clamp_pri v)) (proclist k) k)"
    using a l unfolding sys_psetpriority_def clamp_pri_code Let_def
    by (auto simp: suser_def euid_of_def proc_of_def filter_empty_conv)
  then show "\<exists>k'. sys_psetpriority PRIO_PGRP who v k = (0, k') \<and> (\<forall>p \<in> set (proclist k). pri (procs k' p) = - clamp_pri v)"
    by (simp add: fold_set_pri)
next
  assume a: "0 < who \<and> who < 2 ^ 15 \<and> euid_of k (curproc k) \<noteq> word_of_int who \<and> 0 \<le> v \<and>
    (\<exists>p \<in> set (proclist k). euid_of k p = word_of_int who)"
  obtain h k' where l: "set_user_loop (word_of_int who) (clamp_pri v) (proclist k) 0 k = (h, k')" by fastforce
  note e = set_user_effect[OF l]
  have "sys_psetpriority PRIO_USER who v k = (EACCES, k')"
    using a l e unfolding sys_psetpriority_def clamp_pri_code Let_def
    by (auto simp: clamp_pri_def filter_empty_conv)
  then show "\<exists>k'. sys_psetpriority PRIO_USER who v k = (EACCES, k') \<and>
      (\<forall>p \<in> set (proclist k). euid_of k p = word_of_int who \<longrightarrow> pri (procs k' p) = - clamp_pri v)"
    using e by auto
qed

definition two_groups :: kernel where
  "two_groups = init_proc\<lparr>proclist := [0, 1], procs := (\<lambda>_. zero_proc)(1 := zero_proc\<lparr>pid := 1, pgrp := 1\<rparr>)\<rparr>"

text \<open>With process 0 in group 0, changing group 1 changes process 0 as well.\<close>

theorem setpriority_hits_others_witness:
  "pgrp (procs two_groups 0) = 0 \<and> pri (procs two_groups 0) = 0 \<and>
   (\<exists>k'. sys_psetpriority PRIO_PGRP 1 7 two_groups = (0, k') \<and> pri (procs k' 0) = - 7)"
proof -
  have h: "euid_of two_groups (curproc two_groups) = 0 \<and> (0::int) < 1 \<and> (\<exists>p \<in> set (proclist two_groups). pgrp (procs two_groups p) = 1)"
    by (simp add: two_groups_def init_proc_def euid_of_def zero_proc_def)
  show ?thesis
    using setpriority_hits_others[of two_groups 1 7] h by (auto simp: two_groups_def zero_proc_def clamp_pri_def)
qed

text \<open>
  \<open>Prenice\<close> with a large positive \<open>delta\<close> wraps around as a \<open>short\<close>: the process that should get the lowest
  priority gets the highest.
\<close>

lemma prenice_wraps:
  "pri (procs (snd (sys_prenice 0 32767 (set_pri 20 0 init_proc))) 0) = 20"
proof -
  have w: "signed_take_bit 1 (2 :: int) = - 2" "signed_take_bit (Suc 0) (2 :: int) = - 2" by code_simp+
  show ?thesis
    by (simp add: sys_prenice_def sys_pgetpriority_def sys_psetpriority_def pid2proc_def init_proc_def zero_proc_def
        set_pri_def upd_proc_def proc_of_def suser_def euid_of_def not_owner_def errno w)
qed

lemma psetlimit_effect:
  assumes "sys_psetlimit (\<lambda>_ k. k) 1 v k = (r, k')"
  shows "r = Inr (maxcpu (proc_of k))" "maxcpu (proc_of k') = (if 0 \<le>s v then v else maxcpu (proc_of k))"
  using assms by (auto simp: sys_psetlimit_def upd_proc_def proc_of_def Let_def split: if_splits)

end
