(* ===== verification/Filedesc.thy ===== *)
theory Filedesc
  imports Timeouts Signals
begin

text \<open>
  File descriptors: the tables of \<open>struct filedesc\<close> and the reference counts of \<open>struct file\<close>
  (\<open>sys/k_fds.c\<close>), the sharing, copying and freeing of tables when processes start and end
  (\<open>sys/proc_help.c\<close>), and the calls \<open>Fclose\<close>, \<open>Fdup\<close>, \<open>Fforce\<close>, \<open>Fmidipipe\<close> and the descriptor part of
  \<open>Fcntl\<close> (\<open>sys/dosfile.c\<close>).

  A slot of a table holds a pointer: 0 for a free handle, 1 for one that is reserved, otherwise the
  address of an open file. The five entries before the table proper are the fields \<open>midiout\<close>, \<open>midiin\<close>,
  \<open>prn\<close>, \<open>aux\<close> and \<open>control\<close>, reached as handles -5 to -1. \<open>None\<close> as the result of an operation stands for a
  failed assertion or for the use of memory that is not allocated. Device drivers, file systems
  and \<open>tty_ioctl\<close> are functions of the environment.
\<close>

section \<open>Structures\<close>

type_synonym faddr = u32

record fcookie =
  fc_fs :: u32
  fc_dev :: u16
  fc_index :: u32

record fileptr =
  f_links :: int
  f_flags :: u16
  f_devinfo :: u32
  f_fc :: fcookie
  f_dev :: u32

record tty =
  tty_pgrp :: int
  tty_state :: u16
  use_cnt :: int
  aux_cnt :: int
  xkey :: u32
  hup_ospeed :: int
  sg_flags :: u16
  tty_rsel :: "pptr option"
  tty_wsel :: "pptr option"
  vmin :: u16
  vtime :: u16

record dir =
  d_next :: u32
  d_fd :: int
  d_fc :: fcookie

record filedesc =
  ofiles :: "int \<Rightarrow> faddr"
  ofileflags :: "int \<Rightarrow> u8"
  nfiles :: int
  fd_links :: int
  searches :: u32
  srchdta :: "nat \<Rightarrow> u32"
  srchdir :: "nat \<Rightarrow> dir"

record fstate =
  kern :: kernel
  p_fd :: "pptr \<Rightarrow> nat option"
  filedescs :: "nat \<Rightarrow> filedesc option"
  files :: "faddr \<Rightarrow> fileptr option"
  ttys :: "u32 \<Rightarrow> tty"
  dirs :: "u32 \<Rightarrow> dir option"

record fenv =
  e_unselect :: "faddr \<Rightarrow> pptr \<Rightarrow> u16 \<Rightarrow> fstate \<Rightarrow> fstate"
  e_ioctl :: "faddr \<Rightarrow> u16 \<Rightarrow> int \<Rightarrow> fstate \<Rightarrow> int \<times> int \<times> fstate"
  e_tty_ioctl :: "faddr \<Rightarrow> u16 \<Rightarrow> fstate \<Rightarrow> fstate"
  e_dev_close :: "faddr \<Rightarrow> int \<Rightarrow> fstate \<Rightarrow> int \<times> fstate"
  e_xdd_close :: "faddr \<Rightarrow> int \<Rightarrow> fstate \<Rightarrow> int \<times> fstate"
  e_release_cookie :: "fcookie \<Rightarrow> fstate \<Rightarrow> fstate"
  e_xfs_closedir :: "dir \<Rightarrow> fstate \<Rightarrow> int \<times> fstate"
  e_select_coll :: u32
  e_hangup_b1 :: nat
  e_hangup_done :: nat
  e_mem :: "fstate \<Rightarrow> nat option"

abbreviation (input) MIN_HANDLE :: int where "MIN_HANDLE \<equiv> - 5"
abbreviation (input) MIN_OPEN :: int where "MIN_OPEN \<equiv> 6"
abbreviation (input) NDFILE :: int where "NDFILE \<equiv> 1024"
abbreviation (input) NUM_SEARCH :: nat where "NUM_SEARCH \<equiv> 10"
abbreviation (input) FD_CLOEXEC :: u8 where "FD_CLOEXEC \<equiv> 1"
abbreviation (input) O_GLOBAL_HANDLE :: int where "O_GLOBAL_HANDLE \<equiv> 0x4000"
abbreviation (input) O_RDONLY :: u16 where "O_RDONLY \<equiv> 0"
abbreviation (input) O_WRONLY :: u16 where "O_WRONLY \<equiv> 1"
abbreviation (input) O_RDWR :: u16 where "O_RDWR \<equiv> 2"
abbreviation (input) O_RWMODE :: u16 where "O_RWMODE \<equiv> 3"
abbreviation (input) O_SHMODE :: u16 where "O_SHMODE \<equiv> 0x70"
abbreviation (input) O_NOINHERIT :: u16 where "O_NOINHERIT \<equiv> 0x80"
abbreviation (input) O_NDELAY :: u16 where "O_NDELAY \<equiv> 0x100"
abbreviation (input) O_USER :: u16 where "O_USER \<equiv> 0xfff"
abbreviation (input) O_TTY :: u16 where "O_TTY \<equiv> 0x2000"
abbreviation (input) O_HEAD :: u16 where "O_HEAD \<equiv> 0x4000"
abbreviation (input) TS_BLIND :: u16 where "TS_BLIND \<equiv> 0x0800"
abbreviation (input) TS_HPCL :: u16 where "TS_HPCL \<equiv> 0x4000"
abbreviation (input) TIOCFLUSH :: u16 where "TIOCFLUSH \<equiv> 0x5408"
abbreviation (input) TIOCSTOP :: u16 where "TIOCSTOP \<equiv> 0x5409"
abbreviation (input) TIOCSTART :: u16 where "TIOCSTART \<equiv> 0x540a"
abbreviation (input) TIOCOBAUD :: u16 where "TIOCOBAUD \<equiv> 0x5413"
abbreviation (input) TIOCCBRK :: u16 where "TIOCCBRK \<equiv> 0x5414"
abbreviation (input) TIOCWONLINE :: u16 where "TIOCWONLINE \<equiv> 0x541d"

definition short_of :: "int \<Rightarrow> int" where
  "short_of n = signed_take_bit 15 n"

definition upd_file :: "faddr \<Rightarrow> (fileptr \<Rightarrow> fileptr) \<Rightarrow> fstate \<Rightarrow> fstate option" where
  "upd_file v g s = (case files s v of None \<Rightarrow> None | Some f \<Rightarrow> Some (s\<lparr>files := (files s)(v \<mapsto> g f)\<rparr>))"

definition upd_fd :: "nat \<Rightarrow> (filedesc \<Rightarrow> filedesc) \<Rightarrow> fstate \<Rightarrow> fstate option" where
  "upd_fd d g s = (case filedescs s d of None \<Rightarrow> None | Some t \<Rightarrow> Some (s\<lparr>filedescs := (filedescs s)(d \<mapsto> g t)\<rparr>))"

definition upd_tty :: "u32 \<Rightarrow> (tty \<Rightarrow> tty) \<Rightarrow> fstate \<Rightarrow> fstate" where
  "upd_tty a g s = s\<lparr>ttys := (ttys s)(a := g (ttys s a))\<rparr>"

definition fd_table :: "fstate \<Rightarrow> pptr \<Rightarrow> filedesc option" where
  "fd_table s p = (case p_fd s p of None \<Rightarrow> None | Some d \<Rightarrow> filedescs s d)"

definition upd_table :: "pptr \<Rightarrow> (filedesc \<Rightarrow> filedesc) \<Rightarrow> fstate \<Rightarrow> fstate option" where
  "upd_table p g s = (case p_fd s p of None \<Rightarrow> None | Some d \<Rightarrow> upd_fd d g s)"

definition is_terminal :: "fileptr \<Rightarrow> bool" where
  "is_terminal f \<longleftrightarrow> f_flags f AND O_TTY \<noteq> 0"

section \<open>Descriptors\<close>

text \<open>The search of \<open>fd_alloc\<close>; reading before handle -5 leaves the table.\<close>

function fd_scan :: "filedesc \<Rightarrow> int \<Rightarrow> int option option" where
  "fd_scan t i =
    (if i < nfiles t then
       (if i < MIN_HANDLE then None
        else if ofiles t i = 0 then Some (Some i)
        else fd_scan t (i + 1))
     else Some None)"
  by pat_completeness auto
termination by (relation "measure (\<lambda>(t, i). nat (nfiles t - i))") auto

declare fd_scan.simps [simp del]

definition set_slot :: "int \<Rightarrow> faddr \<Rightarrow> filedesc \<Rightarrow> filedesc" where
  "set_slot i v t = t\<lparr>ofiles := (ofiles t)(i := v)\<rparr>"

text \<open>
  The flags bytes \<open>dfileflags\<close> directly follow the pointers \<open>dfiles\<close>, so the flags byte of a negative
  handle is a byte of the last pointers (the processor stores the most significant byte first).
\<close>

definition flag_slot :: "int \<Rightarrow> int" where
  "flag_slot i = NDFILE + i div 4"

definition flag_shift :: "int \<Rightarrow> nat" where
  "flag_shift i = nat (8 * (3 - i mod 4))"

definition set_ofileflag :: "int \<Rightarrow> u8 \<Rightarrow> filedesc \<Rightarrow> filedesc" where
  "set_ofileflag i v t =
    (if 0 \<le> i then t\<lparr>ofileflags := (ofileflags t)(i := v)\<rparr>
     else set_slot (flag_slot i)
       ((ofiles t (flag_slot i) AND NOT (push_bit (flag_shift i) 255)) OR push_bit (flag_shift i) (ucast v)) t)"

definition get_ofileflag :: "int \<Rightarrow> filedesc \<Rightarrow> u8" where
  "get_ofileflag i t = (if 0 \<le> i then ofileflags t i else ucast (drop_bit (flag_shift i) (ofiles t (flag_slot i))))"

definition fd_alloc :: "pptr \<Rightarrow> int \<Rightarrow> fstate \<Rightarrow> ((int + int) \<times> fstate) option" where
  "fd_alloc p mn s =
    do { t \<leftarrow> fd_table s p;
         r \<leftarrow> fd_scan t mn;
         case r of
           None \<Rightarrow> Some (Inl EMFILE, s)
         | Some i \<Rightarrow> do { s \<leftarrow> upd_table p (set_slot i 1) s; Some (Inr i, s) } }"

definition fd_remove :: "pptr \<Rightarrow> int \<Rightarrow> fstate \<Rightarrow> fstate option" where
  "fd_remove p fd s = upd_table p (set_slot fd 0) s"

text \<open>\<open>mem\<close> is the result of \<open>kmalloc\<close>.\<close>

definition zero_file :: fileptr where
  "zero_file = \<lparr>f_links = 0, f_flags = 0, f_devinfo = 0, f_fc = \<lparr>fc_fs = 0, fc_dev = 0, fc_index = 0\<rparr>, f_dev = 0\<rparr>"

definition fp_alloc :: "faddr \<Rightarrow> fstate \<Rightarrow> (int + faddr) \<times> fstate" where
  "fp_alloc mem s =
    (if mem = 0 then (Inl ENOMEM, s)
     else (Inr mem, s\<lparr>files := (files s)(mem \<mapsto> zero_file\<lparr>f_links := 1\<rparr>)\<rparr>))"

definition fp_done :: "pptr \<Rightarrow> faddr \<Rightarrow> int \<Rightarrow> u8 \<Rightarrow> fstate \<Rightarrow> fstate option" where
  "fp_done p fp fd fdflags s =
    do { t \<leftarrow> fd_table s p;
         if ofiles t fd = 1 then upd_table p (set_ofileflag fd fdflags \<circ> set_slot fd fp) s else None }"

definition fp_free :: "faddr \<Rightarrow> fstate \<Rightarrow> fstate option" where
  "fp_free fp s = (case files s fp of None \<Rightarrow> None | Some f \<Rightarrow> Some (s\<lparr>files := (files s)(fp := None)\<rparr>))"

text \<open>The process and the handle change for a global handle.\<close>

definition fp_get1 :: "pptr \<Rightarrow> int \<Rightarrow> fstate \<Rightarrow> int + faddr" where
  "fp_get1 p fd s =
    (case fd_table s p of
       None \<Rightarrow> Inl EBADF
     | Some t \<Rightarrow> if fd < MIN_HANDLE \<or> fd \<ge> nfiles t \<or> ofiles t fd = 0 \<or> ofiles t fd = 1 then Inl EBADF
               else Inr (ofiles t fd))"

definition fp_get :: "pptr \<Rightarrow> int \<Rightarrow> fstate \<Rightarrow> int + (pptr \<times> int \<times> faddr)" where
  "fp_get p fd s =
    (let (p, fd) = (if fd \<ge> O_GLOBAL_HANDLE then (rootproc (kern s), fd - O_GLOBAL_HANDLE) else (p, fd))
     in case fp_get1 p fd s of Inl e \<Rightarrow> Inl e | Inr fp \<Rightarrow> Inr (p, fd, fp))"

definition add_link :: "fileptr \<Rightarrow> fileptr" where
  "add_link f = f\<lparr>f_links := short_of (f_links f + 1)\<rparr>"

definition do_dup :: "int \<Rightarrow> int \<Rightarrow> bool \<Rightarrow> fstate \<Rightarrow> (int \<times> fstate) option" where
  "do_dup fd mn cmd s =
    (let p = curproc (kern s)
     in do { (r, s) \<leftarrow> fd_alloc p mn s;
             case r of
               Inl e \<Rightarrow> Some (e, s)
             | Inr newfd \<Rightarrow>
                 (case fp_get p fd s of
                    Inl e \<Rightarrow> do { s \<leftarrow> fd_remove p newfd s; Some (e, s) }
                  | Inr (_, _, fp) \<Rightarrow>
                      do { s \<leftarrow> fp_done p fp newfd (if cmd then FD_CLOEXEC else 0) s;
                           s \<leftarrow> upd_file fp add_link s;
                           Some (newfd, s) }) })"

section \<open>Closing\<close>

definition lift_kern :: "(kernel \<Rightarrow> kernel option) \<Rightarrow> fstate \<Rightarrow> fstate option" where
  "lift_kern g s = map_option (\<lambda>k. s\<lparr>kern := k\<rparr>) (g (kern s))"

definition set_timeout_arg :: "nat \<Rightarrow> u32 \<Rightarrow> fstate \<Rightarrow> fstate" where
  "set_timeout_arg a v s =
    s\<lparr>kern := (kern s)\<lparr>tlist := map (\<lambda>t. if t_addr t = a then t\<lparr>t_arg := v\<rparr> else t) (tlist (kern s))\<rparr>\<rparr>"

text \<open>\<open>kfree(tty->xkey)\<close> when the last user is gone.\<close>

definition drop_xkey :: "u32 \<Rightarrow> fstate \<Rightarrow> fstate" where
  "drop_xkey a s = (if use_cnt (ttys s a) \<le> 0 \<and> xkey (ttys s a) \<noteq> 0 then upd_tty a (\<lambda>t. t\<lparr>xkey := 0\<rparr>) s else s)"

text \<open>The hang up that is started when the last descriptor of a terminal is closed.\<close>

definition start_hangup :: "fenv \<Rightarrow> faddr \<Rightarrow> u32 \<Rightarrow> nat \<Rightarrow> int \<Rightarrow> fstate \<Rightarrow> fstate option" where
  "start_hangup env v a t ospeed s =
    do { s \<leftarrow> upd_file v (\<lambda>f. f\<lparr>f_links := 1\<rparr>) s;
         let s = upd_tty a (\<lambda>x. x\<lparr>use_cnt := short_of (use_cnt x + 1)\<rparr>) s;
         let s = set_timeout_arg t v s;
         let s = snd (snd (e_ioctl env v TIOCCBRK 0 s));
         let s = upd_tty a (\<lambda>x. x\<lparr>hup_ospeed := - 1\<rparr>) s;
         let s = e_tty_ioctl env v TIOCFLUSH (e_tty_ioctl env v TIOCSTOP s);
         Some (if ospeed > 0
               then snd (snd (e_ioctl env v TIOCOBAUD 0 (upd_tty a (\<lambda>x. x\<lparr>hup_ospeed := ospeed\<rparr>) s)))
               else s) }"

definition close_tty :: "fenv \<Rightarrow> faddr \<Rightarrow> fstate \<Rightarrow> fstate option" where
  "close_tty env v s =
    do { f \<leftarrow> files s v;
         let a = f_devinfo f;
         let no_pgrp = upd_tty a (\<lambda>x. x\<lparr>tty_pgrp := 0\<rparr>);
         let x = ttys s a;
         s \<leftarrow> (if use_cnt x - aux_cnt x \<le> 1 then
                 (if tty_state x AND TS_HPCL \<noteq> 0 \<and> hup_ospeed x = 0 \<and> f_flags f AND O_HEAD = 0 then
                    (if f_dev f = 0 then None
                     else case e_ioctl env v TIOCOBAUD (- 1) s of (r, ospeed, s) \<Rightarrow>
                       (if r \<ge> 0 then
                          (case addroottimeout (e_mem env s) 500 (e_hangup_b1 env) 0 (kern s) of
                             None \<Rightarrow> None
                           | Some (None, k) \<Rightarrow> Some (no_pgrp (s\<lparr>kern := k\<rparr>))
                           | Some (Some t, k) \<Rightarrow> start_hangup env v a t ospeed (s\<lparr>kern := k\<rparr>))
                        else Some (no_pgrp s)))
                  else Some (no_pgrp s))
               else Some s);
         let s = upd_tty a (\<lambda>x. x\<lparr>use_cnt := short_of (use_cnt x - 1)\<rparr>) s;
         Some (drop_xkey a s) }"

definition do_unselect :: "fenv \<Rightarrow> pptr \<Rightarrow> faddr \<Rightarrow> fstate \<Rightarrow> fstate option" where
  "do_unselect env p v s =
    lift_kern (wake SELECT_Q (e_select_coll env))
      (e_unselect env v p O_RDWR (e_unselect env v p O_WRONLY (e_unselect env v p O_RDONLY s)))"

text \<open>The end of \<open>do_close\<close> and of \<open>hangup_done\<close>: an unused file is freed.\<close>

definition drop_unused :: "fenv \<Rightarrow> faddr \<Rightarrow> fstate \<Rightarrow> fstate option" where
  "drop_unused env v s =
    do { f \<leftarrow> files s v;
         if f_links f \<le> 0 then fp_free v (e_release_cookie env (f_fc f) s) else Some s }"

definition do_close :: "fenv \<Rightarrow> pptr \<Rightarrow> faddr \<Rightarrow> fstate \<Rightarrow> (int \<times> fstate) option" where
  "do_close env p v s =
    (if v = 0 then Some (EBADF, s)
     else if v = 1 then Some (E_OK, s)
     else do {
       f \<leftarrow> files s v;
       s \<leftarrow> (if f_dev f \<noteq> 0 then do_unselect env p v s else Some s);
       s \<leftarrow> upd_file v (\<lambda>f. f\<lparr>f_links := short_of (f_links f - 1)\<rparr>) s;
       f \<leftarrow> files s v;
       s \<leftarrow> (if is_terminal f \<and> f_links f \<le> 0 then close_tty env v s else Some s);
       f \<leftarrow> files s v;
       let (r, s) = (if f_dev f \<noteq> 0 then e_xdd_close env v (pid (procs (kern s) p)) s else (E_OK, s));
       s \<leftarrow> drop_unused env v s;
       Some (r, s) })"

text \<open>The two steps of a hang up are called by timeouts, 500 and 2500 milliseconds after the close.\<close>

definition hangup_done :: "fenv \<Rightarrow> faddr \<Rightarrow> fstate \<Rightarrow> fstate option" where
  "hangup_done env v s =
    do { f \<leftarrow> files s v;
         let a = f_devinfo f;
         let s = upd_tty a (\<lambda>x. x\<lparr>hup_ospeed := 0, tty_state := tty_state x AND NOT TS_HPCL\<rparr>) s;
         let s = e_tty_ioctl env v TIOCSTART s;
         s \<leftarrow> lift_kern (wake IO_Q (a + 2)) s;
         let s = upd_tty a (\<lambda>x. x\<lparr>tty_state := tty_state x AND NOT TS_HPCL\<rparr>) s;
         s \<leftarrow> upd_file v (\<lambda>f. f\<lparr>f_links := short_of (f_links f - 1)\<rparr>) s;
         f \<leftarrow> files s v;
         let s = (if f_links f \<le> 0 then
                    (let s = upd_tty a (\<lambda>x. x\<lparr>use_cnt := short_of (use_cnt x - 1)\<rparr>) s;
                         s = (if use_cnt (ttys s a) - aux_cnt (ttys s a) \<le> 0
                              then upd_tty a (\<lambda>x. x\<lparr>tty_pgrp := 0\<rparr>) s else s)
                     in drop_xkey a s)
                  else s);
         if f_dev f = 0 then None else drop_unused env v (snd (e_dev_close env v 0 s)) }"

definition hangup_b1 :: "fenv \<Rightarrow> faddr \<Rightarrow> fstate \<Rightarrow> fstate option" where
  "hangup_b1 env v s =
    do { f \<leftarrow> files s v;
         let a = f_devinfo f;
         (t, k) \<leftarrow> addroottimeout (e_mem env s) 2000 (e_hangup_done env) 0 (kern s);
         let s = s\<lparr>kern := k\<rparr>;
         s \<leftarrow> (if hup_ospeed (ttys s a) > 0
               then (if f_dev f = 0 then None
                     else case e_ioctl env v TIOCOBAUD (hup_ospeed (ttys s a)) s of
                            (_, z, s) \<Rightarrow> Some (upd_tty a (\<lambda>x. x\<lparr>hup_ospeed := z\<rparr>) s))
               else Some s);
         (case t of
            None \<Rightarrow> hangup_done env v s
          | Some t \<Rightarrow> Some (upd_tty a (\<lambda>x. x\<lparr>hup_ospeed := - 1\<rparr>) (set_timeout_arg t v s))) }"

section \<open>Calls on descriptors\<close>

text \<open>
  \<open>Fclose\<close> first closes the directory streams of the descriptor. \<open>where\<close> points to the head of the chain or
  to the \<open>next\<close> field of a stream; unlinking a stream reads the field of the stream just freed.
\<close>

datatype link = Head | Next_of u32

fun read_link :: "pptr \<Rightarrow> link \<Rightarrow> fstate \<Rightarrow> u32 option" where
  "read_link p Head s = map_option searches (fd_table s p)"
| "read_link p (Next_of a) s = map_option d_next (dirs s a)"

fun write_link :: "pptr \<Rightarrow> link \<Rightarrow> u32 \<Rightarrow> fstate \<Rightarrow> fstate option" where
  "write_link p Head v s = upd_table p (\<lambda>t. t\<lparr>searches := v\<rparr>) s"
| "write_link p (Next_of a) v s =
    (case dirs s a of None \<Rightarrow> None | Some d \<Rightarrow> Some (s\<lparr>dirs := (dirs s)(a \<mapsto> d\<lparr>d_next := v\<rparr>)\<rparr>))"

partial_function (option) close_streams :: "fenv \<Rightarrow> pptr \<Rightarrow> int \<Rightarrow> link \<Rightarrow> fstate \<Rightarrow> fstate option" where
  "close_streams env p fd w s =
    do { a \<leftarrow> read_link p w s;
         if a = 0 then Some s
         else do {
           d \<leftarrow> dirs s a;
           s \<leftarrow> (if fd \<ge> MIN_OPEN \<and> d_fd d = fd then
                   do { let s = e_release_cookie env (d_fc d) (snd (e_xfs_closedir env d s));
                        let s = s\<lparr>dirs := (dirs s)(a := None)\<rparr>;
                        n \<leftarrow> read_link p (Next_of a) s;
                        write_link p w n s }
                 else Some s);
           close_streams env p fd (Next_of a) s } }"

text \<open>With \<open>WITH_SINGLE_TASK_SUPPORT\<close>, which \<open>KERNELDEFS\<close> sets for every kernel: \<open>Fclose\<close> of a negative handle does
  nothing in single task mode.\<close>

abbreviation (input) M_SINGLE_TASK :: u16 where "M_SINGLE_TASK \<equiv> 1"

definition sys_f_close :: "fenv \<Rightarrow> int \<Rightarrow> fstate \<Rightarrow> (int \<times> fstate) option" where
  "sys_f_close env fd s =
    (if fd < 0 \<and> modeflags (proc_of (kern s)) AND M_SINGLE_TASK \<noteq> 0 then Some (0, s)
     else case fp_get (curproc (kern s)) fd s of
       Inl e \<Rightarrow> Some (e, s)
     | Inr (p, fd, f) \<Rightarrow>
         do { s \<leftarrow> close_streams env p fd Head s;
              (r, s) \<leftarrow> do_close env p f s;
              s \<leftarrow> fd_remove p fd s;
              Some (r, s) })"

definition sys_f_dup :: "int \<Rightarrow> fstate \<Rightarrow> (int \<times> fstate) option" where
  "sys_f_dup fd s = do_dup fd 0 False s"

text \<open>Making a terminal the control terminal of a process without one.\<close>

definition force_tty :: "fenv \<Rightarrow> pptr \<Rightarrow> faddr \<Rightarrow> int \<Rightarrow> fstate \<Rightarrow> fstate option" where
  "force_tty env p fp newfd s =
    do { f \<leftarrow> files s fp;
         let a = f_devinfo f;
         if is_terminal f \<and> newfd = - 1 \<and> f_flags f AND O_HEAD = 0 \<and> tty_pgrp (ttys s a) = 0 then
           do { let s = upd_tty a (\<lambda>x. x\<lparr>tty_pgrp := pgrp (procs (kern s) p)\<rparr>) s;
                if f_flags f AND O_NDELAY = 0 \<and> tty_state (ttys s a) AND TS_BLIND \<noteq> 0
                then (if f_dev f = 0 then None else Some (snd (snd (e_ioctl env fp TIOCWONLINE 0 s))))
                else Some s }
         else Some s }"

definition sys_f_force :: "fenv \<Rightarrow> int \<Rightarrow> int \<Rightarrow> fstate \<Rightarrow> (int \<times> fstate) option" where
  "sys_f_force env newfd oldfd s =
    (case fp_get (curproc (kern s)) oldfd s of
       Inl e \<Rightarrow> Some (e, s)
     | Inr (p, _, fp) \<Rightarrow>
         do { t \<leftarrow> fd_table s p;
              if newfd < MIN_HANDLE \<or> newfd \<ge> nfiles t then Some (EBADF, s)
              else do {
                (_, s) \<leftarrow> do_close env p (ofiles t newfd) s;
                s \<leftarrow> upd_table p (set_ofileflag newfd 0 \<circ> set_slot newfd fp) s;
                s \<leftarrow> upd_file fp add_link s;
                s \<leftarrow> force_tty env p fp newfd s;
                Some (E_OK, s) } })"

definition sys_f_midipipe :: "fenv \<Rightarrow> int \<Rightarrow> int \<Rightarrow> int \<Rightarrow> fstate \<Rightarrow> (int \<times> fstate) option" where
  "sys_f_midipipe env n inh outh s =
    (case (if n = 0 then Some (curproc (kern s)) else pid2proc n (kern s)) of
       None \<Rightarrow> Some (ENOENT, s)
     | Some p \<Rightarrow>
         do { t \<leftarrow> fd_table s p;
              if inh < MIN_HANDLE \<or> inh \<ge> nfiles t \<or> ofiles t inh = 0 then Some (EBADF, s)
              else do {
                let fin = ofiles t inh;
                fi \<leftarrow> files s fin;
                if f_flags fi AND O_RWMODE = O_WRONLY then Some (EACCES, s)
                else if outh < MIN_HANDLE \<or> outh \<ge> nfiles t \<or> ofiles t outh = 0 then Some (EBADF, s)
                else do {
                  let fout = ofiles t outh;
                  fo \<leftarrow> files s fout;
                  if f_flags fo AND O_RWMODE = O_RDONLY then Some (EACCES, s)
                  else do {
                    s \<leftarrow> upd_file fin add_link s;
                    s \<leftarrow> upd_file fout add_link s;
                    (_, s) \<leftarrow> do_close env p (ofiles t (- 4)) s;
                    (_, s) \<leftarrow> do_close env p (ofiles t (- 5)) s;
                    s \<leftarrow> upd_table p (set_slot (- 5) fout \<circ> set_slot (- 4) fin) s;
                    Some (E_OK, s) } } } })"

text \<open>
  The commands of \<open>Fcntl\<close> on the descriptor itself; the others (\<open>None\<close> of the inner option) go to the
  file system and the driver.
\<close>

definition sys_f_cntl :: "int \<Rightarrow> int \<Rightarrow> int \<Rightarrow> fstate \<Rightarrow> (int option \<times> fstate) option" where
  "sys_f_cntl fd arg cmd s =
    (if cmd = 0 \<or> cmd = 1030 then
       map_option (\<lambda>(r, s). (Some r, s)) (do_dup fd (short_of arg) (cmd = 1030) s)
     else case fp_get (curproc (kern s)) fd s of
       Inl e \<Rightarrow> Some (Some e, s)
     | Inr (p, fd, v) \<Rightarrow>
         (if cmd = 1 then do { t \<leftarrow> fd_table s p; Some (Some (uint (get_ofileflag fd t)), s) }
          else if cmd = 2 then
            do { s \<leftarrow> upd_table p (set_ofileflag fd (word_of_int arg)) s; Some (Some E_OK, s) }
          else if cmd = 3 then do { f \<leftarrow> files s v; Some (Some (uint (f_flags f AND O_USER)), s) }
          else if cmd = 4 then
            do { s \<leftarrow> upd_file v (\<lambda>f.
                   let a = (word_of_int arg AND O_USER) AND NOT (O_RWMODE OR O_SHMODE);
                       a = a OR (f_flags f AND (O_RWMODE OR O_SHMODE))
                   in f\<lparr>f_flags := (f_flags f AND NOT O_USER) OR a\<rparr>) s;
                 Some (Some E_OK, s) }
          else Some (None, s)))"

section \<open>Tables of processes\<close>

definition share_fd :: "pptr \<Rightarrow> fstate \<Rightarrow> (nat \<times> fstate) option" where
  "share_fd p s =
    do { d \<leftarrow> p_fd s p;
         s \<leftarrow> upd_fd d (\<lambda>t. t\<lparr>fd_links := fd_links t + 1\<rparr>) s;
         Some (d, s) }"

fun copy_slots :: "nat \<Rightarrow> int list \<Rightarrow> fstate \<Rightarrow> fstate option" where
  "copy_slots d [] s = Some s"
| "copy_slots d (i # is) s =
    do { t \<leftarrow> filedescs s d;
         s \<leftarrow> (let v = ofiles t i
               in if v = 0 then Some s
                  else if v = 1 then upd_fd d (set_slot i 0) s
                  else do { f \<leftarrow> files s v;
                            if f_flags f AND O_NOINHERIT \<noteq> 0 then upd_fd d (set_slot i 0) s
                            else upd_file v add_link s });
         copy_slots d is s }"

definition zero_dir :: dir where
  "zero_dir = \<lparr>d_next = 0, d_fd = 0, d_fc = \<lparr>fc_fs = 0, fc_dev = 0, fc_index = 0\<rparr>\<rparr>"

text \<open>\<open>mem\<close> is the result of \<open>kmalloc\<close>; the result \<open>None\<close> in the pair is the null pointer.\<close>

definition copy_fd :: "nat option \<Rightarrow> pptr \<Rightarrow> fstate \<Rightarrow> (nat option \<times> fstate) option" where
  "copy_fd mem p s =
    do { org \<leftarrow> fd_table s p;
         if \<not> 0 < fd_links org then None
         else case mem of
           None \<Rightarrow> Some (None, s)
         | Some d \<Rightarrow>
             do { let s = s\<lparr>filedescs := (filedescs s)(d \<mapsto> org\<lparr>fd_links := 1, nfiles := NDFILE\<rparr>)\<rparr>;
                  s \<leftarrow> copy_slots d [MIN_HANDLE..NDFILE - 1] s;
                  s \<leftarrow> upd_fd d (\<lambda>t. t\<lparr>srchdta := (\<lambda>_. 0), srchdir := (\<lambda>_. zero_dir), searches := 0\<rparr>) s;
                  Some (Some d, s) } }"

text \<open>The descriptors of a new process \<open>p2\<close>, in \<open>fork_proc\<close>.\<close>

definition fork_fd :: "bool \<Rightarrow> nat option \<Rightarrow> pptr \<Rightarrow> pptr \<Rightarrow> fstate \<Rightarrow> fstate option" where
  "fork_fd share mem p1 p2 s =
    (if share then do { (d, s) \<leftarrow> share_fd p1 s; Some (s\<lparr>p_fd := (p_fd s)(p2 := Some d)\<rparr>) }
     else do { (d, s) \<leftarrow> copy_fd mem p1 s; Some (s\<lparr>p_fd := (p_fd s)(p2 := d)\<rparr>) })"

fun exists_proc :: "(pptr \<Rightarrow> bool option) \<Rightarrow> pptr list \<Rightarrow> bool option" where
  "exists_proc P [] = Some False"
| "exists_proc P (p # ps) = do { b \<leftarrow> P p; if b then Some True else exists_proc P ps }"

text \<open>Whether another living process of the group has the control terminal \<open>v\<close>.\<close>

definition shares_control :: "fstate \<Rightarrow> pptr \<Rightarrow> int \<Rightarrow> faddr \<Rightarrow> bool \<Rightarrow> pptr \<Rightarrow> bool option" where
  "shares_control s p grp v many_users p1 =
    (if is_dead (kern s) p1 \<or> pgrp (procs (kern s) p1) \<noteq> grp \<or> p1 = p then Some False
     else do {
       t \<leftarrow> fd_table s p1;
       let c = ofiles t (- 1);
       if many_users then
         (if c = 0 then Some False
          else do { g \<leftarrow> files s c; f \<leftarrow> files s v;
                    Some (fc_index (f_fc g) = fc_index (f_fc f) \<and> fc_dev (f_fc g) = fc_dev (f_fc f)) })
       else Some (c = v) })"

definition release_control :: "pptr \<Rightarrow> filedesc \<Rightarrow> fstate \<Rightarrow> fstate option" where
  "release_control p t s =
    (if ofiles t (- 1) = 0 then Some s
     else do {
       f \<leftarrow> files s (ofiles t (- 1));
       let a = f_devinfo f;
       let grp = pgrp (procs (kern s) p);
       if is_terminal f \<and> grp = tty_pgrp (ttys s a) then
         do { found \<leftarrow> exists_proc (shares_control s p grp (ofiles t (- 1)) (use_cnt (ttys s a) > 1)) (proclist (kern s));
              Some (if found then s else upd_tty a (\<lambda>x. x\<lparr>tty_pgrp := 0\<rparr>) s) }
       else Some s })"

text \<open>Closing the given handles of table \<open>d\<close>, in \<open>free_fd\<close> and in \<open>exec_region\<close>.\<close>

fun close_slots :: "fenv \<Rightarrow> pptr \<Rightarrow> nat \<Rightarrow> (filedesc \<Rightarrow> int \<Rightarrow> bool) \<Rightarrow> int list \<Rightarrow> fstate \<Rightarrow> fstate option" where
  "close_slots env p d P [] s = Some s"
| "close_slots env p d P (i # is) s =
    do { t \<leftarrow> filedescs s d;
         s \<leftarrow> (if ofiles t i \<noteq> 0 \<and> P t i then
                 do { s \<leftarrow> upd_fd d (set_slot i 0) s;
                      (_, s) \<leftarrow> do_close env p (ofiles t i) s;
                      Some s }
               else Some s);
         close_slots env p d P is s }"

fun close_searches :: "fenv \<Rightarrow> nat \<Rightarrow> nat list \<Rightarrow> fstate \<Rightarrow> fstate option" where
  "close_searches env d [] s = Some s"
| "close_searches env d (i # is) s =
    do { t \<leftarrow> filedescs s d;
         s \<leftarrow> (if srchdta t i \<noteq> 0 then
                 upd_fd d (\<lambda>t. t\<lparr>srchdir := (srchdir t)(i := (srchdir t i)\<lparr>d_fc := (d_fc (srchdir t i))\<lparr>fc_fs := 0\<rparr>\<rparr>)\<rparr>)
                   (e_release_cookie env (d_fc (srchdir t i)) (snd (e_xfs_closedir env (srchdir t i) s)))
               else Some s);
         close_searches env d is s }"

partial_function (option) free_streams :: "fenv \<Rightarrow> u32 \<Rightarrow> fstate \<Rightarrow> fstate option" where
  "free_streams env a s =
    (if a = 0 then Some s
     else do {
       x \<leftarrow> dirs s a;
       let s = (if fc_fs (d_fc x) \<noteq> 0 then e_release_cookie env (d_fc x) (snd (e_xfs_closedir env x s)) else s);
       free_streams env (d_next x) (s\<lparr>dirs := (dirs s)(a := None)\<rparr>) })"

definition free_fd :: "fenv \<Rightarrow> pptr \<Rightarrow> fstate \<Rightarrow> fstate option" where
  "free_fd env p s =
    do { d \<leftarrow> p_fd s p;
         t \<leftarrow> filedescs s d;
         if \<not> 0 < fd_links t then None
         else do {
           s \<leftarrow> upd_fd d (\<lambda>t. t\<lparr>fd_links := fd_links t - 1\<rparr>) (s\<lparr>p_fd := (p_fd s)(p := None)\<rparr>);
           if fd_links t - 1 > 0 then Some s
           else do {
             s \<leftarrow> release_control p t s;
             s \<leftarrow> close_slots env p d (\<lambda>_ _. True) [MIN_HANDLE..nfiles t - 1] s;
             s \<leftarrow> close_searches env d [0..<NUM_SEARCH] s;
             t \<leftarrow> filedescs s d;
             s \<leftarrow> free_streams env (searches t) s;
             Some (s\<lparr>filedescs := (filedescs s)(d := None)\<rparr>) } } }"

text \<open>The descriptors that a program does not inherit when it is started.\<close>

definition close_on_exec :: "fenv \<Rightarrow> pptr \<Rightarrow> fstate \<Rightarrow> fstate option" where
  "close_on_exec env p s =
    do { d \<leftarrow> p_fd s p;
         t \<leftarrow> filedescs s d;
         close_slots env p d (\<lambda>t i. get_ofileflag i t AND FD_CLOEXEC \<noteq> 0) [MIN_OPEN..nfiles t - 1] s }"

end
