(* ===== verification/Filedesc_Inv.thy ===== *)
theory Filedesc_Inv
  imports Filedesc
begin

text \<open>
  The reference counts of open files are right: \<open>bal T F e\<close> balances the slots of all tables \<open>T\<close> against
  the counts in the files \<open>F\<close>, up to the references \<open>e\<close> an operation has taken or still owes; an invariant of
  the whole state says that the balance is even, and every call on descriptors keeps it. The hypothesis
  \<open>drivers_ok\<close> is what the kernel relies on in device drivers and file systems: they do not touch
  descriptor tables and reference counts, and they leave the kernel's queues and timeouts in order.
\<close>

section \<open>Drivers\<close>

definition kern_ok :: "kernel \<Rightarrow> bool" where
  "kern_ok k \<longleftrightarrow> queues_ok k \<and> timeouts_ok k"

definition same_fds :: "fstate \<Rightarrow> fstate \<Rightarrow> bool" where
  "same_fds s s' \<longleftrightarrow> files s' = files s \<and> filedescs s' = filedescs s \<and> p_fd s' = p_fd s \<and>
     (kern_ok (kern s) \<longrightarrow> kern_ok (kern s'))"

definition drivers_ok :: "fenv \<Rightarrow> bool" where
  "drivers_ok env \<longleftrightarrow>
     (\<forall>v p m s. same_fds s (e_unselect env v p m s)) \<and>
     (\<forall>v c a s. same_fds s (snd (snd (e_ioctl env v c a s)))) \<and>
     (\<forall>v c s. same_fds s (e_tty_ioctl env v c s)) \<and>
     (\<forall>v n s. same_fds s (snd (e_dev_close env v n s))) \<and>
     (\<forall>v n s. same_fds s (snd (e_xdd_close env v n s))) \<and>
     (\<forall>c s. same_fds s (e_release_cookie env c s)) \<and>
     (\<forall>d s. same_fds s (snd (e_xfs_closedir env d s))) \<and>
     (\<forall>s. fresh_mem (e_mem env s) (kern s))"

lemma drivers_okD:
  assumes "drivers_ok env"
  shows "same_fds s (e_unselect env v p m s)" "same_fds s (snd (snd (e_ioctl env v c a s)))"
    "same_fds s (e_tty_ioctl env v c s)" "same_fds s (snd (e_dev_close env v n s))"
    "same_fds s (snd (e_xdd_close env v n s))" "same_fds s (e_release_cookie env ck s)"
    "same_fds s (snd (e_xfs_closedir env d s))" "fresh_mem (e_mem env s) (kern s)"
  using assms by (simp_all add: drivers_ok_def)

text \<open>\<open>moved s h s'\<close>: from \<open>s\<close> to \<open>s'\<close> the tables are the same and the files are now \<open>h\<close>.\<close>

definition moved :: "fstate \<Rightarrow> (faddr \<Rightarrow> fileptr option) \<Rightarrow> fstate \<Rightarrow> bool" where
  "moved s h s' \<longleftrightarrow> kern_ok (kern s') \<and> filedescs s' = filedescs s \<and> p_fd s' = p_fd s \<and> files s' = h"

lemma moved_refl: "kern_ok (kern s) \<Longrightarrow> moved s (files s) s"
  by (simp add: moved_def)

lemma moved_env: "moved s h s1 \<Longrightarrow> same_fds s1 s2 \<Longrightarrow> moved s h s2"
  by (simp add: moved_def same_fds_def)

lemma moved_tty [intro]: "moved s h s1 \<Longrightarrow> moved s h (upd_tty a g s1)"
  by (simp add: moved_def upd_tty_def)

lemma moved_xkey [intro]: "moved s h s1 \<Longrightarrow> moved s h (drop_xkey a s1)"
  by (auto simp: drop_xkey_def)

lemma moved_file:
  "moved s h s1 \<Longrightarrow> h v = Some f \<Longrightarrow> \<exists>s2. upd_file v g s1 = Some s2 \<and> moved s (h(v \<mapsto> g f)) s2"
  by (simp add: moved_def upd_file_def)

lemma moved_files: "moved s h s1 \<Longrightarrow> files s1 = h"
  by (simp add: moved_def)

lemma moved_free:
  "moved s h s1 \<Longrightarrow> h v \<noteq> None \<Longrightarrow> \<exists>s2. fp_free v s1 = Some s2 \<and> moved s (h(v := None)) s2"
  by (auto simp: moved_def fp_free_def)

lemma kern_ok_timeouts:
  assumes "kern_ok k" "timeouts_ok k'" "procs k' = procs k" "sysq k' = sysq k" "proclist k' = proclist k"
  shows "kern_ok k'"
  using assms queues_ok_kernel[of k k'] by (simp add: kern_ok_def)

lemma addtimeout_common_frame:
  "addtimeout_common mem p d f fl k = Some (r, k') \<Longrightarrow>
   procs k' = procs k \<and> sysq k' = sysq k \<and> proclist k' = proclist k"
  by (auto simp: addtimeout_common_def newtimeout_def inserttimeout_def Let_def split: option.splits if_splits)

lemma addroottimeout_ok:
  assumes "kern_ok k" "0 \<le> d" "fresh_mem mem k"
  shows "\<exists>r k'. addroottimeout mem d f flags k = Some (r, k') \<and> kern_ok k'"
proof -
  obtain r k' where "addroottimeout mem d f flags k = Some (r, k')" "timeouts_ok k'"
    using addtimeout_common_ok[OF _ assms(2,3)] assms(1) unfolding addroottimeout_def kern_ok_def by blast
  then show ?thesis
    using kern_ok_timeouts[OF assms(1)] addtimeout_common_frame unfolding addroottimeout_def by blast
qed

lemma set_timeout_arg_ok:
  assumes "timeouts_ok k"
  shows "timeouts_ok (k\<lparr>tlist := map (\<lambda>t. if t_addr t = a then t\<lparr>t_arg := v\<rparr> else t) (tlist k)\<rparr>)"
proof -
  let ?g = "\<lambda>t. if t_addr t = a then t\<lparr>t_arg := v\<rparr> else t"
  have g: "t_addr (?g t) = t_addr t" "t_static (?g t) = t_static t" "t_when (?g t) = t_when t"
    "tcore (?g t) = ?g (tcore t)" for t
    by (simp_all add: tcore_def)
  have l: "linked (k\<lparr>tlist := map ?g (tlist k)\<rparr>) =
      image_mset (\<lambda>t. tcore (?g t)) (mset (tlist k)) + mset (map tcore (expire_list k))"
    by (simp add: linked_def image_mset.compositionality comp_def)
  have ad: "image_mset t_addr (linked (k\<lparr>tlist := map ?g (tlist k)\<rparr>)) = image_mset t_addr (linked k)"
    unfolding l by (simp add: linked_def image_mset.compositionality comp_def g(1))
  have st: "t_static t \<longleftrightarrow> t_addr t < TIMEOUTS"
    if t: "t \<in># linked (k\<lparr>tlist := map ?g (tlist k)\<rparr>)" for t
  proof -
    have ok: "\<forall>t\<in>#linked k. t_static t \<longleftrightarrow> t_addr t < TIMEOUTS"
      using assms by (simp add: timeouts_ok_def slots_ok_def)
    from t l consider (1) u where "u \<in> set (tlist k)" "t = ?g (tcore u)" | (2) "t \<in> tcore ` set (expire_list k)"
      unfolding g(4) by auto
    then show ?thesis
    proof cases
      case 1
      then have "tcore u \<in># linked k" by (simp add: linked_def)
      then have "t_static (tcore u) \<longleftrightarrow> t_addr (tcore u) < TIMEOUTS" using ok by blast
      then show ?thesis unfolding 1(2) by simp
    next
      case 2
      then have "t \<in># linked k" by (auto simp: linked_def)
      with ok show ?thesis by blast
    qed
  qed
  have "delta_ok (map ?g (tlist k))"
    using assms by (auto simp: timeouts_ok_def delta_ok_def list_all_iff map_tl[symmetric])
  then show ?thesis using assms ad st by (simp add: timeouts_ok_def slots_ok_def)
qed

lemma moved_timeout_arg [intro]: "moved s h s1 \<Longrightarrow> moved s h (set_timeout_arg a v s1)"
  using set_timeout_arg_ok[of "kern s1" a v] kern_ok_timeouts[of "kern s1"]
  by (simp add: moved_def set_timeout_arg_def kern_ok_def)

lemma moved_kern: "moved s h s1 \<Longrightarrow> kern_ok k \<Longrightarrow> moved s h (s1\<lparr>kern := k\<rparr>)"
  by (simp add: moved_def)

lemma moved_wake:
  assumes "moved s h s1" "que \<noteq> CURPROC_Q"
  shows "\<exists>s2. lift_kern (wake que c) s1 = Some s2 \<and> moved s h s2"
proof -
  have k: "kern_ok (kern s1)" using assms(1) by (simp add: moved_def)
  then obtain k' where k': "wake que c (kern s1) = Some k'" "queues_ok k'"
    "q_frame ((kern s1)\<lparr>sleepcond := if que \<noteq> READY_Q \<and> sleepcond (kern s1) = c then 0 else sleepcond (kern s1)\<rparr>) k'"
    using wake_ok[OF _ assms(2)] by (auto simp: kern_ok_def)
  have "tlist k' = tlist (kern s1)" "expire_list k' = expire_list (kern s1)" "static_used k' = static_used (kern s1)"
    using k'(3) by (auto simp: q_frame_def dest: arg_cong[where f = static_used] arg_cong[where f = tlist] arg_cong[where f = expire_list])
  then have "timeouts_ok k'" using k by (simp add: kern_ok_def timeouts_ok_def linked_def)
  then show ?thesis using k' assms(1) by (simp add: lift_kern_def moved_def kern_ok_def)
qed

lemma close_tty_ok:
  assumes dr: "drivers_ok env" and m: "moved s0 h s" and f: "h v = Some f" "f_dev f \<noteq> 0"
  shows "\<exists>s'. close_tty env v s = Some s' \<and> (moved s0 h s' \<or> moved s0 (h(v \<mapsto> f\<lparr>f_links := 1\<rparr>)) s')"
proof -
  let ?a = "f_devinfo f"
  note fv = moved_files[OF m] f(1)
  note D = drivers_okD[OF dr]
  obtain r z s1 where io: "e_ioctl env v TIOCOBAUD (- 1) s = (r, z, s1)" by (cases "e_ioctl env v TIOCOBAUD (- 1) s") auto
  have m1: "moved s0 h s1" using moved_env[OF m D(2)[of s v TIOCOBAUD "- 1"]] io by simp
  obtain t k where ad: "addroottimeout (e_mem env s1) 500 (e_hangup_b1 env) 0 (kern s1) = Some (t, k)" "kern_ok k"
    using addroottimeout_ok[OF _ _ D(8)[of s1], of 500 "e_hangup_b1 env" 0] m1 by (auto simp: moved_def)
  have m2: "moved s0 h (s1\<lparr>kern := k\<rparr>)" by (rule moved_kern[OF m1 ad(2)])
  have hang: "\<exists>s'. (start_hangup env v ?a n z (s1\<lparr>kern := k\<rparr>) \<bind> (\<lambda>s. Some (drop_xkey ?a (upd_tty ?a g s)))) = Some s' \<and>
      moved s0 (h(v \<mapsto> f\<lparr>f_links := 1\<rparr>)) s'" for n g
  proof -
    obtain s2 where s2: "upd_file v (\<lambda>f. f\<lparr>f_links := 1\<rparr>) (s1\<lparr>kern := k\<rparr>) = Some s2" "moved s0 (h(v \<mapsto> f\<lparr>f_links := 1\<rparr>)) s2"
      using moved_file[OF m2 f(1), of "\<lambda>f. f\<lparr>f_links := 1\<rparr>"] by blast
    show ?thesis unfolding start_hangup_def
      using s2 by (auto simp: Let_def intro!: moved_env[OF _ D(2)] moved_env[OF _ D(3)] moved_tty moved_timeout_arg)
  qed
  show ?thesis
    using m m1 m2 fv f(2) io ad(1) hang unfolding close_tty_def
    by (auto simp: Let_def split: option.split)
qed

text \<open>
  What closing does to the files: the count falls by one, and at zero the file is freed, or kept with one
  reference by the hang up of a terminal.
\<close>

definition closed_file :: "fileptr \<Rightarrow> fileptr option \<Rightarrow> bool" where
  "closed_file f g \<longleftrightarrow>
     (if f_links f > 1 then g = Some (f\<lparr>f_links := f_links f - 1\<rparr>)
      else g = None \<or> (is_terminal f \<and> g = Some (f\<lparr>f_links := 1\<rparr>)))"

lemma short_of_id: "- 32768 \<le> n \<Longrightarrow> n < 32768 \<Longrightarrow> short_of n = n"
  by (simp add: short_of_def signed_take_bit_int_eq_self_iff)

lemma drop_unused_ok:
  assumes dr: "drivers_ok env" and m: "moved s0 h s" and f: "h v = Some f"
  shows "\<exists>s'. drop_unused env v s = Some s' \<and> moved s0 (if f_links f \<le> 0 then h(v := None) else h) s'"
proof (cases "f_links f \<le> 0")
  case True
  have "moved s0 h (e_release_cookie env (f_fc f) s)"
    by (rule moved_env[OF m drivers_okD(6)[OF dr]])
  from moved_free[OF this, of v] f True show ?thesis
    by (auto simp: drop_unused_def moved_files[OF m])
qed (use m f in \<open>simp add: drop_unused_def moved_files[OF m]\<close>)

lemma do_close_effect:
  assumes dr: "drivers_ok env" and k: "kern_ok (kern s)" and v: "v \<noteq> 0" "v \<noteq> 1"
    and f: "files s v = Some f" "0 < f_links f" "f_links f < 32768" "is_terminal f \<longrightarrow> f_dev f \<noteq> 0"
  shows "\<exists>r s' g. do_close env p v s = Some (r, s') \<and> moved s ((files s)(v := g)) s' \<and> closed_file f g"
proof -
  note D = drivers_okD[OF dr]
  let ?f = "f\<lparr>f_links := f_links f - 1\<rparr>"
  let ?h = "(files s)(v \<mapsto> ?f)"
  have tt: "is_terminal ?f = is_terminal f" by (simp add: is_terminal_def)
  have m0: "moved s (files s) s" by (rule moved_refl[OF k])
  obtain s1 where s1: "(if f_dev f \<noteq> 0 then do_unselect env p v s else Some s) = Some s1" "moved s (files s) s1"
  proof -
    have "moved s (files s) (e_unselect env v p O_RDWR (e_unselect env v p O_WRONLY (e_unselect env v p O_RDONLY s)))"
      by (intro moved_env[OF _ D(1)] m0)
    then obtain s1 where "do_unselect env p v s = Some s1" "moved s (files s) s1"
      using moved_wake[of s "files s" _ SELECT_Q "e_select_coll env"] unfolding do_unselect_def by auto
    then show thesis using m0 that[of s] that[of s1] by (cases "f_dev f = 0") simp_all
  qed
  obtain s2 where s2: "upd_file v (\<lambda>f. f\<lparr>f_links := short_of (f_links f - 1)\<rparr>) s1 = Some s2" "moved s ?h s2"
    using moved_file[OF s1(2) f(1), of "\<lambda>f. f\<lparr>f_links := short_of (f_links f - 1)\<rparr>"] f(2,3)
    by (auto simp: short_of_id)
  obtain s3 f3 where s3: "(if is_terminal ?f \<and> f_links ?f \<le> 0 then close_tty env v s2 else Some s2) = Some s3"
    "moved s (?h(v \<mapsto> f3)) s3" "f3 = ?f \<or> is_terminal f \<and> f_links f = 1 \<and> f3 = f\<lparr>f_links := 1\<rparr>"
  proof (cases "is_terminal ?f \<and> f_links ?f \<le> 0")
    case True
    then have "f_dev ?f \<noteq> 0" using f(4) tt by simp
    with close_tty_ok[OF dr s2(2), of v ?f] obtain s3 where s3: "close_tty env v s2 = Some s3"
      "moved s ?h s3 \<or> moved s (?h(v \<mapsto> ?f\<lparr>f_links := 1\<rparr>)) s3" by auto
    from True tt f(2) have t: "is_terminal f \<and> f_links f = 1" by simp
    then show thesis using s3 True t that[of s3 "?f"] that[of s3 "f\<lparr>f_links := 1\<rparr>"] by auto
  next
    case False
    show thesis by (rule that[of s2 ?f]) (use False s2(2) in auto)
  qed
  define q where "q = (if f_dev f3 \<noteq> 0 then e_xdd_close env v (pid (procs (kern s3) p)) s3 else (E_OK, s3))"
  have h4: "moved s (?h(v \<mapsto> f3)) (snd q)"
    using s3(2) moved_env[OF s3(2) D(5)] by (simp add: q_def)
  obtain s5 where s5: "drop_unused env v (snd q) = Some s5"
    "moved s (if f_links f3 \<le> 0 then (?h(v \<mapsto> f3))(v := None) else ?h(v \<mapsto> f3)) s5"
    using drop_unused_ok[OF dr h4, of v f3] by auto
  have c: "do_close env p v s = Some (fst q, s5)"
    unfolding do_close_def
    by (simp add: v f(1) s1(1) s2(1) moved_files[OF s2(2)] s3(1)[simplified] moved_files[OF s3(2)] q_def[symmetric] case_prod_beta s5(1))
  have "moved s ((files s)(v := (if f_links f3 \<le> 0 then None else Some f3))) s5"
    using s5(2) by (simp split: if_splits)
  moreover have "closed_file f (if f_links f3 \<le> 0 then None else Some f3)"
    using s3(3) f(2) by (auto simp: closed_file_def)
  ultimately show ?thesis using c by blast
qed

section \<open>Counting slots\<close>

definition refs :: "(nat \<Rightarrow> filedesc option) \<Rightarrow> faddr \<Rightarrow> (nat \<times> int) set" where
  "refs T v = {(d, i). - 5 \<le> i \<and> i < 1024 \<and> (\<exists>t. T d = Some t \<and> ofiles t i = v)}"

definition nrefs :: "(nat \<Rightarrow> filedesc option) \<Rightarrow> faddr \<Rightarrow> int" where
  "nrefs T v = int (card (refs T v))"

lemma finite_refs: "finite (dom T) \<Longrightarrow> finite (refs T v)"
  by (rule finite_subset[of _ "dom T \<times> {- 5..<1024}"]) (auto simp: refs_def)

lemma in_refs: "T d = Some t \<Longrightarrow> - 5 \<le> i \<Longrightarrow> i < 1024 \<Longrightarrow> (d, i) \<in> refs T (ofiles t i)"
  by (simp add: refs_def)

lemma nrefs_pos:
  assumes "finite (dom T)" "T d = Some t" "- 5 \<le> i" "i < 1024" "ofiles t i = v"
  shows "1 \<le> nrefs T v"
  using card_gt_0_iff[of "refs T v"] in_refs[of T d t i, OF assms(2-4)] finite_refs[OF assms(1)] assms(5)
  by (fastforce simp: nrefs_def)

lemma nrefs_two:
  assumes "finite (dom T)" "T d = Some t" "- 5 \<le> i" "i < 1024" "ofiles t i = v"
    "T d' = Some t'" "- 5 \<le> j" "j < 1024" "ofiles t' j = v" "(d, i) \<noteq> (d', j)"
  shows "2 \<le> nrefs T v"
proof -
  have "{(d, i), (d', j)} \<subseteq> refs T v" using in_refs[of T d t i, OF assms(2-4)] in_refs[of T d' t' j, OF assms(6-8)] assms(5,9) by auto
  from card_mono[OF finite_refs[OF assms(1)] this] assms(10) show ?thesis by (simp add: nrefs_def)
qed

lemma nrefs_set_slot:
  assumes "finite (dom T)" "T d = Some t" "- 5 \<le> i" "i < 1024"
  shows "nrefs (T(d \<mapsto> set_slot i w t)) v = nrefs T v + of_bool (v = w) - of_bool (v = ofiles t i)"
proof -
  have fin: "finite (refs T v)" by (rule finite_refs[OF assms(1)])
  have r: "refs (T(d \<mapsto> set_slot i w t)) v = (if v = w then insert (d, i) (refs T v) else refs T v - {(d, i)})"
  proof (rule set_eqI)
    fix x :: "nat \<times> int"
    obtain a b where x: "x = (a, b)" by (cases x)
    show "x \<in> refs (T(d \<mapsto> set_slot i w t)) v \<longleftrightarrow> x \<in> (if v = w then insert (d, i) (refs T v) else refs T v - {(d, i)})"
      using assms by (cases "a = d"; cases "b = i") (auto simp: refs_def set_slot_def x)
  qed
  have m: "(d, i) \<in> refs T v \<longleftrightarrow> v = ofiles t i" using assms by (auto simp: refs_def)
  show ?thesis
  proof (cases "v = ofiles t i")
    case True
    then have "(d, i) \<in> refs T v" using m by simp
    moreover from this have "0 < card (refs T v)" using fin by (auto simp: card_gt_0_iff)
    ultimately show ?thesis using fin
      unfolding nrefs_def r True[THEN eqTrueI]
      by (cases "v = w") (simp_all add: insert_absorb card_Diff_singleton of_nat_diff)
  next
    case False
    then have "(d, i) \<notin> refs T v" using m by simp
    then show ?thesis using False fin by (auto simp: nrefs_def r)
  qed
qed

lemma nrefs_cong:
  assumes "\<And>d t. T d = Some t \<Longrightarrow> \<exists>t'. T' d = Some t' \<and> (\<forall>i. - 5 \<le> i \<and> i < 1024 \<longrightarrow> ofiles t' i = ofiles t i)"
    "\<And>d. T d = None \<Longrightarrow> T' d = None"
  shows "nrefs T' v = nrefs T v"
proof -
  have "refs T' v = refs T v"
  proof (rule set_eqI)
    fix di :: "nat \<times> int"
    obtain d i where di: "di = (d, i)" by (cases di)
    show "di \<in> refs T' v \<longleftrightarrow> di \<in> refs T v"
      using assms(1)[of d] assms(2)[of d] by (cases "T d") (auto simp: refs_def di)
  qed
  then show ?thesis by (simp add: nrefs_def)
qed

text \<open>
  The balance of references. A terminal that hangs up holds references of its own, so the count of a
  terminal may be larger.
\<close>

definition balanced :: "fileptr option \<Rightarrow> int \<Rightarrow> bool" where
  "balanced g n \<longleftrightarrow>
     (case g of None \<Rightarrow> n = 0 | Some f \<Rightarrow> 0 < f_links f \<and> (f_links f = n \<or> is_terminal f \<and> n < f_links f))"

definition bal :: "(nat \<Rightarrow> filedesc option) \<Rightarrow> (faddr \<Rightarrow> fileptr option) \<Rightarrow> (faddr \<Rightarrow> int) \<Rightarrow> bool" where
  "bal T F e \<longleftrightarrow> (\<forall>v. v \<noteq> 0 \<and> v \<noteq> 1 \<longrightarrow> balanced (F v) (nrefs T v + e v))"

lemma balD: "bal T F e \<Longrightarrow> v \<noteq> 0 \<Longrightarrow> v \<noteq> 1 \<Longrightarrow> balanced (F v) (nrefs T v + e v)"
  by (simp add: bal_def)

lemma bal_live:
  assumes "bal T F e" "v \<noteq> 0" "v \<noteq> 1" "1 \<le> nrefs T v + e v"
  obtains f where "F v = Some f" "nrefs T v + e v \<le> f_links f" "0 < f_links f"
  using balD[OF assms(1-3)] assms(4) by (auto simp: balanced_def split: option.splits)

lemma bal_set_slot:
  assumes "bal T F e" "finite (dom T)" "T d = Some t" "- 5 \<le> i" "i < 1024"
  shows "bal (T(d \<mapsto> set_slot i w t)) F (\<lambda>v. e v - of_bool (v = w) + of_bool (v = ofiles t i))"
  using assms(1) unfolding bal_def nrefs_set_slot[OF assms(2-5)] by (simp add: algebra_simps)

lemma bal_close:
  assumes "bal T F e" "F v = Some f" "closed_file f g" "1 \<le> nrefs T v + e v" "v \<noteq> 0" "v \<noteq> 1"
  shows "bal T (F(v := g)) (e(v := e v - 1))"
  unfolding bal_def
proof (intro allI impI)
  fix w :: faddr assume w: "w \<noteq> 0 \<and> w \<noteq> 1"
  show "balanced ((F(v := g)) w) (nrefs T w + (e(v := e v - 1)) w)"
  proof (cases "w = v")
    case True
    have "balanced (Some f) (nrefs T v + e v)" using balD[OF assms(1,5,6)] assms(2) by simp
    then show ?thesis using True assms(3,4)
      by (auto simp: closed_file_def balanced_def is_terminal_def split: if_splits)
  next
    case False
    then show ?thesis using balD[OF assms(1), of w] w by simp
  qed
qed

lemma bal_link:
  assumes "bal T F e" "F v = Some f" "f_links f < 32767"
  shows "bal T (F(v \<mapsto> add_link f)) (e(v := e v + 1))"
  unfolding bal_def
proof (intro allI impI)
  fix w :: faddr assume w: "w \<noteq> 0 \<and> w \<noteq> 1"
  show "balanced ((F(v \<mapsto> add_link f)) w) (nrefs T w + (e(v := e v + 1)) w)"
    using balD[OF assms(1), of w] w assms(2,3)
    by (cases "w = v") (auto simp: balanced_def add_link_def short_of_id is_terminal_def)
qed

lemma bal_cong: "bal T F e \<Longrightarrow> (\<And>v. v \<noteq> 0 \<Longrightarrow> v \<noteq> 1 \<Longrightarrow> e' v = e v) \<Longrightarrow> bal T F e'"
  by (simp add: bal_def)

section \<open>The state between two calls\<close>

definition table_ok :: "filedesc \<Rightarrow> bool" where
  "table_ok t \<longleftrightarrow> nfiles t = 1024 \<and> searches t = 0 \<and> (\<forall>i. - 5 \<le> i \<and> i < 0 \<longrightarrow> ofiles t i \<noteq> 1)"

definition files_ok :: "(faddr \<Rightarrow> fileptr option) \<Rightarrow> bool" where
  "files_ok F \<longleftrightarrow> F 0 = None \<and> F 1 = None \<and>
     (\<forall>v f. F v = Some f \<longrightarrow> f_links f < 32768 \<and> (is_terminal f \<longrightarrow> f_dev f \<noteq> 0))"

text \<open>\<open>st s e\<close>: all is well in \<open>s\<close> but for the references \<open>e\<close>.\<close>

definition st :: "fstate \<Rightarrow> (faddr \<Rightarrow> int) \<Rightarrow> bool" where
  "st s e \<longleftrightarrow> kern_ok (kern s) \<and> finite (dom (filedescs s)) \<and> files_ok (files s) \<and>
     bal (filedescs s) (files s) e \<and> (\<forall>d t. filedescs s d = Some t \<longrightarrow> table_ok t)"

definition owners :: "fstate \<Rightarrow> bool" where
  "owners s \<longleftrightarrow> finite {p. p_fd s p \<noteq> None} \<and> (\<forall>p d. p_fd s p = Some d \<longrightarrow> filedescs s d \<noteq> None) \<and>
     (\<forall>d t. filedescs s d = Some t \<longrightarrow> fd_links t = int (card {p. p_fd s p = Some d}) \<and> 0 < fd_links t)"

definition fd_inv :: "fstate \<Rightarrow> bool" where
  "fd_inv s \<longleftrightarrow> st s (\<lambda>_. 0) \<and> owners s"

definition own_frame :: "fstate \<Rightarrow> fstate \<Rightarrow> bool" where
  "own_frame s s' \<longleftrightarrow> p_fd s' = p_fd s \<and> (\<forall>d. map_option fd_links (filedescs s' d) = map_option fd_links (filedescs s d))"

lemma own_frame_refl [simp]: "own_frame s s"
  by (simp add: own_frame_def)

lemma own_frame_trans: "own_frame a b \<Longrightarrow> own_frame b c \<Longrightarrow> own_frame a c"
  by (simp add: own_frame_def)

lemma own_frame_owners:
  assumes fr: "own_frame s s'" and ow: "owners s"
  shows "owners s'"
proof -
  have "(\<exists>t. filedescs s d = Some t \<and> fd_links t' = fd_links t)" if "filedescs s' d = Some t'" for d t'
    using fr that unfolding own_frame_def by (cases "filedescs s d") (force dest: spec[of _ d])+
  moreover have "filedescs s' d \<noteq> None" if "filedescs s d \<noteq> None" for d
    using fr that unfolding own_frame_def by (force dest: spec[of _ d])
  moreover have "p_fd s' = p_fd s" using fr by (simp add: own_frame_def)
  ultimately show ?thesis using ow unfolding owners_def by fastforce
qed

lemma own_frame_table:
  "filedescs s d = Some t \<Longrightarrow> fd_links t' = fd_links t \<Longrightarrow> own_frame s (s\<lparr>filedescs := (filedescs s)(d \<mapsto> t')\<rparr>)"
  by (simp add: own_frame_def)

lemma st_cong: "st s e \<Longrightarrow> (\<And>v. v \<noteq> 0 \<Longrightarrow> v \<noteq> 1 \<Longrightarrow> e' v = e v) \<Longrightarrow> st s e'"
  unfolding st_def using bal_cong by blast

lemma st_slot:
  assumes "st s e" "filedescs s d = Some t" "- 5 \<le> i" "i < 1024" "i < 0 \<longrightarrow> w \<noteq> 1"
  shows "st (s\<lparr>filedescs := (filedescs s)(d \<mapsto> set_slot i w t)\<rparr>) (\<lambda>v. e v - of_bool (v = w) + of_bool (v = ofiles t i))"
  using assms bal_set_slot[of "filedescs s" "files s" e d t i w]
  by (auto simp: st_def table_ok_def set_slot_def)

lemma st_table:
  assumes "st s e" "filedescs s d = Some t" "\<And>i. - 5 \<le> i \<Longrightarrow> i < 1024 \<Longrightarrow> ofiles t' i = ofiles t i" "table_ok t'"
  shows "st (s\<lparr>filedescs := (filedescs s)(d \<mapsto> t')\<rparr>) e"
proof -
  have "nrefs ((filedescs s)(d \<mapsto> t')) v = nrefs (filedescs s) v" for v
    by (rule nrefs_cong) (use assms(2,3) in auto)
  then show ?thesis using assms by (auto simp: st_def bal_def)
qed

lemma st_link:
  assumes "st s e" "files s v = Some f" "f_links f < 32767"
  shows "upd_file v add_link s = Some (s\<lparr>files := (files s)(v \<mapsto> add_link f)\<rparr>)"
    "st (s\<lparr>files := (files s)(v \<mapsto> add_link f)\<rparr>) (e(v := e v + 1))"
proof -
  have F: "files_ok (files s)" and bl: "bal (filedescs s) (files s) e" using assms(1) by (simp_all add: st_def)
  then have v: "v \<noteq> 0" "v \<noteq> 1" using assms(2) by (auto simp: files_ok_def)
  then have "0 < f_links f" using balD[OF bl] assms(2) by (force simp: balanced_def)
  then have "files_ok ((files s)(v \<mapsto> add_link f))"
    using F assms(2,3) v by (auto simp: files_ok_def add_link_def short_of_id is_terminal_def)
  then show "st (s\<lparr>files := (files s)(v \<mapsto> add_link f)\<rparr>) (e(v := e v + 1))"
    using assms(1) bal_link[OF bl assms(2,3)] by (simp add: st_def)
  show "upd_file v add_link s = Some (s\<lparr>files := (files s)(v \<mapsto> add_link f)\<rparr>)"
    using assms(2) by (simp add: upd_file_def)
qed

lemma closed_file_ok:
  assumes "closed_file f g" "0 < f_links f" "f_links f < 32768" "is_terminal f \<longrightarrow> f_dev f \<noteq> 0" "g = Some f'"
  shows "f_links f' < 32768 \<and> (is_terminal f' \<longrightarrow> f_dev f' \<noteq> 0)"
  using assms by (auto simp: closed_file_def is_terminal_def split: if_splits)

lemma st_live:
  assumes "st s e" "v \<noteq> 0" "v \<noteq> 1" "1 \<le> nrefs (filedescs s) v + e v"
  obtains f where "files s v = Some f" "0 < f_links f" "f_links f < 32768" "is_terminal f \<longrightarrow> f_dev f \<noteq> 0"
proof -
  obtain f where f: "files s v = Some f" "0 < f_links f"
    using assms(1) bal_live[of "filedescs s" "files s" e v, OF _ assms(2-4)] unfolding st_def by blast
  moreover have "f_links f < 32768 \<and> (is_terminal f \<longrightarrow> f_dev f \<noteq> 0)"
    using assms(1) f(1) unfolding st_def files_ok_def by blast
  ultimately show thesis using that by blast
qed

text \<open>Closing one reference never fails.\<close>

lemma st_close:
  assumes dr: "drivers_ok env" and s: "st s e" and n: "v \<noteq> 0 \<Longrightarrow> v \<noteq> 1 \<Longrightarrow> 1 \<le> nrefs (filedescs s) v + e v"
  shows "\<exists>r s'. do_close env p v s = Some (r, s') \<and> st s' (e(v := e v - 1)) \<and> filedescs s' = filedescs s \<and>
    p_fd s' = p_fd s \<and> (\<forall>w f'. files s' w = Some f' \<longrightarrow> (\<exists>f. files s w = Some f \<and> f_links f' \<le> f_links f))"
proof (cases "v = 0 \<or> v = 1")
  case True
  then show ?thesis using st_cong[OF s, of "e(v := e v - 1)"] by (auto simp: do_close_def)
next
  case False
  then have v: "v \<noteq> 0" "v \<noteq> 1" by simp_all
  obtain f where f: "files s v = Some f" "0 < f_links f" "f_links f < 32768" "is_terminal f \<longrightarrow> f_dev f \<noteq> 0"
    using st_live[OF s v n[OF v]] by blast
  have k: "kern_ok (kern s)" using s by (simp add: st_def)
  obtain r s' g where c: "do_close env p v s = Some (r, s')" "moved s ((files s)(v := g)) s'" "closed_file f g"
    using do_close_effect[OF dr k v f] by blast
  have "bal (filedescs s) ((files s)(v := g)) (e(v := e v - 1))"
    using bal_close[of "filedescs s" "files s" e v, OF _ f(1) c(3) n[OF v] v] s by (simp add: st_def)
  moreover have "files_ok ((files s)(v := g))"
    using s v closed_file_ok[OF c(3) f(2-4)] by (auto simp: st_def files_ok_def)
  moreover have "\<exists>f0. files s w = Some f0 \<and> f_links f' \<le> f_links f0" if "((files s)(v := g)) w = Some f'" for w f'
    using that f(1,2) c(3) by (auto simp: closed_file_def split: if_splits)
  ultimately show ?thesis
    using s c(1,2) by (auto simp: st_def moved_def)
qed

end
