(* ===== verification/Filedesc_Calls.thy ===== *)
theory Filedesc_Calls
  imports Filedesc_Inv
begin

text \<open>
  Every call on descriptors returns and keeps the invariant of the reference counts.
\<close>

declare upto_rec_numeral [simp del]

section \<open>Single calls\<close>

lemma fp_get_Inr:
  assumes "fp_get p fd s = Inr (p', fd', v)"
  obtains d t where "p_fd s p' = Some d" "filedescs s d = Some t" "- 5 \<le> fd'" "fd' < nfiles t"
    "ofiles t fd' = v" "v \<noteq> 0" "v \<noteq> 1"
  using assms
  by (auto simp: fp_get_def fp_get1_def fd_table_def split: option.splits sum.splits if_splits prod.splits)

lemma upd_table_eq:
  "p_fd s p = Some d \<Longrightarrow> filedescs s d = Some t \<Longrightarrow> upd_table p g s = Some (s\<lparr>filedescs := (filedescs s)(d \<mapsto> g t)\<rparr>)"
  by (simp add: upd_table_def upd_fd_def)

lemma close_streams_none:
  "p_fd s p = Some d \<Longrightarrow> filedescs s d = Some t \<Longrightarrow> searches t = 0 \<Longrightarrow> close_streams env p fd Head s = Some s"
  by (subst close_streams.simps) (simp add: fd_table_def)

lemma st_tableD: "st s e \<Longrightarrow> filedescs s d = Some t \<Longrightarrow> table_ok t"
  by (simp add: st_def)

lemma st_finite: "st s e \<Longrightarrow> finite (dom (filedescs s))"
  by (simp add: st_def)

lemma st_nrefs:
  "st s e \<Longrightarrow> filedescs s d = Some t \<Longrightarrow> - 5 \<le> i \<Longrightarrow> i < 1024 \<Longrightarrow> 1 \<le> nrefs (filedescs s) (ofiles t i)"
  using nrefs_pos st_finite by blast

definition good :: "(int \<times> fstate) option \<Rightarrow> bool" where
  "good x \<longleftrightarrow> (\<exists>r s'. x = Some (r, s') \<and> fd_inv s')"

lemma close_good:
  assumes dr: "drivers_ok env" and inv: "fd_inv s"
  shows "good (sys_f_close env fd s)"
proof (cases "fd < 0 \<and> modeflags (proc_of (kern s)) AND M_SINGLE_TASK \<noteq> 0")
  case True
  then show ?thesis using inv by (simp add: sys_f_close_def good_def)
next
  case open_file: False
  show ?thesis
  proof (cases "fp_get (curproc (kern s)) fd s")
    case (Inl e)
    then show ?thesis using inv open_file by (simp add: sys_f_close_def good_def)
  next
    case (Inr x)
    then obtain p i v where x: "fp_get (curproc (kern s)) fd s = Inr (p, i, v)" by (cases x) auto
    then obtain d t where t: "p_fd s p = Some d" "filedescs s d = Some t" "- 5 \<le> i" "i < nfiles t" "ofiles t i = v" "v \<noteq> 0" "v \<noteq> 1"
      by (rule fp_get_Inr)
    have s: "st s (\<lambda>_. 0)" and ow: "owners s" using inv by (simp_all add: fd_inv_def)
    have ok: "nfiles t = 1024" "searches t = 0" using st_tableD[OF s t(2)] by (simp_all add: table_ok_def)
    have i: "i < 1024" using t(4) ok by simp
    have n: "1 \<le> nrefs (filedescs s) v + 0" using st_nrefs[OF s t(2,3) i] t(5) by simp
    obtain r s1 where c: "do_close env p v s = Some (r, s1)" "st s1 ((\<lambda>_. 0)(v := 0 - 1))"
      "filedescs s1 = filedescs s" "p_fd s1 = p_fd s"
      using st_close[OF dr s, of v p] n by auto
    have t1: "filedescs s1 d = Some t" "p_fd s1 p = Some d" using c t by simp_all
    define s2 where "s2 = s1\<lparr>filedescs := (filedescs s1)(d \<mapsto> set_slot i 0 t)\<rparr>"
    have "st s2 (\<lambda>w. ((\<lambda>_. 0)(v := 0 - 1)) w - of_bool (w = 0) + of_bool (w = ofiles t i))"
      unfolding s2_def by (rule st_slot[OF c(2) t1(1) t(3) i]) simp
    then have "st s2 (\<lambda>_. 0)" by (rule st_cong) (simp add: t(5))
    moreover have "own_frame s s2"
      using own_frame_table[OF t1(1), of "set_slot i 0 t"] c(3,4) by (simp add: s2_def own_frame_def set_slot_def)
    ultimately have "fd_inv s2" using own_frame_owners[OF _ ow] by (simp add: fd_inv_def)
    moreover have "sys_f_close env fd s = Some (r, s2)"
      using x c(1) upd_table_eq[OF t1(2,1), of "set_slot i 0"] close_streams_none[OF t(1,2) ok(2)] open_file
      by (auto simp: sys_f_close_def fd_remove_def s2_def)
    ultimately show ?thesis by (auto simp: good_def)
  qed
qed

text \<open>The first free handle.\<close>

lemma fd_scan_ok:
  "- 5 \<le> i \<Longrightarrow> \<exists>r. fd_scan t i = Some r \<and>
     (case r of None \<Rightarrow> \<forall>j. i \<le> j \<and> j < nfiles t \<longrightarrow> ofiles t j \<noteq> 0
      | Some n \<Rightarrow> i \<le> n \<and> n < nfiles t \<and> ofiles t n = 0 \<and> (\<forall>j. i \<le> j \<and> j < n \<longrightarrow> ofiles t j \<noteq> 0))"
proof (induction t i rule: fd_scan.induct)
  case (1 t i)
  show ?case
  proof (cases "i < nfiles t \<and> ofiles t i \<noteq> 0")
    case True
    from "1.IH" True "1.prems" obtain r where r: "fd_scan t (i + 1) = Some r"
      "case r of None \<Rightarrow> \<forall>j. i + 1 \<le> j \<and> j < nfiles t \<longrightarrow> ofiles t j \<noteq> 0
      | Some n \<Rightarrow> i + 1 \<le> n \<and> n < nfiles t \<and> ofiles t n = 0 \<and> (\<forall>j. i + 1 \<le> j \<and> j < n \<longrightarrow> ofiles t j \<noteq> 0)"
      by auto
    have step: "i \<le> j \<longleftrightarrow> j = i \<or> i + 1 \<le> j" for j by auto
    show ?thesis using r True "1.prems" unfolding step
      by (subst fd_scan.simps) (auto split: option.splits)
  next
    case False
    then show ?thesis using "1.prems" by (subst fd_scan.simps) auto
  qed
qed

lemma fd_alloc_ok:
  assumes s: "st s e" and t: "p_fd s p = Some d" "filedescs s d = Some t" and mn: "0 \<le> mn"
  shows "fd_alloc p mn s = Some (Inl EMFILE, s) \<or>
    (\<exists>n. mn \<le> n \<and> n < 1024 \<and> ofiles t n = 0 \<and> (\<forall>j. mn \<le> j \<and> j < n \<longrightarrow> ofiles t j \<noteq> 0) \<and>
       fd_alloc p mn s = Some (Inr n, s\<lparr>filedescs := (filedescs s)(d \<mapsto> set_slot n 1 t)\<rparr>) \<and>
       st (s\<lparr>filedescs := (filedescs s)(d \<mapsto> set_slot n 1 t)\<rparr>) e)"
proof -
  have nf: "nfiles t = 1024" using st_tableD[OF s t(2)] by (simp add: table_ok_def)
  obtain r where r: "fd_scan t mn = Some r"
    "case r of None \<Rightarrow> \<forall>j. mn \<le> j \<and> j < nfiles t \<longrightarrow> ofiles t j \<noteq> 0
      | Some n \<Rightarrow> mn \<le> n \<and> n < nfiles t \<and> ofiles t n = 0 \<and> (\<forall>j. mn \<le> j \<and> j < n \<longrightarrow> ofiles t j \<noteq> 0)"
    using fd_scan_ok[of mn t] mn by auto
  show ?thesis
  proof (cases r)
    case None
    then show ?thesis using r t by (simp add: fd_alloc_def fd_table_def)
  next
    case (Some n)
    then have n: "mn \<le> n" "n < 1024" "ofiles t n = 0" "\<forall>j. mn \<le> j \<and> j < n \<longrightarrow> ofiles t j \<noteq> 0" using r nf by simp_all
    have "st (s\<lparr>filedescs := (filedescs s)(d \<mapsto> set_slot n 1 t)\<rparr>) (\<lambda>v. e v - of_bool (v = 1) + of_bool (v = ofiles t n))"
      by (rule st_slot[OF s t(2)]) (use n mn in auto)
    then have "st (s\<lparr>filedescs := (filedescs s)(d \<mapsto> set_slot n 1 t)\<rparr>) e" by (rule st_cong) (simp add: n)
    moreover have "fd_alloc p mn s = Some (Inr n, s\<lparr>filedescs := (filedescs s)(d \<mapsto> set_slot n 1 t)\<rparr>)"
      using r(1) t Some by (simp add: fd_alloc_def fd_table_def upd_table_eq[OF t])
    ultimately show ?thesis using n by blast
  qed
qed

text \<open>No file has so many handles that its count could wrap around.\<close>

definition few_refs :: "fstate \<Rightarrow> bool" where
  "few_refs s \<longleftrightarrow> (\<forall>v f. files s v = Some f \<longrightarrow> f_links f < 31000)"

lemma set_slot_twice [simp]: "set_slot i w (set_slot i u t) = set_slot i w t"
  by (simp add: set_slot_def)

lemma set_slot_same: "ofiles t i = w \<Longrightarrow> set_slot i w t = t"
  by (auto simp: set_slot_def)

lemma set_slot_simps [simp]:
  "ofiles (set_slot i w t) = (ofiles t)(i := w)" "nfiles (set_slot i w t) = nfiles t"
  "fd_links (set_slot i w t) = fd_links t" "searches (set_slot i w t) = searches t"
  by (simp_all add: set_slot_def)

lemma set_ofileflag_simps [simp]:
  "0 \<le> n \<Longrightarrow> ofiles (set_ofileflag n fl t) = ofiles t" "nfiles (set_ofileflag n fl t) = nfiles t"
  "fd_links (set_ofileflag n fl t) = fd_links t" "searches (set_ofileflag n fl t) = searches t"
  by (simp_all add: set_ofileflag_def)

lemma st_reference:
  assumes s: "st s e" and t: "filedescs s d = Some t" and n: "- 5 \<le> n" "n < 1024" and v: "v \<noteq> 1"
    and g: "\<And>i. - 5 \<le> i \<Longrightarrow> i < 1024 \<Longrightarrow> ofiles (g (set_slot n v t)) i = ofiles (set_slot n v t) i"
    "nfiles (g (set_slot n v t)) = nfiles t" "fd_links (g (set_slot n v t)) = fd_links t" "searches (g (set_slot n v t)) = searches t"
  shows "st (s\<lparr>filedescs := (filedescs s)(d \<mapsto> g (set_slot n v t))\<rparr>) (\<lambda>u. e u - of_bool (u = v) + of_bool (u = ofiles t n))"
    "own_frame s (s\<lparr>filedescs := (filedescs s)(d \<mapsto> g (set_slot n v t))\<rparr>)"
proof -
  let ?s = "s\<lparr>filedescs := (filedescs s)(d \<mapsto> set_slot n v t)\<rparr>"
  let ?e = "\<lambda>u. e u - of_bool (u = v) + of_bool (u = ofiles t n)"
  have 1: "st ?s ?e" by (rule st_slot[OF s t n]) (use v in simp)
  have tok: "table_ok (set_slot n v t)" using st_tableD[OF 1, of d] by simp
  have "table_ok (g (set_slot n v t))"
    using tok g(2-4) unfolding table_ok_def by (auto simp: g(1) simp del: set_slot_simps(1))
  then have "st (?s\<lparr>filedescs := (filedescs ?s)(d \<mapsto> g (set_slot n v t))\<rparr>) ?e"
    using g(1) by (intro st_table[OF 1]) (simp_all del: set_slot_simps(1))
  then show "st (s\<lparr>filedescs := (filedescs s)(d \<mapsto> g (set_slot n v t))\<rparr>) ?e" by simp
  show "own_frame s (s\<lparr>filedescs := (filedescs s)(d \<mapsto> g (set_slot n v t))\<rparr>)"
    by (rule own_frame_table[OF t g(3)])
qed

text \<open>
  Duplicating fails without a change, or the lowest free handle from \<open>mn\<close> on refers to the file, whose
  count has grown by one.
\<close>

definition dup_result :: "int \<Rightarrow> int \<Rightarrow> bool \<Rightarrow> nat \<Rightarrow> filedesc \<Rightarrow> fstate \<Rightarrow> int \<Rightarrow> fstate \<Rightarrow> bool" where
  "dup_result fd mn cmd d t s n s' \<longleftrightarrow> mn \<le> n \<and> n < 1024 \<and> ofiles t n = 0 \<and> (\<forall>j. mn \<le> j \<and> j < n \<longrightarrow> ofiles t j \<noteq> 0) \<and>
     (\<exists>p i v f. fp_get (curproc (kern s)) fd s = Inr (p, i, v) \<and> files s v = Some f \<and>
        s' = s\<lparr>filedescs := (filedescs s)(d \<mapsto> set_ofileflag n (if cmd then FD_CLOEXEC else 0) (set_slot n v t)),
               files := (files s)(v \<mapsto> add_link f)\<rparr>)"

lemma fp_get_reserved:
  assumes "p_fd s q = Some d" "filedescs s d = Some t" "ofiles t n = 0"
  shows "fp_get p fd (s\<lparr>filedescs := (filedescs s)(d \<mapsto> set_slot n 1 t)\<rparr>) = fp_get p fd s"
proof -
  have "fp_get1 p' i (s\<lparr>filedescs := (filedescs s)(d \<mapsto> set_slot n 1 t)\<rparr>) = fp_get1 p' i s" for p' i
    using assms by (cases "i = n") (auto simp: fp_get1_def fd_table_def split: option.splits)
  then show ?thesis by (simp add: fp_get_def)
qed

lemma do_dup_ok:
  assumes inv: "fd_inv s" and few: "few_refs s" and t: "p_fd s (curproc (kern s)) = Some d" "filedescs s d = Some t" and mn: "0 \<le> mn"
  shows "\<exists>r s'. do_dup fd mn cmd s = Some (r, s') \<and> fd_inv s' \<and>
    (r < 0 \<and> s' = s \<or> dup_result fd mn cmd d t s r s')"
proof -
  let ?p = "curproc (kern s)"
  have s: "st s (\<lambda>_. 0)" and ow: "owners s" using inv by (simp_all add: fd_inv_def)
  consider (full) "fd_alloc ?p mn s = Some (Inl EMFILE, s)"
    | (free) n where "mn \<le> n" "n < 1024" "ofiles t n = 0" "\<forall>j. mn \<le> j \<and> j < n \<longrightarrow> ofiles t j \<noteq> 0"
        "fd_alloc ?p mn s = Some (Inr n, s\<lparr>filedescs := (filedescs s)(d \<mapsto> set_slot n 1 t)\<rparr>)"
        "st (s\<lparr>filedescs := (filedescs s)(d \<mapsto> set_slot n 1 t)\<rparr>) (\<lambda>_. 0)"
    using fd_alloc_ok[OF s t mn] by blast
  then show ?thesis
  proof cases
    case full
    then show ?thesis using inv by (simp add: do_dup_def Let_def errno)
  next
    case free
    let ?s1 = "s\<lparr>filedescs := (filedescs s)(d \<mapsto> set_slot n 1 t)\<rparr>"
    have t1: "p_fd ?s1 ?p = Some d" "filedescs ?s1 d = Some (set_slot n 1 t)" using t by simp_all
    note g = fp_get_reserved[OF t free(3), of ?p fd]
    show ?thesis
    proof (cases "fp_get ?p fd s")
      case (Inl e)
      have "fd_remove ?p n ?s1 = Some s"
        using upd_table_eq[OF t1, of "set_slot n 0"] t by (simp add: fd_remove_def set_slot_same[OF free(3)] fun_upd_idem)
      moreover have "e < 0" using Inl by (auto simp: fp_get_def fp_get1_def errno split: option.splits sum.splits if_splits prod.splits)
      ultimately show ?thesis using free(5) g Inl inv by (simp add: do_dup_def Let_def)
    next
      case (Inr x)
      then obtain p i v where x: "fp_get ?p fd s = Inr (p, i, v)" by (cases x) auto
      then obtain d' t' where t': "p_fd s p = Some d'" "filedescs s d' = Some t'" "- 5 \<le> i" "i < nfiles t'" "ofiles t' i = v" "v \<noteq> 0" "v \<noteq> 1"
        by (rule fp_get_Inr)
      have "i < 1024" using t'(4) st_tableD[OF s t'(2)] by (simp add: table_ok_def)
      then have "1 \<le> nrefs (filedescs s) v + 0" using st_nrefs[OF s t'(2,3)] t'(5) by simp
      then obtain f where f: "files s v = Some f" using st_live[OF s t'(6,7)] by blast
      define fl where "fl = (if cmd then FD_CLOEXEC else 0)"
      define s2 where "s2 = s\<lparr>filedescs := (filedescs s)(d \<mapsto> set_ofileflag n fl (set_slot n v t))\<rparr>"
      have n0: "0 \<le> n" using free(1) mn by simp
      have s2: "st s2 (\<lambda>u. 0 - of_bool (u = v) + of_bool (u = ofiles t n))" "own_frame s s2"
        unfolding s2_def
        by (rule st_reference[OF s t(2), of n v "set_ofileflag n fl"]; use n0 free(2) t'(7) in simp)+
      have lk: "f_links f < 32767" using few f by (fastforce simp: few_refs_def)
      have f2: "files s2 v = Some f" using f by (simp add: s2_def)
      define s3 where "s3 = s2\<lparr>files := (files s2)(v \<mapsto> add_link f)\<rparr>"
      note s3 = st_link[OF s2(1) f2 lk, folded s3_def]
      have "st s3 (\<lambda>_. 0)" by (rule st_cong[OF s3(2)]) (use free(3) t'(6) in auto)
      moreover have "own_frame s s3" using s2(2) by (simp add: own_frame_def s3_def)
      ultimately have inv3: "fd_inv s3" using own_frame_owners[OF _ ow] by (simp add: fd_inv_def)
      have "fp_done ?p v n fl ?s1 = Some s2"
        using t upd_table_eq[OF t1, of "set_ofileflag n fl \<circ> set_slot n v"] by (simp add: fp_done_def fd_table_def s2_def)
      then have "do_dup fd mn cmd s = Some (n, s3)"
        using free(5) g x s3(1) by (simp add: do_dup_def Let_def fl_def)
      moreover have "dup_result fd mn cmd d t s n s3"
        using free(1-4) x f by (auto simp: dup_result_def s3_def s2_def fl_def)
      ultimately show ?thesis using inv3 by blast
    qed
  qed
qed

lemma set_ofileflag_low:
  assumes "- 5 \<le> i" "i < 0" "ofiles t 1022 = 0" "ofiles t 1023 = 0"
  shows "ofiles (set_ofileflag i 0 t) = ofiles t"
proof -
  have "flag_slot i = 1022 \<or> flag_slot i = 1023" using assms(1,2) by (auto simp: flag_slot_def)
  then have "ofiles t (flag_slot i) = 0" using assms(3,4) by auto
  then show ?thesis using assms(2) by (simp add: set_ofileflag_def fun_upd_idem)
qed

lemma force_tty_ok:
  assumes dr: "drivers_ok env" and s: "st s e" and f: "files s v = Some f"
  shows "\<exists>s'. force_tty env p v n s = Some s' \<and> st s' e \<and> filedescs s' = filedescs s \<and> p_fd s' = p_fd s \<and> files s' = files s"
proof -
  let ?s = "upd_tty (f_devinfo f) (\<lambda>x. x\<lparr>tty_pgrp := pgrp (procs (kern s) p)\<rparr>) s"
  have 1: "same_fds s ?s" by (simp add: same_fds_def upd_tty_def)
  have 2: "same_fds ?s (snd (snd (e_ioctl env v TIOCWONLINE 0 ?s)))" by (rule drivers_okD(2)[OF dr])
  have dev: "is_terminal f \<longrightarrow> f_dev f \<noteq> 0" using s f by (auto simp: st_def files_ok_def)
  have st': "st s' e" if "same_fds s s'" for s' using that s by (auto simp: st_def same_fds_def)
  show ?thesis
    using f dev 1 2 st'[of ?s] st'[of "snd (snd (e_ioctl env v TIOCWONLINE 0 ?s))"] s
    by (auto simp: force_tty_def same_fds_def Let_def)
qed

text \<open>
  \<open>Fforce\<close> of a handle other than its source. For a negative handle, whose flags byte is part of the
  last two slots, these must be free.
\<close>

lemma force_good:
  assumes dr: "drivers_ok env" and inv: "fd_inv s" and few: "few_refs s"
    and ne: "\<And>p i v. fp_get (curproc (kern s)) oldfd s = Inr (p, i, v) \<Longrightarrow>
      newfd \<noteq> i \<and> (newfd < 0 \<longrightarrow> (\<forall>t. fd_table s p = Some t \<longrightarrow> i < 1022 \<and> ofiles t 1022 = 0 \<and> ofiles t 1023 = 0))"
  shows "good (sys_f_force env newfd oldfd s)"
proof (cases "fp_get (curproc (kern s)) oldfd s")
  case (Inl e)
  then show ?thesis using inv by (simp add: sys_f_force_def good_def)
next
  case (Inr x)
  then obtain p i v where x: "fp_get (curproc (kern s)) oldfd s = Inr (p, i, v)" by (cases x) auto
  then obtain d t where t: "p_fd s p = Some d" "filedescs s d = Some t" "- 5 \<le> i" "i < nfiles t" "ofiles t i = v" "v \<noteq> 0" "v \<noteq> 1"
    by (rule fp_get_Inr)
  have s: "st s (\<lambda>_. 0)" and ow: "owners s" using inv by (simp_all add: fd_inv_def)
  have tok: "table_ok t" by (rule st_tableD[OF s t(2)])
  then have nf: "nfiles t = 1024" by (simp add: table_ok_def)
  have i: "i < 1024" using t(4) nf by simp
  show ?thesis
  proof (cases "newfd < - 5 \<or> newfd \<ge> 1024")
    case True
    then show ?thesis using x t(1,2) nf inv by (simp add: sys_f_force_def good_def fd_table_def)
  next
    case False
    then have n: "- 5 \<le> newfd" "newfd < 1024" by simp_all
    define w where "w = ofiles t newfd"
    have nw: "1 \<le> nrefs (filedescs s) w + 0" using st_nrefs[OF s t(2) n] by (simp add: w_def)
    obtain r s1 where c: "do_close env p w s = Some (r, s1)" "st s1 ((\<lambda>_. 0)(w := 0 - 1))"
      "filedescs s1 = filedescs s" "p_fd s1 = p_fd s"
      "\<forall>u f'. files s1 u = Some f' \<longrightarrow> (\<exists>f. files s u = Some f \<and> f_links f' \<le> f_links f)"
      using st_close[OF dr s, of w p] nw by auto
    have t1: "filedescs s1 d = Some t" "p_fd s1 p = Some d" using c t by simp_all
    have two: "1 \<le> nrefs (filedescs s1) v + ((\<lambda>_. 0)(w := 0 - 1)) v"
    proof (cases "v = w")
      case True
      have "2 \<le> nrefs (filedescs s) v"
        by (rule nrefs_two[OF st_finite[OF s] t(2,3) i t(5) t(2) n]) (use True ne[OF x] in \<open>auto simp: w_def\<close>)
      then show ?thesis using True by (simp add: c(3))
    next
      case False
      then show ?thesis using st_nrefs[OF s t(2,3) i] t(5) by (simp add: c(3))
    qed
    obtain f where f: "files s1 v = Some f" using st_live[OF c(2) t(6,7) two] by blast
    have lk: "f_links f < 32767" using few c(5) f by (fastforce simp: few_refs_def)
    have fl: "ofiles (set_ofileflag newfd 0 (set_slot newfd v t)) = (ofiles t)(newfd := v)"
      using n ne[OF x] t(1,2) set_ofileflag_low[of newfd "set_slot newfd v t"]
      by (cases "newfd < 0") (simp_all add: fd_table_def)
    define s2 where "s2 = s1\<lparr>filedescs := (filedescs s1)(d \<mapsto> set_ofileflag newfd 0 (set_slot newfd v t))\<rparr>"
    have s2: "st s2 (\<lambda>u. ((\<lambda>_. 0)(w := 0 - 1)) u - of_bool (u = v) + of_bool (u = ofiles t newfd))" "own_frame s1 s2"
      unfolding s2_def
      by (rule st_reference[OF c(2) t1(1) n t(7), of "set_ofileflag newfd 0"]; simp add: fl)+
    have f2: "files s2 v = Some f" using f by (simp add: s2_def)
    define s3 where "s3 = s2\<lparr>files := (files s2)(v \<mapsto> add_link f)\<rparr>"
    note s3 = st_link[OF s2(1) f2 lk, folded s3_def]
    have z: "st s3 (\<lambda>_. 0)" by (rule st_cong[OF s3(2)]) (auto simp: w_def)
    have f3: "files s3 v = Some (add_link f)" by (simp add: s3_def)
    obtain s4 where s4: "force_tty env p v newfd s3 = Some s4" "st s4 (\<lambda>_. 0)" "filedescs s4 = filedescs s3" "p_fd s4 = p_fd s3"
      using force_tty_ok[OF dr z f3] by blast
    have "own_frame s s4" using s2(2) c(3,4) s4(3,4) by (simp add: own_frame_def s3_def)
    then have "fd_inv s4" using own_frame_owners[OF _ ow] s4(2) by (simp add: fd_inv_def)
    moreover have "upd_table p (set_ofileflag newfd 0 \<circ> set_slot newfd v) s1 = Some s2"
      using upd_table_eq[OF t1(2,1)] by (simp add: s2_def)
    then have "sys_f_force env newfd oldfd s = Some (E_OK, s4)"
      using x t(1,2) nf n c(1) s3(1) s4(1) by (simp add: sys_f_force_def fd_table_def w_def)
    ultimately show ?thesis by (auto simp: good_def)
  qed
qed

text \<open>
  \<open>Fmidipipe\<close>, provided that neither handle is reserved by an operation in progress.
\<close>

lemma midipipe_good:
  assumes dr: "drivers_ok env" and inv: "fd_inv s" and few: "few_refs s"
    and pr: "\<And>p. (if n = 0 then Some (curproc (kern s)) else pid2proc n (kern s)) = Some p \<Longrightarrow>
      \<exists>d t. p_fd s p = Some d \<and> filedescs s d = Some t \<and> ofiles t inh \<noteq> 1 \<and> ofiles t outh \<noteq> 1"
  shows "good (sys_f_midipipe env n inh outh s)"
proof (cases "if n = 0 then Some (curproc (kern s)) else pid2proc n (kern s)")
  case None
  then show ?thesis using inv by (simp add: sys_f_midipipe_def good_def Let_def)
next
  case (Some p)
  obtain d t where t: "p_fd s p = Some d" "filedescs s d = Some t" "ofiles t inh \<noteq> 1" "ofiles t outh \<noteq> 1" using pr[OF Some] by blast
  have s: "st s (\<lambda>_. 0)" and ow: "owners s" using inv by (simp_all add: fd_inv_def)
  have nf: "nfiles t = 1024" using st_tableD[OF s t(2)] by (simp add: table_ok_def)
  have live: "\<exists>f. files s (ofiles t i) = Some f" if "- 5 \<le> i" "i < 1024" "ofiles t i \<noteq> 0" "ofiles t i \<noteq> 1" for i
    using st_live[OF s that(3,4)] st_nrefs[OF s t(2) that(1,2)] by fastforce
  have T: "fd_table s p = Some t" using t(1,2) by (simp add: fd_table_def)
  show ?thesis
  proof (cases "inh < - 5 \<or> inh \<ge> 1024 \<or> ofiles t inh = 0")
    case True
    then show ?thesis using inv Some T nf by (simp add: sys_f_midipipe_def good_def Let_def)
  next
    case False
    then have i: "- 5 \<le> inh" "inh < 1024" "ofiles t inh \<noteq> 0" by simp_all
    obtain fi where fi: "files s (ofiles t inh) = Some fi" using live[OF i t(3)] by blast
    show ?thesis
    proof (cases "f_flags fi AND O_RWMODE = O_WRONLY \<or> outh < - 5 \<or> outh \<ge> 1024 \<or> ofiles t outh = 0")
      case True
      then show ?thesis using inv Some T nf i fi by (auto simp: sys_f_midipipe_def good_def Let_def)
    next
      case False
      then have o: "- 5 \<le> outh" "outh < 1024" "ofiles t outh \<noteq> 0" "f_flags fi AND O_RWMODE \<noteq> O_WRONLY" by simp_all
      obtain fo where fo: "files s (ofiles t outh) = Some fo" using live[OF o(1-3) t(4)] by blast
      show ?thesis
      proof (cases "f_flags fo AND O_RWMODE = O_RDONLY")
        case True
        then show ?thesis using inv Some T nf i o fi fo by (simp add: sys_f_midipipe_def good_def Let_def)
      next
        case False
        define v w where "v = ofiles t inh" and "w = ofiles t outh"
        have few': "f_links fi < 31000" "f_links fo < 31000" using few fi fo by (auto simp: few_refs_def)
        have fi': "files s v = Some fi" and fo': "files s w = Some fo" using fi fo by (simp_all add: v_def w_def)
        define s1 where "s1 = s\<lparr>files := (files s)(v \<mapsto> add_link fi)\<rparr>"
        have pos: "0 < f_links fi" using st_live[OF s i(3) t(3)] st_nrefs[OF s t(2) i(1,2)] fi by fastforce
        note l1 = st_link[OF s fi', folded s1_def]
        obtain fo1 where fo1: "files s1 w = Some fo1" "f_links fo1 < 32767"
          using fo' few' pos by (cases "v = w") (auto simp: s1_def add_link_def short_of_id fi')
        define s2 where "s2 = s1\<lparr>files := (files s1)(w \<mapsto> add_link fo1)\<rparr>"
        have st1: "st s1 ((\<lambda>_. 0)(v := 0 + 1))" using l1(2) few' by simp
        note l2 = st_link[OF st1 fo1, folded s2_def]
        define e2 where "e2 = ((\<lambda>_. 0)(v := 0 + 1))(w := ((\<lambda>_. 0)(v := 0 + 1)) w + (1::int))"
        have st2: "st s2 e2" using l2(2) by (simp add: e2_def)
        have T2: "filedescs s2 = filedescs s" "p_fd s2 = p_fd s" by (simp_all add: s2_def s1_def)
        have e2: "0 \<le> e2 u" for u by (simp add: e2_def)
        define a b where "a = ofiles t (- 4)" and "b = ofiles t (- 5)"
        have ra: "1 \<le> nrefs (filedescs s) a" and rb: "1 \<le> nrefs (filedescs s) b"
          using st_nrefs[OF s t(2), of "- 4"] st_nrefs[OF s t(2), of "- 5"] by (simp_all add: a_def b_def)
        have rab: "2 \<le> nrefs (filedescs s) a" if "a = b"
          by (rule nrefs_two[OF st_finite[OF s] t(2), of "- 4" _ d t "- 5"]) (use t(2) that in \<open>simp_all add: a_def b_def\<close>)
        obtain r3 s3 where c3: "do_close env p a s2 = Some (r3, s3)" "st s3 (e2(a := e2 a - 1))" "filedescs s3 = filedescs s2" "p_fd s3 = p_fd s2"
          using st_close[OF dr st2, of a p] ra e2[of a] T2 by auto
        have "1 \<le> nrefs (filedescs s3) b + (e2(a := e2 a - 1)) b"
          using rb rab e2[of b] by (cases "a = b") (simp_all add: c3(3) T2)
        then obtain r4 s4 where c4: "do_close env p b s3 = Some (r4, s4)" "filedescs s4 = filedescs s3" "p_fd s4 = p_fd s3"
          "st s4 ((e2(a := e2 a - 1))(b := (e2(a := e2 a - 1)) b - 1))"
          using st_close[OF dr c3(2), of b p] by auto
        have t4: "filedescs s4 d = Some t" using c3 c4 T2 t by simp
        have s5: "st (s4\<lparr>filedescs := (filedescs s4)(d \<mapsto> set_slot (- 4) v t)\<rparr>)
            (\<lambda>u. ((e2(a := e2 a - 1))(b := (e2(a := e2 a - 1)) b - 1)) u - of_bool (u = v) + of_bool (u = a))"
          using st_slot[OF c4(4) t4, of "- 4" v] t(3) by (simp add: a_def v_def)
        define s6 where "s6 = s4\<lparr>filedescs := (filedescs s4)(d \<mapsto> set_slot (- 5) w (set_slot (- 4) v t))\<rparr>"
        have "st s6 (\<lambda>u. (((e2(a := e2 a - 1))(b := (e2(a := e2 a - 1)) b - 1)) u - of_bool (u = v) + of_bool (u = a)) - of_bool (u = w) + of_bool (u = b))"
          using st_slot[OF s5, of d "set_slot (- 4) v t" "- 5" w] t(4) by (simp add: b_def w_def s6_def)
        then have "st s6 (\<lambda>_. 0)" by (rule st_cong) (auto simp: e2_def)
        moreover have "own_frame s s6"
          using c3 c4 T2 t4 t(2) by (simp add: own_frame_def s6_def)
        ultimately have "fd_inv s6" using own_frame_owners[OF _ ow] by (simp add: fd_inv_def)
        moreover have "upd_table p (set_slot (- 5) w \<circ> set_slot (- 4) v) s4 = Some s6"
          using upd_table_eq[OF _ t4, of p] c3 c4 T2 t by (simp add: s6_def)
        moreover have "upd_file v add_link s = Some s1" using l1(1) few' by simp
        ultimately show ?thesis
          using Some T nf i o fi fo False l2(1) c3(1) c4(1)
          by (simp add: sys_f_midipipe_def good_def Let_def v_def[symmetric] w_def[symmetric] a_def[symmetric] b_def[symmetric])
      qed
    qed
  qed
qed

lemma user_flags_keep_tty:
  "(((fl AND NOT 0xfff) OR (((x AND 0xfff) AND NOT (3 OR 0x70)) OR (fl AND (3 OR 0x70)))) AND 0x2000 :: u16) = fl AND 0x2000"
proof -
  have "(fl AND NOT 0xfff) AND 0x2000 = fl AND (NOT 0xfff AND 0x2000 :: u16)" "((x AND 0xfff) AND NOT (3 OR 0x70)) AND 0x2000 = x AND ((0xfff AND NOT (3 OR 0x70)) AND 0x2000 :: u16)"
    "(fl AND (3 OR 0x70)) AND 0x2000 = fl AND ((3 OR 0x70) AND 0x2000 :: u16)"
    by (simp_all only: and.assoc)
  then show ?thesis by (simp only: bit.conj_disj_distrib2) simp
qed

lemma cntl_good:
  assumes inv: "fd_inv s" and few: "few_refs s" and t: "p_fd s (curproc (kern s)) = Some d"
    and dup: "cmd = 0 \<or> cmd = 1030 \<Longrightarrow> 0 \<le> short_of arg"
    and flag: "\<And>p i v. cmd = 2 \<Longrightarrow> fp_get (curproc (kern s)) fd s = Inr (p, i, v) \<Longrightarrow> 0 \<le> i"
  shows "\<exists>r s'. sys_f_cntl fd arg cmd s = Some (r, s') \<and> fd_inv s'"
proof -
  have s: "st s (\<lambda>_. 0)" and ow: "owners s" using inv by (simp_all add: fd_inv_def)
  obtain t where t: "p_fd s (curproc (kern s)) = Some d" "filedescs s d = Some t" using ow t by (fastforce simp: owners_def)
  show ?thesis
  proof (cases "cmd = 0 \<or> cmd = 1030")
    case True
    from do_dup_ok[OF inv few t dup[OF True], of fd "cmd = 1030"]
    obtain r s' where "do_dup fd (short_of arg) (cmd = 1030) s = Some (r, s')" "fd_inv s'" by blast
    then show ?thesis using True by (auto simp: sys_f_cntl_def)
  next
    case nd: False
    show ?thesis
    proof (cases "fp_get (curproc (kern s)) fd s")
      case (Inl e)
      then show ?thesis using inv nd by (simp add: sys_f_cntl_def)
    next
      case (Inr x)
      then obtain p i v where x: "fp_get (curproc (kern s)) fd s = Inr (p, i, v)" by (cases x) auto
      then obtain d' t' where t': "p_fd s p = Some d'" "filedescs s d' = Some t'" "- 5 \<le> i" "i < nfiles t'" "ofiles t' i = v" "v \<noteq> 0" "v \<noteq> 1"
        by (rule fp_get_Inr)
      have tok: "table_ok t'" by (rule st_tableD[OF s t'(2)])
      then have "i < 1024" using t'(4) by (simp add: table_ok_def)
      then obtain f where f: "files s v = Some f" using st_live[OF s t'(6,7)] st_nrefs[OF s t'(2,3)] t'(5) by fastforce
      consider "cmd = 2" | "cmd = 4" | "cmd \<noteq> 2" "cmd \<noteq> 4" by blast
      then show ?thesis
      proof cases
        case 1
        then have i0: "0 \<le> i" using flag x by blast
        let ?s = "s\<lparr>filedescs := (filedescs s)(d' \<mapsto> set_ofileflag i (word_of_int arg) t')\<rparr>"
        have "st ?s (\<lambda>_. 0)" by (rule st_table[OF s t'(2)]) (use i0 tok in \<open>auto simp: table_ok_def\<close>)
        moreover have "own_frame s ?s" by (rule own_frame_table[OF t'(2)]) simp
        ultimately have "fd_inv ?s" using own_frame_owners[OF _ ow] by (simp add: fd_inv_def)
        then show ?thesis using 1 x upd_table_eq[OF t'(1,2), of "set_ofileflag i (word_of_int arg)"]
          by (simp add: sys_f_cntl_def)
      next
        case 2
        define h :: "fileptr \<Rightarrow> fileptr" where "h = (\<lambda>f. let a = (word_of_int arg AND O_USER) AND NOT (O_RWMODE OR O_SHMODE);
                       a = a OR (f_flags f AND (O_RWMODE OR O_SHMODE))
                   in f\<lparr>f_flags := (f_flags f AND NOT O_USER) OR a\<rparr>)"
        have h: "f_links (h f) = f_links f" "f_dev (h f) = f_dev f" "is_terminal (h f) = is_terminal f"
          using user_flags_keep_tty[of "f_flags f" "word_of_int arg"] by (simp_all add: h_def Let_def is_terminal_def)
        let ?s = "s\<lparr>files := (files s)(v \<mapsto> h f)\<rparr>"
        have "bal (filedescs s) ((files s)(v \<mapsto> h f)) (\<lambda>_. 0)"
          using s f h by (auto simp: st_def bal_def balanced_def split: option.splits)
        moreover have "files_ok ((files s)(v \<mapsto> h f))"
          using s f h by (auto simp: st_def files_ok_def)
        ultimately have "st ?s (\<lambda>_. 0)" using s by (simp add: st_def)
        moreover have "own_frame s ?s" by (simp add: own_frame_def)
        ultimately have "fd_inv ?s" using own_frame_owners[OF _ ow] by (simp add: fd_inv_def)
        moreover have "upd_file v h s = Some ?s" using f by (simp add: upd_file_def)
        ultimately show ?thesis using 2 x by (simp add: sys_f_cntl_def h_def)
      next
        case 3
        then show ?thesis using nd x f t'(1,2) inv by (simp add: sys_f_cntl_def fd_table_def)
      qed
    qed
  qed
qed

section \<open>Closing many handles\<close>

lemma close_slots_ok:
  assumes dr: "drivers_ok env"
  shows "\<lbrakk>st s (\<lambda>_. 0); filedescs s d = Some t; \<forall>i \<in> set is. - 5 \<le> i \<and> i < 1024\<rbrakk> \<Longrightarrow>
    \<exists>s' t'. close_slots env p d P is s = Some s' \<and> st s' (\<lambda>_. 0) \<and> filedescs s' = (filedescs s)(d \<mapsto> t') \<and> p_fd s' = p_fd s \<and>
      fd_links t' = fd_links t \<and>
      (\<forall>i. i \<notin> set is \<longrightarrow> ofiles t' i = ofiles t i) \<and> (P = (\<lambda>_ _. True) \<longrightarrow> (\<forall>i \<in> set is. ofiles t' i = 0))"
proof (induction "is" arbitrary: s t)
  case Nil
  then show ?case by (intro exI[of _ s] exI[of _ t]) (simp add: fun_upd_idem)
next
  case (Cons i "is")
  have s: "st s (\<lambda>_. 0)" and t: "filedescs s d = Some t" and i: "- 5 \<le> i" "i < 1024" using Cons.prems by auto
  show ?case
  proof (cases "ofiles t i \<noteq> 0 \<and> P t i")
    case True
    define v where "v = ofiles t i"
    define s1 where "s1 = s\<lparr>filedescs := (filedescs s)(d \<mapsto> set_slot i 0 t)\<rparr>"
    have s1: "st s1 (\<lambda>u. 0 - of_bool (u = 0) + of_bool (u = v))"
      unfolding s1_def v_def by (rule st_slot[OF s t i]) simp
    have "1 \<le> nrefs (filedescs s1) v + (0 - of_bool (v = 0) + of_bool (v = v))" if "v \<noteq> 0"
      using that by (simp add: nrefs_def)
    then obtain r s2 where c: "do_close env p v s1 = Some (r, s2)" "filedescs s2 = filedescs s1" "p_fd s2 = p_fd s1"
      "st s2 ((\<lambda>u. 0 - of_bool (u = 0) + of_bool (u = v))(v := (0 - of_bool (v = 0) + of_bool (v = v)) - 1))"
      using st_close[OF dr s1, of v p] by blast
    have z: "st s2 (\<lambda>_. 0)" by (rule st_cong[OF c(4)]) (use True in \<open>auto simp: v_def\<close>)
    have t2: "filedescs s2 d = Some (set_slot i 0 t)" by (simp add: c(2) s1_def)
    have pr: "\<forall>j \<in> set is. - 5 \<le> j \<and> j < 1024" using Cons.prems(3) by simp
    from Cons.IH[OF z t2 pr]
    obtain s3 t3 where s3: "close_slots env p d P is s2 = Some s3" "st s3 (\<lambda>_. 0)" "filedescs s3 = (filedescs s2)(d \<mapsto> t3)"
      "p_fd s3 = p_fd s2" "fd_links t3 = fd_links (set_slot i 0 t)" "\<forall>j. j \<notin> set is \<longrightarrow> ofiles t3 j = ofiles (set_slot i 0 t) j"
      "P = (\<lambda>_ _. True) \<longrightarrow> (\<forall>j \<in> set is. ofiles t3 j = 0)"
      by blast
    have "close_slots env p d P (i # is) s = Some s3"
      using t True c(1) s3(1) by (simp add: upd_fd_def s1_def[symmetric] v_def[symmetric])
    then show ?thesis using s3 c(2,3) by (intro exI[of _ s3] exI[of _ t3]) (auto simp: s1_def)
  next
    case False
    have pr: "\<forall>j \<in> set is. - 5 \<le> j \<and> j < 1024" using Cons.prems(3) by simp
    from Cons.IH[OF s t pr]
    obtain s3 t3 where s3: "close_slots env p d P is s = Some s3" "st s3 (\<lambda>_. 0)" "filedescs s3 = (filedescs s)(d \<mapsto> t3)"
      "p_fd s3 = p_fd s" "fd_links t3 = fd_links t" "\<forall>j. j \<notin> set is \<longrightarrow> ofiles t3 j = ofiles t j"
      "P = (\<lambda>_ _. True) \<longrightarrow> (\<forall>j \<in> set is. ofiles t3 j = 0)"
      by blast
    have "close_slots env p d P (i # is) s = Some s3" using t False s3(1) by auto
    then show ?thesis using s3 False by (intro exI[of _ s3] exI[of _ t3]) auto
  qed
qed

section \<open>Processes\<close>

text \<open>
  Copying a table: the references of the slots still to be visited are owed. Every such slot is a copy of a
  slot of table \<open>d0\<close>, so its file is alive.
\<close>

definition pending :: "filedesc \<Rightarrow> int list \<Rightarrow> faddr \<Rightarrow> int" where
  "pending t is v = int (length (List.filter (\<lambda>i. ofiles t i = v) is))"

lemma pending_simps [simp]:
  "pending t [] v = 0" "pending t (i # is) v = of_bool (ofiles t i = v) + pending t is v"
  by (simp_all add: pending_def)

lemma pending_other: "i \<notin> set is \<Longrightarrow> pending (set_slot i w t) is v = pending t is v"
  unfolding pending_def by (rule arg_cong[where f = "\<lambda>l. int (length l)"], rule filter_cong) auto

lemma pending_le:
  assumes fin: "finite (dom T)" and T: "T d = Some t" "T d0 = Some t0" "d0 \<noteq> d"
    and ds: "distinct (i # is)" "\<forall>j \<in> set (i # is). - 5 \<le> j \<and> j < 1024" "ofiles t0 i = ofiles t i"
  shows "1 + pending t (i # is) (ofiles t i) \<le> nrefs T (ofiles t i)"
proof -
  define v l where "v = ofiles t i" and "l = List.filter (\<lambda>j. ofiles t j = v) (i # is)"
  have sub: "insert (d0, i) (Pair d ` set l) \<subseteq> refs T v"
    using T ds by (auto simp: refs_def v_def l_def)
  have "distinct l" using ds(1) by (simp add: l_def)
  then have "card (Pair d ` set l) = length l" by (simp add: card_image inj_on_def distinct_card)
  then have "card (insert (d0, i) (Pair d ` set l)) = Suc (length l)" using T(3) by (subst card_insert_disjoint) auto
  then have "Suc (length l) \<le> card (refs T v)" using card_mono[OF finite_refs[OF fin] sub] by simp
  then show ?thesis by (simp add: nrefs_def pending_def v_def l_def)
qed

lemma copy_slots_ok:
  "\<lbrakk>st s (\<lambda>v. - pending t is v); filedescs s d = Some t; filedescs s d0 = Some t0; d0 \<noteq> d;
    distinct is; \<forall>j \<in> set is. - 5 \<le> j \<and> j < 1024; \<forall>j \<in> set is. ofiles t0 j = ofiles t j;
    \<forall>v f. files s v = Some f \<longrightarrow> f_links f + int (length is) < 32767\<rbrakk> \<Longrightarrow>
   \<exists>s' t'. copy_slots d is s = Some s' \<and> st s' (\<lambda>_. 0) \<and> filedescs s' = (filedescs s)(d \<mapsto> t') \<and> p_fd s' = p_fd s \<and>
     fd_links t' = fd_links t"
proof (induction "is" arbitrary: s t)
  case Nil
  then show ?case by (intro exI[of _ s] exI[of _ t]) (simp add: fun_upd_idem)
next
  case (Cons i "is")
  note P = Cons.prems
  have i: "- 5 \<le> i" "i < 1024" "i \<notin> set is" "distinct is" using P(5,6) by auto
  have next_ok: "\<exists>s' t'. copy_slots d is s1 = Some s' \<and> st s' (\<lambda>_. 0) \<and> filedescs s' = (filedescs s)(d \<mapsto> t') \<and> p_fd s' = p_fd s \<and>
      fd_links t' = fd_links t"
    if h: "st s1 (\<lambda>v. - pending t1 is v)" "filedescs s1 = (filedescs s)(d \<mapsto> t1)" "p_fd s1 = p_fd s" "fd_links t1 = fd_links t"
      "\<forall>j. j \<noteq> i \<longrightarrow> ofiles t1 j = ofiles t j" "\<forall>v f. files s1 v = Some f \<longrightarrow> f_links f + int (length is) < 32767" for s1 t1
  proof -
    have "\<forall>j \<in> set is. ofiles t0 j = ofiles t1 j" using P(7) h(5) i(3) by auto
    moreover have "filedescs s1 d = Some t1" "filedescs s1 d0 = Some t0" "\<forall>j \<in> set is. - 5 \<le> j \<and> j < 1024"
      using P(3,4,6) h(2) by simp_all
    ultimately obtain s' t' where "copy_slots d is s1 = Some s'" "st s' (\<lambda>_. 0)" "filedescs s' = (filedescs s1)(d \<mapsto> t')" "p_fd s' = p_fd s1"
      "fd_links t' = fd_links t1" using Cons.IH[OF h(1) _ _ P(4) i(4) _ _ h(6)] by blast
    then show ?thesis using h by (intro exI[of _ s'] exI[of _ t']) simp
  qed
  define v where "v = ofiles t i"
  have few: "\<forall>v f. files s v = Some f \<longrightarrow> f_links f + int (length is) < 32767" using P(8) by force
  have clear: "st (s\<lparr>filedescs := (filedescs s)(d \<mapsto> set_slot i 0 t)\<rparr>) (\<lambda>u. - pending (set_slot i 0 t) is u)"
  proof -
    have "st (s\<lparr>filedescs := (filedescs s)(d \<mapsto> set_slot i 0 t)\<rparr>) (\<lambda>u. - pending t (i # is) u - of_bool (u = 0) + of_bool (u = v))"
      unfolding v_def by (rule st_slot[OF P(1,2) i(1,2)]) simp
    then show ?thesis by (rule st_cong) (auto simp: pending_other[OF i(3)] v_def)
  qed
  have skip: "\<exists>s' t'. copy_slots d is (s\<lparr>filedescs := (filedescs s)(d \<mapsto> set_slot i 0 t)\<rparr>) = Some s' \<and> st s' (\<lambda>_. 0) \<and>
      filedescs s' = (filedescs s)(d \<mapsto> t') \<and> p_fd s' = p_fd s \<and> fd_links t' = fd_links t"
    by (rule next_ok[OF clear]) (use few in simp_all)
  have same: "filedescs s = (filedescs s)(d \<mapsto> t)" using P(2) by (simp add: fun_upd_idem)
  consider "v = 0" | "v = 1" | "v \<noteq> 0" "v \<noteq> 1" by blast
  then show ?case
  proof cases
    case 1
    have "st s (\<lambda>u. - pending t is u)" by (rule st_cong[OF P(1)]) (use 1 in \<open>auto simp: v_def\<close>)
    from next_ok[OF this same refl refl _ few] have "\<exists>s' t'. copy_slots d is s = Some s' \<and> st s' (\<lambda>_. 0) \<and>
        filedescs s' = (filedescs s)(d \<mapsto> t') \<and> p_fd s' = p_fd s \<and> fd_links t' = fd_links t" by blast
    moreover have "copy_slots d (i # is) s = copy_slots d is s" using P(2) 1 by (simp add: v_def)
    ultimately show ?thesis by metis
  next
    case 2
    then have "copy_slots d (i # is) s = copy_slots d is (s\<lparr>filedescs := (filedescs s)(d \<mapsto> set_slot i 0 t)\<rparr>)"
      using P(2) by (simp add: v_def upd_fd_def)
    then show ?thesis using skip by (simp only:)
  next
    case 3
    have "1 + pending t (i # is) v \<le> nrefs (filedescs s) v"
      using pending_le[OF st_finite[OF P(1)] P(2,3,4,5,6)] P(7) by (simp add: v_def)
    then obtain f where f: "files s v = Some f" using st_live[OF P(1) 3] by auto
    show ?thesis
    proof (cases "f_flags f AND O_NOINHERIT = 0")
      case True
      have lk: "f_links f < 32767" using few f by fastforce
      define s1 where "s1 = s\<lparr>files := (files s)(v \<mapsto> add_link f)\<rparr>"
      note l = st_link[OF P(1) f lk, folded s1_def]
      have "0 < f_links f" using st_live[OF P(1) 3] f \<open>1 + pending t (i # is) v \<le> nrefs (filedescs s) v\<close> by fastforce
      then have fl: "f_links (add_link f) = f_links f + 1" using lk by (simp add: add_link_def short_of_id)
      have "st s1 (\<lambda>u. - pending t is u)" by (rule st_cong[OF l(2)]) (auto simp: v_def)
      moreover have "\<forall>u g. files s1 u = Some g \<longrightarrow> f_links g + int (length is) < 32767"
        using P(8) few f fl by (fastforce simp: s1_def split: if_splits)
      ultimately have "\<exists>s' t'. copy_slots d is s1 = Some s' \<and> st s' (\<lambda>_. 0) \<and>
          filedescs s' = (filedescs s)(d \<mapsto> t') \<and> p_fd s' = p_fd s \<and> fd_links t' = fd_links t"
        using next_ok[of s1 t] same by (simp add: s1_def del: fun_upd_apply)
      moreover have "copy_slots d (i # is) s = copy_slots d is s1" using P(2) 3 True f l(1) by (simp add: v_def)
      ultimately show ?thesis by metis
    next
      case False
      then have "copy_slots d (i # is) s = copy_slots d is (s\<lparr>filedescs := (filedescs s)(d \<mapsto> set_slot i 0 t)\<rparr>)"
        using P(2) 3 f by (simp add: v_def upd_fd_def)
      then show ?thesis using skip by (simp only:)
    qed
  qed
qed

text \<open>A new process \<open>p2\<close> shares the table of \<open>p1\<close> or gets a copy at the fresh address \<open>mem\<close>.\<close>

lemma upto_slots: "i \<in> set [- 5..1023] \<longleftrightarrow> - 5 \<le> i \<and> i < (1024 :: int)"
  by auto

lemma ownersD:
  assumes "owners s" "filedescs s d = Some t"
  shows "0 < fd_links t" "fd_links t = int (card {p. p_fd s p = Some d})"
  using assms unfolding owners_def by blast+

lemma owners_new:
  assumes ow: "owners s" and p: "p_fd s p2 = None" and t: "filedescs s d = Some t" "0 \<le> fd_links t"
  shows "int (card {p. ((p_fd s)(p2 \<mapsto> d)) p = Some d}) = int (card {p. p_fd s p = Some d}) + 1"
    "d' \<noteq> d \<Longrightarrow> {p. ((p_fd s)(p2 \<mapsto> d)) p = Some d'} = {p. p_fd s p = Some d'}"
proof -
  have "finite {p. p_fd s p = Some d}"
    by (rule finite_subset[of _ "{p. p_fd s p \<noteq> None}"]) (use ow in \<open>auto simp: owners_def\<close>)
  moreover have "{p. ((p_fd s)(p2 \<mapsto> d)) p = Some d} = insert p2 {p. p_fd s p = Some d}" by auto
  ultimately show "int (card {p. ((p_fd s)(p2 \<mapsto> d)) p = Some d}) = int (card {p. p_fd s p = Some d}) + 1"
    using p by simp
  show "d' \<noteq> d \<Longrightarrow> {p. ((p_fd s)(p2 \<mapsto> d)) p = Some d'} = {p. p_fd s p = Some d'}" using p by auto
qed

lemma share_good:
  assumes inv: "fd_inv s" and p: "p_fd s p1 = Some d" "p_fd s p2 = None"
  shows "\<exists>s'. fork_fd True mem p1 p2 s = Some s' \<and> fd_inv s'"
proof -
  have s: "st s (\<lambda>_. 0)" and ow: "owners s" using inv by (simp_all add: fd_inv_def)
  obtain t where t: "filedescs s d = Some t" using ow p(1) by (fastforce simp: owners_def)
  note l = ownersD[OF ow t]
  define s1 where "s1 = s\<lparr>filedescs := (filedescs s)(d \<mapsto> t\<lparr>fd_links := fd_links t + 1\<rparr>)\<rparr>"
  define s2 where "s2 = s1\<lparr>p_fd := (p_fd s)(p2 \<mapsto> d)\<rparr>"
  have tok: "table_ok t" by (rule st_tableD[OF s t])
  have "st s1 (\<lambda>_. 0)" unfolding s1_def by (rule st_table[OF s t]) (use tok in \<open>simp_all add: table_ok_def\<close>)
  then have "st s2 (\<lambda>_. 0)" by (simp add: st_def s2_def)
  moreover have "owners s2"
    unfolding owners_def
  proof (intro conjI allI impI)
    have "{p. p_fd s2 p \<noteq> None} = insert p2 {p. p_fd s p \<noteq> None}" by (auto simp: s2_def)
    then show "finite {p. p_fd s2 p \<noteq> None}" using ow by (simp add: owners_def)
  next
    fix p e assume "p_fd s2 p = Some e"
    then show "filedescs s2 e \<noteq> None" using ow t by (auto simp: owners_def s2_def s1_def split: if_splits)
  next
    fix e t' assume e: "filedescs s2 e = Some t'"
    show "fd_links t' = int (card {p. p_fd s2 p = Some e})"
    proof (cases "e = d")
      case True
      then show ?thesis using e owners_new(1)[OF ow p(2) t] l by (auto simp: s2_def s1_def)
    next
      case False
      then show ?thesis using e owners_new(2)[OF ow p(2) t _ False] l ow by (simp add: s2_def s1_def owners_def)
    qed
    show "0 < fd_links t'" using e l ownersD(1)[OF ow, of e] by (auto simp: s2_def s1_def split: if_splits)
  qed
  moreover have "fork_fd True mem p1 p2 s = Some s2"
    using p t by (simp add: fork_fd_def share_fd_def upd_fd_def s2_def s1_def)
  ultimately show ?thesis by (simp add: fd_inv_def)
qed

lemma copy_good:
  assumes inv: "fd_inv s" and few: "few_refs s" and p: "p_fd s p1 = Some d0" "p_fd s p2 = None"
    and mem: "case mem of None \<Rightarrow> True | Some d \<Rightarrow> filedescs s d = None"
  shows "\<exists>s'. fork_fd False mem p1 p2 s = Some s' \<and> fd_inv s'"
proof -
  have s: "st s (\<lambda>_. 0)" and ow: "owners s" using inv by (simp_all add: fd_inv_def)
  obtain t0 where t0: "filedescs s d0 = Some t0" using ow p(1) by (fastforce simp: owners_def)
  note l = ownersD(1)[OF ow t0]
  show ?thesis
  proof (cases mem)
    case None
    then show ?thesis using p t0 l inv
      by (simp add: fork_fd_def copy_fd_def fd_table_def fun_upd_idem)
  next
    case (Some d)
    have d: "filedescs s d = None" "d0 \<noteq> d" using mem Some t0 by auto
    define t where "t = t0\<lparr>fd_links := 1, nfiles := 1024\<rparr>"
    define s1 where "s1 = s\<lparr>filedescs := (filedescs s)(d \<mapsto> t)\<rparr>"
    have tok: "table_ok t" using st_tableD[OF s t0] by (simp add: table_ok_def t_def)
    have "nrefs (filedescs s1) v = nrefs (filedescs s) v + pending t [- 5..1023] v" for v
    proof -
      have fin: "finite (refs (filedescs s) v)" by (rule finite_refs[OF st_finite[OF s]])
      define l where "l = List.filter (\<lambda>i. ofiles t i = v) [- 5..1023]"
      have "refs (filedescs s1) v = refs (filedescs s) v \<union> Pair d ` set l"
        using d by (auto simp: refs_def s1_def l_def split: if_splits)
      moreover have "refs (filedescs s) v \<inter> Pair d ` set l = {}" using d by (auto simp: refs_def)
      moreover have "distinct l" by (simp add: l_def)
      then have "card (Pair d ` set l) = length l" by (simp add: card_image inj_on_def distinct_card)
      ultimately show ?thesis using fin by (simp add: nrefs_def pending_def card_Un_disjoint l_def[symmetric])
    qed
    then have "st s1 (\<lambda>v. - pending t [- 5..1023] v)"
      using s tok by (auto simp: st_def bal_def s1_def)
    then obtain s2 t2 where c: "copy_slots d [- 5..1023] s1 = Some s2" "st s2 (\<lambda>_. 0)" "filedescs s2 = (filedescs s1)(d \<mapsto> t2)"
      "p_fd s2 = p_fd s1" "fd_links t2 = fd_links t"
      using copy_slots_ok[of s1 t "[- 5..1023]" d d0 t0] d t0 few
      by (force simp: s1_def t_def few_refs_def)
    define t3 where "t3 = t2\<lparr>srchdta := (\<lambda>_. 0), srchdir := (\<lambda>_. zero_dir), searches := 0\<rparr>"
    define s3 where "s3 = s2\<lparr>filedescs := (filedescs s2)(d \<mapsto> t3), p_fd := (p_fd s2)(p2 \<mapsto> d)\<rparr>"
    have t2: "filedescs s2 d = Some t2" using c(3) by simp
    have "st (s2\<lparr>filedescs := (filedescs s2)(d \<mapsto> t3)\<rparr>) (\<lambda>_. 0)"
      by (rule st_table[OF c(2) t2]) (use st_tableD[OF c(2) t2] in \<open>simp_all add: table_ok_def t3_def\<close>)
    then have "st s3 (\<lambda>_. 0)" by (simp add: st_def s3_def)
    moreover have "owners s3"
      unfolding owners_def
    proof (intro conjI allI impI)
      have "{p. p_fd s3 p \<noteq> None} = insert p2 {p. p_fd s p \<noteq> None}" using c(4) by (auto simp: s3_def s1_def)
      then show "finite {p. p_fd s3 p \<noteq> None}" using ow by (simp add: owners_def)
    next
      fix p e assume "p_fd s3 p = Some e"
      then show "filedescs s3 e \<noteq> None" using ow c(3,4) by (auto simp: owners_def s3_def s1_def split: if_splits)
    next
      have old: "p_fd s q \<noteq> Some d" for q using ow d(1) unfolding owners_def by blast
      fix e t' assume e: "filedescs s3 e = Some t'"
      show "fd_links t' = int (card {p. p_fd s3 p = Some e})"
      proof (cases "e = d")
        case True
        then have "{p. p_fd s3 p = Some e} = {p2}" using old c(4) by (auto simp: s3_def s1_def split: if_splits)
        then show ?thesis using e True c(5) by (auto simp: s3_def t3_def t_def)
      next
        case False
        then have "{p. p_fd s3 p = Some e} = {p. p_fd s p = Some e}" using p(2) c(4) by (auto simp: s3_def s1_def)
        then show ?thesis using e False ow c(3) by (simp add: s3_def s1_def owners_def)
      qed
      show "0 < fd_links t'" using e ownersD(1)[OF ow, of e] c(3,5) by (auto simp: s3_def s1_def t3_def t_def split: if_splits)
    qed
    moreover have "fork_fd False mem p1 p2 s = Some s3"
      using p(1) t0 l Some c(1) t2
      by (simp add: fork_fd_def copy_fd_def fd_table_def upd_fd_def Let_def t_def[symmetric] s1_def[symmetric] s3_def t3_def)
    ultimately show ?thesis by (simp add: fd_inv_def)
  qed
qed

text \<open>The end of a process: living processes of its group still have their tables.\<close>

lemma exists_proc_ok: "\<forall>p \<in> set ps. P p \<noteq> None \<Longrightarrow> exists_proc P ps \<noteq> None"
  by (induction ps) auto

lemma release_control_ok:
  assumes s: "st s e" and t: "filedescs s d = Some t" and e: "\<And>v. 0 \<le> e v"
    and grp: "\<forall>q \<in> set (proclist (kern s)). \<not> is_dead (kern s) q \<and> pgrp (procs (kern s) q) = pgrp (procs (kern s) p) \<and> q \<noteq> p \<longrightarrow>
      (\<exists>d t. p_fd s q = Some d \<and> filedescs s d = Some t)"
  shows "\<exists>s'. release_control p t s = Some s' \<and> st s' e \<and> filedescs s' = filedescs s \<and> p_fd s' = p_fd s \<and> kern s' = kern s"
proof (cases "ofiles t (- 1) = 0")
  case True
  then show ?thesis using s by (simp add: release_control_def)
next
  case False
  let ?v = "ofiles t (- 1)"
  have live: "\<exists>f. files s (ofiles t' (- 1)) = Some f" if "filedescs s d' = Some t'" "ofiles t' (- 1) \<noteq> 0" for d' t'
  proof -
    have "ofiles t' (- 1) \<noteq> 1" using st_tableD[OF s that(1)] by (simp add: table_ok_def)
    moreover have "1 \<le> nrefs (filedescs s) (ofiles t' (- 1)) + e (ofiles t' (- 1))"
      using st_nrefs[OF s that(1), of "- 1"] e[of "ofiles t' (- 1)"] by simp
    ultimately show ?thesis using st_live[OF s that(2)] by blast
  qed
  obtain f where f: "files s ?v = Some f" using live[OF t False] by blast
  let ?P = "shares_control s p (pgrp (procs (kern s) p)) ?v (1 < use_cnt (ttys s (f_devinfo f)))"
  have "?P q \<noteq> None" if q: "q \<in> set (proclist (kern s))" for q
  proof (cases "is_dead (kern s) q \<or> pgrp (procs (kern s) q) \<noteq> pgrp (procs (kern s) p) \<or> q = p")
    case True
    then show ?thesis by (simp add: shares_control_def)
  next
    case False
    then obtain d' t' where t': "p_fd s q = Some d'" "filedescs s d' = Some t'" using grp q by blast
    show ?thesis
    proof (cases "ofiles t' (- 1) = 0")
      case True
      then show ?thesis using False t' by (auto simp: shares_control_def fd_table_def Let_def)
    next
      case c: False
      then obtain g where "files s (ofiles t' (- 1)) = Some g" using live[OF t'(2)] by blast
      then show ?thesis using False t' f by (auto simp: shares_control_def fd_table_def Let_def)
    qed
  qed
  then obtain b where "exists_proc ?P (proclist (kern s)) = Some b" using exists_proc_ok[of "proclist (kern s)" ?P] by blast
  then show ?thesis using s f False
    by (auto simp: release_control_def Let_def upd_tty_def st_def)
qed

lemma release_control_links: "release_control p (t\<lparr>fd_links := n\<rparr>) s = release_control p t s"
  by (simp add: release_control_def Let_def cong: if_cong)

lemma close_searches_ok:
  assumes dr: "drivers_ok env"
  shows "\<lbrakk>st s e; filedescs s d = Some t\<rbrakk> \<Longrightarrow>
    \<exists>s' t'. close_searches env d is s = Some s' \<and> st s' e \<and> filedescs s' = (filedescs s)(d := Some t') \<and> p_fd s' = p_fd s \<and> ofiles t' = ofiles t \<and>
      searches t' = searches t"
proof (induction "is" arbitrary: s t)
  case Nil
  then show ?case by (intro exI[of _ s] exI[of _ t]) (simp add: fun_upd_idem)
next
  case (Cons i "is")
  show ?case
  proof (cases "srchdta t i = 0")
    case True
    then have "close_searches env d (i # is) s = close_searches env d is s" using Cons.prems(2) by simp
    then show ?thesis using Cons.IH[OF Cons.prems] by simp
  next
    case False
    define s1 where "s1 = e_release_cookie env (d_fc (srchdir t i)) (snd (e_xfs_closedir env (srchdir t i) s))"
    define t1 where "t1 = t\<lparr>srchdir := (srchdir t)(i := (srchdir t i)\<lparr>d_fc := (d_fc (srchdir t i))\<lparr>fc_fs := 0\<rparr>\<rparr>)\<rparr>"
    define s2 where "s2 = s1\<lparr>filedescs := (filedescs s1)(d := Some t1)\<rparr>"
    have s1: "files s1 = files s" "filedescs s1 = filedescs s" "p_fd s1 = p_fd s" "kern_ok (kern s) \<longrightarrow> kern_ok (kern s1)"
      using drivers_okD(7)[OF dr, of s "srchdir t i"] drivers_okD(6)[OF dr] by (simp_all add: s1_def same_fds_def)
    have "st s1 e" using Cons.prems(1) s1 by (simp add: st_def)
    then have "st s2 e" unfolding s2_def
      by (rule st_table[of _ _ _ t]) (use Cons.prems s1 st_tableD[OF Cons.prems] in \<open>simp_all add: t1_def table_ok_def\<close>)
    moreover have "filedescs s2 d = Some t1" by (simp add: s2_def)
    ultimately obtain s3 t3 where s3: "close_searches env d is s2 = Some s3" "st s3 e" "filedescs s3 = (filedescs s2)(d := Some t3)"
      "p_fd s3 = p_fd s2" "ofiles t3 = ofiles t1" "searches t3 = searches t1" using Cons.IH by blast
    have "close_searches env d (i # is) s = close_searches env d is s2"
      using Cons.prems(2) False s1(2) by (simp add: upd_fd_def s1_def[symmetric] s2_def t1_def)
    then show ?thesis using s3 s1 by (intro exI[of _ s3] exI[of _ t3]) (simp add: s2_def t1_def)
  qed
qed

lemma card_others:
  assumes "owners s" "p_fd s p = Some d"
  shows "int (card {q. q \<noteq> p \<and> p_fd s q = Some d}) = int (card {q. p_fd s q = Some d}) - 1"
proof -
  have "finite {q. p_fd s q = Some d}"
    by (rule finite_subset[of _ "{q. p_fd s q \<noteq> None}"]) (use assms(1) in \<open>auto simp: owners_def\<close>)
  moreover have "{q. q \<noteq> p \<and> p_fd s q = Some d} = {q. p_fd s q = Some d} - {p}" by auto
  moreover have "0 < card {q. p_fd s q = Some d}" using calculation(1) assms(2) by (auto simp: card_gt_0_iff)
  ultimately show ?thesis using assms(2) by (simp add: of_nat_diff)
qed

lemma exit_good:
  assumes dr: "drivers_ok env" and inv: "fd_inv s" and p: "p_fd s p = Some d"
    and grp: "\<forall>q \<in> set (proclist (kern s)). \<not> is_dead (kern s) q \<and> pgrp (procs (kern s) q) = pgrp (procs (kern s) p) \<and> q \<noteq> p \<longrightarrow> p_fd s q \<noteq> None"
  shows "\<exists>s'. free_fd env p s = Some s' \<and> fd_inv s' \<and> p_fd s' p = None"
proof -
  have s: "st s (\<lambda>_. 0)" and ow: "owners s" using inv by (simp_all add: fd_inv_def)
  obtain t where t: "filedescs s d = Some t" using ow p by (fastforce simp: owners_def)
  note l = ownersD[OF ow t] and tok = st_tableD[OF s t]
  define t1 where "t1 = t\<lparr>fd_links := fd_links t - 1\<rparr>"
  define s1 where "s1 = s\<lparr>p_fd := (p_fd s)(p := None), filedescs := (filedescs s)(d \<mapsto> t1)\<rparr>"
  have "st (s\<lparr>filedescs := (filedescs s)(d \<mapsto> t1)\<rparr>) (\<lambda>_. 0)"
    by (rule st_table[OF s t]) (use tok in \<open>simp_all add: t1_def table_ok_def\<close>)
  then have st1: "st s1 (\<lambda>_. 0)" by (simp add: st_def s1_def)
  have t1: "filedescs s1 d = Some t1" by (simp add: s1_def)
  have eq1: "upd_fd d (\<lambda>t. t\<lparr>fd_links := fd_links t - 1\<rparr>) (s\<lparr>p_fd := (p_fd s)(p := None)\<rparr>) = Some s1"
    using t by (simp add: upd_fd_def s1_def t1_def)
  have cd: "{q. p_fd s1 q = Some e} = {q. q \<noteq> p \<and> p_fd s q = Some e}" for e by (auto simp: s1_def)
  have fin: "finite {q. p_fd s1 q \<noteq> None}"
    by (rule finite_subset[of _ "{q. p_fd s q \<noteq> None}"]) (use ow in \<open>auto simp: owners_def s1_def\<close>)
  have other: "{q. q \<noteq> p \<and> p_fd s q = Some e} = {q. p_fd s q = Some e}" if "e \<noteq> d" for e using p that by auto
  show ?thesis
  proof (cases "fd_links t - 1 > 0")
    case True
    have "owners s1" unfolding owners_def cd
    proof (intro conjI allI impI)
      show "finite {q. p_fd s1 q \<noteq> None}" by (rule fin)
      show "filedescs s1 e \<noteq> None" if "p_fd s1 q = Some e" for q e
        using that ow by (auto simp: s1_def owners_def split: if_splits)
      fix e t' assume e: "filedescs s1 e = Some t'"
      have "fd_links t' = int (card {q. q \<noteq> p \<and> p_fd s q = Some e}) \<and> 0 < fd_links t'"
      proof (cases "e = d")
        case d: True
        have "t' = t1" using e d by (simp add: s1_def)
        then show ?thesis using card_others[OF ow p] l True d by (simp add: t1_def)
      next
        case False
        then have "filedescs s e = Some t'" using e by (simp add: s1_def)
        from ownersD[OF ow this] show ?thesis unfolding other[OF False] by simp
      qed
      then show "fd_links t' = int (card {q. q \<noteq> p \<and> p_fd s q = Some e})" "0 < fd_links t'" by simp_all
    qed
    moreover have "free_fd env p s = Some s1" using p t l(1) eq1 True by (simp add: free_fd_def)
    ultimately show ?thesis using st1 by (simp add: fd_inv_def s1_def)
  next
    case False
    then have one: "int (card {q. q \<noteq> p \<and> p_fd s q = Some d}) = 0" using card_others[OF ow p] l by simp
    have "finite {q. q \<noteq> p \<and> p_fd s q = Some d}"
      by (rule finite_subset[OF _ fin]) (auto simp: s1_def)
    then have none: "{q. q \<noteq> p \<and> p_fd s q = Some d} = {}" using one by simp
    have "\<exists>s2. release_control p t1 s1 = Some s2 \<and> st s2 (\<lambda>_. 0) \<and> filedescs s2 = filedescs s1 \<and> p_fd s2 = p_fd s1 \<and> kern s2 = kern s1"
      by (rule release_control_ok[OF st1 t1]) (use grp ow in \<open>fastforce simp: s1_def owners_def\<close>)+
    then obtain s2 where s2: "release_control p t1 s1 = Some s2" "st s2 (\<lambda>_. 0)" "filedescs s2 = filedescs s1" "p_fd s2 = p_fd s1" by blast
    have rc: "release_control p t s1 = Some s2" using s2(1) by (simp add: t1_def release_control_links)
    have nf: "nfiles t = 1024" using tok by (simp add: table_ok_def)
    have t2: "filedescs s2 d = Some t1" using s2(3) t1 by simp
    obtain s3 t3 where s3: "close_slots env p d (\<lambda>_ _. True) [- 5..1023] s2 = Some s3" "st s3 (\<lambda>_. 0)" "filedescs s3 = (filedescs s2)(d \<mapsto> t3)"
      "p_fd s3 = p_fd s2" "\<forall>i \<in> set [- 5..1023]. ofiles t3 i = 0"
      using close_slots_ok[OF dr s2(2) t2, of "[- 5..1023]" p "\<lambda>_ _. True"] by auto
    have t3: "filedescs s3 d = Some t3" using s3(3) by simp
    obtain s4 t4 where s4: "close_searches env d [0..<10] s3 = Some s4" "st s4 (\<lambda>_. 0)" "filedescs s4 = (filedescs s3)(d := Some t4)"
      "p_fd s4 = p_fd s3" "ofiles t4 = ofiles t3" "searches t4 = searches t3"
      using close_searches_ok[OF dr s3(2) t3] by blast
    have t4: "filedescs s4 d = Some t4" using s4(3) by simp
    have "searches t4 = 0" using st_tableD[OF s4(2) t4] by (simp add: table_ok_def)
    then have fr: "free_streams env (searches t4) s4 = Some s4" by (simp add: free_streams.simps)
    define s5 where "s5 = s4\<lparr>filedescs := (filedescs s4)(d := None)\<rparr>"
    have fd5: "filedescs s5 = (filedescs s)(d := None)" using s4(3) s3(3) s2(3) by (simp add: s5_def s1_def)
    have pf5: "p_fd s5 = (p_fd s)(p := None)" using s4(4) s3(4) s2(4) by (simp add: s5_def s1_def)
    have "refs (filedescs s5) v = refs (filedescs s4) v" if "v \<noteq> 0" for v
      using that s3(5) s4(5) t4 by (auto simp: refs_def s5_def split: if_splits)
    then have "st s5 (\<lambda>_. 0)"
      using s4(2) by (auto simp: st_def bal_def nrefs_def s5_def finite_subset[of _ "dom (filedescs s4)"] split: if_splits)
    moreover have "owners s5" unfolding owners_def
    proof (intro conjI allI impI)
      show "finite {q. p_fd s5 q \<noteq> None}" using fin pf5 by (simp add: s1_def)
      show "filedescs s5 e \<noteq> None" if "p_fd s5 q = Some e" for q e
        using that ow none by (auto simp: fd5 pf5 owners_def split: if_splits)
      fix e t' assume e: "filedescs s5 e = Some t'"
      then have e': "e \<noteq> d" "filedescs s e = Some t'" by (auto simp: fd5 split: if_splits)
      have "{q. p_fd s5 q = Some e} = {q. p_fd s q = Some e}" using p e'(1) by (auto simp: pf5)
      then show "fd_links t' = int (card {q. p_fd s5 q = Some e})" "0 < fd_links t'"
        using ownersD[OF ow e'(2)] by simp_all
    qed
    moreover have "free_fd env p s = Some s5"
      using p t l(1) eq1 False rc nf s3(1) s4(1) t4 fr by (simp add: free_fd_def s5_def)
    ultimately show ?thesis by (simp add: fd_inv_def pf5)
  qed
qed

lemma exec_good:
  assumes dr: "drivers_ok env" and inv: "fd_inv s" and p: "p_fd s p = Some d"
  shows "\<exists>s'. close_on_exec env p s = Some s' \<and> fd_inv s'"
proof -
  have s: "st s (\<lambda>_. 0)" and ow: "owners s" using inv by (simp_all add: fd_inv_def)
  obtain t where t: "filedescs s d = Some t" using ow p by (fastforce simp: owners_def)
  have nf: "nfiles t = 1024" using st_tableD[OF s t] by (simp add: table_ok_def)
  obtain s' t' where c: "close_slots env p d (\<lambda>t i. get_ofileflag i t AND FD_CLOEXEC \<noteq> 0) [6..1023] s = Some s'" "st s' (\<lambda>_. 0)"
    "filedescs s' = (filedescs s)(d \<mapsto> t')" "p_fd s' = p_fd s" "fd_links t' = fd_links t"
    using close_slots_ok[OF dr s t, of "[6..1023]" p "\<lambda>t i. get_ofileflag i t AND FD_CLOEXEC \<noteq> 0"] by auto
  have "own_frame s s'" using c t by (simp add: own_frame_def)
  then show ?thesis using c(1,2) p t nf own_frame_owners[OF _ ow] by (simp add: close_on_exec_def fd_inv_def)
qed

section \<open>Sequences of calls\<close>

text \<open>
  The calls of the current process, and the steps of \<open>fork\<close>, \<open>exec\<close> and \<open>exit\<close>. \<open>call_ok\<close> says when the
  kernel's own assumptions hold: counts are far from wrapping around, \<open>fork\<close> makes a new process, and the
  three ways out of the table shown below are not taken.
\<close>

datatype fd_call =
    Fclose int
  | Fdup int
  | Fcntl int int int
  | Fforce int int
  | Fmidipipe int int int
  | Fork bool "nat option" pptr
  | Exec
  | Exit pptr

fun do_fd_call :: "fenv \<Rightarrow> fd_call \<Rightarrow> fstate \<Rightarrow> fstate option" where
  "do_fd_call env (Fclose fd) s = map_option snd (sys_f_close env fd s)"
| "do_fd_call env (Fdup fd) s = map_option snd (sys_f_dup fd s)"
| "do_fd_call env (Fcntl fd arg cmd) s = map_option snd (sys_f_cntl fd arg cmd s)"
| "do_fd_call env (Fforce newfd oldfd) s = map_option snd (sys_f_force env newfd oldfd s)"
| "do_fd_call env (Fmidipipe n inh outh) s = map_option snd (sys_f_midipipe env n inh outh s)"
| "do_fd_call env (Fork share mem p2) s = fork_fd share mem (curproc (kern s)) p2 s"
| "do_fd_call env Exec s = close_on_exec env (curproc (kern s)) s"
| "do_fd_call env (Exit p) s = free_fd env p s"

fun call_guard :: "fd_call \<Rightarrow> fstate \<Rightarrow> bool" where
  "call_guard (Fclose fd) s = True"
| "call_guard (Fdup fd) s = True"
| "call_guard (Fcntl fd arg cmd) s =
    ((cmd = 0 \<or> cmd = 1030 \<longrightarrow> 0 \<le> short_of arg) \<and>
     (cmd = 2 \<longrightarrow> (case fp_get (curproc (kern s)) fd s of Inl e \<Rightarrow> True | Inr (p, i, v) \<Rightarrow> 0 \<le> i)))"
| "call_guard (Fforce newfd oldfd) s =
    (case fp_get (curproc (kern s)) oldfd s of
       Inl e \<Rightarrow> True
     | Inr (p, i, v) \<Rightarrow> newfd \<noteq> i \<and> (newfd < 0 \<longrightarrow>
         (case fd_table s p of None \<Rightarrow> True | Some t \<Rightarrow> i < 1022 \<and> ofiles t 1022 = 0 \<and> ofiles t 1023 = 0)))"
| "call_guard (Fmidipipe n inh outh) s =
    (case (if n = 0 then Some (curproc (kern s)) else pid2proc n (kern s)) of
       None \<Rightarrow> True
     | Some p \<Rightarrow> (case fd_table s p of None \<Rightarrow> False | Some t \<Rightarrow> ofiles t inh \<noteq> 1 \<and> ofiles t outh \<noteq> 1))"
| "call_guard (Fork share mem p2) s =
    (p_fd s p2 = None \<and> (case mem of None \<Rightarrow> True | Some d \<Rightarrow> filedescs s d = None))"
| "call_guard Exec s = True"
| "call_guard (Exit p) s =
    (p_fd s p \<noteq> None \<and> list_all (\<lambda>q. \<not> is_dead (kern s) q \<and> pgrp (procs (kern s) q) = pgrp (procs (kern s) p) \<and> q \<noteq> p \<longrightarrow>
       p_fd s q \<noteq> None) (proclist (kern s)))"

definition call_ok :: "fd_call \<Rightarrow> fstate \<Rightarrow> bool" where
  "call_ok c s \<longleftrightarrow> few_refs s \<and> p_fd s (curproc (kern s)) \<noteq> None \<and> call_guard c s"

lemma fd_table_Some: "fd_table s p = Some t \<longleftrightarrow> (\<exists>d. p_fd s p = Some d \<and> filedescs s d = Some t)"
  by (auto simp: fd_table_def split: option.splits)

lemma goodD: "good x \<Longrightarrow> \<exists>s'. map_option snd x = Some s' \<and> fd_inv s'"
  by (auto simp: good_def)

lemma fd_call_good:
  assumes dr: "drivers_ok env" and inv: "fd_inv s" and ok: "call_ok c s"
  shows "\<exists>s'. do_fd_call env c s = Some s' \<and> fd_inv s'"
proof -
  have few: "few_refs s" and g: "call_guard c s" using ok by (simp_all add: call_ok_def)
  obtain d where d: "p_fd s (curproc (kern s)) = Some d" using ok by (auto simp: call_ok_def)
  then obtain t where t: "filedescs s d = Some t" using inv unfolding fd_inv_def owners_def by blast
  show ?thesis
  proof (cases c)
    case (Fclose fd)
    then show ?thesis using goodD[OF close_good[OF dr inv]] by simp
  next
    case (Fdup fd)
    then show ?thesis using do_dup_ok[OF inv few d t, of 0 fd False] by (auto simp: sys_f_dup_def)
  next
    case (Fcntl fd arg cmd)
    have "\<exists>r s'. sys_f_cntl fd arg cmd s = Some (r, s') \<and> fd_inv s'"
      by (rule cntl_good[OF inv few d]) (use g Fcntl in \<open>auto split: sum.splits\<close>)
    then show ?thesis using Fcntl by auto
  next
    case (Fforce newfd oldfd)
    have "good (sys_f_force env newfd oldfd s)"
      by (rule force_good[OF dr inv few]) (use g Fforce in \<open>auto split: option.splits\<close>)
    then show ?thesis using Fforce goodD by simp
  next
    case (Fmidipipe n inh outh)
    have "good (sys_f_midipipe env n inh outh s)"
      by (rule midipipe_good[OF dr inv few]) (use g Fmidipipe in \<open>auto simp: fd_table_Some split: option.splits\<close>)
    then show ?thesis using Fmidipipe goodD by simp
  next
    case (Fork share mem p2)
    then show ?thesis using g share_good[OF inv d] copy_good[OF inv few d] by (cases share) auto
  next
    case Exec
    then show ?thesis using exec_good[OF dr inv d] by simp
  next
    case (Exit p)
    then obtain e where "p_fd s p = Some e" using g by auto
    from exit_good[OF dr inv this] g Exit show ?thesis by (auto simp: list_all_iff)
  qed
qed

fun run_calls :: "fenv \<Rightarrow> fd_call list \<Rightarrow> fstate \<Rightarrow> fstate option" where
  "run_calls env [] s = Some s"
| "run_calls env (c # cs) s = do { s \<leftarrow> do_fd_call env c s; run_calls env cs s }"

text \<open>Every call of the sequence meets \<open>call_ok\<close> in the state it starts from.\<close>

fun calls_ok :: "fenv \<Rightarrow> fd_call list \<Rightarrow> fstate \<Rightarrow> bool" where
  "calls_ok env [] s = True"
| "calls_ok env (c # cs) s = (call_ok c s \<and> (case do_fd_call env c s of None \<Rightarrow> True | Some s \<Rightarrow> calls_ok env cs s))"

lemma run_calls_good:
  "drivers_ok env \<Longrightarrow> fd_inv s \<Longrightarrow> calls_ok env cs s \<Longrightarrow> \<exists>s'. run_calls env cs s = Some s' \<and> fd_inv s'"
proof (induction cs arbitrary: s)
  case (Cons c cs)
  obtain s1 where "do_fd_call env c s = Some s1" "fd_inv s1"
    using fd_call_good[OF Cons.prems(1,2)] Cons.prems(3) by auto
  then show ?case using Cons.IH[OF Cons.prems(1)] Cons.prems(3) by auto
qed simp

lemma fd_inv_slots:
  assumes "fd_inv s" "fd_table s p = Some t" "- 5 \<le> i" "i < 1024" "ofiles t i \<noteq> 0" "ofiles t i \<noteq> 1"
  shows "files s (ofiles t i) \<noteq> None"
proof -
  have s: "st s (\<lambda>_. 0)" using assms(1) by (simp add: fd_inv_def)
  obtain d where "filedescs s d = Some t" using assms(2) by (auto simp: fd_table_Some)
  then show ?thesis using st_live[OF s assms(5,6)] st_nrefs[OF s _ assms(3,4)] by fastforce
qed

lemma fd_inv_counts:
  assumes "fd_inv s" "files s v = Some f"
  shows "0 < f_links f" "\<not> is_terminal f \<Longrightarrow> f_links f = nrefs (filedescs s) v"
proof -
  have "v \<noteq> 0" "v \<noteq> 1" using assms by (auto simp: fd_inv_def st_def files_ok_def)
  then have "balanced (files s v) (nrefs (filedescs s) v)" using assms(1) by (auto simp: fd_inv_def st_def bal_def)
  then show "0 < f_links f" "\<not> is_terminal f \<Longrightarrow> f_links f = nrefs (filedescs s) v"
    using assms(2) by (auto simp: balanced_def)
qed

text \<open>
  C36: Reference counts of open files. A sequence of calls that close, duplicate and redirect handles, of
  \<open>fork\<close>, \<open>exec\<close> and \<open>exit\<close>, returns without using freed memory; afterwards every handle in use refers to an
  open file, and the count of every open file is the number of handles that refer to it in all tables
  (for terminals, which may be hanging up, only that it is positive). The conditions: no directory stream
  is open (\<open>fd_inv\<close>), the drivers leave the tables alone (\<open>drivers_ok\<close>), and no call is one of those that do escape
  from the table or from the kernel's own assumptions (\<open>calls_ok\<close>): \<open>Fforce\<close> of a handle onto itself, \<open>Fforce\<close> of a
  negative handle with the last handles in use, \<open>F_DUPFD\<close> with a negative minimum, \<open>F_SETFD\<close> on a negative
  handle, \<open>Fmidipipe\<close> with a handle that is just being opened, a process without a table that calls, exits or
  forks onto one that has a table, or a count of 31000 and more, which may soon wrap around.
\<close>

theorem fd_calls_keep_references:
  assumes "drivers_ok env" "fd_inv s" "calls_ok env cs s"
  shows "\<exists>s'. run_calls env cs s = Some s' \<and> fd_inv s' \<and>
    (\<forall>p t i. fd_table s' p = Some t \<and> - 5 \<le> i \<and> i < 1024 \<and> ofiles t i \<noteq> 0 \<and> ofiles t i \<noteq> 1 \<longrightarrow> files s' (ofiles t i) \<noteq> None) \<and>
    (\<forall>v f. files s' v = Some f \<longrightarrow> 0 < f_links f \<and> (\<not> is_terminal f \<longrightarrow> f_links f = nrefs (filedescs s') v))"
proof -
  obtain s' where s': "run_calls env cs s = Some s'" "fd_inv s'" using run_calls_good[OF assms] by blast
  then show ?thesis using fd_inv_slots[OF s'(2)] fd_inv_counts[OF s'(2)] by blast
qed

section \<open>Duplicating and closing\<close>

lemma dup_close:
  assumes dr: "drivers_ok env" and inv: "fd_inv s" and few: "few_refs s"
    and t: "p_fd s (curproc (kern s)) = Some d" "filedescs s d = Some t"
    and r: "dup_result fd 0 False d t s n s1" and inv1: "fd_inv s1"
  shows "\<exists>r s2. sys_f_close env n s1 = Some (r, s2) \<and> files s2 = files s \<and> p_fd s2 = p_fd s \<and>
    filedescs s2 = (filedescs s)(d \<mapsto> set_ofileflag n 0 t)"
proof -
  obtain p i v f where n: "0 \<le> n" "n < 1024" "ofiles t n = 0" and x: "fp_get (curproc (kern s)) fd s = Inr (p, i, v)" "files s v = Some f"
    and s1: "s1 = s\<lparr>filedescs := (filedescs s)(d \<mapsto> set_ofileflag n 0 (set_slot n v t)), files := (files s)(v \<mapsto> add_link f)\<rparr>"
    using r by (auto simp: dup_result_def)
  have v: "v \<noteq> 0" "v \<noteq> 1" using fp_get_Inr[OF x(1)] by blast+
  define t1 where "t1 = set_ofileflag n 0 (set_slot n v t)"
  have s: "st s (\<lambda>_. 0)" and S1: "st s1 (\<lambda>_. 0)" using inv inv1 by (simp_all add: fd_inv_def)
  have nf: "nfiles t = 1024" "searches t = 0" using st_tableD[OF s t(2)] by (simp_all add: table_ok_def)
  have T1: "p_fd s1 (curproc (kern s1)) = Some d" "filedescs s1 d = Some t1" "ofiles t1 n = v" "nfiles t1 = 1024" "searches t1 = 0"
    using t n nf by (simp_all add: s1 t1_def)
  have g: "fp_get (curproc (kern s1)) n s1 = Inr (curproc (kern s1), n, v)"
    using T1 n v by (simp add: fp_get_def fp_get1_def fd_table_def)
  have f: "0 < f_links f" "f_links f < 31000" using fd_inv_counts(1)[OF inv x(2)] few x(2) by (auto simp: few_refs_def)
  then have l1: "f_links (add_link f) = f_links f + 1" by (simp add: add_link_def short_of_id)
  have f1: "files s1 v = Some (add_link f)" by (simp add: s1)
  have "is_terminal (add_link f) \<longrightarrow> f_dev (add_link f) \<noteq> 0" using S1 f1 unfolding st_def files_ok_def by blast
  then obtain r s2 g' where c: "do_close env (curproc (kern s1)) v s1 = Some (r, s2)" "moved s1 ((files s1)(v := g')) s2" "closed_file (add_link f) g'"
    using do_close_effect[OF dr _ v f1, of "curproc (kern s1)"] S1 f l1 by (auto simp: st_def)
  have "g' = Some f" using c(3) f l1 by (simp add: closed_file_def) (simp add: add_link_def short_of_id)
  then have files2: "files s2 = files s" using c(2) x(2) by (simp add: moved_def s1 fun_upd_idem)
  have T2: "filedescs s2 d = Some t1" "p_fd s2 (curproc (kern s1)) = Some d" using c(2) T1 by (simp_all add: moved_def)
  have "set_slot n 0 t1 = set_ofileflag n 0 t"
    using n by (cases t) (auto simp: t1_def set_ofileflag_def set_slot_def fun_upd_idem)
  then have "filedescs (s2\<lparr>filedescs := (filedescs s2)(d \<mapsto> set_slot n 0 t1)\<rparr>) = (filedescs s)(d \<mapsto> set_ofileflag n 0 t)"
    using c(2) by (simp add: moved_def s1)
  moreover have "sys_f_close env n s1 = Some (r, s2\<lparr>filedescs := (filedescs s2)(d \<mapsto> set_slot n 0 t1)\<rparr>)"
    using g n(1) close_streams_none[OF T1(1,2,5)] c(1) upd_table_eq[OF T2(2,1), of "set_slot n 0"]
    by (simp add: sys_f_close_def fd_remove_def)
  ultimately show ?thesis using files2 c(2) by (auto simp: moved_def s1)
qed

text \<open>
  \<open>Fdup\<close> returns the lowest free handle, which refers to the same open file as the given handle; closing
  the new handle gives back the state from before: the same open files with the same counts and all
  handles of all processes as they were. An unsuccessful \<open>Fdup\<close> changes nothing.
\<close>

theorem dup_then_close:
  assumes "drivers_ok env" "fd_inv s" "few_refs s" "fd_table s (curproc (kern s)) = Some t"
  shows "\<exists>n s1. sys_f_dup fd s = Some (n, s1) \<and>
    (n < 0 \<longrightarrow> s1 = s) \<and>
    (0 \<le> n \<longrightarrow> ofiles t n = 0 \<and> (\<forall>j. 0 \<le> j \<and> j < n \<longrightarrow> ofiles t j \<noteq> 0) \<and>
       (\<exists>p i q v. fp_get (curproc (kern s)) fd s = Inr (p, i, v) \<and> fp_get (curproc (kern s1)) n s1 = Inr (q, n, v)) \<and>
       (\<exists>r s2. sys_f_close env n s1 = Some (r, s2) \<and> files s2 = files s \<and>
          (\<forall>p. map_option ofiles (fd_table s2 p) = map_option ofiles (fd_table s p))))"
proof -
  obtain d where t: "p_fd s (curproc (kern s)) = Some d" "filedescs s d = Some t" using assms(4) by (auto simp: fd_table_Some)
  obtain n s1 where r: "sys_f_dup fd s = Some (n, s1)" "fd_inv s1" "n < 0 \<and> s1 = s \<or> dup_result fd 0 False d t s n s1"
    using do_dup_ok[OF assms(2,3) t, of 0 fd False] by (auto simp: sys_f_dup_def)
  show ?thesis
  proof (cases "dup_result fd 0 False d t s n s1")
    case False
    then show ?thesis using r by auto
  next
    case True
    obtain p i v f where n: "0 \<le> n" "n < 1024" "ofiles t n = 0" "\<forall>j. 0 \<le> j \<and> j < n \<longrightarrow> ofiles t j \<noteq> 0"
      and x: "fp_get (curproc (kern s)) fd s = Inr (p, i, v)"
      and s1: "s1 = s\<lparr>filedescs := (filedescs s)(d \<mapsto> set_ofileflag n 0 (set_slot n v t)), files := (files s)(v \<mapsto> add_link f)\<rparr>"
      using True by (auto simp: dup_result_def)
    have v: "v \<noteq> 0" "v \<noteq> 1" using fp_get_Inr[OF x] by blast+
    have nf: "nfiles t = 1024" using st_tableD[of s] t(2) assms(2) by (auto simp: fd_inv_def table_ok_def)
    have g: "fp_get (curproc (kern s1)) n s1 = Inr (curproc (kern s1), n, v)"
      using t n v nf by (simp add: fp_get_def fp_get1_def fd_table_def s1)
    obtain r2 s2 where s2: "sys_f_close env n s1 = Some (r2, s2)" "files s2 = files s" "p_fd s2 = p_fd s"
      "filedescs s2 = (filedescs s)(d \<mapsto> set_ofileflag n 0 t)"
      using dup_close[OF assms(1-3) t True r(2)] by blast
    have "map_option ofiles (fd_table s2 p) = map_option ofiles (fd_table s p)" for p
      using s2(3,4) t n(1) by (auto simp: fd_table_def split: option.split)
    then show ?thesis using r(1) n g x s2(1,2) by auto
  qed
qed

section \<open>Ways out of the table\<close>

text \<open>
  C37: Three calls on descriptors escape from the table. \<open>Fforce\<close> of a handle onto itself closes the file, frees
  it when this was the only handle, and then uses the freed structure. \<open>Fcntl\<close> with \<open>F_DUPFD\<close> and a
  minimum below -5 reads in front of the table. \<open>Fcntl\<close> with \<open>F_SETFD\<close> on the control terminal, handle -1,
  overwrites a byte of the pointer of handle 1023, which then counts as an open file at an address of
  the caller's choice.
\<close>

theorem descriptor_calls_escape:
  "(drivers_ok env \<and> fd_inv s \<and> fp_get (curproc (kern s)) h s = Inr (p, h, v) \<and> files s v = Some f \<and> f_links f = 1 \<and> \<not> is_terminal f \<longrightarrow>
      sys_f_force env h h s = None) \<and>
   (fd_inv s \<and> fd_table s (curproc (kern s)) \<noteq> None \<and> short_of arg < - 5 \<longrightarrow> sys_f_cntl fd arg 0 s = None) \<and>
   (fd_inv s \<and> fp_get (curproc (kern s)) (- 1) s = Inr (p, - 1, v) \<and> fd_table s p = Some t \<and> ofiles t 1023 = 0 \<and> 1 < b \<and> b < 256 \<longrightarrow>
      (\<exists>s'. sys_f_cntl (- 1) b 2 s = Some (Some E_OK, s') \<and> fp_get p 1023 s' = Inr (p, 1023, word_of_int b)))"
proof (intro conjI impI)
  assume a: "drivers_ok env \<and> fd_inv s \<and> fp_get (curproc (kern s)) h s = Inr (p, h, v) \<and> files s v = Some f \<and> f_links f = 1 \<and> \<not> is_terminal f"
  then obtain d t where t: "p_fd s p = Some d" "filedescs s d = Some t" "- 5 \<le> h" "h < nfiles t" "ofiles t h = v" "v \<noteq> 0" "v \<noteq> 1"
    using fp_get_Inr by metis
  have dr: "drivers_ok env" and k: "kern_ok (kern s)" using a by (simp_all add: fd_inv_def st_def)
  obtain r s1 g where c: "do_close env p v s = Some (r, s1)" "moved s ((files s)(v := g)) s1" "closed_file f g"
    using do_close_effect[OF dr k t(6,7), of f p] a by auto
  have "g = None" using c(3) a by (simp add: closed_file_def)
  then have f1: "files s1 v = None" using c(2) by (simp add: moved_def)
  have T1: "p_fd s1 p = Some d" "filedescs s1 d = Some t" using c(2) t by (simp_all add: moved_def)
  show "sys_f_force env h h s = None"
    using a t c(1) f1 upd_table_eq[OF T1, of "set_ofileflag h 0 \<circ> set_slot h v"]
    by (simp add: sys_f_force_def fd_table_def upd_file_def)
next
  assume a: "fd_inv s \<and> fd_table s (curproc (kern s)) \<noteq> None \<and> short_of arg < - 5"
  then obtain t where t: "fd_table s (curproc (kern s)) = Some t" by blast
  then have "nfiles t = 1024" using a by (auto simp: fd_table_Some fd_inv_def st_def table_ok_def)
  then have "fd_scan t (short_of arg) = None" using a by (subst fd_scan.simps) simp
  then show "sys_f_cntl fd arg 0 s = None" using t by (simp add: sys_f_cntl_def do_dup_def fd_alloc_def Let_def)
next
  assume a: "fd_inv s \<and> fp_get (curproc (kern s)) (- 1) s = Inr (p, - 1, v) \<and> fd_table s p = Some t \<and> ofiles t 1023 = 0 \<and> 1 < b \<and> b < 256"
  then obtain d where t: "p_fd s p = Some d" "filedescs s d = Some t" by (auto simp: fd_table_Some)
  have nf: "nfiles t = 1024" using a t(2) by (auto simp: fd_inv_def st_def table_ok_def)
  let ?t = "set_ofileflag (- 1) (word_of_int b) t"
  let ?s = "s\<lparr>filedescs := (filedescs s)(d \<mapsto> ?t)\<rparr>"
  have "ofiles ?t 1023 = ucast (word_of_int b :: u8)"
    using a by (simp add: set_ofileflag_def flag_slot_def flag_shift_def)
  also have "\<dots> = word_of_int b"
    using a by (simp add: unsigned_of_int take_bit_int_eq_self)
  finally have o: "ofiles ?t 1023 = word_of_int b" .
  have "uint (word_of_int b :: u32) = b" using a by (simp add: unsigned_of_int take_bit_int_eq_self)
  then have nz: "(word_of_int b :: u32) \<noteq> 0" "(word_of_int b :: u32) \<noteq> 1" using a by auto
  have "fp_get p 1023 ?s = Inr (p, 1023, word_of_int b)"
    using t nf o nz by (simp add: fp_get_def fp_get1_def fd_table_def)
  moreover have "sys_f_cntl (- 1) b 2 s = Some (Some E_OK, ?s)"
    using a upd_table_eq[OF t, of "set_ofileflag (- 1) (word_of_int b)"] by (simp add: sys_f_cntl_def)
  ultimately show "\<exists>s'. sys_f_cntl (- 1) b 2 s = Some (Some E_OK, s') \<and> fp_get p 1023 s' = Inr (p, 1023, word_of_int b)" by blast
qed

section \<open>An example\<close>

text \<open>One process with an open file at handle 6 and a null driver.\<close>

definition null_fenv :: fenv where
  "null_fenv = \<lparr>e_unselect = (\<lambda>_ _ _ s. s), e_ioctl = (\<lambda>_ _ _ s. (0, 0, s)), e_tty_ioctl = (\<lambda>_ _ s. s),
     e_dev_close = (\<lambda>_ _ s. (0, s)), e_xdd_close = (\<lambda>_ _ s. (0, s)), e_release_cookie = (\<lambda>_ s. s),
     e_xfs_closedir = (\<lambda>_ s. (0, s)), e_select_coll = 9, e_hangup_b1 = 1, e_hangup_done = 2, e_mem = (\<lambda>_. None)\<rparr>"

definition demo_table :: filedesc where
  "demo_table = \<lparr>ofiles = (\<lambda>_. 0)(6 := 16), ofileflags = (\<lambda>_. 0), nfiles = 1024, fd_links = 1, searches = 0,
     srchdta = (\<lambda>_. 0), srchdir = (\<lambda>_. zero_dir)\<rparr>"

definition demo_fds :: fstate where
  "demo_fds = \<lparr>kern = demo_kernel, p_fd = [0 \<mapsto> 7], filedescs = [7 \<mapsto> demo_table],
     files = [16 \<mapsto> zero_file\<lparr>f_links := 1, f_dev := 5\<rparr>],
     ttys = (\<lambda>_. \<lparr>tty_pgrp = 0, tty_state = 0, use_cnt = 0, aux_cnt = 0, xkey = 0, hup_ospeed = 0,
       sg_flags = 0, tty_rsel = None, tty_wsel = None, vmin = 0, vtime = 0\<rparr>), dirs = (\<lambda>_. None)\<rparr>"

lemma null_drivers: "drivers_ok null_fenv"
  by (simp add: drivers_ok_def null_fenv_def same_fds_def fresh_mem_def)

lemma demo_kern_ok: "kern_ok demo_kernel"
proof -
  have "queues_ok demo_kernel" using demo_queues_rep demo_queues_known by (auto simp: queues_ok_def)
  moreover have "timeouts_ok demo_kernel"
    by (simp add: timeouts_ok_def delta_ok_def slots_ok_def linked_def demo_kernel_def init_proc_def)
  ultimately show ?thesis by (simp add: kern_ok_def)
qed

lemma demo_fds_inv: "fd_inv demo_fds"
proof -
  have r: "refs (filedescs demo_fds) v = (if v = 16 then {(7, 6)} else {})" if "v \<noteq> 0" for v
    using that by (auto simp: refs_def demo_fds_def demo_table_def split: if_splits)
  have "bal (filedescs demo_fds) (files demo_fds) (\<lambda>_. 0)"
    unfolding bal_def nrefs_def
    by (auto simp: r balanced_def) (auto simp: demo_fds_def zero_file_def split: if_splits)
  moreover have "files_ok (files demo_fds)"
    by (auto simp: files_ok_def demo_fds_def zero_file_def split: if_splits)
  moreover have "table_ok demo_table" by (simp add: table_ok_def demo_table_def)
  moreover have "kern_ok (kern demo_fds)" using demo_kern_ok by (simp add: demo_fds_def)
  ultimately have "st demo_fds (\<lambda>_. 0)" by (auto simp: st_def demo_fds_def split: if_splits)
  moreover have "{p. p_fd demo_fds p = Some 7} = {0}" "{p. p_fd demo_fds p \<noteq> None} = {0}"
    by (auto simp: demo_fds_def split: if_splits)
  then have "owners demo_fds" by (auto simp: owners_def demo_fds_def demo_table_def split: if_splits)
  ultimately show ?thesis by (simp add: fd_inv_def)
qed

lemma demo_fds_simps:
  "curproc (kern demo_fds) = 0" "fd_table demo_fds 0 = Some demo_table" "few_refs demo_fds"
  by (auto simp: demo_fds_def fd_table_def few_refs_def zero_file_def split: if_splits)

lemma demo_calls_ok: "calls_ok null_fenv [Fdup 6, Fclose 6] demo_fds"
proof -
  have d: "p_fd demo_fds (curproc (kern demo_fds)) = Some 7" "filedescs demo_fds 7 = Some demo_table"
    using demo_fds_simps(1) by (simp_all add: demo_fds_def)
  obtain r s1 where r: "do_dup 6 0 False demo_fds = Some (r, s1)" "s1 = demo_fds \<or> dup_result 6 0 False 7 demo_table demo_fds r s1"
    using do_dup_ok[OF demo_fds_inv demo_fds_simps(3) d, of 0 6 False] by auto
  have "few_refs s1 \<and> p_fd s1 = p_fd demo_fds \<and> kern s1 = kern demo_fds"
    using r(2)
  proof
    assume "dup_result 6 0 False 7 demo_table demo_fds r s1"
    then obtain v f t where s1: "files demo_fds v = Some f"
      "s1 = demo_fds\<lparr>filedescs := (filedescs demo_fds)(7 \<mapsto> t), files := (files demo_fds)(v \<mapsto> add_link f)\<rparr>"
      by (auto simp: dup_result_def)
    then have "f_links (add_link f) = 2"
      by (auto simp: demo_fds_def add_link_def zero_file_def short_of_def signed_take_bit_int_eq_self split: if_splits)
    then show ?thesis using demo_fds_simps(3) by (auto simp: s1(2) few_refs_def)
  qed (simp add: demo_fds_simps(3))
  then show ?thesis using r(1) d(1) demo_fds_simps(3) by (simp add: call_ok_def sys_f_dup_def split: option.split)
qed

theorem fd_calls_keep_references_witness:
  "\<exists>s'. run_calls null_fenv [Fdup 6, Fclose 6] demo_fds = Some s' \<and> fd_inv s'"
  using fd_calls_keep_references[OF null_drivers demo_fds_inv demo_calls_ok] by blast

theorem dup_then_close_witness:
  "\<exists>n s1. sys_f_dup 6 demo_fds = Some (n, s1) \<and> n < 1024 \<and>
     (0 \<le> n \<longrightarrow> (\<exists>r s2. sys_f_close null_fenv n s1 = Some (r, s2) \<and> files s2 = files demo_fds))"
proof -
  from dup_then_close[OF null_drivers demo_fds_inv demo_fds_simps(3), of demo_table 6]
  obtain n s1 where r: "sys_f_dup 6 demo_fds = Some (n, s1)"
    "0 \<le> n \<longrightarrow> (\<forall>j. 0 \<le> j \<and> j < n \<longrightarrow> ofiles demo_table j \<noteq> 0) \<and> (\<exists>r s2. sys_f_close null_fenv n s1 = Some (r, s2) \<and> files s2 = files demo_fds)"
    by (auto simp: demo_fds_simps)
  have "ofiles demo_table 0 = 0" by (simp add: demo_table_def)
  then have "n < 1024" using r(2) by force
  then show ?thesis using r by blast
qed

theorem descriptor_calls_escape_witness:
  "sys_f_force null_fenv 6 6 demo_fds = None \<and> sys_f_cntl 6 (- 100) 0 demo_fds = None"
proof -
  have 1: "fp_get (curproc (kern demo_fds)) 6 demo_fds = Inr (0, 6, 16)"
    by (simp add: demo_fds_simps fp_get_def fp_get1_def demo_table_def)
  have 2: "files demo_fds 16 = Some (zero_file\<lparr>f_links := 1, f_dev := 5\<rparr>)" by (simp add: demo_fds_def)
  have 3: "short_of (- 100) < - 5" by (simp add: short_of_id)
  show ?thesis
    using descriptor_calls_escape[of null_fenv demo_fds 6 0 16 "zero_file\<lparr>f_links := 1, f_dev := 5\<rparr>" "- 100"] 1 2 3
      null_drivers demo_fds_inv demo_fds_simps
    by (simp add: zero_file_def is_terminal_def)
qed

end
