(* ===== verification/Fs_Access.thy ===== *)
theory Fs_Access
  imports Filedesc Libkern_Str
begin

text \<open>
  Access control and file names of \<open>sys/filesys.c\<close>: sharing modes (\<open>denyshare\<close>), permission bits
  (\<open>denyaccess\<close>, \<open>dir_access\<close>), record locks (\<open>denylock\<close>), and the 8.3 patterns of \<open>Fsfirst\<close> (\<open>has_wild\<close>,
  \<open>copy8_3\<close>, \<open>pat_match\<close>). File systems use the first three when they open, search and lock files.

  A C string is the list of the bytes from its address on; \<open>None\<close> is a read past the end of that list,
  or the use of a null pointer or of memory that is not allocated. \<open>xfs_getxattr\<close> is an argument.
\<close>

section \<open>Sharing modes\<close>

abbreviation (input) O_EXEC :: u16 where "O_EXEC \<equiv> 3"
abbreviation (input) O_COMPAT :: u16 where "O_COMPAT \<equiv> 0x00"
abbreviation (input) O_DENYRW :: u16 where "O_DENYRW \<equiv> 0x10"
abbreviation (input) O_DENYW :: u16 where "O_DENYW \<equiv> 0x20"
abbreviation (input) O_DENYR :: u16 where "O_DENYR \<equiv> 0x30"
abbreviation (input) O_DENYNONE :: u16 where "O_DENYNONE \<equiv> 0x40"

definition read_mode :: "fileptr \<Rightarrow> u16" where
  "read_mode f = (let rm = f_flags f AND O_RWMODE in if rm = O_EXEC then O_RDONLY else rm)"

definition share_mode :: "fileptr \<Rightarrow> u16" where
  "share_mode f = f_flags f AND O_SHMODE"

text \<open>The four tests on the sharing modes, and the test that asks who owns the old file.\<close>

definition modes_clash :: "u16 \<Rightarrow> u16 \<Rightarrow> u16 \<Rightarrow> u16 \<Rightarrow> bool" where
  "modes_clash newrm newsm oldrm oldsm \<longleftrightarrow>
    ((oldsm = O_DENYW \<or> oldsm = O_DENYRW) \<and> newrm \<noteq> O_RDONLY) \<or>
    ((oldsm = O_DENYR \<or> oldsm = O_DENYRW) \<and> newrm \<noteq> O_WRONLY) \<or>
    ((newsm = O_DENYW \<or> newsm = O_DENYRW) \<and> oldrm \<noteq> O_RDONLY) \<or>
    ((newsm = O_DENYR \<or> newsm = O_DENYRW) \<and> oldrm \<noteq> O_WRONLY)"

definition compat_clash :: "u16 \<Rightarrow> u16 \<Rightarrow> u16 \<Rightarrow> u16 \<Rightarrow> bool" where
  "compat_clash newrm newsm oldrm oldsm \<longleftrightarrow>
    (newsm = O_COMPAT \<and> newrm \<noteq> O_RDONLY \<and> oldrm \<noteq> O_RDONLY) \<or> (oldsm = O_COMPAT \<and> newrm \<noteq> O_RDONLY)"

text \<open>The handles of a table from \<open>MIN_HANDLE\<close> on.\<close>

definition has_open :: "filedesc \<Rightarrow> faddr \<Rightarrow> bool" where
  "has_open fd v \<longleftrightarrow> list_ex (\<lambda>i. ofiles fd i = v) [MIN_HANDLE..nfiles fd - 1]"

fun denyshare :: "faddr list \<Rightarrow> fileptr \<Rightarrow> fstate \<Rightarrow> bool option" where
  "denyshare [] f s = Some False"
| "denyshare (v # vs) f s =
    do { old \<leftarrow> files s v;
         let newrm = read_mode f;
         let newsm = share_mode f;
         let oldrm = read_mode old;
         let oldsm = share_mode old;
         if modes_clash newrm newsm oldrm oldsm then Some True
         else if compat_clash newrm newsm oldrm oldsm then
           do { fd \<leftarrow> fd_table s (curproc (kern s)); if has_open fd v then denyshare vs f s else Some True }
         else denyshare vs f s }"

section \<open>Permissions\<close>

record xattr =
  x_mode :: u16
  x_uid :: u16
  x_gid :: u16

abbreviation (input) S_IFMT :: u16 where "S_IFMT \<equiv> 0xf000"
abbreviation (input) S_IFDIR :: u16 where "S_IFDIR \<equiv> 0x4000"

definition denyaccess :: "ucred \<Rightarrow> xattr \<Rightarrow> u16 \<Rightarrow> bool" where
  "denyaccess cred x perm =
    (if euid cred = 0 then False
     else
      (let mode = x_mode x;
           perm = (if euid cred = x_uid x then push_bit 6 perm
                   else if egid cred = x_gid x then push_bit 3 perm
                   else if groupmember cred (x_gid x) then push_bit 3 perm else perm)
       in mode AND perm \<noteq> perm))"

text \<open>\<open>xfs_getxattr\<close> gives an error or the attributes; the mode is returned.\<close>

definition dir_access :: "(fcookie \<Rightarrow> int \<times> xattr) \<Rightarrow> ucred \<Rightarrow> fcookie \<Rightarrow> u16 \<Rightarrow> int + u16" where
  "dir_access getxattr cred dir perm =
    (case getxattr dir of (r, x) \<Rightarrow>
       if r \<noteq> 0 then Inl r
       else if x_mode x AND S_IFMT \<noteq> S_IFDIR then Inl ENOTDIR
       else if denyaccess cred x perm then Inl EACCES
       else Inr (x_mode x))"

section \<open>Record locks\<close>

abbreviation (input) F_WRLCK :: u16 where "F_WRLCK \<equiv> 1"
abbreviation (input) F_UNLCK :: u16 where "F_UNLCK \<equiv> 3"

record flock =
  l_type :: u16
  l_start :: u32
  l_len :: u32
  l_pid :: u16

definition lock_end :: "flock \<Rightarrow> u32" where
  "lock_end l = (if l_len l = 0 then 0xffffffff else l_start l + l_len l - 1)"

definition conflicts :: "u16 \<Rightarrow> flock \<Rightarrow> flock \<Rightarrow> bool" where
  "conflicts who lck t \<longleftrightarrow>
    (let lstart = l_start lck; lend = lock_end lck; tstart = l_start t; tend = lock_end t;
         differ = l_pid t \<noteq> who \<and> (l_type lck = F_WRLCK \<or> l_type t = F_WRLCK)
     in (tstart \<le> lstart \<and> tend \<ge> lstart \<and> differ) \<or> (lstart \<le> tstart \<and> lend \<ge> tstart \<and> differ))"

definition denylock :: "u16 \<Rightarrow> flock list \<Rightarrow> flock \<Rightarrow> flock option" where
  "denylock who ls lck = List.find (conflicts who lck) ls"

section \<open>Names\<close>

fun has_wild :: "u8 list \<Rightarrow> bool option" where
  "has_wild [] = None"
| "has_wild (c # name) = (if c = 0 then Some False else if c = 42 \<or> c = 63 then Some True else has_wild name)"

definition upper8 :: "u8 \<Rightarrow> u8" where
  "upper8 c = ucast (mint_toupper (ucast c AND 0xff))"

text \<open>
  One field of at most \<open>n\<close> characters, padded: the characters written, the last character read and the
  rest of the source.
\<close>

fun copy_field :: "nat \<Rightarrow> u8 \<Rightarrow> u8 \<Rightarrow> u8 list \<Rightarrow> (u8 list \<times> u8 \<times> u8 list) option" where
  "copy_field 0 fill c src = Some ([], c, src)"
| "copy_field (Suc n) fill c [] = None"
| "copy_field (Suc n) fill c (x # src) =
    (if x = 0 \<or> x = 46 then Some (replicate (Suc n) fill, x, src)
     else
      (let y = (if x = 42 then 63 else x); fill = (if x = 42 then 63 else fill)
       in case copy_field n fill y src of
            None \<Rightarrow> None
          | Some (dest, c, src) \<Rightarrow> Some (upper8 y # dest, c, src)))"

fun skip_to_dot :: "u8 \<Rightarrow> u8 list \<Rightarrow> (u8 \<times> u8 list) option" where
  "skip_to_dot c [] = (if c = 0 \<or> c = 46 then Some (c, []) else None)"
| "skip_to_dot c (x # src) = (if c = 0 \<or> c = 46 then Some (c, x # src) else skip_to_dot x src)"

fun starts :: "u8 list \<Rightarrow> u8 list \<Rightarrow> bool option" where
  "starts [] s = Some True"
| "starts (p # ps) [] = None"
| "starts (p # ps) (x # s) = (if x = p then starts ps s else Some False)"

definition copy8_3 :: "u8 list \<Rightarrow> u8 list option" where
  "copy8_3 src =
    do { dot \<leftarrow> starts [46, 0] src;
         if dot then Some ([46] @ replicate 7 32 @ [46] @ replicate 3 32 @ [0])
         else do {
           dots \<leftarrow> starts [46, 46, 0] src;
           if dots then Some ([46, 46] @ replicate 6 32 @ [46] @ replicate 3 32 @ [0])
           else do {
             star \<leftarrow> starts [42, 46, 42, 0] src;
             if star then Some [42, 0]
             else do {
               (base, c, src) \<leftarrow> copy_field 8 32 0 src;
               (c, src) \<leftarrow> skip_to_dot c src;
               ext \<leftarrow> (if c \<noteq> 0 then map_option fst (copy_field 3 32 c src) else Some (replicate 3 32));
               Some (base @ [46] @ ext @ [0]) } } } }"

fun match_tail :: "u8 list \<Rightarrow> u8 list \<Rightarrow> bool option" where
  "match_tail s [] = None"
| "match_tail [] (c # ts) = (if c = 0 then Some True else None)"
| "match_tail (x # s) (c # ts) =
    (if c = 0 then Some True else if c \<noteq> x \<and> c \<noteq> 63 then Some False else match_tail s ts)"

definition pat_match :: "u8 list \<Rightarrow> u8 list \<Rightarrow> bool option" where
  "pat_match name t =
    (case t of [] \<Rightarrow> None
     | c # _ \<Rightarrow> if c = 42 then Some True else do { expname \<leftarrow> copy8_3 name; match_tail expname t })"

definition samefile :: "fcookie \<Rightarrow> fcookie \<Rightarrow> bool" where
  "samefile a b \<longleftrightarrow> fc_fs a = fc_fs b \<and> fc_dev a = fc_dev b \<and> fc_index a = fc_index b"

section \<open>What the checks promise\<close>

text \<open>The bytes a lock covers.\<close>

definition lock_bytes :: "flock \<Rightarrow> nat set" where
  "lock_bytes l = {unat (l_start l)..unat (lock_end l)}"

definition clash :: "u16 \<Rightarrow> flock \<Rightarrow> flock \<Rightarrow> bool" where
  "clash who lck t \<longleftrightarrow> l_pid t \<noteq> who \<and> (l_type lck = F_WRLCK \<or> l_type t = F_WRLCK) \<and> lock_bytes lck \<inter> lock_bytes t \<noteq> {}"

lemma conflicts_clash:
  assumes "l_start lck \<le> lock_end lck" "l_start t \<le> lock_end t"
  shows "conflicts who lck t \<longleftrightarrow> clash who lck t"
proof -
  have "(l_start t \<le> l_start lck \<and> lock_end t \<ge> l_start lck) \<or> (l_start lck \<le> l_start t \<and> lock_end lck \<ge> l_start t)
      \<longleftrightarrow> lock_bytes lck \<inter> lock_bytes t \<noteq> {}"
    using assms by (auto simp: lock_bytes_def word_le_nat_alt)
  then show ?thesis by (auto simp: conflicts_def clash_def Let_def)
qed

text \<open>Two locks that may be held at the same time.\<close>

definition compatible_locks :: "flock \<Rightarrow> flock \<Rightarrow> bool" where
  "compatible_locks a b \<longleftrightarrow>
    l_pid a = l_pid b \<or> (l_type a \<noteq> F_WRLCK \<and> l_type b \<noteq> F_WRLCK) \<or> lock_bytes a \<inter> lock_bytes b = {}"

lemma compatible_locks_sym: "compatible_locks a b \<longleftrightarrow> compatible_locks b a"
  by (auto simp: compatible_locks_def)

text \<open>The lists a file system builds that asks \<open>denylock\<close> before it grants a lock.\<close>

inductive granted :: "flock list \<Rightarrow> bool" where
  granted_none: "granted []"
| granted_lock: "granted ls \<Longrightarrow> l_start l \<le> lock_end l \<Longrightarrow> denylock (l_pid l) ls l = None \<Longrightarrow> granted (l # ls)"
| granted_unlock: "granted ls \<Longrightarrow> granted (remove1 l ls)"

lemma sorted_wrt_remove1: "sorted_wrt R xs \<Longrightarrow> sorted_wrt R (remove1 x xs)"
  by (induction xs) (auto dest: notin_set_remove1)

lemma granted_compatible:
  assumes "granted ls"
  shows "sorted_wrt compatible_locks ls \<and> (\<forall>l \<in> set ls. l_start l \<le> lock_end l)"
  using assms
proof induction
  case (granted_lock ls l)
  then have "\<forall>t \<in> set ls. \<not> clash (l_pid l) l t"
    by (simp add: denylock_def find_None_iff conflicts_clash)
  then show ?case using granted_lock by (auto simp: clash_def compatible_locks_def)
qed (auto simp: sorted_wrt_remove1 dest: notin_set_remove1)

text \<open>What a sharing mode asks of the other open files.\<close>

definition honours :: "fileptr \<Rightarrow> fileptr \<Rightarrow> bool" where
  "honours g f \<longleftrightarrow>
    (share_mode f \<in> {O_DENYW, O_DENYRW} \<longrightarrow> read_mode g = O_RDONLY) \<and>
    (share_mode f \<in> {O_DENYR, O_DENYRW} \<longrightarrow> read_mode g = O_WRONLY)"

lemma modes_clash_honours:
  "\<not> modes_clash (read_mode f) (share_mode f) (read_mode g) (share_mode g) \<longleftrightarrow> honours f g \<and> honours g f"
  by (auto simp: modes_clash_def honours_def)

lemma denyshare_Cons:
  assumes "denyshare (v # vs) f s = Some False"
  shows "\<exists>g. files s v = Some g \<and> honours f g \<and> honours g f" "denyshare vs f s = Some False"
  using assms by (auto simp: modes_clash_honours[symmetric] Let_def split: bind_splits if_splits)

lemma denyshare_False:
  assumes "denyshare vs f s = Some False" "w \<in> set vs"
  shows "\<exists>g. files s w = Some g \<and> honours f g \<and> honours g f"
  using assms
proof (induction vs)
  case (Cons v vs)
  show ?case using denyshare_Cons[OF Cons(2)] Cons(1,3) by auto
qed simp

text \<open>The lists of open files a file system builds that asks \<open>denyshare\<close> before it opens a file.\<close>

inductive opened :: "(faddr \<Rightarrow> fileptr option) \<Rightarrow> faddr list \<Rightarrow> bool" for fs where
  opened_none: "opened fs []"
| opened_open: "opened fs vs \<Longrightarrow> files s = fs \<Longrightarrow> fs v = Some f \<Longrightarrow> denyshare vs f s = Some False \<Longrightarrow> opened fs (v # vs)"
| opened_close: "opened fs vs \<Longrightarrow> opened fs (remove1 v vs)"

definition share_ok :: "(faddr \<Rightarrow> fileptr option) \<Rightarrow> faddr \<Rightarrow> faddr \<Rightarrow> bool" where
  "share_ok fs v w \<longleftrightarrow> (\<exists>f g. fs v = Some f \<and> fs w = Some g \<and> honours f g \<and> honours g f)"

lemma opened_share_ok: "opened fs vs \<Longrightarrow> sorted_wrt (share_ok fs) vs"
proof (induction rule: opened.induct)
  case (opened_open vs s v f)
  then show ?case by (auto simp: share_ok_def dest: denyshare_False)
qed (auto simp: sorted_wrt_remove1)

section \<open>Patterns\<close>

lemma upper8_eq: "upper8 c = (if islower c then c XOR 0x20 else c)"
proof -
  have m: "(ucast c :: u16) AND 0xff = ucast c"
  proof -
    have e: "(0xff :: u16) = mask 8" by (simp add: mask_eq_exp_minus_1)
    show ?thesis unfolding e by (rule bit_word_eqI) (auto simp: bit_simps dest: bit_imp_le_length)
  qed
  have x: "ucast ((ucast c :: u16) XOR 0x20) = c XOR 0x20"
    by (rule bit_word_eqI) (auto simp: bit_simps)
  have u: "ucast (ucast c :: u16) = c" by (rule bit_word_eqI) (auto simp: bit_simps)
  show ?thesis unfolding upper8_def mint_toupper_def m by (simp add: x u)
qed

lemma upper8_range: "c \<noteq> 0 \<Longrightarrow> c \<noteq> 42 \<Longrightarrow> upper8 c \<notin> {0, 42}"
proof -
  have "c XOR 0x20 \<noteq> 0 \<and> c XOR 0x20 \<noteq> 42" if "islower c"
  proof -
    have "c = (c XOR 0x20) XOR 0x20" by (simp add: xor.assoc)
    then have "c XOR 0x20 = 0 \<or> c XOR 0x20 = 42 \<Longrightarrow> c = 0x20 \<or> c = 10" by auto
    moreover have "97 \<le> c" using that by (simp add: islower_iff)
    ultimately show ?thesis by auto
  qed
  then show "c \<noteq> 0 \<Longrightarrow> c \<noteq> 42 \<Longrightarrow> upper8 c \<notin> {0, 42}" by (auto simp: upper8_eq)
qed

lemma copy_field_total:
  assumes "0 \<notin> set xs" "fill \<notin> {0, 42}" "n = 0 \<longrightarrow> c \<noteq> 0"
  shows "\<exists>dest c' src. copy_field n fill c (xs @ 0 # r) = Some (dest, c', src) \<and> length dest = n \<and> set dest \<inter> {0, 42} = {} \<and>
    (c' = 0 \<or> (\<exists>ys. src = ys @ 0 # r \<and> 0 \<notin> set ys))"
  using assms
proof (induction n arbitrary: xs fill c)
  case (Suc n)
  show ?case
  proof (cases xs)
    case Nil
    then show ?thesis using Suc.prems by simp
  next
    case (Cons a ys)
    have "\<exists>dest c' src. copy_field n (if a = 42 then 63 else fill) (if a = 42 then 63 else a) (ys @ 0 # r) = Some (dest, c', src) \<and>
        length dest = n \<and> set dest \<inter> {0, 42} = {} \<and> (c' = 0 \<or> (\<exists>zs. src = zs @ 0 # r \<and> 0 \<notin> set zs))"
      by (rule Suc.IH) (use Suc.prems Cons in auto)
    then show ?thesis using Suc.prems Cons upper8_range[of "if a = 42 then 63 else a"] by (auto simp: Let_def)
  qed
qed auto

lemma skip_to_dot_total:
  assumes "c = 0 \<or> (\<exists>ys. src = ys @ 0 # r \<and> 0 \<notin> set ys)"
  shows "\<exists>c' src'. skip_to_dot c src = Some (c', src') \<and> (c' = 0 \<or> (\<exists>ys. src' = ys @ 0 # r \<and> 0 \<notin> set ys))"
  using assms
proof (induction c src rule: skip_to_dot.induct)
  case (2 c x src)
  show ?case
  proof (cases "c = 0 \<or> c = 46")
    case False
    then obtain ys where ys: "x # src = ys @ 0 # r" "0 \<notin> set ys" using 2(2) by auto
    have "x = 0 \<or> (\<exists>zs. src = zs @ 0 # r \<and> 0 \<notin> set zs)" using ys by (cases ys) auto
    then show ?thesis using 2(1)[OF False] False by simp
  qed (use 2 in auto)
qed auto

lemma starts_total: "0 \<notin> set xs \<Longrightarrow> 0 \<notin> set p \<Longrightarrow> starts (p @ [0]) (xs @ 0 # r) = Some (xs = p)"
proof (induction p arbitrary: xs)
  case Nil
  then show ?case by (cases xs) auto
next
  case (Cons a p)
  then show ?case by (cases xs) auto
qed

lemma starts_name:
  assumes "0 \<notin> set xs"
  shows "starts [46, 0] (xs @ 0 # r) = Some (xs = [46])" "starts [46, 46, 0] (xs @ 0 # r) = Some (xs = [46, 46])"
    "starts [42, 46, 42, 0] (xs @ 0 # r) = Some (xs = [42, 46, 42])"
  using starts_total[OF assms, of "[46]" r] starts_total[OF assms, of "[46, 46]" r] starts_total[OF assms, of "[42, 46, 42]" r]
  by simp_all

lemma copy8_3_total:
  assumes "0 \<notin> set xs" "xs \<noteq> [42, 46, 42]"
  shows "\<exists>d. copy8_3 (xs @ 0 # r) = Some (d @ [0]) \<and> length d = 12 \<and> set d \<inter> {0, 42} = {} \<and> d ! 8 = 46"
proof (cases "xs = [46] \<or> xs = [46, 46]")
  case True
  then show ?thesis
  proof
    assume "xs = [46]"
    then show ?thesis by (intro exI[of _ "[46] @ replicate 7 32 @ [46] @ replicate 3 32"]) (simp add: copy8_3_def nth_append)
  next
    assume "xs = [46, 46]"
    then show ?thesis by (intro exI[of _ "[46, 46] @ replicate 6 32 @ [46] @ replicate 3 32"]) (simp add: copy8_3_def nth_append)
  qed
next
  case False
  obtain base c src where b: "copy_field 8 32 0 (xs @ 0 # r) = Some (base, c, src)" "length base = 8" "set base \<inter> {0, 42} = {}"
      "c = 0 \<or> (\<exists>ys. src = ys @ 0 # r \<and> 0 \<notin> set ys)"
    using copy_field_total[OF assms(1), of 32 8 0 r] by auto
  obtain c' src' where s: "skip_to_dot c src = Some (c', src')" "c' = 0 \<or> (\<exists>ys. src' = ys @ 0 # r \<and> 0 \<notin> set ys)"
    using skip_to_dot_total[OF b(4)] by auto
  obtain ext where e: "(if c' \<noteq> 0 then map_option fst (copy_field 3 32 c' src') else Some (replicate 3 32)) = Some ext"
      "length ext = 3" "set ext \<inter> {0, 42} = {}"
    using s(2) copy_field_total[of _ 32 3 c' r] by (cases "c' = 0") fastforce+
  have "copy8_3 (xs @ 0 # r) = Some (base @ [46] @ ext @ [0])"
    using False assms b(1) s(1) e(1) by (simp add: copy8_3_def starts_name)
  then show ?thesis using b e by (intro exI[of _ "base @ [46] @ ext"]) (auto simp: nth_append)
qed

lemma match_tail_positions:
  assumes "length s = length t" "0 \<notin> set t"
  shows "match_tail (s @ rs) (t @ 0 # rt) = Some (\<forall>i < length t. t ! i \<noteq> 63 \<longrightarrow> t ! i = s ! i)"
  using assms
proof (induction s t rule: list_induct2)
  case (Cons x xs y ys)
  then show ?case by (auto simp: less_Suc_eq_0_disj nth_Cons' split: if_splits)
qed (cases rs; auto)

lemma pat_match_positions:
  assumes "0 \<notin> set xs" "xs \<noteq> [42, 46, 42]" "copy8_3 (xs @ 0 # r) = Some (d @ [0])" "length t = 12" "set t \<inter> {0, 42} = {}"
  shows "pat_match (xs @ 0 # r) (t @ [0]) = Some (\<forall>i < 12. t ! i \<noteq> 63 \<longrightarrow> t ! i = d ! i)"
proof -
  obtain c ts where t: "t = c # ts" "c \<noteq> 42" using assms(4,5) by (cases t) auto
  have "length d = 12" using copy8_3_total[OF assms(1,2), of r] assms(3) by auto
  then have "match_tail (d @ [0]) (t @ [0]) = Some (\<forall>i < 12. t ! i \<noteq> 63 \<longrightarrow> t ! i = d ! i)"
    using match_tail_positions[of d t "[0]" "[]"] assms(4,5) by simp
  then show ?thesis using t assms(3) by (simp add: pat_match_def)
qed

section \<open>Properties\<close>

text \<open>
  C38: a file system that grants a lock only when \<open>denylock\<close> finds no conflict never lets two processes
  hold locks on a common byte when one of the locks is a write lock.
\<close>

theorem denylock_excludes:
  assumes "granted ls" "i < length ls" "j < length ls" "i \<noteq> j" "l_pid (ls ! i) \<noteq> l_pid (ls ! j)"
    "l_type (ls ! i) = F_WRLCK"
  shows "lock_bytes (ls ! i) \<inter> lock_bytes (ls ! j) = {}"
proof -
  have "sorted_wrt compatible_locks ls" using granted_compatible[OF assms(1)] by simp
  then have "compatible_locks (ls ! i) (ls ! j)"
    using assms(2-4) compatible_locks_sym by (metis linorder_neqE_nat sorted_wrt_iff_nth_less)
  then show ?thesis using assms(5,6) by (auto simp: compatible_locks_def)
qed

definition demo_locks :: "flock list" where
  "demo_locks = [\<lparr>l_type = 1, l_start = 10, l_len = 5, l_pid = 2\<rparr>, \<lparr>l_type = 1, l_start = 15, l_len = 0, l_pid = 3\<rparr>]"

theorem denylock_excludes_witness: "lock_bytes (demo_locks ! 0) \<inter> lock_bytes (demo_locks ! 1) = {}"
proof (rule denylock_excludes)
  have g: "granted [\<lparr>l_type = 1, l_start = 15, l_len = 0, l_pid = 3\<rparr>]"
    by (rule granted_lock[OF granted_none]) (simp_all add: denylock_def lock_end_def)
  show "granted demo_locks"
    unfolding demo_locks_def by (rule granted_lock[OF g]) (simp_all add: denylock_def lock_end_def conflicts_def Let_def)
qed (simp_all add: demo_locks_def)

text \<open>
  A file system that opens a file only when \<open>denyshare\<close> allows it never has two open files of which
  one denies to others what the other does.
\<close>

theorem denyshare_respected:
  assumes "opened fs vs" "i < length vs" "j < length vs" "i \<noteq> j" "fs (vs ! i) = Some f" "fs (vs ! j) = Some g"
  shows "(share_mode f \<in> {O_DENYW, O_DENYRW} \<longrightarrow> read_mode g = O_RDONLY) \<and>
    (share_mode f \<in> {O_DENYR, O_DENYRW} \<longrightarrow> read_mode g = O_WRONLY)"
proof -
  have "share_ok fs (vs ! i) (vs ! j) \<or> share_ok fs (vs ! j) (vs ! i)"
    using opened_share_ok[OF assms(1)] assms(2-4) by (metis linorder_neqE_nat sorted_wrt_iff_nth_less)
  then have "honours g f" using assms(5,6) by (auto simp: share_ok_def)
  then show ?thesis by (auto simp: honours_def)
qed

definition demo_share :: "faddr \<Rightarrow> fileptr option" where
  "demo_share = [16 \<mapsto> zero_file\<lparr>f_flags := 0x20\<rparr>, 32 \<mapsto> zero_file\<lparr>f_flags := 0x40\<rparr>]"

definition demo_files :: fstate where
  "demo_files = \<lparr>kern = init_proc, p_fd = (\<lambda>_. None), filedescs = (\<lambda>_. None), files = demo_share,
     ttys = undefined, dirs = (\<lambda>_. None)\<rparr>"

theorem denyshare_respected_witness: "read_mode (zero_file\<lparr>f_flags := 0x40\<rparr>) = O_RDONLY"
proof -
  have "opened demo_share [16]"
    by (rule opened_open[OF opened_none, of demo_files]) (simp_all add: demo_share_def demo_files_def)
  then have "opened demo_share [32, 16]"
    by (rule opened_open[of _ _ demo_files _ "zero_file\<lparr>f_flags := 0x40\<rparr>"])
      (simp_all add: demo_share_def demo_files_def modes_clash_def compat_clash_def read_mode_def share_mode_def Let_def
        zero_file_def)
  then show ?thesis
    using denyshare_respected[of demo_share "[32, 16]" 1 0 "zero_file\<lparr>f_flags := 0x20\<rparr>" "zero_file\<lparr>f_flags := 0x40\<rparr>"]
    by (simp add: demo_share_def share_mode_def)
qed

text \<open>
  Every name but \<open>*.*\<close> is expanded to twelve characters with the dot in the ninth place, so that it
  fits the buffer of \<open>TOS_NAMELEN + 1\<close> bytes; the match of a name with an expanded pattern ends within
  both buffers and compares position by position, a question mark fitting everything; and a name
  fits its own expansion.
\<close>

theorem pattern_matching:
  assumes "0 \<notin> set n" "n \<noteq> [42, 46, 42]" "0 \<notin> set p" "p \<noteq> [42, 46, 42]"
  shows "\<exists>en ep. copy8_3 (n @ [0]) = Some (en @ [0]) \<and> copy8_3 (p @ [0]) = Some (ep @ [0]) \<and>
    length en = 12 \<and> length ep = 12 \<and> en ! 8 = 46 \<and>
    pat_match (n @ [0]) (ep @ [0]) = Some (\<forall>i < 12. ep ! i = 63 \<or> ep ! i = en ! i) \<and>
    pat_match (n @ [0]) (en @ [0]) = Some True"
proof -
  obtain en where en: "copy8_3 (n @ [0]) = Some (en @ [0])" "length en = 12" "set en \<inter> {0, 42} = {}" "en ! 8 = 46"
    using copy8_3_total[OF assms(1,2), of "[]"] by auto
  obtain ep where ep: "copy8_3 (p @ [0]) = Some (ep @ [0])" "length ep = 12" "set ep \<inter> {0, 42} = {}"
    using copy8_3_total[OF assms(3,4), of "[]"] by auto
  have "pat_match (n @ [0]) (ep @ [0]) = Some (\<forall>i < 12. ep ! i = 63 \<or> ep ! i = en ! i)"
    unfolding pat_match_positions[OF assms(1,2) en(1) ep(2,3)] by (simp only: disj_imp)
  moreover have "pat_match (n @ [0]) (en @ [0]) = Some True"
    unfolding pat_match_positions[OF assms(1,2) en(1-3)] by simp
  ultimately show ?thesis using en ep by blast
qed

theorem pattern_matching_witness:
  "\<exists>en ep. copy8_3 [97, 46, 99, 0] = Some (en @ [0]) \<and> copy8_3 [42, 46, 99, 0] = Some (ep @ [0]) \<and>
    pat_match [97, 46, 99, 0] (ep @ [0]) = Some (\<forall>i < 12. ep ! i = 63 \<or> ep ! i = en ! i)"
  using pattern_matching[of "[97, 46, 99]" "[42, 46, 99]"] by auto

end
