(* ===== verification/Pipe.thy ===== *)
theory Pipe
  imports Fs_Access
begin

text \<open>
  Pipes and pseudo terminals (\<open>sys/pipefs.c\<close>): the ring buffers, reading and writing, and the drivers
  \<open>pipe_device\<close> and \<open>pty_device\<close>. The structures \<open>pipe\<close> and \<open>fifo\<close> are known by their addresses; the list
  \<open>piperoot\<close> has the addresses in the order of the links. An open file is the address of its \<open>fileptr\<close>.

  Reading and writing end or block: the blocked outcomes are the calls of \<open>sleep\<close> on \<open>IO_Q\<close>, with the
  condition and what the rest of the call needs, and the \<open>resume\<close> definitions go on with the value that
  \<open>sleep\<close> returned. The bytes of a call are a list; a blocked write has its remaining bytes.
  \<open>W_sig\<close> is a process that ended while a signal was delivered. \<open>None\<close> is the use of a null pointer or of
  freed memory. Times are their seconds.
\<close>

section \<open>Structures\<close>

record pipe =
  readers :: int
  writers :: int
  p_start :: nat
  p_len :: nat
  p_rsel :: "pptr option"
  p_wsel :: "pptr option"
  p_buf :: "u8 list"

record fifo =
  ff_name :: "u8 list"
  ff_mtime :: u32
  ff_ctime :: u32
  ff_dosflags :: u16
  ff_mode :: u16
  ff_uid :: u16
  ff_gid :: u16
  ff_ino :: u32
  ff_flags :: u16
  ff_lockpid :: int
  ff_cursrate :: int
  ff_tty :: u32
  ff_inp :: u32
  ff_outp :: u32
  ff_open :: "faddr list"

record pstate =
  pfs :: fstate
  pipes :: "u32 \<Rightarrow> pipe option"
  fifo_at :: "u32 \<Rightarrow> fifo option"
  piperoot :: "u32 list"
  pipe_ino :: u32
  xtime :: u32
  pipestamp :: u32

text \<open>
  Addresses of the kernel, signal delivery with its fuel, the output of a character on a terminal, and
  \<open>kmalloc\<close> with what the memory for a pipe holds.
\<close>

record penv =
  pe_filesys :: u32
  pe_wakeselect :: u32
  pe_select_coll :: u32
  pe_fuel :: nat
  pe_sig :: sig_env
  pe_putchar :: "faddr \<Rightarrow> int \<Rightarrow> pstate \<Rightarrow> pstate"
  pe_kmalloc :: "pstate \<Rightarrow> u32 option"
  pe_junk :: "u32 \<Rightarrow> u8 list"

abbreviation (input) ROOT_INODE :: u32 where "ROOT_INODE \<equiv> 1"
abbreviation (input) PIPESIZ :: nat where "PIPESIZ \<equiv> 4096"
abbreviation (input) PIPE_BUF :: nat where "PIPE_BUF \<equiv> 1024"
abbreviation (input) VIRGIN_PIPE :: int where "VIRGIN_PIPE \<equiv> 0x7fff"
abbreviation (input) TS_HOLD :: u16 where "TS_HOLD \<equiv> 0x1000"
abbreviation (input) O_CREAT :: u16 where "O_CREAT \<equiv> 0x200"
abbreviation (input) O_LOCK :: u16 where "O_LOCK \<equiv> 0x8000"
abbreviation (input) FA_RDONLY :: u16 where "FA_RDONLY \<equiv> 0x01"
abbreviation (input) FA_HIDDEN :: u16 where "FA_HIDDEN \<equiv> 0x02"
abbreviation (input) FA_SYSTEM :: u16 where "FA_SYSTEM \<equiv> 0x04"
abbreviation (input) FA_CHANGED :: u16 where "FA_CHANGED \<equiv> 0x20"
abbreviation (input) T_CBREAK :: u16 where "T_CBREAK \<equiv> 0x0002"
abbreviation (input) T_RAW :: u16 where "T_RAW \<equiv> 0x0010"
abbreviation (input) SIGHUP :: nat where "SIGHUP \<equiv> 1"
abbreviation (input) SIGPIPE :: nat where "SIGPIPE \<equiv> 13"

text \<open>The fifo with an inode number; \<open>Some None\<close> when there is none.\<close>

fun find_ino :: "(u32 \<Rightarrow> fifo option) \<Rightarrow> u32 \<Rightarrow> u32 list \<Rightarrow> u32 option option" where
  "find_ino at n [] = Some None"
| "find_ino at n (b # bs) =
    (case at b of None \<Rightarrow> None | Some this \<Rightarrow> if ff_ino this = n then Some (Some b) else find_ino at n bs)"

definition pipe_lookupi :: "u32 \<Rightarrow> pstate \<Rightarrow> u32 option option" where
  "pipe_lookupi n s = find_ino (fifo_at s) n (piperoot s)"

definition set_pipe :: "u32 \<Rightarrow> pipe \<Rightarrow> pstate \<Rightarrow> pstate" where
  "set_pipe a p s = s\<lparr>pipes := (pipes s)(a \<mapsto> p)\<rparr>"

definition upd_pipe :: "u32 \<Rightarrow> (pipe \<Rightarrow> pipe) \<Rightarrow> pstate \<Rightarrow> pstate option" where
  "upd_pipe a g s = (case pipes s a of None \<Rightarrow> None | Some p \<Rightarrow> Some (set_pipe a (g p) s))"

definition upd_fifo :: "u32 \<Rightarrow> (fifo \<Rightarrow> fifo) \<Rightarrow> pstate \<Rightarrow> pstate option" where
  "upd_fifo b g s = (case fifo_at s b of None \<Rightarrow> None | Some x \<Rightarrow> Some (s\<lparr>fifo_at := (fifo_at s)(b \<mapsto> g x)\<rparr>))"

definition set_kern :: "kernel \<Rightarrow> pstate \<Rightarrow> pstate" where
  "set_kern k s = s\<lparr>pfs := (pfs s)\<lparr>kern := k\<rparr>\<rparr>"

definition pkern :: "pstate \<Rightarrow> kernel" where
  "pkern s = kern (pfs s)"

definition on_kern :: "(kernel \<Rightarrow> kernel option) \<Rightarrow> pstate \<Rightarrow> pstate option" where
  "on_kern g s = map_option (\<lambda>k. set_kern k s) (g (pkern s))"

definition on_file :: "faddr \<Rightarrow> (fileptr \<Rightarrow> fileptr) \<Rightarrow> pstate \<Rightarrow> pstate option" where
  "on_file v g s = map_option (\<lambda>x. s\<lparr>pfs := x\<rparr>) (upd_file v g (pfs s))"

definition on_tty :: "u32 \<Rightarrow> (tty \<Rightarrow> tty) \<Rightarrow> pstate \<Rightarrow> pstate" where
  "on_tty a g s = s\<lparr>pfs := upd_tty a g (pfs s)\<rparr>"

definition tty_of :: "pstate \<Rightarrow> fifo \<Rightarrow> tty" where
  "tty_of s this = ttys (pfs s) (ff_tty this)"

definition is_head :: "fileptr \<Rightarrow> bool" where
  "is_head f \<longleftrightarrow> f_flags f AND O_HEAD \<noteq> 0"

text \<open>The pipe a file writes to and the pipe it reads from (0 where there is none).\<close>

definition write_end :: "fileptr \<Rightarrow> fifo \<Rightarrow> u32" where
  "write_end f this = (if is_head f then ff_inp this else ff_outp this)"

definition read_end :: "fileptr \<Rightarrow> fifo \<Rightarrow> u32" where
  "read_end f this = (if is_head f then ff_outp this else ff_inp this)"

text \<open>The file, the fifo and its address that a driver function starts from.\<close>

definition pipe_of :: "faddr \<Rightarrow> pstate \<Rightarrow> (fileptr \<times> (u32 \<times> fifo) option) option" where
  "pipe_of v s =
    do { f \<leftarrow> files (pfs s) v;
         b \<leftarrow> pipe_lookupi (fc_index (f_fc f)) s;
         case b of None \<Rightarrow> Some (f, None) | Some b \<Rightarrow> do { this \<leftarrow> fifo_at s b; Some (f, Some (b, this)) } }"

section \<open>Waking\<close>

definition wake_selecting :: "penv \<Rightarrow> pptr option \<Rightarrow> pstate \<Rightarrow> pstate option" where
  "wake_selecting env q s =
    (case q of None \<Rightarrow> Some s
     | Some p \<Rightarrow> on_kern (wakeselect (pe_wakeselect env) (pe_select_coll env) p) s)"

definition pipe_wake_readers :: "penv \<Rightarrow> u32 \<Rightarrow> pstate \<Rightarrow> pstate option" where
  "pipe_wake_readers env a s =
    do { p \<leftarrow> pipes s a;
         if p_len p > 0 then do { s \<leftarrow> wake_selecting env (p_rsel p) s; on_kern (wake IO_Q a) s }
         else Some s }"

definition pipe_wake_writers :: "penv \<Rightarrow> u32 \<Rightarrow> pstate \<Rightarrow> pstate option" where
  "pipe_wake_writers env a s =
    do { p \<leftarrow> pipes s a;
         if p_len p < PIPESIZ then do { s \<leftarrow> wake_selecting env (p_wsel p) s; on_kern (wake IO_Q a) s }
         else Some s }"

section \<open>The ring buffer\<close>

definition overwrite :: "nat \<Rightarrow> u8 list \<Rightarrow> u8 list \<Rightarrow> u8 list" where
  "overwrite i d b = take i b @ d @ drop (i + length d) b"

text \<open>One round of the loop in \<open>pipe_write\<close>: the bytes left over and the pipe.\<close>

definition put_chunk :: "u8 list \<Rightarrow> pipe \<Rightarrow> u8 list \<times> pipe" where
  "put_chunk data p =
    (let plen = p_len p; off = (p_start p + plen) mod PIPESIZ;
         j = PIPESIZ - off;
         j = (if j > length data then length data else j);
         j = (if j > PIPESIZ - plen then PIPESIZ - plen else j);
         buf = overwrite off (take j data) (p_buf p); data = drop j data; plen = plen + j
     in if data \<noteq> [] \<and> plen < PIPESIZ then
          (let j = PIPESIZ - plen; j = (if j > length data then length data else j);
               buf = overwrite 0 (take j data) buf
           in (drop j data, p\<lparr>p_buf := buf, p_len := plen + j\<rparr>))
        else (data, p\<lparr>p_buf := buf, p_len := plen\<rparr>))"

text \<open>One round of the loop in \<open>pipe_read\<close>: the bytes read and the pipe.\<close>

definition get_chunk :: "nat \<Rightarrow> pipe \<Rightarrow> u8 list \<times> pipe" where
  "get_chunk n p =
    (let plen = p_len p; j = PIPESIZ - p_start p;
         j = (if j > n then n else j); j = (if j > plen then plen else j);
         n = n - j; plen = plen - j; d1 = take j (drop (p_start p) (p_buf p));
         start = p_start p + j;
         (d2, plen, start) =
           (if n > 0 \<and> plen > 0 then
              (let j = plen; j = (if j > n then n else j) in (take j (p_buf p), plen - j, j))
            else ([], plen, start));
         start = (if plen = 0 \<or> start = PIPESIZ then 0 else start)
     in (d1 @ d2, p\<lparr>p_len := plen, p_start := start\<rparr>))"

lemma put_chunk_shorter:
  assumes "p_len p < PIPESIZ" "data \<noteq> []"
  shows "length (fst (put_chunk data p)) < length data"
proof -
  have "(p_start p + p_len p) mod PIPESIZ < PIPESIZ" by simp
  then show ?thesis using assms by (auto simp: put_chunk_def Let_def)
qed

lemma get_chunk_some:
  assumes "0 < p_len p" "0 < n" "p_start p < PIPESIZ" "length (p_buf p) = PIPESIZ"
  shows "fst (get_chunk n p) \<noteq> []" "length (fst (get_chunk n p)) \<le> n"
  using assms by (auto simp: get_chunk_def Let_def)

section \<open>Writing\<close>

datatype wpoint = At_check | At_loop

datatype write_out =
    W_ret int pstate
  | W_sig sig_out pstate
  | W_block u32 wpoint "u8 list" int pstate

definition broken_pipe :: "penv \<Rightarrow> pstate \<Rightarrow> write_out option" where
  "broken_pipe env s =
    do { r \<leftarrow> check_sigs (pe_fuel env) (pe_sig env) (pkern s);
         case r of
           Goes_on k \<Rightarrow>
             do { r \<leftarrow> raise (pe_fuel env) (pe_sig env) SIGPIPE k;
                  case r of Goes_on k \<Rightarrow> Some (W_ret EPIPE (set_kern k s)) | _ \<Rightarrow> Some (W_sig r s) }
         | _ \<Rightarrow> Some (W_sig r s) }"

definition no_reader :: "pipe \<Rightarrow> bool" where
  "no_reader p \<longleftrightarrow> readers p = 0 \<or> readers p = VIRGIN_PIPE"

definition no_writer :: "pipe \<Rightarrow> bool" where
  "no_writer p \<longleftrightarrow> writers p \<le> 0 \<or> writers p = VIRGIN_PIPE"

text \<open>Whether a terminal's reader has the characters it waits for (four bytes each, 16 bit arithmetic).\<close>

definition enough_read :: "pipe \<Rightarrow> tty \<Rightarrow> bool" where
  "enough_read p x \<longleftrightarrow> p_len p \<ge> unat (vmin x * 4)"

definition write_done :: "penv \<Rightarrow> u32 \<Rightarrow> u32 \<Rightarrow> int \<Rightarrow> pstate \<Rightarrow> write_out option" where
  "write_done env b a written s =
    do { s \<leftarrow> upd_fifo b (\<lambda>x. x\<lparr>ff_mtime := xtime s\<rparr>) s;
         s \<leftarrow> pipe_wake_readers env a s;
         Some (W_ret written s) }"

function write_loop :: "penv \<Rightarrow> fileptr \<Rightarrow> u32 \<Rightarrow> fifo \<Rightarrow> u32 \<Rightarrow> u8 list \<Rightarrow> int \<Rightarrow> pstate \<Rightarrow> write_out option" where
  "write_loop env f b this a data written s =
    (if data = [] then write_done env b a written s
     else case pipes s a of
       None \<Rightarrow> None
     | Some p \<Rightarrow>
         if p_len p < PIPESIZ then
           (let rp = put_chunk data p; s = set_pipe a (snd rp) s
            in case (if \<not> is_terminal f \<or> \<not> is_head f \<or> enough_read (snd rp) (tty_of s this)
                     then pipe_wake_readers env a s else Some s) of
                 None \<Rightarrow> None
               | Some s \<Rightarrow> write_loop env f b this a (fst rp) (written + int (length data - length (fst rp))) s)
         else if no_reader p then broken_pipe env s
         else if f_flags f AND O_NDELAY \<noteq> 0 then write_done env b a written s
         else do { s \<leftarrow> pipe_wake_readers env a s; Some (W_block a At_loop data written s) })"
  by pat_completeness auto
termination
  by (relation "measure (\<lambda>(env, f, b, this, a, data, written, s). length data)") (auto simp: put_chunk_shorter)

declare write_loop.simps [simp del]

text \<open>A small write waits until all of it fits; a held terminal makes it wait for the \<open>state\<close> of its \<open>tty\<close>.\<close>

definition check_atomicity :: "penv \<Rightarrow> fileptr \<Rightarrow> u32 \<Rightarrow> fifo \<Rightarrow> u32 \<Rightarrow> u8 list \<Rightarrow> pstate \<Rightarrow> write_out option" where
  "check_atomicity env f b this a data s =
    (if is_terminal f \<and> \<not> is_head f \<and> tty_state (tty_of s this) AND TS_HOLD \<noteq> 0 then
       (if f_flags f AND O_NDELAY \<noteq> 0 then Some (W_ret 0 s)
        else Some (W_block (ff_tty this + 2) At_check data 0 s))
     else do {
       p \<leftarrow> pipes s a;
       if int PIPESIZ - int (p_len p) < int (length data) then
         (if no_reader p then broken_pipe env s
          else do { s \<leftarrow> pipe_wake_readers env a s; Some (W_block a At_check data 0 s) })
       else write_loop env f b this a data 0 s })"

definition write_from ::
  "penv \<Rightarrow> fileptr \<Rightarrow> u32 \<Rightarrow> fifo \<Rightarrow> u32 \<Rightarrow> wpoint \<Rightarrow> u8 list \<Rightarrow> int \<Rightarrow> pstate \<Rightarrow> write_out option" where
  "write_from env f b this a w data written s =
    (case w of
       At_check \<Rightarrow> check_atomicity env f b this a data s
     | At_loop \<Rightarrow> write_loop env f b this a data written s)"

definition pipe_write :: "penv \<Rightarrow> faddr \<Rightarrow> u8 list \<Rightarrow> pstate \<Rightarrow> write_out option" where
  "pipe_write env v data s =
    do { (f, x) \<leftarrow> pipe_of v s;
         case x of
           None \<Rightarrow> Some (W_ret EBADF s)
         | Some (b, this) \<Rightarrow>
             (let a = write_end f this
              in if a = 0 then Some (W_ret EACCES s)
                 else write_from env f b this a
                   (if data \<noteq> [] \<and> length data \<le> PIPE_BUF then At_check else At_loop) data 0 s) }"

text \<open>The rest of a write that slept: \<open>b\<close> and \<open>a\<close> are its fifo and its pipe.\<close>

definition pipe_write_resume ::
  "penv \<Rightarrow> faddr \<Rightarrow> u32 \<Rightarrow> u32 \<Rightarrow> int \<Rightarrow> wpoint \<Rightarrow> u8 list \<Rightarrow> int \<Rightarrow> pstate \<Rightarrow> write_out option" where
  "pipe_write_resume env v b a r w data written s =
    (if r \<noteq> 0 then Some (W_ret EINTR s)
     else do { f \<leftarrow> files (pfs s) v; this \<leftarrow> fifo_at s b; write_from env f b this a w data written s })"

section \<open>Reading\<close>

text \<open>A finished call has its result and the bytes in the caller's buffer.\<close>

datatype read_out = R_ret int "u8 list" pstate | R_block u32 nat "u8 list" pstate

definition read_done :: "penv \<Rightarrow> u32 \<Rightarrow> u8 list \<Rightarrow> pstate \<Rightarrow> read_out option" where
  "read_done env a acc s =
    do { s \<leftarrow> pipe_wake_writers env a s; Some (R_ret (int (length acc)) acc s) }"

text \<open>A round that reads nothing (from a pipe outside its invariant) does not end in the code.\<close>

function read_loop :: "penv \<Rightarrow> fileptr \<Rightarrow> fifo \<Rightarrow> u32 \<Rightarrow> nat \<Rightarrow> u8 list \<Rightarrow> pstate \<Rightarrow> read_out option" where
  "read_loop env f this a n acc s =
    (if n = 0 then read_done env a acc s
     else case pipes s a of
       None \<Rightarrow> None
     | Some p \<Rightarrow>
         if p_len p > 0 then
           (let dp = get_chunk n p
            in if fst dp = [] then None
               else case pipe_wake_writers env a (set_pipe a (snd dp) s) of
                      None \<Rightarrow> None
                    | Some s \<Rightarrow> read_loop env f this a (n - length (fst dp)) (acc @ fst dp) s)
         else if no_writer p then read_done env a acc s
         else if f_flags f AND O_NDELAY \<noteq> 0 \<or> (ff_dosflags this AND FA_CHANGED \<noteq> 0 \<and> acc \<noteq> [])
         then read_done env a acc s
         else do { s \<leftarrow> pipe_wake_writers env a s; Some (R_block a n acc s) })"
  by pat_completeness auto
termination
  by (relation "measure (\<lambda>(env, f, this, a, n, acc, s). n)") auto

declare read_loop.simps [simp del]

definition pipe_read :: "penv \<Rightarrow> faddr \<Rightarrow> nat \<Rightarrow> pstate \<Rightarrow> read_out option" where
  "pipe_read env v n s =
    do { (f, x) \<leftarrow> pipe_of v s;
         case x of
           None \<Rightarrow> Some (R_ret EBADF [] s)
         | Some (b, this) \<Rightarrow>
             (let a = read_end f this
              in if a = 0 then Some (R_ret EACCES [] s) else read_loop env f this a n [] s) }"

definition pipe_read_resume :: "penv \<Rightarrow> faddr \<Rightarrow> u32 \<Rightarrow> u32 \<Rightarrow> int \<Rightarrow> nat \<Rightarrow> u8 list \<Rightarrow> pstate \<Rightarrow> read_out option" where
  "pipe_read_resume env v b a r n acc s =
    (if r \<noteq> 0 then Some (R_ret EINTR acc s)
     else do { f \<leftarrow> files (pfs s) v; this \<leftarrow> fifo_at s b; read_loop env f this a n acc s })"

section \<open>Pseudo terminals\<close>

text \<open>
  A slave writes one character as a long of which the last byte goes into the pipe, a master reads one
  character as a long. The results of a call that slept are translated the same way.
\<close>

fun pty_written :: "write_out \<Rightarrow> write_out" where
  "pty_written (W_ret r s) = W_ret (if r = 1 then 4 else r) s"
| "pty_written out = out"

fun pty_got :: "read_out \<Rightarrow> read_out" where
  "pty_got (R_ret r d s) = (if r = 1 then R_ret 4 ([0, 0, 0] @ d) s else R_ret r d s)"
| "pty_got out = out"

definition pty_write :: "penv \<Rightarrow> faddr \<Rightarrow> u8 list \<Rightarrow> pstate \<Rightarrow> write_out option" where
  "pty_write env v data s =
    (if data = [] then Some (W_ret 0 s)
     else do { f \<leftarrow> files (pfs s) v;
               if is_head f then pipe_write env v data s
               else if length data < 4 then None
               else map_option pty_written (pipe_write env v [data ! 3] s) })"

definition pty_read :: "penv \<Rightarrow> faddr \<Rightarrow> nat \<Rightarrow> pstate \<Rightarrow> read_out option" where
  "pty_read env v n s =
    (if n = 0 then Some (R_ret 0 [] s)
     else do { f \<leftarrow> files (pfs s) v;
               if \<not> is_head f then pipe_read env v n s else map_option pty_got (pipe_read env v 1 s) })"

definition pty_writeb :: "penv \<Rightarrow> faddr \<Rightarrow> u8 list \<Rightarrow> pstate \<Rightarrow> write_out option" where
  "pty_writeb env v data s =
    (if data = [] then Some (W_ret 0 s)
     else do { f \<leftarrow> files (pfs s) v;
               if is_head f then Some (W_ret ENODEV s) else pipe_write env v data s })"

text \<open>\<open>pty_readb\<close> waits before it reads: \<open>B_wait\<close> is that sleep, and \<open>pty_readb_wait\<close> the loop around it.\<close>

datatype readb_out = B_wait u32 pstate | B_read read_out

definition pty_readb_wait :: "penv \<Rightarrow> faddr \<Rightarrow> u32 \<Rightarrow> nat \<Rightarrow> pstate \<Rightarrow> readb_out option" where
  "pty_readb_wait env v b n s =
    do { f \<leftarrow> files (pfs s) v;
         this \<leftarrow> fifo_at s b;
         if \<not> is_head f then
           (let x = tty_of s this
            in if vmin x > 1 \<and> vtime x = 0 \<and> f_flags f AND O_NDELAY = 0 \<and> sg_flags x AND (T_RAW OR T_CBREAK) \<noteq> 0 then
                 do { p \<leftarrow> pipes s (ff_inp this);
                      if \<not> enough_read p x \<and> \<not> no_writer p then Some (B_wait (ff_inp this) s)
                      else Some (B_read (R_ret ENODEV [] s)) }
               else Some (B_read (R_ret ENODEV [] s)))
         else do { p \<leftarrow> pipes s (ff_outp this);
                   if f_flags f AND O_NDELAY = 0 \<and> p_len p = 0 \<and> \<not> no_writer p then Some (B_wait (ff_outp this) s)
                   else map_option B_read (pipe_read env v (min n (p_len p)) s) } }"

definition pty_readb :: "penv \<Rightarrow> faddr \<Rightarrow> nat \<Rightarrow> pstate \<Rightarrow> readb_out option" where
  "pty_readb env v n s =
    do { (f, x) \<leftarrow> pipe_of v s;
         case x of
           None \<Rightarrow> Some (B_read (R_ret 0 [] s))
         | Some (b, this) \<Rightarrow>
             if n = 0 then Some (B_read (R_ret 0 [] s))
             else if \<not> is_head f then pty_readb_wait env v b n s
             else do { p \<leftarrow> pipes s (ff_outp this);
                       if n > 1 \<and> n > p_len p then pty_readb_wait env v b n s
                       else map_option B_read (pipe_read env v n s) } }"

definition pty_readb_resume :: "penv \<Rightarrow> faddr \<Rightarrow> u32 \<Rightarrow> int \<Rightarrow> nat \<Rightarrow> pstate \<Rightarrow> readb_out option" where
  "pty_readb_resume env v b r n s =
    (if r \<noteq> 0 then Some (B_read (R_ret EINTR [] s)) else pty_readb_wait env v b n s)"

end
