(* ===== verification/Pipe_Fs.thy ===== *)
theory Pipe_Fs
  imports Pipe
begin

text \<open>
  The file system of pipes and the rest of its drivers (\<open>sys/pipefs.c\<close>): looking up and creating pipes,
  opening, closing, \<open>select\<close>, the file control calls, attributes that can change, and the directory.
  What the argument of \<open>pipe_ioctl\<close> points to before the call is in its request, what it points to
  after the call is in its reply.
\<close>

section \<open>Names\<close>

fun find_name :: "(u32 \<Rightarrow> fifo option) \<Rightarrow> u8 list \<Rightarrow> u32 list \<Rightarrow> u32 option option" where
  "find_name at name [] = Some None"
| "find_name at name (b # bs) =
    do { x \<leftarrow> at b; r \<leftarrow> mint_strnicmp (ff_name x) name 14;
         if r = 0 then Some (Some b) else find_name at name bs }"

definition pipe_root :: "penv \<Rightarrow> int \<Rightarrow> fcookie \<Rightarrow> int \<times> fcookie" where
  "pipe_root env drv fc =
    (if drv = 33 then (E_OK, \<lparr>fc_fs = pe_filesys env, fc_dev = of_int drv, fc_index = ROOT_INODE\<rparr>)
     else (EINTERNAL, fc\<lparr>fc_fs := 0\<rparr>))"

definition pipe_lookup :: "penv \<Rightarrow> fcookie \<Rightarrow> u8 list \<Rightarrow> fcookie \<Rightarrow> pstate \<Rightarrow> (int \<times> fcookie) option" where
  "pipe_lookup env dir name fc s =
    (if fc_index dir \<noteq> ROOT_INODE then Some (ENOTDIR, fc)
     else do {
       empty \<leftarrow> starts [0] name;
       here \<leftarrow> (if empty then Some True else starts [46, 0] name);
       if here then Some (E_OK, dir\<lparr>fc_index := ROOT_INODE\<rparr>)
       else do {
         up \<leftarrow> mint_strcmp name [46, 46, 0];
         if up = 0 then Some (EMOUNT, dir)
         else do {
           b \<leftarrow> find_name (fifo_at s) name (piperoot s);
           case b of
             None \<Rightarrow> Some (ENOENT, fc)
           | Some b \<Rightarrow> do { x \<leftarrow> fifo_at s b;
                            Some (E_OK, \<lparr>fc_fs = pe_filesys env, fc_dev = fc_dev dir, fc_index = ff_ino x\<rparr>) } } } })"

definition with_fifo :: "u32 \<Rightarrow> int \<Rightarrow> (u32 \<Rightarrow> fifo \<Rightarrow> (int \<times> pstate) option) \<Rightarrow> pstate \<Rightarrow> (int \<times> pstate) option" where
  "with_fifo n err g s =
    do { b \<leftarrow> pipe_lookupi n s;
         case b of None \<Rightarrow> Some (err, s) | Some b \<Rightarrow> do { this \<leftarrow> fifo_at s b; g b this } }"

text \<open>An argument of -1 leaves the id as it is.\<close>

definition pipe_chown :: "fcookie \<Rightarrow> int \<Rightarrow> int \<Rightarrow> pstate \<Rightarrow> (int \<times> pstate) option" where
  "pipe_chown fc u g s =
    with_fifo (fc_index fc) EACCES (\<lambda>b this. do {
      s \<leftarrow> upd_fifo b (\<lambda>x. if u \<noteq> - 1 then x\<lparr>ff_uid := of_int u\<rparr> else x) s;
      s \<leftarrow> upd_fifo b (\<lambda>x. if g \<noteq> - 1 then x\<lparr>ff_gid := of_int g\<rparr> else x) s;
      Some (E_OK, s) }) s"

definition pipe_chmode :: "fcookie \<Rightarrow> u16 \<Rightarrow> pstate \<Rightarrow> (int \<times> pstate) option" where
  "pipe_chmode fc m s =
    with_fifo (fc_index fc) EACCES (\<lambda>b this. do {
      s \<leftarrow> upd_fifo b (\<lambda>x. x\<lparr>ff_mode := (ff_mode x AND S_IFMT) OR (m AND NOT S_IFMT)\<rparr>) s;
      Some (E_OK, s) }) s"

text \<open>A name shorter than the size is copied with its end.\<close>

definition copy_name :: "u8 list \<Rightarrow> int \<Rightarrow> (int + u8 list) option" where
  "copy_name name sz =
    do { n \<leftarrow> mint_strlen name;
         if int n < sz then Some (Inr (take (Suc n) name)) else Some (Inl EBADARG) }"

definition pipe_getname :: "fcookie \<Rightarrow> int \<Rightarrow> pstate \<Rightarrow> (int + u8 list) option" where
  "pipe_getname dir sz s =
    (if sz \<le> 0 then Some (Inl EBADARG)
     else if fc_index dir = 0 \<or> fc_index dir = ROOT_INODE then Some (Inr [0])
     else do { b \<leftarrow> pipe_lookupi (fc_index dir) s;
               case b of
                 None \<Rightarrow> Some (Inl ENOENT)
               | Some b \<Rightarrow> do { this \<leftarrow> fifo_at s b; copy_name (ff_name this) sz } })"

section \<open>Creating and opening\<close>

definition strn_copy :: "u8 list \<Rightarrow> nat \<Rightarrow> u8 list" where
  "strn_copy name n = (let s = takeWhile (\<lambda>c. c \<noteq> 0) (take n name) in s @ replicate (n - length s) 0)"

definition new_inp :: "bool \<Rightarrow> u8 list \<Rightarrow> pipe" where
  "new_inp selfread junk =
    \<lparr>readers = (if selfread then 1 else VIRGIN_PIPE), writers = 1, p_start = 0, p_len = 0, p_rsel = None, p_wsel = None,
     p_buf = junk\<rparr>"

definition new_outp :: "bool \<Rightarrow> u8 list \<Rightarrow> pipe" where
  "new_outp selfread junk =
    \<lparr>readers = 1, writers = (if selfread then 1 else VIRGIN_PIPE), p_start = 0, p_len = 0, p_rsel = None, p_wsel = None,
     p_buf = junk\<rparr>"

definition alloc_pipe :: "penv \<Rightarrow> (u8 list \<Rightarrow> pipe) \<Rightarrow> pstate \<Rightarrow> (u32 option \<times> pstate)" where
  "alloc_pipe env g s =
    (case pe_kmalloc env s of None \<Rightarrow> (None, s) | Some a \<Rightarrow> (Some a, set_pipe a (g (pe_junk env a)) s))"

definition free_pipe :: "u32 \<Rightarrow> pstate \<Rightarrow> pstate" where
  "free_pipe a s = (if a = 0 then s else s\<lparr>pipes := (pipes s)(a := None)\<rparr>)"

definition new_fifo :: "u8 list \<Rightarrow> u16 \<Rightarrow> u16 \<Rightarrow> u32 \<Rightarrow> u32 \<Rightarrow> u32 \<Rightarrow> pstate \<Rightarrow> fifo" where
  "new_fifo name m attrib inp outp x s =
    (let uc = ucreds (pkern s) (ucr (pcreds (pkern s) (p_cred (proc_of (pkern s)))))
     in \<lparr>ff_name = strn_copy name 14 @ [0], ff_mtime = xtime s, ff_ctime = xtime s, ff_dosflags = attrib,
         ff_mode = (if attrib AND FA_SYSTEM \<noteq> 0 then 0x2000 else 0xa000) OR (m AND NOT S_IFMT),
         ff_uid = euid uc, ff_gid = egid uc, ff_ino = pipe_ino s,
         ff_flags = (if attrib AND FA_SYSTEM \<noteq> 0 then O_TTY else 0) OR O_HEAD, ff_lockpid = 0, ff_cursrate = 0,
         ff_tty = x, ff_inp = inp, ff_outp = outp, ff_open = []\<rparr>)"

text \<open>The new fifo becomes the root of the list; the next inode number skips 0 and 1.\<close>

definition link_fifo :: "penv \<Rightarrow> fcookie \<Rightarrow> u32 \<Rightarrow> fifo \<Rightarrow> pstate \<Rightarrow> int \<times> fcookie option \<times> pstate" where
  "link_fifo env dir b x s =
    (E_OK, Some \<lparr>fc_fs = pe_filesys env, fc_dev = fc_dev dir, fc_index = ff_ino x\<rparr>,
     s\<lparr>fifo_at := (fifo_at s)(b \<mapsto> x), piperoot := b # piperoot s,
       pipe_ino := (if pipe_ino s + 1 = 0 then ROOT_INODE + 1 else pipe_ino s + 1), pipestamp := xtime s\<rparr>)"

definition pipe_creat :: "penv \<Rightarrow> fcookie \<Rightarrow> u8 list \<Rightarrow> u16 \<Rightarrow> u16 \<Rightarrow> pstate \<Rightarrow> int \<times> fcookie option \<times> pstate" where
  "pipe_creat env dir name m attrib s =
    (let selfread = (attrib AND FA_HIDDEN = 0)
     in case alloc_pipe env (new_inp selfread) s of
          (None, s) \<Rightarrow> (ENOMEM, None, s)
        | (Some inp, s) \<Rightarrow>
            (case (if attrib AND FA_RDONLY \<noteq> 0 then (Some 0, s) else alloc_pipe env (new_outp selfread) s) of
               (None, s) \<Rightarrow> (ENOMEM, None, free_pipe inp s)
             | (Some outp, s) \<Rightarrow>
                 (case pe_kmalloc env s of
                    None \<Rightarrow> (ENOMEM, None, free_pipe inp (free_pipe outp s))
                  | Some b \<Rightarrow>
                      (let s0 = s; s = s\<lparr>fifo_at := (fifo_at s)(b \<mapsto> new_fifo name m attrib inp outp 0 s)\<rparr>
                       in if attrib AND FA_SYSTEM \<noteq> 0 then
                            (case pe_kmalloc env s of
                               None \<Rightarrow> (ENOMEM, None, free_pipe inp (free_pipe outp s0))
                             | Some x \<Rightarrow>
                                 (let s = on_tty x (\<lambda>y. y\<lparr>use_cnt := 0, tty_rsel := None, tty_wsel := None\<rparr>) s
                                  in link_fifo env dir b (new_fifo name m attrib inp outp x s) s))
                          else link_fifo env dir b (new_fifo name m attrib inp outp 0 s) s))))"

definition add_end :: "int \<Rightarrow> int" where
  "add_end n = (if n = VIRGIN_PIPE then 1 else short_of (n + 1))"

definition rw_reads :: "fileptr \<Rightarrow> bool" where
  "rw_reads f \<longleftrightarrow> f_flags f AND O_RWMODE = O_RDONLY \<or> f_flags f AND O_RWMODE = O_RDWR"

definition rw_writes :: "fileptr \<Rightarrow> bool" where
  "rw_writes f \<longleftrightarrow> f_flags f AND O_RWMODE = O_WRONLY \<or> f_flags f AND O_RWMODE = O_RDWR"

text \<open>Flags of a file that is being opened: those of the fifo, and \<open>O_COMPAT\<close> becomes \<open>O_DENYNONE\<close>.\<close>

definition no_compat :: "u16 \<Rightarrow> u16" where
  "no_compat fl = (if fl AND O_SHMODE = O_COMPAT then (fl AND NOT O_SHMODE) OR O_DENYNONE else fl)"

definition count_open :: "fileptr \<Rightarrow> fifo \<Rightarrow> pstate \<Rightarrow> pstate option" where
  "count_open f this s =
    (if is_head f then Some s
     else do {
       s \<leftarrow> (if rw_reads f then upd_pipe (ff_inp this) (\<lambda>p. p\<lparr>readers := add_end (readers p)\<rparr>) s else Some s);
       (if rw_writes f \<and> ff_outp this \<noteq> 0 then upd_pipe (ff_outp this) (\<lambda>p. p\<lparr>writers := add_end (writers p)\<rparr>) s
        else Some s) })"

definition pipe_open :: "faddr \<Rightarrow> pstate \<Rightarrow> (int \<times> pstate) option" where
  "pipe_open v s =
    do { (f, x) \<leftarrow> pipe_of v s;
         case x of
           None \<Rightarrow> Some (EACCES, s)
         | Some (b, this) \<Rightarrow> do {
             s \<leftarrow> on_file v (\<lambda>f. f\<lparr>f_flags := f_flags f OR ff_flags this\<rparr>) s;
             f \<leftarrow> files (pfs s) v;
             if ff_flags this AND O_HEAD \<noteq> 0 \<and> f_flags f AND O_CREAT = 0 then Some (EINTERNAL, s)
             else do {
               s \<leftarrow> upd_fifo b (\<lambda>x. x\<lparr>ff_flags := ff_flags x AND NOT O_HEAD\<rparr>) s;
               s \<leftarrow> on_file v (\<lambda>f. f\<lparr>f_flags := no_compat (f_flags f)\<rparr>) s;
               f \<leftarrow> files (pfs s) v;
               deny \<leftarrow> denyshare (ff_open this) f (pfs s);
               if deny then Some (EACCES, s)
               else do {
                 s \<leftarrow> upd_fifo b (\<lambda>x. x\<lparr>ff_open := v # ff_open x\<rparr>) s;
                 s \<leftarrow> count_open f this s;
                 s \<leftarrow> on_file v (\<lambda>f. f\<lparr>f_devinfo := ff_tty this\<rparr>) s;
                 s \<leftarrow> upd_fifo b (\<lambda>x. x\<lparr>ff_mtime := xtime s\<rparr>) s;
                 Some (E_OK, s) } } } }"

definition pipe_getdev :: "fcookie \<Rightarrow> pstate \<Rightarrow> bool option" where
  "pipe_getdev fc s =
    do { b \<leftarrow> pipe_lookupi (fc_index fc) s;
         case b of None \<Rightarrow> Some False | Some b \<Rightarrow> do { x \<leftarrow> fifo_at s b; Some (ff_flags x AND O_TTY \<noteq> 0) } }"

section \<open>Closing\<close>

definition wake_pipe :: "penv \<Rightarrow> u32 \<Rightarrow> (pipe \<Rightarrow> pptr option) \<Rightarrow> (pipe \<Rightarrow> pptr option) \<Rightarrow> pstate \<Rightarrow> pstate option" where
  "wake_pipe env a first second s =
    do { s \<leftarrow> on_kern (wake IO_Q a) s;
         p \<leftarrow> pipes s a;
         s \<leftarrow> wake_selecting env (first p) s;
         wake_selecting env (second p) s }"

text \<open>A master that was the last writer tells the process group of the terminal.\<close>

definition hang_up :: "fileptr \<Rightarrow> fifo \<Rightarrow> pipe \<Rightarrow> pstate \<Rightarrow> pstate option" where
  "hang_up f this p s =
    (if writers p = 0 \<and> is_terminal f \<and> is_head f \<and> tty_pgrp (tty_of s this) \<noteq> 0
     then on_kern (\<lambda>k. map_option snd (killgroup (tty_pgrp (tty_of s this)) SIGHUP True k)) s else Some s)"

definition drop_reader :: "pipe \<Rightarrow> pipe" where
  "drop_reader p = p\<lparr>readers := short_of (readers p - 1)\<rparr>"

definition drop_writer :: "pipe \<Rightarrow> pipe" where
  "drop_writer p = p\<lparr>writers := short_of (writers p - 1)\<rparr>"

text \<open>The counts when the last reference to the file is gone.\<close>

definition count_close :: "fileptr \<Rightarrow> fifo \<Rightarrow> pstate \<Rightarrow> pstate option" where
  "count_close f this s =
    do { s \<leftarrow> (if rw_reads f \<and> read_end f this \<noteq> 0 then upd_pipe (read_end f this) drop_reader s else Some s);
         s \<leftarrow> (if rw_writes f \<and> write_end f this \<noteq> 0 then
                 do { s \<leftarrow> upd_pipe (write_end f this) drop_writer s;
                      p \<leftarrow> pipes s (write_end f this);
                      hang_up f this p s }
               else Some s);
         (if is_head f \<and> ff_dosflags this AND FA_HIDDEN = 0 then upd_pipe (ff_inp this) drop_reader s else Some s) }"

definition last_close :: "penv \<Rightarrow> faddr \<Rightarrow> fileptr \<Rightarrow> u32 \<Rightarrow> fifo \<Rightarrow> int \<Rightarrow> pstate \<Rightarrow> pstate option" where
  "last_close env v f b this who s =
    do { s \<leftarrow> wake_pipe env (ff_inp this) p_rsel p_wsel s;
         s \<leftarrow> (if ff_outp this \<noteq> 0 then wake_pipe env (ff_outp this) p_wsel p_rsel s else Some s);
         if v \<notin> set (ff_open this) then None
         else do {
           s \<leftarrow> upd_fifo b (\<lambda>x. x\<lparr>ff_open := remove1 v (ff_open x)\<rparr>) s;
           s \<leftarrow> count_close f this s;
           (if f_flags f AND O_LOCK \<noteq> 0 \<and> ff_lockpid this = who then
              do { s \<leftarrow> upd_fifo b (\<lambda>x. x\<lparr>ff_flags := ff_flags x AND NOT O_LOCK\<rparr>) s; on_kern (wake IO_Q b) s }
            else Some s) } }"

definition no_virgin :: "pipe \<Rightarrow> pipe" where
  "no_virgin p =
    p\<lparr>readers := (if readers p = VIRGIN_PIPE then 0 else readers p),
      writers := (if writers p = VIRGIN_PIPE then 0 else writers p)\<rparr>"

definition dispose :: "u32 \<Rightarrow> fifo \<Rightarrow> pstate \<Rightarrow> pstate" where
  "dispose b this s =
    (free_pipe (ff_outp this) (free_pipe (ff_inp this) s))
      \<lparr>fifo_at := (fifo_at s)(b := None), piperoot := remove1 b (piperoot s), pipestamp := xtime s\<rparr>"

definition pipe_close :: "penv \<Rightarrow> faddr \<Rightarrow> int \<Rightarrow> pstate \<Rightarrow> (int \<times> pstate) option" where
  "pipe_close env v who s =
    do { (f, x) \<leftarrow> pipe_of v s;
         case x of
           None \<Rightarrow> Some (EBADF, s)
         | Some (b, this) \<Rightarrow> do {
             s \<leftarrow> (if f_links f \<le> 0 then last_close env v f b this who s else Some s);
             s \<leftarrow> upd_pipe (ff_inp this) no_virgin s;
             p \<leftarrow> pipes s (ff_inp this);
             Some (E_OK, if readers p \<le> 0 \<and> writers p \<le> 0 then dispose b this s else s) } }"

section \<open>Select\<close>

definition held :: "pstate \<Rightarrow> fifo \<Rightarrow> bool" where
  "held s this \<longleftrightarrow> tty_state (tty_of s this) AND TS_HOLD \<noteq> 0"

definition can_read :: "fileptr \<Rightarrow> fifo \<Rightarrow> pipe \<Rightarrow> pstate \<Rightarrow> bool" where
  "can_read f this p s \<longleftrightarrow>
    (p_len p > 0 \<and> (\<not> is_terminal f \<or> (if is_head f then \<not> held s this else enough_read p (tty_of s this)))) \<or>
    writers p \<le> 0"

definition can_write :: "fileptr \<Rightarrow> fifo \<Rightarrow> pipe \<Rightarrow> pstate \<Rightarrow> bool" where
  "can_write f this p s \<longleftrightarrow>
    (p_len p < PIPESIZ \<and> (\<not> is_terminal f \<or> is_head f \<or> \<not> held s this)) \<or> readers p \<le> 0"

text \<open>1 is ready, 2 a second process that selects, 0 a process that has to wait.\<close>

definition pipe_select :: "faddr \<Rightarrow> pptr \<Rightarrow> u16 \<Rightarrow> pstate \<Rightarrow> (int \<times> pstate) option" where
  "pipe_select v q m s =
    do { (f, x) \<leftarrow> pipe_of v s;
         case x of
           None \<Rightarrow> Some (EBADF, s)
         | Some (b, this) \<Rightarrow>
             if m = O_RDONLY then
               (if read_end f this = 0 then Some (0, s)
                else do {
                  p \<leftarrow> pipes s (read_end f this);
                  if can_read f this p s then Some (1, s)
                  else if p_rsel p \<noteq> None then Some (2, s)
                  else (let s = set_pipe (read_end f this) (p\<lparr>p_rsel := Some q\<rparr>) s
                        in Some (0, if is_terminal f \<and> \<not> is_head f
                                    then on_tty (ff_tty this) (\<lambda>y. y\<lparr>tty_rsel := Some q\<rparr>) s else s)) })
             else if m = O_WRONLY then
               (if write_end f this = 0 then Some (0, s)
                else do {
                  p \<leftarrow> pipes s (write_end f this);
                  if can_write f this p s then Some (1, s)
                  else if p_wsel p \<noteq> None then Some (2, s)
                  else (let s = set_pipe (write_end f this) (p\<lparr>p_wsel := Some q\<rparr>) s
                        in Some (0, if is_terminal f \<and> \<not> is_head f
                                    then on_tty (ff_tty this) (\<lambda>y. y\<lparr>tty_wsel := Some q\<rparr>) s else s)) })
             else Some (0, s) }"

definition pipe_unselect :: "faddr \<Rightarrow> pptr \<Rightarrow> u16 \<Rightarrow> pstate \<Rightarrow> pstate option" where
  "pipe_unselect v q m s =
    do { (f, x) \<leftarrow> pipe_of v s;
         case x of
           None \<Rightarrow> Some s
         | Some (b, this) \<Rightarrow>
             if m = O_RDONLY then
               (if read_end f this = 0 then Some s
                else do {
                  p \<leftarrow> pipes s (read_end f this);
                  if p_rsel p = Some q then
                    (let s = set_pipe (read_end f this) (p\<lparr>p_rsel := None\<rparr>) s
                     in Some (if is_terminal f \<and> \<not> is_head f then on_tty (ff_tty this) (\<lambda>y. y\<lparr>tty_rsel := None\<rparr>) s else s))
                  else Some s })
             else if m = O_WRONLY then
               (if write_end f this = 0 then Some s
                else do {
                  p \<leftarrow> pipes s (write_end f this);
                  if p_wsel p = Some q then
                    (let s = set_pipe (write_end f this) (p\<lparr>p_wsel := None\<rparr>) s
                     in Some (if is_terminal f \<and> \<not> is_head f then on_tty (ff_tty this) (\<lambda>y. y\<lparr>tty_wsel := None\<rparr>) s else s))
                  else Some s })
             else Some s }"

section \<open>File control\<close>

datatype ioctl_req =
    Fionread | Fionwrite | Fioexcept
  | Setlk bool flock | Getlk flock
  | Sstateb u32 u32 | Hpcl | Gvmin | Svmin u16 u16 | Start | Flush "u32 option" | Outq | Baud | Gflags
  | Cursoff | Curson | Cursrate int | Cursblink | Curssteady | Cursgrate
  | Other u16

datatype ioctl_reply = Nothing | Number int | Lock flock | Words u16 u16

datatype ioctl_out = I_ret int ioctl_reply pstate | I_wait u32 pstate

text \<open>\<open>FIONREAD\<close>, \<open>FIONWRITE\<close> and \<open>TIOCOUTQ\<close>: the bytes of a terminal's master pipe count in longs.\<close>

definition fionread :: "fileptr \<Rightarrow> fifo \<Rightarrow> pstate \<Rightarrow> (int + int) option" where
  "fionread f this s =
    (if read_end f this = 0 then Some (Inl ENOSYS)
     else do {
       p \<leftarrow> pipes s (read_end f this);
       Some (Inr (if p_len p = 0 then (if no_writer p then - 1 else 0)
                  else if is_terminal f then
                    (if \<not> is_head f then int (p_len p) div 4 else if held s this then 0 else int (p_len p))
                  else int (p_len p))) })"

definition fionwrite :: "fileptr \<Rightarrow> fifo \<Rightarrow> pstate \<Rightarrow> (int + int) option" where
  "fionwrite f this s =
    (if write_end f this = 0 then Some (Inl ENOSYS)
     else do {
       p \<leftarrow> pipes s (write_end f this);
       let r = int PIPESIZ - int (p_len p);
       Some (Inr (if readers p \<le> 0 then - 1
                  else if is_terminal f then (if is_head f then r div 4 else if held s this then 0 else r)
                  else r)) })"

definition outq :: "fileptr \<Rightarrow> fifo \<Rightarrow> pstate \<Rightarrow> (int + int) option" where
  "outq f this s =
    (if write_end f this = 0 then Some (Inl EBADF)
     else do {
       p \<leftarrow> pipes s (write_end f this);
       Some (Inr (if readers p \<le> 0 then - 1
                  else if is_terminal f \<and> is_head f then int (p_len p) div 4 else int (p_len p))) })"

definition number_reply :: "pstate \<Rightarrow> int + int \<Rightarrow> ioctl_out" where
  "number_reply s r = (case r of Inl e \<Rightarrow> I_ret e Nothing s | Inr n \<Rightarrow> I_ret E_OK (Number n) s)"

text \<open>The lock of the whole pipe; a call that may wait sleeps on the address of the fifo and starts again.\<close>

definition pipe_setlk :: "faddr \<Rightarrow> u32 \<Rightarrow> bool \<Rightarrow> flock \<Rightarrow> pstate \<Rightarrow> ioctl_out option" where
  "pipe_setlk v b may_wait lck s =
    do { f \<leftarrow> files (pfs s) v;
         this \<leftarrow> fifo_at s b;
         if ff_flags this AND O_LOCK \<noteq> 0 \<and> ff_lockpid this \<noteq> pid (proc_of (pkern s)) then
           Some (if may_wait \<and> l_type lck \<noteq> F_UNLCK then I_wait b s else I_ret ELOCKED Nothing s)
         else if l_type lck = F_UNLCK then
           (if f_flags f AND O_LOCK = 0 then Some (I_ret ENSLOCK Nothing s)
            else do {
              s \<leftarrow> upd_fifo b (\<lambda>x. x\<lparr>ff_flags := ff_flags x AND NOT O_LOCK, ff_lockpid := 0\<rparr>) s;
              s \<leftarrow> on_file v (\<lambda>f. f\<lparr>f_flags := f_flags f AND NOT O_LOCK\<rparr>) s;
              s \<leftarrow> on_kern (wake IO_Q b) s;
              Some (I_ret E_OK Nothing s) })
         else do {
           s \<leftarrow> upd_fifo b (\<lambda>x. x\<lparr>ff_flags := ff_flags x OR O_LOCK, ff_lockpid := pid (proc_of (pkern s))\<rparr>) s;
           s \<leftarrow> on_file v (\<lambda>f. f\<lparr>f_flags := f_flags f OR O_LOCK\<rparr>) s;
           Some (I_ret E_OK Nothing s) } }"

definition pipe_getlk :: "fifo \<Rightarrow> flock \<Rightarrow> flock" where
  "pipe_getlk this lck =
    (if ff_flags this AND O_LOCK \<noteq> 0
     then lck\<lparr>l_type := F_WRLCK, l_start := 0, l_len := 0, l_pid := of_int (ff_lockpid this)\<rparr>
     else lck\<lparr>l_type := F_UNLCK\<rparr>)"

text \<open>The state of a terminal: only the bits of the mask change, never those of \<open>TS_HOLD\<close>, \<open>TS_BLIND\<close>, \<open>TS_HPCL\<close>.\<close>

definition sstateb :: "u32 \<Rightarrow> u32 \<Rightarrow> tty \<Rightarrow> tty" where
  "sstateb val msk x =
    (let msk = msk AND NOT 0x5800;
         msk = (if sg_flags x AND 0x200 = 0 then msk AND NOT 0xff else msk)
     in if val \<noteq> - 1 then x\<lparr>tty_state := ucast ((scast (tty_state x) AND NOT msk) OR (val AND msk))\<rparr> else x)"

definition empty_pipe :: "pipe \<Rightarrow> pipe" where
  "empty_pipe p = p\<lparr>p_start := 0, p_len := 0\<rparr>"

definition pipe_flush :: "penv \<Rightarrow> fileptr \<Rightarrow> fifo \<Rightarrow> u32 option \<Rightarrow> pstate \<Rightarrow> pstate option" where
  "pipe_flush env f this which s =
    (let t = (case which of None \<Rightarrow> 3 | Some w \<Rightarrow> if w AND 3 = 0 then 3 else w)
     in do {
       s \<leftarrow> (if t AND 1 \<noteq> 0 \<and> ff_inp this \<noteq> 0 then
               do { s \<leftarrow> upd_pipe (ff_inp this) empty_pipe s; on_kern (wake IO_Q (ff_inp this)) s }
             else Some s);
       (if t AND 2 \<noteq> 0 \<and> ff_outp this \<noteq> 0 then
          do { s \<leftarrow> upd_pipe (ff_outp this) empty_pipe s;
               if \<not> is_terminal f \<or> is_head f \<or> \<not> held s this then
                 do { s \<leftarrow> on_kern (wake IO_Q (ff_outp this)) s;
                      p \<leftarrow> pipes s (ff_outp this);
                      wake_selecting env (p_wsel p) s }
               else Some s }
        else Some s) })"

definition pipe_start :: "penv \<Rightarrow> fileptr \<Rightarrow> fifo \<Rightarrow> pstate \<Rightarrow> pstate option" where
  "pipe_start env f this s =
    (if is_terminal f \<and> \<not> is_head f \<and> ff_outp this \<noteq> 0 then
       do { p \<leftarrow> pipes s (ff_outp this); if p_len p > 0 then wake_selecting env (p_rsel p) s else Some s }
     else Some s)"

text \<open>An escape sequence that ends in characters computed from the state after the escape was sent.\<close>

definition send_cursor :: "penv \<Rightarrow> faddr \<Rightarrow> int list \<Rightarrow> pstate \<Rightarrow> pstate" where
  "send_cursor env v cs s = fold (pe_putchar env v) cs s"

definition blink :: "penv \<Rightarrow> faddr \<Rightarrow> u32 \<Rightarrow> pstate \<Rightarrow> ioctl_out option" where
  "blink env v b s =
    (let s = send_cursor env v [116] s
     in do { this \<leftarrow> fifo_at s b; Some (I_ret E_OK Nothing (send_cursor env v [ff_cursrate this + 32] s)) })"

definition pipe_ioctl :: "penv \<Rightarrow> faddr \<Rightarrow> ioctl_req \<Rightarrow> pstate \<Rightarrow> ioctl_out option" where
  "pipe_ioctl env v req s =
    do { (f, x) \<leftarrow> pipe_of v s;
         case x of
           None \<Rightarrow> Some (I_ret EBADF Nothing s)
         | Some (b, this) \<Rightarrow>
             (let a = ff_tty this; done = (\<lambda>s. I_ret E_OK Nothing s); no_tty = (\<not> is_terminal f \<or> a = 0)
              in case req of
                   Fionread \<Rightarrow> map_option (number_reply s) (fionread f this s)
                 | Fionwrite \<Rightarrow> map_option (number_reply s) (fionwrite f this s)
                 | Fioexcept \<Rightarrow> Some (I_ret E_OK (Number 0) s)
                 | Setlk may_wait lck \<Rightarrow> pipe_setlk v b may_wait lck s
                 | Getlk lck \<Rightarrow> Some (I_ret E_OK (Lock (pipe_getlk this lck)) s)
                 | Sstateb val msk \<Rightarrow>
                     if no_tty then Some (I_ret ENOSYS Nothing s)
                     else (let s = on_tty a (sstateb val msk) s
                           in Some (I_ret E_OK (Number (sint (tty_state (tty_of s this)))) s))
                 | Hpcl \<Rightarrow> Some (done s)
                 | Gvmin \<Rightarrow>
                     if no_tty then Some (I_ret ENOSYS Nothing s)
                     else Some (I_ret E_OK (Words (vmin (tty_of s this)) (vtime (tty_of s this))) s)
                 | Svmin m t \<Rightarrow>
                     if no_tty then Some (I_ret ENOSYS Nothing s)
                     else Some (done (on_tty a (\<lambda>x. x\<lparr>vmin := (if m > 1024 then 1024 else m), vtime := t\<rparr>) s))
                 | Start \<Rightarrow> map_option done (pipe_start env f this s)
                 | Flush which \<Rightarrow> map_option done (pipe_flush env f this which s)
                 | Outq \<Rightarrow> map_option (number_reply s) (outq f this s)
                 | Baud \<Rightarrow> Some (I_ret E_OK (Number (- 1)) s)
                 | Gflags \<Rightarrow> Some (I_ret E_OK (Number 0) s)
                 | Cursoff \<Rightarrow> Some (done (send_cursor env v [27, 102] s))
                 | Curson \<Rightarrow> Some (done (send_cursor env v [27, 101] s))
                 | Cursrate r \<Rightarrow>
                     do { s \<leftarrow> upd_fifo b (\<lambda>x. x\<lparr>ff_cursrate := r\<rparr>) (send_cursor env v [27] s); blink env v b s }
                 | Cursblink \<Rightarrow> blink env v b (send_cursor env v [27] s)
                 | Curssteady \<Rightarrow> Some (done (send_cursor env v [27, 116, 32] s))
                 | Cursgrate \<Rightarrow> Some (I_ret (ff_cursrate this) (Number (ff_cursrate this)) s)
                 | Other m \<Rightarrow> Some (I_ret ENOSYS Nothing s)) }"

definition pipe_setlk_resume :: "faddr \<Rightarrow> u32 \<Rightarrow> int \<Rightarrow> flock \<Rightarrow> pstate \<Rightarrow> ioctl_out option" where
  "pipe_setlk_resume v b r lck s = (if r \<noteq> 0 then Some (I_ret EINTR Nothing s) else pipe_setlk v b True lck s)"

section \<open>Times and directories\<close>

datatype datime_req = Get_time | Set_time u32 | Bad_time

definition pipe_datime :: "faddr \<Rightarrow> datime_req \<Rightarrow> pstate \<Rightarrow> (int \<times> u32 option \<times> pstate) option" where
  "pipe_datime v req s =
    do { (f, x) \<leftarrow> pipe_of v s;
         case x of
           None \<Rightarrow> Some (EBADF, None, s)
         | Some (b, this) \<Rightarrow>
             (case req of
                Get_time \<Rightarrow> Some (E_OK, Some (ff_mtime this), s)
              | Set_time t \<Rightarrow> do { s \<leftarrow> upd_fifo b (\<lambda>x. x\<lparr>ff_mtime := t\<rparr>) s; Some (E_OK, None, s) }
              | Bad_time \<Rightarrow> Some (EBADARG, None, s)) }"

text \<open>
  A directory stream has a position. An entry is its cookie and, when the stream was not opened for
  \<open>Fsfirst\<close>, four bytes with its index before the name.
\<close>

definition pipe_opendir :: "fcookie \<Rightarrow> nat \<Rightarrow> int \<times> nat" where
  "pipe_opendir fc pos = (if fc_index fc \<noteq> ROOT_INODE then (ENOTDIR, pos) else (E_OK, 0))"

definition dir_entry :: "fcookie \<Rightarrow> nat \<Rightarrow> pstate \<Rightarrow> (u8 list \<times> u32) option option" where
  "dir_entry dir i s =
    (if i = 0 then Some (Some ([46, 0], ROOT_INODE))
     else if i = 1 then Some (Some ([46, 46, 0], fc_index dir))
     else if i - 2 < length (piperoot s) then
       map_option (\<lambda>x. Some (ff_name x, ff_ino x)) (fifo_at s (piperoot s ! (i - 2)))
     else Some None)"

definition pipe_readdir ::
  "penv \<Rightarrow> fcookie \<Rightarrow> nat \<Rightarrow> bool \<Rightarrow> int \<Rightarrow> pstate \<Rightarrow> (nat \<times> (int + (fcookie \<times> u32 option \<times> u8 list))) option" where
  "pipe_readdir env dir pos tos_search namelen s =
    do { entry \<leftarrow> dir_entry dir pos s;
         case entry of
           None \<Rightarrow> Some (Suc pos, Inl ENMFILES)
         | Some (thisname, i) \<Rightarrow>
             (let namelen = (if tos_search then namelen else namelen - 4)
              in if \<not> tos_search \<and> namelen \<le> 0 then Some (Suc pos, Inl EBADARG)
                 else map_option (\<lambda>r. (Suc pos, case r of Inl e \<Rightarrow> Inl e | Inr name \<Rightarrow>
                   Inr (\<lparr>fc_fs = pe_filesys env, fc_dev = fc_dev dir, fc_index = i\<rparr>,
                        if tos_search then None else Some i, name))) (copy_name thisname namelen)) }"

text \<open>\<open>pipe_dfree\<close> counts the pipes; the free memory of the kernel is an argument.\<close>

definition pipe_dfree :: "int \<Rightarrow> pstate \<Rightarrow> int list option" where
  "pipe_dfree freemem s =
    (if list_ex (\<lambda>b. fifo_at s b = None) (piperoot s) then None
     else (let n = sum_list (map (\<lambda>b. case fifo_at s b of None \<Rightarrow> 0
                 | Some x \<Rightarrow> (if ff_inp x \<noteq> 0 then 1 else 0) + (if ff_outp x \<noteq> 0 then 1 else 0)) (piperoot s))
           in Some [freemem div 4096, freemem div 4096 + n, 4096, 1]))"

end
