(* ===== verification/Pipe_Data.thy ===== *)
theory Pipe_Data
  imports Pipe_Fs
begin

text \<open>
  What reading and writing do to the bytes of a pipe. \<open>byte_channel\<close> is the contract of a bounded
  channel: putting appends a prefix of the data, getting takes a prefix of the content. The ring buffer
  of a pipe is an interpretation, and the loops of \<open>pipe_write\<close> and \<open>pipe_read\<close> are runs of it.
\<close>

section \<open>The contract of a byte channel\<close>

locale byte_channel =
  fixes chan_ok :: "'c \<Rightarrow> bool"
    and content :: "'c \<Rightarrow> 'b list"
    and cap :: nat
    and put :: "'b list \<Rightarrow> 'c \<Rightarrow> 'b list \<times> 'c"
    and get :: "nat \<Rightarrow> 'c \<Rightarrow> 'b list \<times> 'c"
  assumes put_law: "chan_ok c \<Longrightarrow> chan_ok (snd (put d c)) \<and>
      content (snd (put d c)) = content c @ take (cap - length (content c)) d \<and>
      fst (put d c) = drop (cap - length (content c)) d"
    and get_law: "chan_ok c \<Longrightarrow> chan_ok (snd (get n c)) \<and>
      fst (get n c) = take n (content c) \<and> content (snd (get n c)) = drop n (content c)"
    and cap_law: "chan_ok c \<Longrightarrow> length (content c) \<le> cap"
begin

inductive moves :: "'c \<Rightarrow> 'b list \<Rightarrow> 'b list \<Rightarrow> 'c \<Rightarrow> bool" where
  moves_none: "moves c [] [] c"
| moves_put: "moves c ins outs c1 \<Longrightarrow> moves c (ins @ take (cap - length (content c1)) d) outs (snd (put d c1))"
| moves_get: "moves c ins outs c1 \<Longrightarrow> moves c ins (outs @ fst (get n c1)) (snd (get n c1))"

lemma moves_fifo: "moves c ins outs c' \<Longrightarrow> chan_ok c \<Longrightarrow> chan_ok c' \<and> content c @ ins = outs @ content c'"
proof (induction rule: moves.induct)
  case (moves_put c ins outs c1 d)
  then show ?case using put_law[of c1 d] by simp
next
  case (moves_get c ins outs c1 n)
  then show ?case using get_law[of c1 n] by simp
qed simp

lemma moves_trans:
  assumes "moves c1 i2 o2 c2" "moves c i1 o1 c1"
  shows "moves c (i1 @ i2) (o1 @ o2) c2"
  using assms
proof (induction rule: moves.induct)
  case (moves_put c ins outs c1 d)
  then show ?case using byte_channel.moves.moves_put[OF byte_channel_axioms, of _ "i1 @ ins"] by simp
next
  case (moves_get c ins outs c1 n)
  then show ?case using byte_channel.moves.moves_get[OF byte_channel_axioms, of _ _ "o1 @ outs"] by simp
qed simp

lemma put_moves: "moves c (take (cap - length (content c)) d) [] (snd (put d c))"
  using moves_put[OF moves_none, of c d] by simp

lemma get_moves: "moves c [] (fst (get n c)) (snd (get n c))"
  using moves_get[OF moves_none, of c n] by simp

lemma moves_ok: "moves c ins outs c' \<Longrightarrow> chan_ok c \<Longrightarrow> chan_ok c'"
  using moves_fifo by blast

end

section \<open>The ring buffer is a byte channel\<close>

definition pipe_ok :: "pipe \<Rightarrow> bool" where
  "pipe_ok p \<longleftrightarrow> p_start p < PIPESIZ \<and> p_len p \<le> PIPESIZ \<and> length (p_buf p) = PIPESIZ"

definition pipe_data :: "pipe \<Rightarrow> u8 list" where
  "pipe_data p = map (\<lambda>i. p_buf p ! ((p_start p + i) mod PIPESIZ)) [0..<p_len p]"

lemma pipe_data_length [simp]: "length (pipe_data p) = p_len p"
  by (simp add: pipe_data_def)

lemma pipe_data_nth: "i < p_len p \<Longrightarrow> pipe_data p ! i = p_buf p ! ((p_start p + i) mod PIPESIZ)"
  by (simp add: pipe_data_def)

lemma overwrite_length: "i + length d \<le> length b \<Longrightarrow> length (overwrite i d b) = length b"
  by (simp add: overwrite_def)

lemma overwrite_nth:
  "i + length d \<le> length b \<Longrightarrow> k < length b \<Longrightarrow> overwrite i d b ! k = (if i \<le> k \<and> k < i + length d then d ! (k - i) else b ! k)"
  by (auto simp: overwrite_def nth_append)

text \<open>A position of the ring: the sum of the start and an offset below the size, reduced once.\<close>

lemma ring_pos: "s < (n::nat) \<Longrightarrow> i \<le> n \<Longrightarrow> (s + i) mod n = (if s + i < n then s + i else s + i - n)"
  by (auto simp: le_mod_geq)

text \<open>The two parts of a write into the ring: up to its end, then from its beginning.\<close>

definition first_part :: "pipe \<Rightarrow> nat \<Rightarrow> nat" where
  "first_part p n = min (min (PIPESIZ - (p_start p + p_len p) mod PIPESIZ) n) (PIPESIZ - p_len p)"

lemma min_if: "(if (a::nat) > b then b else a) = min a b"
  by simp

lemma overwrite_none [simp]: "overwrite i [] b = b"
  by (simp add: overwrite_def)

lemma put_chunk_eq:
  assumes "p_len p \<le> PIPESIZ"
  shows "put_chunk d p =
    (drop (PIPESIZ - p_len p) d,
     p\<lparr>p_buf := overwrite 0 (take (PIPESIZ - p_len p - first_part p (length d)) (drop (first_part p (length d)) d))
         (overwrite ((p_start p + p_len p) mod PIPESIZ) (take (first_part p (length d)) d) (p_buf p)),
       p_len := p_len p + min (PIPESIZ - p_len p) (length d)\<rparr>)"
proof -
  define j where "j = first_part p (length d)"
  have j: "j \<le> length d" "j \<le> PIPESIZ - p_len p" by (simp_all add: j_def first_part_def)
  have e: "put_chunk d p =
    (let buf = overwrite ((p_start p + p_len p) mod PIPESIZ) (take j d) (p_buf p); data = drop j d; plen = p_len p + j
     in if data \<noteq> [] \<and> plen < PIPESIZ then
          (drop (min (PIPESIZ - plen) (length data)) data,
           p\<lparr>p_buf := overwrite 0 (take (min (PIPESIZ - plen) (length data)) data) buf,
             p_len := plen + min (PIPESIZ - plen) (length data)\<rparr>)
        else (data, p\<lparr>p_buf := buf, p_len := plen\<rparr>))"
    unfolding put_chunk_def j_def first_part_def Let_def min_if ..
  show ?thesis
  proof (cases "j < length d \<and> p_len p + j < PIPESIZ")
    case True
    then have c: "drop j d \<noteq> [] \<and> p_len p + j < PIPESIZ" by simp
    have m: "min (PIPESIZ - (p_len p + j)) (length (drop j d)) = min (PIPESIZ - p_len p) (length d) - j"
      using j by (simp add: min_def)
    have "drop (min (PIPESIZ - (p_len p + j)) (length (drop j d))) (drop j d) = drop (PIPESIZ - p_len p) d"
      unfolding m using j by (simp add: min_def)
    moreover have "take (min (PIPESIZ - (p_len p + j)) (length (drop j d))) (drop j d) = take (PIPESIZ - p_len p - j) (drop j d)"
      unfolding m using j by (simp add: min_def)
    moreover have "p_len p + j + min (PIPESIZ - (p_len p + j)) (length (drop j d)) = p_len p + min (PIPESIZ - p_len p) (length d)"
      unfolding m using j by simp
    ultimately show ?thesis unfolding e j_def[symmetric] Let_def if_P[OF c] by (simp only:)
  next
    case False
    then have "j = length d \<or> j = PIPESIZ - p_len p" using j assms by auto
    then have "take (PIPESIZ - p_len p - j) (drop j d) = []" "drop j d = drop (PIPESIZ - p_len p) d"
        "j = min (PIPESIZ - p_len p) (length d)" using j by auto
    then show ?thesis using False unfolding e j_def[symmetric] by (auto simp: Let_def)
  qed
qed

text \<open>A transfer in two parts: \<open>a\<close> bytes to the end of the ring, \<open>b\<close> in all, \<open>n\<close> wanted.\<close>

lemma two_parts:
  assumes "j = min (min a n) b" "l = min (b - j) (n - j :: nat)"
  shows "j \<le> a" "l + j = min b n" "l = 0 \<or> j = a"
proof -
  show "j \<le> a" using assms(1) by simp
  have "j \<le> b" "j \<le> n" using assms(1) by simp_all
  then show "l + j = min b n" unfolding assms(2) by linarith
  have "j = a \<or> j = n \<or> j = b" unfolding assms(1) by (simp add: min_def)
  then show "l = 0 \<or> j = a" unfolding assms(2) by auto
qed

text \<open>Where they lie: \<open>j\<close> bytes from \<open>off\<close> on, \<open>l\<close> bytes at the beginning.\<close>

lemma parts:
  fixes start plen n m i :: nat
  assumes "start < N" "plen \<le> N" "off = (start + plen) mod N" "0 < N"
    "j = min (min (N - off) n) (N - plen)" "l = min (N - plen - j) (n - j)" "q = (start + i) mod N"
  shows "off + j \<le> N" "i < plen \<Longrightarrow> \<not> q < l \<and> \<not> (off \<le> q \<and> q < off + j)"
    "plen \<le> i \<Longrightarrow> i < plen + min (N - plen) n \<Longrightarrow> \<not> q < l \<Longrightarrow> off \<le> q \<and> q < off + j \<and> q - off = i - plen"
    "plen \<le> i \<Longrightarrow> i < plen + min (N - plen) n \<Longrightarrow> q < l \<Longrightarrow> j + q = i - plen"
proof -
  note tp = two_parts[OF assms(5,6)]
  have off: "off = (if start + plen < N then start + plen else start + plen - N)"
    unfolding assms(3) by (rule ring_pos[OF assms(1,2)])
  have "off < N" unfolding assms(3) by (rule mod_less_divisor[OF assms(4)])
  note off = off this
  have jo: "j + off \<le> N" "l + j + plen \<le> N" "l = 0 \<or> j + off = N" using tp off(2) assms(2) by auto
  then show "off + j \<le> N" by simp
  have q: "q = (if start + i < N then start + i else start + i - N)" if "i \<le> N"
    using assms(1,7) that ring_pos[of start N i] by simp
  show "\<not> q < l \<and> \<not> (off \<le> q \<and> q < off + j)" if i: "i < plen"
    using q i assms(1,2) off(1) jo by (cases "start + plen < N"; cases "start + i < N"; cases "l = 0") auto
  have i: "i < plen + (l + j)" "i \<le> N" if "i < plen + min (N - plen) n"
    using that assms(2) unfolding tp(2) by simp_all
  show "off \<le> q \<and> q < off + j \<and> q - off = i - plen" if "plen \<le> i" "i < plen + min (N - plen) n" "\<not> q < l"
    using q i[OF that(2)] that(1,3) assms(1,2) off(1) jo
    by (cases "start + plen < N"; cases "start + i < N"; cases "l = 0") auto
  show "j + q = i - plen" if "plen \<le> i" "i < plen + min (N - plen) n" "q < l"
    using q i[OF that(2)] that(1,3) assms(1,2) off(1) jo
    by (cases "start + plen < N"; cases "start + i < N"; cases "l = 0") auto
qed

lemma put_chunk_law:
  assumes "pipe_ok p"
  shows "pipe_ok (snd (put_chunk d p))" "pipe_data (snd (put_chunk d p)) = pipe_data p @ take (PIPESIZ - p_len p) d"
    "fst (put_chunk d p) = drop (PIPESIZ - p_len p) d"
proof -
  define off j l where "off = (p_start p + p_len p) mod PIPESIZ" and "j = first_part p (length d)"
    and "l = min (PIPESIZ - p_len p - j) (length d - j)"
  define buf1 where "buf1 = overwrite off (take j d) (p_buf p)"
  define buf where "buf = overwrite 0 (take (PIPESIZ - p_len p - j) (drop j d)) buf1"
  define m where "m = min (PIPESIZ - p_len p) (length d)"
  have ok: "p_start p < PIPESIZ" "p_len p \<le> PIPESIZ" "length (p_buf p) = PIPESIZ"
    using assms by (simp_all add: pipe_ok_def)
  have eq: "put_chunk d p = (drop (PIPESIZ - p_len p) d, p\<lparr>p_buf := buf, p_len := p_len p + m\<rparr>)"
    unfolding put_chunk_eq[OF ok(2)] off_def[symmetric] j_def[symmetric] buf1_def buf_def m_def ..
  have j: "j = min (min (PIPESIZ - off) (length d)) (PIPESIZ - p_len p)" by (simp add: j_def first_part_def off_def)
  have N: "0 < PIPESIZ" by simp
  note part = parts[OF ok(1,2) off_def N j l_def]
  have len1: "off + length (take j d) \<le> length (p_buf p)" using part(1)[OF refl] ok(3) by simp
  have buf1: "length buf1 = PIPESIZ" unfolding buf1_def by (simp add: overwrite_length[OF len1] ok(3))
  have l: "length (take (PIPESIZ - p_len p - j) (drop j d)) = l" by (simp add: l_def min.commute)
  have len2: "0 + length (take (PIPESIZ - p_len p - j) (drop j d)) \<le> length buf1"
    unfolding l buf1 by (simp add: l_def)
  have buf: "length buf = PIPESIZ" unfolding buf_def overwrite_length[OF len2] by (rule buf1)
  show "pipe_ok (snd (put_chunk d p))" using ok buf by (simp add: eq pipe_ok_def m_def)
  show "fst (put_chunk d p) = drop (PIPESIZ - p_len p) d" by (simp add: eq)
  have at: "buf ! q = (if q < l then d ! (j + q) else if off \<le> q \<and> q < off + j then d ! (q - off) else p_buf p ! q)"
    if "q < PIPESIZ" for q
  proof -
    have lj: "j \<le> length d" "l \<le> length d - j" by (simp_all add: j l_def)
    show ?thesis
      using that lj buf1 overwrite_nth[OF len2, of q] overwrite_nth[OF len1, of q] ok(3)
      unfolding buf_def[symmetric] buf1_def[symmetric] l by (auto simp: min_def l_def)
  qed
  show "pipe_data (snd (put_chunk d p)) = pipe_data p @ take (PIPESIZ - p_len p) d"
  proof (rule nth_equalityI)
    show "length (pipe_data (snd (put_chunk d p))) = length (pipe_data p @ take (PIPESIZ - p_len p) d)"
      by (simp add: eq m_def)
    fix i assume "i < length (pipe_data (snd (put_chunk d p)))"
    then have i: "i < p_len p + min (PIPESIZ - p_len p) (length d)" by (simp add: eq m_def)
    define q where "q = (p_start p + i) mod PIPESIZ"
    have "pipe_data (snd (put_chunk d p)) ! i = buf ! q" using i by (simp add: eq m_def pipe_data_nth q_def)
    also have "\<dots> = (pipe_data p @ take (PIPESIZ - p_len p) d) ! i"
    proof (cases "i < p_len p")
      case True
      have "q < PIPESIZ" by (simp add: q_def)
      then have "buf ! q = p_buf p ! q" using part(2)[OF q_def True] by (auto simp: at)
      then show ?thesis using True by (simp add: nth_append pipe_data_nth q_def)
    next
      case False
      then have ge: "p_len p \<le> i" by simp
      have "buf ! q = d ! (i - p_len p)"
      proof (cases "q < l")
        case True
        then show ?thesis using part(4)[OF q_def ge i True] at[of q] by (simp add: q_def)
      next
        case False
        then show ?thesis using part(3)[OF q_def ge i False] at[of q] by (simp add: q_def)
      qed
      then show ?thesis using ge i by (simp add: nth_append)
    qed
    finally show "pipe_data (snd (put_chunk d p)) ! i = (pipe_data p @ take (PIPESIZ - p_len p) d) ! i" .
  qed
qed

lemma get_chunk_law:
  assumes "pipe_ok p"
  shows "pipe_ok (snd (get_chunk n p))" "fst (get_chunk n p) = take n (pipe_data p)"
    "pipe_data (snd (get_chunk n p)) = drop n (pipe_data p)"
proof -
  define j where "j = min (min (PIPESIZ - p_start p) n) (p_len p)"
  define l where "l = min (p_len p - j) (n - j)"
  have ok: "p_start p < PIPESIZ" "p_len p \<le> PIPESIZ" "length (p_buf p) = PIPESIZ"
    using assms by (simp_all add: pipe_ok_def)
  note tp = two_parts[OF j_def l_def]
  have l0: "l = 0 \<or> j = PIPESIZ - p_start p" by (rule tp(3))
  have jl: "j + l = min n (p_len p)" "j \<le> PIPESIZ - p_start p" using tp(1,2) by (simp_all add: min.commute)
  define st where "st = (if l = 0 then p_start p + j else l)"
  have eq: "get_chunk n p = (take j (drop (p_start p) (p_buf p)) @ take l (p_buf p),
      p\<lparr>p_len := p_len p - (j + l), p_start := (if p_len p - (j + l) = 0 \<or> st = PIPESIZ then 0 else st)\<rparr>)"
  proof -
    have "(if n - j > 0 \<and> p_len p - j > 0 then (take (min (p_len p - j) (n - j)) (p_buf p), p_len p - j - min (p_len p - j) (n - j), min (p_len p - j) (n - j))
        else ([], p_len p - j, p_start p + j)) = (take l (p_buf p), p_len p - (j + l), st)"
      by (auto simp: l_def st_def min_def)
    then show ?thesis unfolding get_chunk_def Let_def min_if j_def[symmetric] by simp
  qed
  have st: "st \<le> PIPESIZ" using jl ok by (auto simp: st_def)
  have pos: "(if st = PIPESIZ then 0 else st) = (p_start p + (j + l)) mod PIPESIZ"
    using l0 jl ok st by (cases "l = 0") (auto simp: st_def le_mod_geq)
  have at: "(take j (drop (p_start p) (p_buf p)) @ take l (p_buf p)) ! i = pipe_data p ! i" if i: "i < j + l" for i
  proof (cases "i < j")
    case True
    then show ?thesis using i jl ok by (simp add: nth_append pipe_data_nth)
  next
    case False
    then have "j = PIPESIZ - p_start p" using l0 i by auto
    moreover have "i \<le> PIPESIZ" using i jl ok by simp
    ultimately have "(p_start p + i) mod PIPESIZ = i - j" using False ok ring_pos[of "p_start p" PIPESIZ i] by auto
    moreover have "i - j < l" using i False by linarith
    moreover have "i < p_len p" using i jl(1) by simp
    ultimately show ?thesis using False jl ok by (simp add: nth_append pipe_data_nth)
  qed
  have ln: "length (take j (drop (p_start p) (p_buf p)) @ take l (p_buf p)) = j + l"
    using jl ok by simp
  show "fst (get_chunk n p) = take n (pipe_data p)"
    using at ln jl by (intro nth_equalityI) (simp_all add: eq)
  show "pipe_ok (snd (get_chunk n p))" using ok st by (auto simp: eq pipe_ok_def)
  show "pipe_data (snd (get_chunk n p)) = drop n (pipe_data p)"
  proof (rule nth_equalityI)
    show "length (pipe_data (snd (get_chunk n p))) = length (drop n (pipe_data p))" using jl by (simp add: eq)
    fix i assume "i < length (pipe_data (snd (get_chunk n p)))"
    then have i: "i < p_len p - (j + l)" by (simp add: eq)
    then have jn: "j + l = n" using jl by auto
    let ?p = "snd (get_chunk n p)"
    have "p_len p - (j + l) \<noteq> 0" using i by linarith
    then have f: "p_len ?p = p_len p - (j + l)" "p_start ?p = (p_start p + (j + l)) mod PIPESIZ" "p_buf ?p = p_buf p"
      unfolding pos[symmetric] by (simp_all add: eq)
    have "pipe_data ?p ! i = p_buf p ! ((p_start p + (j + l + i)) mod PIPESIZ)"
      using pipe_data_nth[of i ?p] i unfolding f by (simp add: mod_add_left_eq add.assoc)
    then show "pipe_data (snd (get_chunk n p)) ! i = drop n (pipe_data p) ! i"
      using i jn by (simp add: pipe_data_nth)
  qed
qed

interpretation ring: byte_channel pipe_ok pipe_data PIPESIZ put_chunk get_chunk
  by unfold_locales (simp_all add: put_chunk_law get_chunk_law, simp add: pipe_ok_def)

end
