(* ===== verification/Pipe_Calls.thy ===== *)
theory Pipe_Calls
  imports Pipe_Data
begin

text \<open>
  What the calls on pipes guarantee: bytes come out in the order in which they went in, small writes are
  not mixed with others, and a call that changes a pipe leaves nobody asleep on it.
\<close>

section \<open>What the calls leave alone\<close>

fun wstate :: "write_out \<Rightarrow> pstate" where
  "wstate (W_ret r s) = s" | "wstate (W_sig x s) = s" | "wstate (W_block a w d wr s) = s"

fun rstate :: "read_out \<Rightarrow> pstate" where
  "rstate (R_ret r d s) = s" | "rstate (R_block a n d s) = s"

fun rbytes :: "read_out \<Rightarrow> u8 list" where
  "rbytes (R_ret r d s) = d" | "rbytes (R_block a n d s) = d"

lemma set_kern_simps [simp]:
  "pipes (set_kern k s) = pipes s" "fifo_at (set_kern k s) = fifo_at s" "piperoot (set_kern k s) = piperoot s"
  "files (pfs (set_kern k s)) = files (pfs s)" "ttys (pfs (set_kern k s)) = ttys (pfs s)" "pkern (set_kern k s) = k"
  by (simp_all add: set_kern_def pkern_def)

lemma set_pipe_simps [simp]:
  "pipes (set_pipe a p s) = (pipes s)(a \<mapsto> p)" "fifo_at (set_pipe a p s) = fifo_at s"
  "pfs (set_pipe a p s) = pfs s" "piperoot (set_pipe a p s) = piperoot s" "pkern (set_pipe a p s) = pkern s"
  by (simp_all add: set_pipe_def pkern_def)

lemma on_kern_Some: "on_kern g s = Some s' \<longleftrightarrow> (\<exists>k. g (pkern s) = Some k \<and> s' = set_kern k s)"
  by (auto simp: on_kern_def)

lemma wake_selecting_pipes: "wake_selecting env q s = Some s' \<Longrightarrow> pipes s' = pipes s \<and> fifo_at s' = fifo_at s"
  by (auto simp: wake_selecting_def on_kern_Some split: option.splits)

lemma pipe_wake_readers_pipes: "pipe_wake_readers env a s = Some s' \<Longrightarrow> pipes s' = pipes s \<and> fifo_at s' = fifo_at s"
  by (auto simp: pipe_wake_readers_def on_kern_Some dest!: wake_selecting_pipes split: bind_splits if_splits)

lemma pipe_wake_writers_pipes: "pipe_wake_writers env a s = Some s' \<Longrightarrow> pipes s' = pipes s \<and> fifo_at s' = fifo_at s"
  by (auto simp: pipe_wake_writers_def on_kern_Some dest!: wake_selecting_pipes split: bind_splits if_splits)

lemma upd_fifo_pipes: "upd_fifo b g s = Some s' \<Longrightarrow> pipes s' = pipes s"
  by (auto simp: upd_fifo_def split: option.splits)

lemma broken_pipe_out:
  assumes "broken_pipe env s = Some out"
  shows "pipes (wstate out) = pipes s" "(\<exists>s'. out = W_ret EPIPE s') \<or> (\<exists>r s'. out = W_sig r s')"
  using assms by (auto simp: broken_pipe_def split: bind_splits sig_out.splits)

lemma write_done_out:
  assumes "write_done env b a wr s = Some out"
  shows "\<exists>s'. out = W_ret wr s' \<and> pipes s' = pipes s"
  using assms by (auto simp: write_done_def dest!: upd_fifo_pipes pipe_wake_readers_pipes split: bind_splits)

lemma read_done_out:
  assumes "read_done env a acc s = Some out"
  shows "\<exists>s'. out = R_ret (int (length acc)) acc s' \<and> pipes s' = pipes s"
  using assms by (auto simp: read_done_def dest!: pipe_wake_writers_pipes split: bind_splits)

section \<open>Runs of the loops\<close>

text \<open>How a run of the write loop ended, \<open>n\<close> bytes later.\<close>

fun wrote :: "write_out \<Rightarrow> fileptr \<Rightarrow> u32 \<Rightarrow> u8 list \<Rightarrow> int \<Rightarrow> nat \<Rightarrow> pipe \<Rightarrow> bool" where
  "wrote (W_ret r s) f a data wr n p \<longleftrightarrow>
    (r = wr + int n \<and> (n = length data \<or> p_len p = PIPESIZ \<and> f_flags f AND O_NDELAY \<noteq> 0)) \<or>
    (r = EPIPE \<and> p_len p = PIPESIZ \<and> no_reader p)"
| "wrote (W_sig r s) f a data wr n p \<longleftrightarrow> p_len p = PIPESIZ \<and> no_reader p"
| "wrote (W_block c w d wr' s) f a data wr n p \<longleftrightarrow>
    c = a \<and> w = At_loop \<and> d = drop n data \<and> d \<noteq> [] \<and> wr' = wr + int n \<and> p_len p = PIPESIZ \<and> \<not> no_reader p"

lemma put_chunk_ends [simp]:
  "readers (snd (put_chunk d p)) = readers p" "writers (snd (put_chunk d p)) = writers p"
  by (simp_all add: put_chunk_def Let_def)

lemma get_chunk_ends [simp]:
  "readers (snd (get_chunk n p)) = readers p" "writers (snd (get_chunk n p)) = writers p"
  by (simp_all add: get_chunk_def Let_def split: prod.splits)

lemma pipe_okD: "pipe_ok p \<Longrightarrow> p_len p \<le> PIPESIZ"
  by (simp add: pipe_ok_def)

lemma write_loop_effect:
  assumes "write_loop env f b this a data wr s = Some out" "pipes s a = Some p" "pipe_ok p"
  shows "\<exists>n p'. n \<le> length data \<and> pipes (wstate out) = (pipes s)(a \<mapsto> p') \<and>
    ring.moves p (take n data) [] p' \<and> wrote out f a data wr n p'"
  using assms
proof (induction env f b this a data wr s arbitrary: p out rule: write_loop.induct)
  case (1 env f b this a data wr s)
  note run = 1(2)[unfolded write_loop.simps[of env f b this a data wr s]]
  have same: "(pipes s)(a \<mapsto> p) = pipes s" using 1(3) by auto
  consider "data = []" | "data \<noteq> []" "p_len p < PIPESIZ" | "data \<noteq> []" "p_len p = PIPESIZ"
    using pipe_okD[OF 1(4)] by fastforce
  then show ?case
  proof cases
    case 1
    then obtain s' where "out = W_ret wr s'" "pipes s' = pipes s" using run write_done_out by fastforce
    then show ?thesis using \<open>data = []\<close> same ring.moves_none[of p] by (intro exI[of _ 0] exI[of _ p]) simp
  next
    case 2
    define rp where "rp = put_chunk data p"
    define j where "j = PIPESIZ - p_len p"
    have law: "pipe_ok (snd rp)" "fst rp = drop j data"
      using put_chunk_law[OF \<open>pipe_ok p\<close>, of data] by (simp_all add: rp_def j_def)
    let ?s = "set_pipe a (snd rp) s"
    let ?w = "if \<not> is_terminal f \<or> \<not> is_head f \<or> enough_read (snd rp) (tty_of ?s this) then pipe_wake_readers env a ?s else Some ?s"
    obtain s1 where s1: "?w = Some s1" and loop: "write_loop env f b this a (fst rp) (wr + int (length data - length (fst rp))) s1 = Some out"
      using run 2 1(3) by (auto simp: rp_def[symmetric] Let_def split: option.splits)
    have p1: "pipes s1 = (pipes s)(a \<mapsto> snd rp)"
      using s1 by (auto dest!: pipe_wake_readers_pipes split: if_splits)
    have "\<exists>n p'. n \<le> length (fst rp) \<and> pipes (wstate out) = (pipes s1)(a \<mapsto> p') \<and>
        ring.moves (snd rp) (take n (fst rp)) [] p' \<and>
        wrote out f a (fst rp) (wr + int (length data - length (fst rp))) n p'"
      by (rule 1(1)[OF 2(1) 1(3) 2(2) rp_def refl _ loop]) (use s1 p1 law in \<open>auto simp: Let_def\<close>)
    then obtain n p' where IH: "n \<le> length (fst rp)" "pipes (wstate out) = (pipes s1)(a \<mapsto> p')"
        "ring.moves (snd rp) (take n (fst rp)) [] p'"
        "wrote out f a (fst rp) (wr + int (length data - length (fst rp))) n p'" by blast
    let ?n = "min j (length data) + n"
    have "ring.moves p (take j data @ take n (fst rp)) ([] @ []) p'"
      using ring.moves_trans[OF IH(3)] ring.put_moves[of p data] by (simp add: rp_def j_def)
    moreover have "take ?n data = take j data @ take n (fst rp)"
      using IH(1) law(2) by (simp add: take_add min_def)
    moreover have "wrote out f a data wr ?n p'"
      using IH(1,4) law(2) by (cases out) (auto simp: min_def add.commute)
    ultimately show ?thesis using IH(1,2) p1 law(2) by (intro exI[of _ ?n] exI[of _ p']) auto
  next
    case 3
    show ?thesis
    proof (cases "no_reader p")
      case True
      then have "broken_pipe env s = Some out" using run 3 1(3) by simp
      then show ?thesis using broken_pipe_out[of env s out] True 3 same ring.moves_none[of p]
        by (intro exI[of _ 0] exI[of _ p]) auto
    next
      case False
      show ?thesis
      proof (cases "f_flags f AND O_NDELAY = 0")
        case True
        then obtain s' where "pipe_wake_readers env a s = Some s'" "out = W_block a At_loop data wr s'"
          using run 3 False 1(3) by (auto split: bind_splits)
        then show ?thesis using False 3 same ring.moves_none[of p]
          by (intro exI[of _ 0] exI[of _ p]) (auto dest: pipe_wake_readers_pipes)
      next
        case ndelay: False
        then obtain s' where "out = W_ret wr s'" "pipes s' = pipes s" using run 3 False 1(3) write_done_out by fastforce
        then show ?thesis using ndelay 3 same ring.moves_none[of p] by (intro exI[of _ 0] exI[of _ p]) simp
      qed
    qed
  qed
qed

text \<open>How a run of the read loop ended, with the bytes \<open>got\<close>.\<close>

fun was_read :: "read_out \<Rightarrow> u32 \<Rightarrow> nat \<Rightarrow> u8 list \<Rightarrow> u8 list \<Rightarrow> pipe \<Rightarrow> bool" where
  "was_read (R_ret r d s) a n acc got p \<longleftrightarrow>
    d = acc @ got \<and> r = int (length d) \<and> length got \<le> n \<and> (length got = n \<or> p_len p = 0)"
| "was_read (R_block c n' d s) a n acc got p \<longleftrightarrow>
    c = a \<and> d = acc @ got \<and> length got < n \<and> n' = n - length got \<and> p_len p = 0 \<and> \<not> no_writer p"

lemma read_loop_effect:
  assumes "read_loop env f this a n acc s = Some out" "pipes s a = Some p" "pipe_ok p"
  shows "\<exists>got p'. pipes (rstate out) = (pipes s)(a \<mapsto> p') \<and> ring.moves p [] got p' \<and> was_read out a n acc got p'"
  using assms
proof (induction env f this a n acc s arbitrary: p out rule: read_loop.induct)
  case (1 env f this a n acc s)
  note run = 1(2)[unfolded read_loop.simps[of env f this a n acc s]]
  have same: "(pipes s)(a \<mapsto> p) = pipes s" using 1(3) by auto
  have stop: ?case if "read_done env a acc s = Some out" "n = 0 \<or> p_len p = 0"
    using read_done_out[OF that(1)] that(2) same ring.moves_none[of p] by (intro exI[of _ "[]"] exI[of _ p]) auto
  show ?case
  proof (cases "n = 0")
    case True
    then show ?thesis using run stop by simp
  next
    case n: False
    show ?thesis
    proof (cases "p_len p > 0")
      case True
      define dp where "dp = get_chunk n p"
      have law: "pipe_ok (snd dp)" "fst dp = take n (pipe_data p)"
        using get_chunk_law[OF \<open>pipe_ok p\<close>, of n] by (simp_all add: dp_def)
      have ne: "fst dp \<noteq> []" using law(2) True n by (metis length_0_conv pipe_data_length take_eq_Nil less_not_refl)
      obtain s1 where s1: "pipe_wake_writers env a (set_pipe a (snd dp) s) = Some s1"
          and loop: "read_loop env f this a (n - length (fst dp)) (acc @ fst dp) s1 = Some out"
        using run n True ne 1(3) by (auto simp: dp_def[symmetric] Let_def split: option.splits)
      have p1: "pipes s1 = (pipes s)(a \<mapsto> snd dp)" using s1 by (auto dest!: pipe_wake_writers_pipes)
      have "\<exists>got p'. pipes (rstate out) = (pipes s1)(a \<mapsto> p') \<and> ring.moves (snd dp) [] got p' \<and>
          was_read out a (n - length (fst dp)) (acc @ fst dp) got p'"
        by (rule 1(1)[OF n 1(3) True dp_def ne _ loop]) (use s1 p1 law in auto)
      then obtain got p' where IH: "pipes (rstate out) = (pipes s1)(a \<mapsto> p')" "ring.moves (snd dp) [] got p'"
          "was_read out a (n - length (fst dp)) (acc @ fst dp) got p'" by blast
      have "ring.moves p ([] @ []) (fst dp @ got) p'"
        using ring.moves_trans[OF IH(2) ring.get_moves[of p n, folded dp_def]] .
      moreover have "length (fst dp) \<le> n" using law(2) by simp
      then have "was_read out a n acc (fst dp @ got) p'" using IH(3) by (cases out) auto
      ultimately show ?thesis using IH(1) p1 by (intro exI[of _ "fst dp @ got"] exI[of _ p']) auto
    next
      case empty: False
      then have z: "p_len p = 0" by simp
      show ?thesis
      proof (cases "read_done env a acc s = Some out")
        case True
        then show ?thesis using stop z by blast
      next
        case False
        then obtain s' where "pipe_wake_writers env a s = Some s'" "out = R_block a n acc s'" "\<not> no_writer p"
          using run n 1(3) z by (auto split: if_splits bind_splits)
        then show ?thesis using n z same ring.moves_none[of p] pipe_wake_writers_pipes
          by (intro exI[of _ "[]"] exI[of _ p]) auto
      qed
    qed
  qed
qed

section \<open>Nobody sleeps on a pipe that changed\<close>

definition no_waiter :: "u32 \<Rightarrow> kernel \<Rightarrow> bool" where
  "no_waiter a k \<longleftrightarrow> (\<forall>q. wait_q (procs k q) = IO_Q \<longrightarrow> wait_cond (procs k q) \<noteq> a)"

lemma wake_no_waiter:
  assumes "queues_ok k"
  shows "\<exists>k'. wake IO_Q a k = Some k' \<and> queues_ok k' \<and> no_waiter a k'"
proof -
  obtain Q where Q: "queues_rep k Q" "queues_known k Q" using assms by (auto simp: queues_ok_def)
  obtain k' where k': "wake IO_Q a k = Some k'"
      "q_frame (k\<lparr>sleepcond := if sleepcond k = a then 0 else sleepcond k\<rparr>) k'"
      "queues_rep k' (Q(IO_Q := filter (\<lambda>p. wait_cond (procs k p) \<noteq> a) (Q IO_Q),
                      READY_Q := Q READY_Q @ filter (\<lambda>p. wait_cond (procs k p) = a) (Q IO_Q)))"
    using wake_rep[OF Q, of IO_Q a] by auto
  have "no_waiter a k'"
    unfolding no_waiter_def
  proof (intro allI impI)
    fix q assume "wait_q (procs k' q) = IO_Q"
    then have "wait_cond (procs k q) \<noteq> a" using queues_repD(2)[OF k'(3), of IO_Q q] by simp
    then show "wait_cond (procs k' q) \<noteq> a" using q_frame_core(1)[OF k'(2), of q] by simp
  qed
  then show ?thesis using wake_ok[OF assms, of IO_Q a] k'(1) by auto
qed

lemma wake_selecting_ok:
  assumes "queues_ok (pkern s)"
  shows "\<exists>s'. wake_selecting env q s = Some s' \<and> queues_ok (pkern s')"
proof (cases q)
  case (Some p)
  then show ?thesis
    using wakeselect_ok[OF assms, of "pe_wakeselect env" "pe_select_coll env" p]
    by (auto simp: wake_selecting_def on_kern_def)
qed (simp add: wake_selecting_def assms)

lemma select_and_wake:
  assumes "queues_ok (pkern s)"
  shows "\<exists>s'. do { s \<leftarrow> wake_selecting env q s; on_kern (wake IO_Q a) s } = Some s' \<and>
    queues_ok (pkern s') \<and> no_waiter a (pkern s')"
proof -
  obtain s1 where "wake_selecting env q s = Some s1" "queues_ok (pkern s1)" using wake_selecting_ok[OF assms] by blast
  then show ?thesis using wake_no_waiter[of "pkern s1" a] by (auto simp: on_kern_def)
qed


lemma pipe_wake_readers_ok:
  assumes "queues_ok (pkern s)" "pipes s a = Some p"
  shows "\<exists>s'. pipe_wake_readers env a s = Some s' \<and> queues_ok (pkern s') \<and> (p_len p > 0 \<longrightarrow> no_waiter a (pkern s'))"
  using assms select_and_wake[OF assms(1), of env "p_rsel p" a] by (auto simp: pipe_wake_readers_def)





section \<open>Other pipes\<close>

lemma write_loop_other: "write_loop env f b this a data wr s = Some out \<Longrightarrow> c \<noteq> a \<Longrightarrow> pipes (wstate out) c = pipes s c"
proof (induction env f b this a data wr s rule: write_loop.induct)
  case (1 env f b this a data wr s)
  note eq = write_loop.simps[of env f b this a data wr s]
  show ?case
  proof (cases "pipes s a")
    case None
    then show ?thesis using 1(2) by (auto simp: eq dest!: write_done_out split: if_splits)
  next
    case (Some p)
    show ?thesis
    proof (cases "data \<noteq> [] \<and> p_len p < PIPESIZ")
      case True
      define rp where "rp = put_chunk data p"
      let ?s = "set_pipe a (snd rp) s"
      let ?w = "if \<not> is_terminal f \<or> \<not> is_head f \<or> enough_read (snd rp) (tty_of ?s this) then pipe_wake_readers env a ?s else Some ?s"
      obtain s1 where s1: "?w = Some s1"
          and loop: "write_loop env f b this a (fst rp) (wr + int (length data - length (fst rp))) s1 = Some out"
        using 1(2) True Some by (auto simp: eq rp_def[symmetric] Let_def split: option.splits)
      have "pipes s1 c = pipes s c" using s1 1(3) by (auto dest!: pipe_wake_readers_pipes split: if_splits)
      moreover have "pipes (wstate out) c = pipes s1 c"
        by (rule 1(1)[OF _ Some _ rp_def refl s1 loop 1(3)]) (use True in auto)
      ultimately show ?thesis by simp
    next
      case False
      then show ?thesis
        using 1(2) Some by (auto simp: eq broken_pipe_out dest!: write_done_out pipe_wake_readers_pipes split: if_splits bind_splits)
    qed
  qed
qed

lemma read_loop_other: "read_loop env f this a n acc s = Some out \<Longrightarrow> c \<noteq> a \<Longrightarrow> pipes (rstate out) c = pipes s c"
proof (induction env f this a n acc s rule: read_loop.induct)
  case (1 env f this a n acc s)
  note eq = read_loop.simps[of env f this a n acc s]
  show ?case
  proof (cases "pipes s a")
    case None
    then show ?thesis using 1(2) by (auto simp: eq dest!: read_done_out split: if_splits)
  next
    case (Some p)
    show ?thesis
    proof (cases "n \<noteq> 0 \<and> p_len p > 0")
      case True
      define dp where "dp = get_chunk n p"
      obtain s1 where s1: "fst dp \<noteq> []" "pipe_wake_writers env a (set_pipe a (snd dp) s) = Some s1"
          and loop: "read_loop env f this a (n - length (fst dp)) (acc @ fst dp) s1 = Some out"
        using 1(2) True Some by (auto simp: eq dp_def[symmetric] Let_def split: option.splits if_splits)
      have "pipes s1 c = pipes s c" using s1 1(3) by (auto dest!: pipe_wake_writers_pipes)
      moreover have "pipes (rstate out) c = pipes s1 c"
        by (rule 1(1)[OF _ Some _ dp_def s1 loop 1(3)]) (use True in auto)
      ultimately show ?thesis by simp
    next
      case False
      then show ?thesis
        using 1(2) Some by (auto simp: eq dest!: read_done_out pipe_wake_writers_pipes split: if_splits bind_splits)
    qed
  qed
qed

section \<open>Calls and their continuations\<close>

text \<open>
  How many of its bytes a run of a write put into the pipe, read off its outcome: what it adds to the
  number the call reports when it returns (\<open>wr\<close> is the number before the run) or blocks. An interrupted
  or refused run reports no number and puts nothing; a large write that meets a pipe without a reader
  reports an error after it has filled the room there was.
\<close>

definition put_count :: "bool \<Rightarrow> int \<Rightarrow> u8 list \<Rightarrow> pipe \<Rightarrow> write_out \<Rightarrow> nat" where
  "put_count atomic wr data p out =
    (case out of
       W_ret r s \<Rightarrow> if 0 \<le> r then nat (r - wr)
                     else if r = EPIPE \<and> \<not> atomic then min (PIPESIZ - p_len p) (length data) else 0
     | W_sig r s \<Rightarrow> if atomic then 0 else min (PIPESIZ - p_len p) (length data)
     | W_block a w d wr' s \<Rightarrow> nat (wr' - wr))"

text \<open>
  A run that writes to the pipe \<open>c\<close>, of a call or of its rest after a sleep, with the bytes it was to
  write and the number of them it put.
\<close>

inductive write_run :: "penv \<Rightarrow> u32 \<Rightarrow> u8 list \<Rightarrow> nat \<Rightarrow> pstate \<Rightarrow> write_out \<Rightarrow> bool" for env c where
  run_write: "pipe_write env v data s = Some out \<Longrightarrow> pipe_of v s = Some (f, Some (b, this)) \<Longrightarrow>
    write_end f this = c \<Longrightarrow> pipes s c = Some p \<Longrightarrow>
    write_run env c data (put_count (data \<noteq> [] \<and> length data \<le> PIPE_BUF) 0 data p out) s out"
| run_write_on: "pipe_write_resume env v b c r w data wr s = Some out \<Longrightarrow> pipes s c = Some p \<Longrightarrow>
    0 \<le> wr \<Longrightarrow> (w = At_check \<longrightarrow> wr = 0) \<Longrightarrow>
    write_run env c data (put_count (w = At_check) wr data p out) s out"

text \<open>A run that reads from the pipe \<open>c\<close>, with the bytes it put into the reader's buffer.\<close>

inductive read_run :: "penv \<Rightarrow> u32 \<Rightarrow> u8 list \<Rightarrow> pstate \<Rightarrow> read_out \<Rightarrow> bool" for env c where
  run_read: "pipe_read env v n s = Some out \<Longrightarrow> pipe_of v s = Some (f, Some (b, this)) \<Longrightarrow>
    read_end f this = c \<Longrightarrow> read_run env c (rbytes out) s out"
| run_read_on: "pipe_read_resume env v b c r n acc s = Some out \<Longrightarrow>
    read_run env c (drop (length acc) (rbytes out)) s out"

lemma moves_in_len: "ring.moves p ins [] p' \<Longrightarrow> pipe_ok p \<Longrightarrow> pipe_ok p' \<and> pipe_data p' = pipe_data p @ ins \<and> p_len p' = p_len p + length ins"
  using ring.moves_fifo[of p ins "[]" p'] pipe_data_length[of p'] pipe_data_length[of p] by (metis append_Nil length_append)

lemma moves_out_len: "ring.moves p [] outs p' \<Longrightarrow> pipe_ok p \<Longrightarrow> pipe_ok p' \<and> pipe_data p = outs @ pipe_data p' \<and> p_len p = length outs + p_len p'"
  using ring.moves_fifo[of p "[]" outs p'] pipe_data_length[of p'] pipe_data_length[of p] by (metis append_Nil2 length_append)

lemma write_loop_fits:
  assumes "write_loop env f b this a data wr s = Some out" "pipes s a = Some p" "pipe_ok p" "data \<noteq> []"
    "p_len p + length data \<le> PIPESIZ"
  shows "\<exists>s'. out = W_ret (wr + int (length data)) s' \<and> pipes s' = (pipes s)(a \<mapsto> snd (put_chunk data p))"
proof -
  define rp where "rp = put_chunk data p"
  have none: "fst rp = []" using put_chunk_law(3)[OF assms(3), of data] assms(5) by (simp add: rp_def)
  have room: "p_len p < PIPESIZ" using assms(4,5) by (cases data) simp_all
  let ?s = "set_pipe a (snd rp) s"
  let ?w = "if \<not> is_terminal f \<or> \<not> is_head f \<or> enough_read (snd rp) (tty_of ?s this) then pipe_wake_readers env a ?s else Some ?s"
  obtain s1 where s1: "?w = Some s1" and loop: "write_loop env f b this a [] (wr + int (length data)) s1 = Some out"
    using assms(1,2,4) room none
    by (auto simp: write_loop.simps[of env f b this a data] rp_def[symmetric] Let_def split: option.splits)
  have p1: "pipes s1 = (pipes s)(a \<mapsto> snd rp)" using s1 by (auto dest!: pipe_wake_readers_pipes split: if_splits)
  from loop have "write_done env b a (wr + int (length data)) s1 = Some out" by (simp add: write_loop.simps)
  from write_done_out[OF this] show ?thesis using p1 by (auto simp: rp_def)
qed

text \<open>A write at the check of atomicity writes everything or nothing.\<close>

definition all_or_nothing :: "write_out \<Rightarrow> u8 list \<Rightarrow> pipe \<Rightarrow> pipe \<Rightarrow> bool" where
  "all_or_nothing out data p p' \<longleftrightarrow>
    (case out of
       W_ret r s \<Rightarrow> (r = int (length data) \<and> pipe_data p' = pipe_data p @ data) \<or> (r \<in> {0, EPIPE, EINTR} \<and> p' = p)
     | W_sig r s \<Rightarrow> p' = p
     | W_block c w d wr s \<Rightarrow> w = At_check \<and> d = data \<and> wr = 0 \<and> p' = p)"

lemma check_atomicity_effect:
  assumes "check_atomicity env f b this a data s = Some out" "pipes s a = Some p" "pipe_ok p" "data \<noteq> []"
  shows "\<exists>p'. pipes (wstate out) = (pipes s)(a \<mapsto> p') \<and> (p' = p \<or> ring.moves p data [] p') \<and> all_or_nothing out data p p'"
proof -
  have same: "(pipes s)(a \<mapsto> p) = pipes s" using assms(2) by auto
  show ?thesis
  proof (cases "is_terminal f \<and> \<not> is_head f \<and> tty_state (tty_of s this) AND TS_HOLD \<noteq> 0")
    case True
    then show ?thesis using assms(1) same
      by (intro exI[of _ p]) (auto simp: check_atomicity_def all_or_nothing_def split: if_splits)
  next
    case free: False
    show ?thesis
    proof (cases "int PIPESIZ - int (p_len p) < int (length data)")
      case True
      then have "broken_pipe env s = Some out \<or>
          (\<exists>s'. pipe_wake_readers env a s = Some s' \<and> out = W_block a At_check data 0 s')"
        using assms(1,2) free by (auto simp: check_atomicity_def split: if_splits bind_splits)
      then show ?thesis using same
        by (intro exI[of _ p]) (auto simp: all_or_nothing_def broken_pipe_out dest: pipe_wake_readers_pipes broken_pipe_out(2))
    next
      case False
      then have run: "write_loop env f b this a data 0 s = Some out" using assms(1,2) free by (auto simp: check_atomicity_def)
      have room: "p_len p + length data \<le> PIPESIZ" using False pipe_okD[OF assms(3)] by linarith
      obtain s' where s': "out = W_ret (int (length data)) s'" "pipes s' = (pipes s)(a \<mapsto> snd (put_chunk data p))"
        using write_loop_fits[OF run assms(2-4) room] by auto
      have fit: "take (PIPESIZ - p_len p) data = data" using room by simp
      have "ring.moves p data [] (snd (put_chunk data p))"
        using ring.put_moves[of p data] by (simp add: fit)
      moreover have "pipe_data (snd (put_chunk data p)) = pipe_data p @ data"
        using put_chunk_law(2)[OF assms(3), of data] by (simp add: fit)
      ultimately show ?thesis using s' by (intro exI[of _ "snd (put_chunk data p)"]) (simp add: all_or_nothing_def)
    qed
  qed
qed

lemma check_atomicity_empty:
  assumes "check_atomicity env f b this a [] s = Some out" "pipes s a = Some p" "pipe_ok p"
  shows "pipes (wstate out) = pipes s"
proof (cases "is_terminal f \<and> \<not> is_head f \<and> tty_state (tty_of s this) AND TS_HOLD \<noteq> 0")
  case True
  then show ?thesis using assms(1) by (auto simp: check_atomicity_def split: if_splits)
next
  case False
  then have "write_done env b a 0 s = Some out"
    using assms(1,2) pipe_okD[OF assms(3)] by (auto simp: check_atomicity_def write_loop.simps split: if_splits)
  from write_done_out[OF this] show ?thesis by auto
qed

lemma check_atomicity_count:
  assumes "check_atomicity env f b this a data s = Some out" "pipes s a = Some p" "pipe_ok p" "data \<noteq> []"
  shows "\<exists>p'. pipes (wstate out) = (pipes s)(a \<mapsto> p') \<and> ring.moves p (take (put_count True 0 data p out) data) [] p'"
proof -
  obtain p' where p': "pipes (wstate out) = (pipes s)(a \<mapsto> p')" "p' = p \<or> ring.moves p data [] p'"
    "all_or_nothing out data p p'"
    using check_atomicity_effect[OF assms] by blast
  have "put_count True 0 data p out = (if p' = p then 0 else length data)"
  proof (cases out)
    case (W_ret r s')
    have "p' \<noteq> p" if "pipe_data p' = pipe_data p @ data" using that assms(4) by auto
    then show ?thesis using p'(3) by (auto simp: W_ret all_or_nothing_def put_count_def EPIPE_def EINTR_def)
  qed (use p'(3) in \<open>auto simp: all_or_nothing_def put_count_def\<close>)
  then show ?thesis using p'(1,2) ring.moves_none[of p] by (intro exI[of _ p']) auto
qed

lemma write_loop_count:
  assumes "write_loop env f b this a data wr s = Some out" "pipes s a = Some p" "pipe_ok p" "0 \<le> wr"
  shows "\<exists>p'. pipes (wstate out) = (pipes s)(a \<mapsto> p') \<and> ring.moves p (take (put_count False wr data p out) data) [] p'"
proof -
  obtain n p' where n: "n \<le> length data" "pipes (wstate out) = (pipes s)(a \<mapsto> p')" "ring.moves p (take n data) [] p'"
    "wrote out f a data wr n p'"
    using write_loop_effect[OF assms(1-3)] by blast
  have len: "p_len p' = p_len p + n" using moves_in_len[OF n(3) assms(3)] n(1) by simp
  have "put_count False wr data p out = n"
  proof (cases out)
    case (W_ret r s')
    then show ?thesis using n(1,4) len assms(4) by (auto simp: put_count_def EPIPE_def)
  qed (use n(1,4) len in \<open>auto simp: put_count_def\<close>)
  with n show ?thesis by blast
qed

lemma write_from_other:
  "write_from env f b this a w data wr s = Some out \<Longrightarrow> c \<noteq> a \<Longrightarrow> pipes (wstate out) c = pipes s c"
  by (auto simp: write_from_def check_atomicity_def broken_pipe_out dest!: write_loop_other pipe_wake_readers_pipes
      split: wpoint.splits if_splits bind_splits)

lemma write_from_count:
  assumes "write_from env f b this a w data wr s = Some out" "pipes s a = Some p" "pipe_ok p" "0 \<le> wr"
    "w = At_check \<longrightarrow> wr = 0"
  shows "\<exists>p'. pipes (wstate out) = (pipes s)(a \<mapsto> p') \<and>
    ring.moves p (take (put_count (w = At_check) wr data p out) data) [] p'"
proof (cases "w = At_loop")
  case True
  then show ?thesis using write_loop_count[OF _ assms(2-4)] assms(1) by (simp add: write_from_def)
next
  case False
  then have w: "w = At_check" "wr = 0" using assms(5) by (cases w; simp)+
  then have run: "check_atomicity env f b this a data s = Some out" using assms(1) by (simp add: write_from_def)
  show ?thesis
  proof (cases "data = []")
    case True
    then show ?thesis
      using check_atomicity_empty[OF run[unfolded True] assms(2,3)] assms(2) ring.moves_none[of p]
      by (intro exI[of _ p]) auto
  next
    case False
    then show ?thesis using check_atomicity_count[OF run assms(2,3)] w by simp
  qed
qed

lemma write_run_effect:
  assumes "write_run env c data n s out" "pipes s c = Some p" "pipe_ok p"
  shows "\<exists>p'. pipes (wstate out) c = Some p' \<and> ring.moves p (take n data) [] p'"
  using assms(1)
proof cases
  case (run_write v f b this q)
  have q: "q = p" using run_write assms(2) by simp
  show ?thesis
  proof (cases "c = 0")
    case True
    then have "out = W_ret EACCES s" using run_write by (simp add: pipe_write_def)
    then have "n = 0" "wstate out = s" using run_write(1) by (simp_all add: put_count_def EACCES_def EPIPE_def)
    then show ?thesis using assms(2) ring.moves_none[of p] by (intro exI[of _ p]) simp
  next
    case False
    let ?w = "if data \<noteq> [] \<and> length data \<le> PIPE_BUF then At_check else At_loop"
    have "write_from env f b this c ?w data 0 s = Some out" using run_write False by (simp add: pipe_write_def)
    moreover have "(?w = At_check) = (data \<noteq> [] \<and> length data \<le> PIPE_BUF)" by simp
    ultimately obtain p' where "pipes (wstate out) = (pipes s)(c \<mapsto> p')"
      "ring.moves p (take (put_count (data \<noteq> [] \<and> length data \<le> PIPE_BUF) 0 data p out) data) [] p'"
      using write_from_count[OF _ assms(2,3), of env f b this ?w data 0 out] by auto
    then show ?thesis unfolding run_write(1) q by auto
  qed
next
  case (run_write_on v b r w wr q)
  have q: "q = p" using run_write_on assms(2) by simp
  show ?thesis
  proof (cases "r = 0")
    case False
    then have "out = W_ret EINTR s" using run_write_on by (simp add: pipe_write_resume_def)
    then have "n = 0" "wstate out = s" using run_write_on(1) by (simp_all add: put_count_def EINTR_def EPIPE_def)
    then show ?thesis using assms(2) ring.moves_none[of p] by (intro exI[of _ p]) simp
  next
    case True
    then obtain f this where "write_from env f b this c w data wr s = Some out"
      using run_write_on by (auto simp: pipe_write_resume_def split: bind_splits)
    from write_from_count[OF this assms(2,3)] show ?thesis using run_write_on q by auto
  qed
qed

lemma read_loop_run:
  assumes "read_loop env f this a n acc s = Some out" "pipes s a = Some p" "pipe_ok p"
  shows "\<exists>p'. pipes (rstate out) a = Some p' \<and> ring.moves p [] (drop (length acc) (rbytes out)) p'"
proof -
  obtain got p' where "pipes (rstate out) = (pipes s)(a \<mapsto> p')" "ring.moves p [] got p'" "was_read out a n acc got p'"
    using read_loop_effect[OF assms] by blast
  moreover from this(3) have "rbytes out = acc @ got" by (cases out) auto
  ultimately show ?thesis by auto
qed

lemma read_run_effect:
  assumes "read_run env c got s out" "pipes s c = Some p" "pipe_ok p"
  shows "\<exists>p'. pipes (rstate out) c = Some p' \<and> ring.moves p [] got p'"
proof -
  have stay: ?thesis if "rstate out = s" "got = []"
    using that assms(2) ring.moves_none[of p] by simp
  show ?thesis
    using assms(1)
  proof cases
    case (run_read v n f b this)
    show ?thesis
    proof (cases "c = 0")
      case True
      then have "out = R_ret EACCES [] s" using run_read by (simp add: pipe_read_def)
      then show ?thesis using stay run_read(1) by simp
    next
      case False
      then have "read_loop env f this c n [] s = Some out" using run_read by (simp add: pipe_read_def)
      from read_loop_run[OF this assms(2,3)] show ?thesis using run_read(1) by simp
    qed
  next
    case (run_read_on v b r n acc)
    show ?thesis
    proof (cases "r = 0")
      case False
      then have "out = R_ret EINTR acc s" using run_read_on by (simp add: pipe_read_resume_def)
      then show ?thesis using stay run_read_on(1) by simp
    next
      case True
      then obtain f this where "read_loop env f this c n acc s = Some out"
        using run_read_on by (auto simp: pipe_read_resume_def split: bind_splits)
      from read_loop_run[OF this assms(2,3)] show ?thesis using run_read_on by simp
    qed
  qed
qed

text \<open>
  A history of the pipe at address \<open>c\<close>: the bytes the writes put in, as they report it, and the bytes the
  reads delivered, over runs of reading and writing on any files of it and other events that leave
  the pipe as it is (runs on other pipes do: \<open>write_from_other\<close>, \<open>read_loop_other\<close>).
\<close>

inductive pipe_history :: "penv \<Rightarrow> u32 \<Rightarrow> pstate \<Rightarrow> u8 list \<Rightarrow> u8 list \<Rightarrow> pstate \<Rightarrow> bool" for env c s where
  hist_start: "pipe_history env c s [] [] s"
| hist_write: "pipe_history env c s ins outs s1 \<Longrightarrow> write_run env c data n s1 out \<Longrightarrow>
    pipe_history env c s (ins @ take n data) outs (wstate out)"
| hist_read: "pipe_history env c s ins outs s1 \<Longrightarrow> read_run env c got s1 out \<Longrightarrow>
    pipe_history env c s ins (outs @ got) (rstate out)"
| hist_other: "pipe_history env c s ins outs s1 \<Longrightarrow> pipes s2 c = pipes s1 c \<Longrightarrow> pipe_history env c s ins outs s2"

lemma pipe_history_moves:
  assumes "pipe_history env c s ins outs s'" "pipes s c = Some p" "pipe_ok p"
  shows "\<exists>p'. pipes s' c = Some p' \<and> ring.moves p ins outs p'"
  using assms
proof (induction rule: pipe_history.induct)
  case hist_start
  then show ?case using ring.moves_none by blast
next
  case (hist_write ins outs s1 data n out)
  then obtain q where q: "pipes s1 c = Some q" "ring.moves p ins outs q" by blast
  obtain q' where q': "pipes (wstate out) c = Some q'" "ring.moves q (take n data) [] q'"
    using write_run_effect[OF hist_write(2) q(1) ring.moves_ok[OF q(2) hist_write.prems(2)]] by blast
  then show ?case using ring.moves_trans[OF q'(2) q(2)] by auto
next
  case (hist_read ins outs s1 got out)
  then obtain q where q: "pipes s1 c = Some q" "ring.moves p ins outs q" by blast
  obtain q' where q': "pipes (rstate out) c = Some q'" "ring.moves q [] got q'"
    using read_run_effect[OF hist_read(2) q(1) ring.moves_ok[OF q(2) hist_read.prems(2)]] by blast
  then show ?case using ring.moves_trans[OF q'(2) q(2)] by auto
qed auto





definition pipes_ok :: "pstate \<Rightarrow> bool" where
  "pipes_ok s \<longleftrightarrow> pipes s 0 = None \<and> (\<forall>a p. pipes s a = Some p \<longrightarrow> pipe_ok p) \<and> queues_ok (pkern s)"

lemma pipes_okD:
  assumes "pipes_ok s"
  shows "queues_ok (pkern s)" "pipes s a = Some p \<Longrightarrow> pipe_ok p \<and> a \<noteq> 0"
  using assms by (auto simp: pipes_ok_def)



section \<open>Properties\<close>

text \<open>
  C11: whatever runs of reading and writing of whatever sizes, blocked and continued ones, happen on a
  pipe, the bytes come out in the order in which they went in, none is lost or doubled: the bytes the
  readers got so far in their buffers, followed by the content, are the old content followed by the
  bytes that the writes so far counted as written (a write that fails for want of a reader, and so does not
  tell its caller a number, counts with what filled the pipe).
\<close>

theorem pipe_fifo:
  assumes "pipe_history env c s ins outs s'" "pipes s c = Some p" "pipe_ok p"
  shows "\<exists>p'. pipes s' c = Some p' \<and> pipe_ok p' \<and> pipe_data p @ ins = outs @ pipe_data p'"
  using pipe_history_moves[OF assms] ring.moves_fifo assms(3) by blast

text \<open>
  C12: a write of at most \<open>PIPE_BUF\<close> bytes is atomic: each of its runs, the first and the ones after a
  sleep, either puts all of its bytes into the pipe at once and returns their number, or leaves the
  pipe as it is and sleeps again with all bytes, fails, or returns 0.
\<close>

theorem pipe_small_write_atomic:
  assumes "pipe_of v s = Some (f, Some (b, this))" "write_end f this = a" "pipes s a = Some p" "pipe_ok p" "a \<noteq> 0"
    "0 < length data" "length data \<le> PIPE_BUF"
    "pipe_write env v data s = Some out \<or> pipe_write_resume env v b a r At_check data 0 s = Some out"
  shows "\<exists>p'. pipes (wstate out) = (pipes s)(a \<mapsto> p') \<and> all_or_nothing out data p p'"
proof -
  have "check_atomicity env f b this a data s = Some out \<or> out = W_ret EINTR s"
    using assms(1,2,5-8)
    by (auto simp: pipe_write_def pipe_write_resume_def write_from_def pipe_of_def Let_def
        split: bind_splits option.splits if_splits)
  then show ?thesis
  proof
    assume "out = W_ret EINTR s"
    then show ?thesis using assms(3) by (intro exI[of _ p]) (auto simp: all_or_nothing_def)
  qed (use check_atomicity_effect[OF _ assms(3,4)] assms(6) in fastforce)
qed


section \<open>Witnesses\<close>

text \<open>
  The fifo with inode 2 at address 64 with its pipes at 80 and 96; file 16 is its creator's, file 32 was opened
  for writing.
\<close>

definition demo_penv :: penv where
  "demo_penv = \<lparr>pe_filesys = 1, pe_wakeselect = 2, pe_select_coll = 9, pe_fuel = 10, pe_sig = demo_env,
     pe_putchar = (\<lambda>_ _ s. s), pe_kmalloc = (\<lambda>_. None), pe_junk = (\<lambda>_. replicate 4096 0)\<rparr>"

definition demo_pipe_files :: "faddr \<Rightarrow> fileptr option" where
  "demo_pipe_files =
    [16 \<mapsto> zero_file\<lparr>f_flags := 0x4042, f_fc := \<lparr>fc_fs = 1, fc_dev = 33, fc_index = 2\<rparr>\<rparr>,
     32 \<mapsto> zero_file\<lparr>f_links := 1, f_flags := 0x41, f_fc := \<lparr>fc_fs = 1, fc_dev = 33, fc_index = 2\<rparr>\<rparr>]"

definition demo_fifo :: fifo where
  "demo_fifo =
    \<lparr>ff_name = [112, 0], ff_mtime = 0, ff_ctime = 0, ff_dosflags = 2, ff_mode = 0xa1b6, ff_uid = 0, ff_gid = 0, ff_ino = 2,
     ff_flags = 0, ff_lockpid = 0, ff_cursrate = 0, ff_tty = 0, ff_inp = 80, ff_outp = 96, ff_open = [32, 16]\<rparr>"

definition demo_pipes :: pstate where
  "demo_pipes =
    \<lparr>pfs = demo_files\<lparr>kern := demo_kernel, files := demo_pipe_files\<rparr>,
     pipes = [80 \<mapsto> new_inp False (replicate 4096 0), 96 \<mapsto> (new_outp False (replicate 4096 0))\<lparr>writers := 1\<rparr>],
     fifo_at = [64 \<mapsto> demo_fifo], piperoot = [64], pipe_ino = 3, xtime = 5, pipestamp = 0\<rparr>"

lemma demo_pipe_ok: "pipe_ok (new_inp False (replicate 4096 0))" "pipe_ok ((new_outp False (replicate 4096 0))\<lparr>writers := 1\<rparr>)"
  by (simp_all add: pipe_ok_def new_inp_def new_outp_def)

lemma demo_pipes_ok: "pipes_ok demo_pipes"
proof -
  have "queues_ok demo_kernel" using demo_queues_rep demo_queues_known by (auto simp: queues_ok_def)
  then show ?thesis using demo_pipe_ok by (simp add: pipes_ok_def demo_pipes_def pkern_def)
qed

lemma demo_pipe_of:
  "pipe_of 16 demo_pipes = Some (zero_file\<lparr>f_flags := 0x4042, f_fc := \<lparr>fc_fs = 1, fc_dev = 33, fc_index = 2\<rparr>\<rparr>, Some (64, demo_fifo))"
  "pipe_of 32 demo_pipes = Some (zero_file\<lparr>f_links := 1, f_flags := 0x41, f_fc := \<lparr>fc_fs = 1, fc_dev = 33, fc_index = 2\<rparr>\<rparr>, Some (64, demo_fifo))"
  by (simp_all add: pipe_of_def demo_pipes_def demo_pipe_files_def pipe_lookupi_def demo_fifo_def)

lemma demo_ends:
  "write_end (zero_file\<lparr>f_flags := 0x4042, f_fc := c\<rparr>) demo_fifo = 80" "read_end (zero_file\<lparr>f_flags := 0x4042, f_fc := c\<rparr>) demo_fifo = 96"
  "write_end (zero_file\<lparr>f_links := 1, f_flags := 0x41, f_fc := c\<rparr>) demo_fifo = 96"
  "read_end (zero_file\<lparr>f_links := 1, f_flags := 0x41, f_fc := c\<rparr>) demo_fifo = 80"
  by (simp_all add: write_end_def read_end_def is_head_def demo_fifo_def)

lemma demo_write:
  "\<exists>s'. pipe_write demo_penv 16 [1, 2] demo_pipes = Some (W_ret 2 s') \<and>
    pipes s' = (pipes demo_pipes)(80 \<mapsto> snd (put_chunk [1, 2] (new_inp False (replicate 4096 0))))"
proof -
  let ?p = "new_inp False (replicate 4096 0)"
  let ?f = "zero_file\<lparr>f_flags := 0x4042, f_fc := \<lparr>fc_fs = 1, fc_dev = 33, fc_index = 2\<rparr>\<rparr>"
  have law: "fst (put_chunk [1, 2] ?p) = []" using put_chunk_law(3)[OF demo_pipe_ok(1)] by (simp add: new_inp_def)
  have w: "\<exists>s'. pipe_wake_readers demo_penv 80 s = Some s' \<and> queues_ok (pkern s') \<and> pipes s' = pipes s \<and> fifo_at s' = fifo_at s"
    if "queues_ok (pkern s)" "pipes s 80 = Some p" for s p
    using pipe_wake_readers_ok[OF that, of demo_penv] pipe_wake_readers_pipes[of demo_penv 80 s] by blast
  let ?s = "set_pipe 80 (snd (put_chunk [1, 2] ?p)) demo_pipes"
  obtain s1 where s1: "pipe_wake_readers demo_penv 80 ?s = Some s1" "queues_ok (pkern s1)" "pipes s1 = pipes ?s" "fifo_at s1 = fifo_at ?s"
    using w[of ?s] pipes_okD(1)[OF demo_pipes_ok] by auto
  let ?s1 = "s1\<lparr>fifo_at := (fifo_at s1)(64 \<mapsto> demo_fifo\<lparr>ff_mtime := xtime s1\<rparr>)\<rparr>"
  have fifo: "fifo_at s1 64 = Some demo_fifo" by (simp add: s1(4)) (simp add: demo_pipes_def)
  have "queues_ok (pkern ?s1)" using s1(2) by (simp add: pkern_def)
  then obtain s2 where s2: "pipe_wake_readers demo_penv 80 ?s1 = Some s2" "pipes s2 = pipes s1"
    using w[of ?s1] s1(3) by auto
  have "write_loop demo_penv ?f 64 demo_fifo 80 [] 2 s1 = Some (W_ret 2 s2)"
    using s2(1) fifo by (simp add: write_loop.simps write_done_def upd_fifo_def)
  moreover have "pipes demo_pipes 80 = Some ?p" by (simp add: demo_pipes_def)
  ultimately have "write_loop demo_penv ?f 64 demo_fifo 80 [1, 2] 0 demo_pipes = Some (W_ret 2 s2)"
    using s1(1) law by (simp add: write_loop.simps[of _ _ _ _ _ "[1, 2]"] is_terminal_def Let_def) (simp add: new_inp_def)
  moreover have "write_from demo_penv ?f 64 demo_fifo 80 At_check [1, 2] 0 demo_pipes =
      write_loop demo_penv ?f 64 demo_fifo 80 [1, 2] 0 demo_pipes"
    using \<open>pipes demo_pipes 80 = Some ?p\<close> by (simp add: write_from_def check_atomicity_def is_terminal_def) (simp add: new_inp_def)
  ultimately show ?thesis
    using s2(2) s1(3) by (simp add: pipe_write_def demo_pipe_of demo_ends)
qed

lemma pipe_data_new [simp]: "pipe_data (new_inp sr j) = []" "pipe_data ((new_outp sr j)\<lparr>writers := n\<rparr>) = []"
  by (simp_all add: pipe_data_def new_inp_def new_outp_def)

theorem pipe_fifo_witness:
  "\<exists>s' p'. pipe_history demo_penv 80 demo_pipes [1, 2] [] s' \<and> pipes s' 80 = Some p' \<and> pipe_data p' = [1, 2]"
proof -
  let ?p = "new_inp False (replicate 4096 0)"
  let ?q = "snd (put_chunk [1, 2] ?p)"
  obtain s' where s': "pipe_write demo_penv 16 [1, 2] demo_pipes = Some (W_ret 2 s')" "pipes s' 80 = Some ?q"
    using demo_write by auto
  have p: "pipes demo_pipes 80 = Some ?p" by (simp add: demo_pipes_def)
  have "pipe_history demo_penv 80 demo_pipes [1, 2] [] s'"
    using hist_write[OF hist_start run_write[OF s'(1) demo_pipe_of(1) demo_ends(1) p]] by (simp add: put_count_def)
  from this pipe_fifo[OF this p demo_pipe_ok(1)] show ?thesis by auto
qed

theorem pipe_small_write_atomic_witness:
  "\<exists>s' p'. pipe_write demo_penv 16 [1, 2] demo_pipes = Some (W_ret 2 s') \<and> pipes s' 80 = Some p' \<and> pipe_data p' = [1, 2]"
proof -
  obtain s' where s': "pipe_write demo_penv 16 [1, 2] demo_pipes = Some (W_ret 2 s')" using demo_write by auto
  have "\<exists>p'. pipes (wstate (W_ret 2 s')) = (pipes demo_pipes)(80 \<mapsto> p') \<and>
      all_or_nothing (W_ret 2 s') [1, 2] (new_inp False (replicate 4096 0)) p'"
    by (rule pipe_small_write_atomic[OF demo_pipe_of(1) demo_ends(1) _ demo_pipe_ok(1) _ _ _ disjI1[OF s']])
      (simp_all add: demo_pipes_def)
  then show ?thesis using s' by (auto simp: all_or_nothing_def EPIPE_def EINTR_def)
qed





end
