(* ===== verification/Pipe_Close.thy ===== *)
theory Pipe_Close
  imports Pipe_Calls
begin

text \<open>
  Opening and closing pipes: opening keeps the sharing modes of the open files compatible; two flaws of
  \<open>pipe_close\<close>.
\<close>

section \<open>Opening\<close>

lemma pipe_of_Some:
  "pipe_of v s = Some (f, Some (b, this)) \<longleftrightarrow>
    files (pfs s) v = Some f \<and> pipe_lookupi (fc_index (f_fc f)) s = Some (Some b) \<and> fifo_at s b = Some this"
  by (auto simp: pipe_of_def split: bind_splits option.splits)

lemma on_file_Some:
  "on_file v g s = Some s' \<longleftrightarrow>
    (\<exists>f. files (pfs s) v = Some f \<and> s' = s\<lparr>pfs := (pfs s)\<lparr>files := (files (pfs s))(v \<mapsto> g f)\<rparr>\<rparr>)"
  by (auto simp: on_file_def upd_file_def split: option.splits)

lemma upd_fifo_Some:
  "upd_fifo b g s = Some s' \<longleftrightarrow> (\<exists>x. fifo_at s b = Some x \<and> s' = s\<lparr>fifo_at := (fifo_at s)(b \<mapsto> g x)\<rparr>)"
  by (auto simp: upd_fifo_def split: option.splits)

lemma upd_pipe_Some: "upd_pipe a g s = Some s' \<longleftrightarrow> (\<exists>p. pipes s a = Some p \<and> s' = set_pipe a (g p) s)"
  by (auto simp: upd_pipe_def split: option.splits)

lemma count_open_frame: "count_open f this s = Some s' \<Longrightarrow> pfs s' = pfs s \<and> fifo_at s' = fifo_at s"
  by (auto simp: count_open_def upd_pipe_Some split: if_splits bind_splits)

text \<open>What a successful open leaves: the new file at the head of the list of open files.\<close>

lemma pipe_open_effect:
  assumes "pipe_open v s = Some (E_OK, s')" "pipe_of v s = Some (f, Some (b, this))"
    "f1 = f\<lparr>f_flags := no_compat (f_flags f OR ff_flags this)\<rparr>"
  shows "denyshare (ff_open this) f1 ((pfs s)\<lparr>files := (files (pfs s))(v \<mapsto> f1)\<rparr>) = Some False"
    "files (pfs s') = (files (pfs s))(v \<mapsto> f1\<lparr>f_devinfo := ff_tty this\<rparr>)"
    "\<exists>this'. fifo_at s' b = Some this' \<and> ff_open this' = v # ff_open this"
  using assms
  by (auto simp: pipe_open_def on_file_Some upd_fifo_Some pipe_of_Some E_OK_def EACCES_def EINTERNAL_def
      dest!: count_open_frame split: bind_splits if_splits)

lemma share_ok_flags:
  assumes "\<And>x. x \<in> {v, w} \<Longrightarrow> map_option f_flags (fs' x) = map_option f_flags (fs x)"
  shows "share_ok fs' v w = share_ok fs v w"
proof -
  have h: "honours g' f' = honours g f" if "f_flags f' = f_flags f" "f_flags g' = f_flags g" for f f' g g'
    using that by (simp add: honours_def share_mode_def read_mode_def)
  have "map_option f_flags (fs' v) = map_option f_flags (fs v)" "map_option f_flags (fs' w) = map_option f_flags (fs w)"
    using assms by simp_all
  then show ?thesis
    by (cases "fs' v"; cases "fs v"; cases "fs' w"; cases "fs w") (auto simp: share_ok_def dest: h)
qed

text \<open>The open files of a fifo are allocated, all different, and their sharing modes agree.\<close>

definition shares_well :: "pstate \<Rightarrow> u32 \<Rightarrow> bool" where
  "shares_well s b \<longleftrightarrow>
    (\<exists>this. fifo_at s b = Some this \<and> distinct (ff_open this) \<and> sorted_wrt (share_ok (files (pfs s))) (ff_open this))"

lemma pipe_open_shares_well:
  assumes "pipe_open v s = Some (E_OK, s')" "pipe_of v s = Some (f, Some (b, this))" "shares_well s b" "v \<notin> set (ff_open this)"
  shows "shares_well s' b"
proof -
  let ?f = "f\<lparr>f_flags := no_compat (f_flags f OR ff_flags this)\<rparr>"
  note eff = pipe_open_effect[OF assms(1,2) refl]
  obtain this' where this': "fifo_at s' b = Some this'" "ff_open this' = v # ff_open this" using eff(3) by blast
  have old: "distinct (ff_open this)" "sorted_wrt (share_ok (files (pfs s))) (ff_open this)"
    using assms(2,3) by (auto simp: shares_well_def pipe_of_Some)
  have same: "share_ok (files (pfs s')) x y = share_ok (files (pfs s)) x y"
    if "x \<in> set (ff_open this)" "y \<in> set (ff_open this)" for x y
    by (rule share_ok_flags) (use that assms(4) in \<open>auto simp: eff(2)\<close>)
  have new: "share_ok (files (pfs s')) v w" if w: "w \<in> set (ff_open this)" for w
  proof -
    obtain g where "files ((pfs s)\<lparr>files := (files (pfs s))(v \<mapsto> ?f)\<rparr>) w = Some g" "honours ?f g" "honours g ?f"
      using denyshare_False[OF eff(1) w] by blast
    then have "share_ok ((files (pfs s))(v \<mapsto> ?f)) v w" using w assms(4) by (auto simp: share_ok_def)
    moreover have "share_ok (files (pfs s')) v w = share_ok ((files (pfs s))(v \<mapsto> ?f)) v w"
      by (rule share_ok_flags) (simp add: eff(2))
    ultimately show ?thesis by simp
  qed
  have "sorted_wrt (share_ok (files (pfs s'))) (ff_open this)"
    by (rule sorted_wrt_mono_rel[OF _ old(2)]) (simp add: same)
  then show ?thesis using this' old(1) new assms(4) by (auto simp: shares_well_def)
qed

section \<open>Closing\<close>

lemma wake_pipe_some:
  assumes "queues_ok (pkern s)" "pipes s a \<noteq> None"
  shows "\<exists>s'. wake_pipe env a g h s = Some s' \<and> queues_ok (pkern s') \<and> pipes s' = pipes s \<and> fifo_at s' = fifo_at s \<and>
    piperoot s' = piperoot s \<and> files (pfs s') = files (pfs s)"
proof -
  obtain p where p: "pipes s a = Some p" using assms(2) by blast
  obtain k where k: "wake IO_Q a (pkern s) = Some k" "queues_ok k" using wake_no_waiter[OF assms(1)] by blast
  have q: "queues_ok (pkern (set_kern k s))" using k by simp
  obtain s1 where s1: "wake_selecting env (g p) (set_kern k s) = Some s1" "queues_ok (pkern s1)"
    using wake_selecting_ok[OF q] by blast
  obtain s2 where s2: "wake_selecting env (h p) s1 = Some s2" "queues_ok (pkern s2)"
    using wake_selecting_ok[OF s1(2)] by blast
  have fr: "pipes y = pipes x \<and> fifo_at y = fifo_at x \<and> piperoot y = piperoot x \<and> files (pfs y) = files (pfs x)"
    if "wake_selecting env r x = Some y" for r x y
    using that by (auto simp: wake_selecting_def on_kern_Some split: option.splits)
  have "wake_pipe env a g h s = Some s2" using k p s1(1) s2(1) by (simp add: wake_pipe_def on_kern_def)
  then show ?thesis using s2(2) fr[OF s1(1)] fr[OF s2(1)] by auto
qed

lemma last_close_hidden:
  assumes "pipes_ok s" "files (pfs s) v = Some f" "fifo_at s b = Some this" "pipes s (ff_inp this) = Some pi"
    "pipes s (ff_outp this) = Some po" "ff_inp this \<noteq> ff_outp this" "v \<in> set (ff_open this)"
    "is_head f" "f_flags f AND O_RWMODE = O_RDWR" "\<not> is_terminal f" "f_flags f AND O_LOCK = 0"
    "ff_dosflags this AND FA_HIDDEN \<noteq> 0"
  shows "\<exists>s'. last_close env v f b this who s = Some s' \<and>
    pipes s' = (pipes s)(ff_outp this \<mapsto> drop_reader po, ff_inp this \<mapsto> drop_writer pi) \<and>
    fifo_at s' = (fifo_at s)(b \<mapsto> this\<lparr>ff_open := remove1 v (ff_open this)\<rparr>) \<and> piperoot s' = piperoot s \<and>
    files (pfs s') = files (pfs s)"
proof -
  have nz: "ff_outp this \<noteq> 0" "ff_inp this \<noteq> 0" using pipes_okD(2)[OF assms(1)] assms(4,5) by blast+
  obtain s1 where s1: "wake_pipe env (ff_inp this) p_rsel p_wsel s = Some s1" "queues_ok (pkern s1)" "pipes s1 = pipes s"
      "fifo_at s1 = fifo_at s" "piperoot s1 = piperoot s" "files (pfs s1) = files (pfs s)"
    using wake_pipe_some[OF pipes_okD(1)[OF assms(1)]] assms(4) by (metis option.distinct(1))
  obtain s2 where s2: "wake_pipe env (ff_outp this) p_wsel p_rsel s1 = Some s2" "pipes s2 = pipes s"
      "fifo_at s2 = fifo_at s" "piperoot s2 = piperoot s" "files (pfs s2) = files (pfs s)"
    using wake_pipe_some[OF s1(2)] s1(3-6) assms(5) by (metis option.distinct(1))
  define s3 where "s3 = s2\<lparr>fifo_at := (fifo_at s2)(b \<mapsto> this\<lparr>ff_open := remove1 v (ff_open this)\<rparr>)\<rparr>"
  have p3: "pipes s3 = pipes s" by (simp add: s3_def s2)
  have rw: "rw_reads f" "rw_writes f" using assms(9) by (simp_all add: rw_reads_def rw_writes_def)
  have "count_close f this s3 =
      Some (set_pipe (ff_inp this) (drop_writer pi) (set_pipe (ff_outp this) (drop_reader po) s3))"
    using assms(4-6,8,10,12) nz p3
    by (simp add: count_close_def read_end_def write_end_def upd_pipe_def hang_up_def rw)
  then show ?thesis
    using s1(1) s2 nz assms(3,7,11) by (simp add: last_close_def upd_fifo_def s3_def)
qed

section \<open>Properties\<close>

text \<open>
  C39: opening a pipe keeps the sharing modes of its open files compatible: after a successful open no
  open file of the pipe denies what another one does.
\<close>

theorem pipe_open_respects_sharing:
  assumes "pipe_open v s = Some (E_OK, s')" "pipe_of v s = Some (f, Some (b, this))" "shares_well s b" "v \<notin> set (ff_open this)"
  shows "\<exists>this'. fifo_at s' b = Some this' \<and> ff_open this' = v # ff_open this \<and>
    (\<forall>x \<in> set (ff_open this'). \<forall>y \<in> set (ff_open this'). x \<noteq> y \<longrightarrow>
      (\<exists>g h. files (pfs s') x = Some g \<and> files (pfs s') y = Some h \<and> honours g h))"
proof -
  obtain this' where this': "fifo_at s' b = Some this'" "ff_open this' = v # ff_open this"
    using pipe_open_effect(3)[OF assms(1,2) refl] by blast
  have "sorted_wrt (share_ok (files (pfs s'))) (ff_open this')"
    using pipe_open_shares_well[OF assms] this'(1) by (auto simp: shares_well_def)
  moreover have "share_ok fs x y \<longleftrightarrow> share_ok fs y x" for fs x y by (auto simp: share_ok_def)
  ultimately have ok: "share_ok (files (pfs s')) x y" if "x \<in> set (ff_open this')" "y \<in> set (ff_open this')" "x \<noteq> y" for x y
    using that by (metis in_set_conv_nth linorder_neqE_nat sorted_wrt_iff_nth_less)
  show ?thesis
  proof (intro exI[of _ this'] conjI ballI impI)
    show "\<exists>g h. files (pfs s') x = Some g \<and> files (pfs s') y = Some h \<and> honours g h"
      if "x \<in> set (ff_open this')" "y \<in> set (ff_open this')" "x \<noteq> y" for x y
      using ok[OF that] unfolding share_ok_def by blast
  qed (rule this')+
qed

text \<open>
  C40: \<open>pipe_close\<close> decides from the ends of \<open>inp\<close> alone that a fifo is no longer used. When the creator
  of a bidirectional pipe closes it while another process has it open for writing only, both pipes and
  the fifo are freed although that file is still open: the rest of a write that slept on the pipe uses
  freed memory.
\<close>

theorem pipe_close_frees_open_pipe:
  assumes "pipes_ok s" "pipe_of v s = Some (f, Some (b, this))" "pipes s (ff_inp this) = Some pi"
    "pipes s (ff_outp this) = Some po" "ff_inp this \<noteq> ff_outp this"
    "is_head f" "f_flags f AND O_RWMODE = O_RDWR" "\<not> is_terminal f" "f_flags f AND O_LOCK = 0" "f_links f \<le> 0"
    "ff_dosflags this AND FA_HIDDEN \<noteq> 0" "readers pi = VIRGIN_PIPE" "writers pi = 1"
    "v \<in> set (ff_open this)" "w \<in> set (ff_open this)" "files (pfs s) w = Some g"
  shows "\<exists>s'. pipe_close env v who s = Some (E_OK, s') \<and> files (pfs s') w = Some g \<and>
    fifo_at s' b = None \<and> pipes s' (ff_outp this) = None \<and>
    pipe_write_resume env w b (ff_outp this) 0 At_loop data wr s' = None"
proof -
  have f: "files (pfs s) v = Some f" "fifo_at s b = Some this" using assms(2) by (simp_all add: pipe_of_Some)
  obtain s1 where s1: "last_close env v f b this who s = Some s1"
      "pipes s1 = (pipes s)(ff_outp this \<mapsto> drop_reader po, ff_inp this \<mapsto> drop_writer pi)"
      "files (pfs s1) = files (pfs s)"
    using last_close_hidden[OF assms(1) f assms(3-5,14,6-9,11)] by blast
  have nz: "ff_outp this \<noteq> 0" "ff_inp this \<noteq> 0" using pipes_okD(2)[OF assms(1)] assms(3,4) by blast+
  let ?p = "no_virgin (drop_writer pi)"
  have "readers ?p \<le> 0" "writers ?p \<le> 0"
    using assms(12,13) by (simp_all add: no_virgin_def drop_writer_def short_of_def)
  then have "pipe_close env v who s = Some (E_OK, dispose b this (set_pipe (ff_inp this) ?p s1))"
    using assms(2,10) s1(1,2) by (simp add: pipe_close_def upd_pipe_def)
  moreover have "fifo_at (dispose b this x) b = None" "pipes (dispose b this x) (ff_outp this) = None"
      "files (pfs (dispose b this x)) = files (pfs x)" for x
    using nz by (simp_all add: dispose_def free_pipe_def)
  ultimately show ?thesis using s1(3) assms(16) by (auto simp: pipe_write_resume_def)
qed

text \<open>File 48 opens the fifo of \<open>demo_pipes\<close> for reading.\<close>

definition demo_opening :: pstate where
  "demo_opening =
    demo_pipes\<lparr>pfs := (pfs demo_pipes)\<lparr>files := demo_pipe_files(48 \<mapsto>
      zero_file\<lparr>f_links := 1, f_fc := \<lparr>fc_fs = 1, fc_dev = 33, fc_index = 2\<rparr>\<rparr>)\<rparr>\<rparr>"

lemma demo_opening_of:
  "pipe_of 48 demo_opening = Some (zero_file\<lparr>f_links := 1, f_fc := \<lparr>fc_fs = 1, fc_dev = 33, fc_index = 2\<rparr>\<rparr>, Some (64, demo_fifo))"
  by (simp add: pipe_of_def demo_opening_def demo_pipes_def pipe_lookupi_def demo_fifo_def)

lemma demo_shares_well: "shares_well demo_opening 64"
  by (simp add: shares_well_def demo_opening_def demo_pipes_def demo_fifo_def share_ok_def honours_def demo_pipe_files_def
      share_mode_def read_mode_def)

theorem pipe_open_respects_sharing_witness:
  "\<exists>s' this'. pipe_open 48 demo_opening = Some (E_OK, s') \<and> fifo_at s' 64 = Some this' \<and> ff_open this' = [48, 32, 16]"
proof -
  have "\<exists>s'. pipe_open 48 demo_opening = Some (E_OK, s')"
    unfolding pipe_open_def demo_opening_of
    by (simp add: on_file_def upd_file_def upd_fifo_def demo_opening_def demo_pipes_def demo_fifo_def no_compat_def
        demo_pipe_files_def modes_clash_def compat_clash_def read_mode_def share_mode_def zero_file_def
        count_open_def upd_pipe_def set_pipe_def rw_reads_def rw_writes_def is_head_def Let_def)
  then obtain s' where s': "pipe_open 48 demo_opening = Some (E_OK, s')" by blast
  have "48 \<notin> set (ff_open demo_fifo)" by (simp add: demo_fifo_def)
  from pipe_open_respects_sharing[OF s' demo_opening_of demo_shares_well this] s' show ?thesis
    by (auto simp: demo_fifo_def)
qed

theorem pipe_close_frees_open_pipe_witness:
  "\<exists>s'. pipe_close demo_penv 16 1 demo_pipes = Some (E_OK, s') \<and> files (pfs s') 32 \<noteq> None \<and>
    pipe_write_resume demo_penv 32 64 96 0 At_loop [7] 0 s' = None"
proof -
  let ?p = "new_inp False (replicate 4096 0)" and ?q = "(new_outp False (replicate 4096 0))\<lparr>writers := 1\<rparr>"
  have ends: "pipes demo_pipes (ff_inp demo_fifo) = Some ?p" "pipes demo_pipes (ff_outp demo_fifo) = Some ?q"
    by (simp_all add: demo_pipes_def demo_fifo_def)
  have w: "files (pfs demo_pipes) 32 \<noteq> None" by (simp add: demo_pipes_def demo_pipe_files_def)
  then obtain g where g: "files (pfs demo_pipes) 32 = Some g" by blast
  have "\<exists>s'. pipe_close demo_penv 16 1 demo_pipes = Some (E_OK, s') \<and> files (pfs s') 32 = Some g \<and>
      fifo_at s' 64 = None \<and> pipes s' (ff_outp demo_fifo) = None \<and>
      pipe_write_resume demo_penv 32 64 (ff_outp demo_fifo) 0 At_loop [7] 0 s' = None"
    by (rule pipe_close_frees_open_pipe[OF demo_pipes_ok demo_pipe_of(1) ends _ _ _ _ _ _ _ _ _ _ _ g])
      (simp_all add: demo_fifo_def is_head_def is_terminal_def zero_file_def new_inp_def)
  then show ?thesis by (auto simp: demo_fifo_def)
qed

end
