(* ===== verification/Proc_Parts.thy ===== *)
theory Proc_Parts
  imports Rendez Filedesc_Calls
begin

text \<open>
  The parts of a process that it shares with others or owns alone (\<open>sys/proc_help.c\<close>): address space, current
  directories, signal actions and the extensions that kernel modules attach to it.

  \<open>lstate\<close> extends the state of the descriptors by these structures. \<open>life_env\<close> holds the routines of other
  parts of the kernel: \<open>l_mem i\<close> is the result of the \<open>i\<close>-th \<open>kmalloc\<close> of an operation, \<open>l_cb\<close> calls an entry of
  the callback vector of a module (a null entry does nothing), and the memory regions of an address space, the
  shared libraries, the screen and the file systems are behind the others. \<open>None\<close> as a result stands for a failed
  assertion and for the use of memory that is not allocated.
\<close>

section \<open>Structures\<close>

record cwd =
  cwd_links :: int
  cmask :: u16
  rootdir :: fcookie
  root_dir :: "string option"
  curdrv :: u16
  root :: "nat \<Rightarrow> fcookie"
  curdir :: "nat \<Rightarrow> fcookie"

record proc_ext =
  ext_ident :: u32
  ext_flags :: u32
  ext_size :: nat
  ext_links :: int
  ext_data :: nat
  cb_vector :: "nat option"

text \<open>The table of a process has room for ten extensions.\<close>

record p_ext_tab =
  pe_size :: nat
  pe_used :: nat
  pe_ext :: "nat \<Rightarrow> nat"

record itimer =
  it_interval :: u32
  it_reqtime :: u32
  it_timeout :: "nat option"

text \<open>Fields of \<open>struct proc\<close> that only the operations below use; a saved command line starts with its length.\<close>

record proc_more =
  alarmtim :: "nat option"
  real_cmdline :: "(u32 \<times> u8 list) option"
  exe :: fcookie
  itimers :: "nat \<Rightarrow> itimer"
  started :: int
  ptraceflags :: u16

record lstate =
  fds :: fstate
  pmore :: "pptr \<Rightarrow> proc_more"
  p_mem :: "pptr \<Rightarrow> nat option"
  mem_links :: "nat \<Rightarrow> int"
  p_cwd :: "pptr \<Rightarrow> nat option"
  cwds :: "nat \<Rightarrow> cwd option"
  p_ext :: "pptr \<Rightarrow> nat option"
  ext_tabs :: "nat \<Rightarrow> p_ext_tab option"
  exts :: "nat \<Rightarrow> proc_ext option"
  ext_bytes :: "nat \<Rightarrow> u8 list option"
  dlockproc :: "nat \<Rightarrow> pptr option"
  maxpid :: int
  procfs_stmp :: int
  xtime :: int

abbreviation (input) lk :: "lstate \<Rightarrow> kernel" where
  "lk s \<equiv> kern (fds s)"

datatype ext_event =
    Ext_share pptr pptr
  | Ext_release
  | Ext_exit pptr int
  | Ext_exec pptr
  | Ext_fork pptr u32 pptr
  | Ext_stop pptr nat
  | Ext_signal pptr nat

record life_env =
  l_fenv :: fenv
  l_sleep :: sleep_env
  l_mem :: "nat \<Rightarrow> lstate \<Rightarrow> nat option"
  l_cb :: "nat \<Rightarrow> ext_event \<Rightarrow> nat \<Rightarrow> lstate \<Rightarrow> lstate"
  l_dupcookie :: "fcookie \<Rightarrow> fstate \<Rightarrow> fcookie \<times> fstate"
  l_free_regions :: "pptr \<Rightarrow> nat \<Rightarrow> lstate \<Rightarrow> lstate"
  l_copy_mem :: "pptr \<Rightarrow> lstate \<Rightarrow> nat option \<times> lstate"
  l_page_table :: "pptr \<Rightarrow> lstate \<Rightarrow> lstate"
  l_shrink :: "int \<Rightarrow> lstate \<Rightarrow> lstate"
  l_bconbsiz :: "lstate \<Rightarrow> bool"
  l_bflush :: "lstate \<Rightarrow> lstate"
  l_slb_close :: "bool \<Rightarrow> int \<Rightarrow> lstate \<Rightarrow> int \<times> lstate"
  l_remove_slb :: "lstate \<Rightarrow> lstate"
  l_changedrv :: "u16 \<Rightarrow> lstate \<Rightarrow> lstate"
  l_term_vec :: "pptr \<Rightarrow> u32"
  l_rts :: u32
  l_supexec :: "u32 \<Rightarrow> int \<Rightarrow> lstate \<Rightarrow> lstate"

abbreviation (input) NUM_DRIVES :: nat where "NUM_DRIVES \<equiv> 32"
abbreviation (input) PEXT_NOSHARE :: u32 where "PEXT_NOSHARE \<equiv> 1"
abbreviation (input) PEXT_COPYONSHARE :: u32 where "PEXT_COPYONSHARE \<equiv> 2"
abbreviation (input) PEXT_SHAREONCE :: u32 where "PEXT_SHAREONCE \<equiv> 4"

definition upd_kern :: "(kernel \<Rightarrow> kernel) \<Rightarrow> lstate \<Rightarrow> lstate" where
  "upd_kern g s = s\<lparr>fds := (fds s)\<lparr>kern := g (lk s)\<rparr>\<rparr>"

definition in_kern :: "(kernel \<Rightarrow> kernel option) \<Rightarrow> lstate \<Rightarrow> lstate option" where
  "in_kern g s = (case g (lk s) of None \<Rightarrow> None | Some k \<Rightarrow> Some (s\<lparr>fds := (fds s)\<lparr>kern := k\<rparr>\<rparr>))"

definition in_fds :: "(fstate \<Rightarrow> fstate option) \<Rightarrow> lstate \<Rightarrow> lstate option" where
  "in_fds g s = (case g (fds s) of None \<Rightarrow> None | Some f \<Rightarrow> Some (s\<lparr>fds := f\<rparr>))"

definition upd_more :: "pptr \<Rightarrow> (proc_more \<Rightarrow> proc_more) \<Rightarrow> lstate \<Rightarrow> lstate" where
  "upd_more p g s = s\<lparr>pmore := (pmore s)(p := g (pmore s p))\<rparr>"

definition dup_cookie :: "life_env \<Rightarrow> fcookie \<Rightarrow> lstate \<Rightarrow> fcookie \<times> lstate" where
  "dup_cookie env c s =
    (if fc_fs c = 0 then (c, s) else case l_dupcookie env c (fds s) of (c', f) \<Rightarrow> (c', s\<lparr>fds := f\<rparr>))"

definition release_cookie :: "life_env \<Rightarrow> fcookie \<Rightarrow> lstate \<Rightarrow> lstate" where
  "release_cookie env c s =
    (if fc_fs c = 0 then s else s\<lparr>fds := e_release_cookie (l_fenv env) c (fds s)\<rparr>)"

section \<open>Address space\<close>

definition share_mem :: "pptr \<Rightarrow> lstate \<Rightarrow> (nat option \<times> lstate) option" where
  "share_mem p s =
    (case p_mem s p of
       None \<Rightarrow> None
     | Some m \<Rightarrow> Some (Some m, s\<lparr>mem_links := (mem_links s)(m := mem_links s m + 1)\<rparr>))"

text \<open>The loop over the regions is \<open>l_free_regions\<close>.\<close>

definition free_mem :: "life_env \<Rightarrow> pptr \<Rightarrow> lstate \<Rightarrow> lstate option" where
  "free_mem env p s =
    (case p_mem s p of
       None \<Rightarrow> None
     | Some m \<Rightarrow>
         if \<not> 0 < mem_links s m then None
         else (let s = s\<lparr>mem_links := (mem_links s)(m := mem_links s m - 1)\<rparr>
               in if mem_links s m > 0 then Some s
                  else (let s = l_free_regions env p m s in Some (s\<lparr>p_mem := (p_mem s)(p := None)\<rparr>))))"

section \<open>Current directories\<close>

definition share_cwd :: "pptr \<Rightarrow> lstate \<Rightarrow> (nat option \<times> lstate) option" where
  "share_cwd p s =
    do { a \<leftarrow> p_cwd s p;
         c \<leftarrow> cwds s a;
         Some (Some a, s\<lparr>cwds := (cwds s)(a \<mapsto> c\<lparr>cwd_links := cwd_links c + 1\<rparr>)\<rparr>) }"

definition zero_cookie :: fcookie where
  "zero_cookie = \<lparr>fc_fs = 0, fc_dev = 0, fc_index = 0\<rparr>"

definition zero_cwd :: cwd where
  "zero_cwd = \<lparr>cwd_links = 0, cmask = 0, rootdir = zero_cookie, root_dir = None, curdrv = 0,
     root = (\<lambda>_. zero_cookie), curdir = (\<lambda>_. zero_cookie)\<rparr>"

text \<open>The condition is that of the code: it looks at the new structure, which was just cleared.\<close>

definition copy_root_dir :: "life_env \<Rightarrow> cwd \<Rightarrow> cwd \<Rightarrow> lstate \<Rightarrow> (cwd option \<times> lstate) option" where
  "copy_root_dir env org c s =
    (if root_dir c = None then Some (Some c, s)
     else if l_mem env 1 s = None then Some (None, s)
     else do { d \<leftarrow> root_dir org;
               let (r, s) = dup_cookie env (rootdir org) s;
               Some (Some (c\<lparr>root_dir := Some d, rootdir := r\<rparr>), s) })"

fun copy_dirs :: "life_env \<Rightarrow> cwd \<Rightarrow> nat list \<Rightarrow> cwd \<Rightarrow> lstate \<Rightarrow> cwd \<times> lstate" where
  "copy_dirs env org [] c s = (c, s)"
| "copy_dirs env org (i # is) c s =
    (let (r, s) = dup_cookie env (root org i) s;
         (d, s) = dup_cookie env (curdir org i) s
     in copy_dirs env org is (c\<lparr>root := (root c)(i := r), curdir := (curdir c)(i := d)\<rparr>) s)"

definition copy_cwd :: "life_env \<Rightarrow> pptr \<Rightarrow> lstate \<Rightarrow> (nat option \<times> lstate) option" where
  "copy_cwd env p s =
    do { o_cwd \<leftarrow> p_cwd s p;
         org \<leftarrow> cwds s o_cwd;
         if \<not> 0 < cwd_links org then None
         else case l_mem env 0 s of
           None \<Rightarrow> Some (None, s)
         | Some a \<Rightarrow>
             do { let c = zero_cwd\<lparr>cwd_links := 1, cmask := cmask org\<rparr>;
                  (r, s) \<leftarrow> copy_root_dir env org c s;
                  case r of
                    None \<Rightarrow> Some (None, s)
                  | Some c \<Rightarrow>
                      (let (c, s) = copy_dirs env org [0..<NUM_DRIVES] (c\<lparr>curdrv := curdrv org\<rparr>) s
                       in Some (Some a, s\<lparr>cwds := (cwds s)(a \<mapsto> c)\<rparr>)) } }"

fun release_dirs :: "life_env \<Rightarrow> cwd \<Rightarrow> nat list \<Rightarrow> lstate \<Rightarrow> lstate" where
  "release_dirs env c [] s = s"
| "release_dirs env c (i # is) s =
    release_dirs env c is (release_cookie env (root c i) (release_cookie env (curdir c i) s))"

definition free_cwd :: "life_env \<Rightarrow> pptr \<Rightarrow> lstate \<Rightarrow> lstate option" where
  "free_cwd env p s =
    do { a \<leftarrow> p_cwd s p;
         c \<leftarrow> cwds s a;
         if \<not> 0 < cwd_links c then None
         else do {
           let s = s\<lparr>p_cwd := (p_cwd s)(p := None), cwds := (cwds s)(a \<mapsto> c\<lparr>cwd_links := cwd_links c - 1\<rparr>)\<rparr>;
           if cwd_links c - 1 > 0 then Some s
           else do {
             let s = release_dirs env c [0..<NUM_DRIVES] s;
             let s = (if root_dir c \<noteq> None then release_cookie env (rootdir c) s else s);
             Some (s\<lparr>cwds := (cwds s)(a := None)\<rparr>) } } }"

section \<open>Signal actions\<close>

text \<open>A table of signal actions with no links is not allocated.\<close>

definition share_sigacts :: "pptr \<Rightarrow> kernel \<Rightarrow> nat \<times> kernel" where
  "share_sigacts p k =
    (let a = p_sigacts (procs k p)
     in (a, k\<lparr>sigacts_links := (sigacts_links k)(a := sigacts_links k a + 1)\<rparr>))"

definition copy_sigacts :: "nat option \<Rightarrow> pptr \<Rightarrow> kernel \<Rightarrow> (nat option \<times> kernel) option" where
  "copy_sigacts mem p k =
    (let a = p_sigacts (procs k p)
     in if \<not> 0 < sigacts_links k a then None
        else case mem of
          None \<Rightarrow> Some (None, k)
        | Some n \<Rightarrow> Some (Some n, k\<lparr>sigacts := (sigacts k)(n := sigacts k a), sigacts_links := (sigacts_links k)(n := 1)\<rparr>))"

text \<open>The pointer of the process is not cleared here: its structure is freed by both callers right after.\<close>

definition free_sigacts :: "pptr \<Rightarrow> kernel \<Rightarrow> kernel option" where
  "free_sigacts p k =
    (let a = p_sigacts (procs k p)
     in if \<not> 0 < sigacts_links k a then None
        else Some (k\<lparr>sigacts_links := (sigacts_links k)(a := sigacts_links k a - 1)\<rparr>))"

section \<open>Extensions\<close>

definition short_links :: "int \<Rightarrow> int" where
  "short_links n = signed_take_bit 15 n"

definition set_ext :: "nat \<Rightarrow> proc_ext option \<Rightarrow> lstate \<Rightarrow> lstate" where
  "set_ext e v s = s\<lparr>exts := (exts s)(e := v)\<rparr>"

definition set_tab :: "nat \<Rightarrow> p_ext_tab option \<Rightarrow> lstate \<Rightarrow> lstate" where
  "set_tab a v s = s\<lparr>ext_tabs := (ext_tabs s)(a := v)\<rparr>"

definition call_back :: "life_env \<Rightarrow> proc_ext \<Rightarrow> ext_event \<Rightarrow> lstate \<Rightarrow> lstate" where
  "call_back env x ev s = (case cb_vector x of None \<Rightarrow> s | Some v \<Rightarrow> l_cb env v ev (ext_data x) s)"

definition push_ext :: "nat \<Rightarrow> p_ext_tab \<Rightarrow> p_ext_tab" where
  "push_ext e t = t\<lparr>pe_ext := (pe_ext t)(pe_used t := e), pe_used := pe_used t + 1\<rparr>"

definition zero_tab :: p_ext_tab where
  "zero_tab = \<lparr>pe_size = 0, pe_used = 0, pe_ext = (\<lambda>_. 0)\<rparr>"

definition new_proc_ext :: "life_env \<Rightarrow> u32 \<Rightarrow> u32 \<Rightarrow> nat \<Rightarrow> nat option \<Rightarrow> lstate \<Rightarrow> nat option \<times> lstate" where
  "new_proc_ext env ident flags n cb s =
    (case l_mem env 0 s of
       None \<Rightarrow> (None, s)
     | Some e \<Rightarrow>
         (case l_mem env 1 s of
            None \<Rightarrow> (None, s)
          | Some d \<Rightarrow>
              (Some e, (set_ext e (Some \<lparr>ext_ident = ident, ext_flags = flags, ext_size = n, ext_links = 1,
                 ext_data = d, cb_vector = cb\<rparr>) s)\<lparr>ext_bytes := (ext_bytes s)(d \<mapsto> replicate n 0)\<rparr>)))"

text \<open>The first loop of \<open>share_ext\<close>: it fills the new table.\<close>

fun share_loop :: "life_env \<Rightarrow> nat list \<Rightarrow> p_ext_tab \<Rightarrow> lstate \<Rightarrow> (p_ext_tab \<times> lstate) option" where
  "share_loop env [] t s = Some (t, s)"
| "share_loop env (e # es) t s =
    do { x \<leftarrow> exts s e;
         if ext_flags x AND PEXT_NOSHARE \<noteq> 0 then share_loop env es t s
         else if ext_flags x AND PEXT_COPYONSHARE \<noteq> 0 then
           (case new_proc_ext env (ext_ident x) (ext_flags x) (ext_size x) (cb_vector x) s of
              (None, s) \<Rightarrow> None
            | (Some n, s) \<Rightarrow>
                do { y \<leftarrow> exts s n;
                     let s = s\<lparr>ext_bytes := (ext_bytes s)(ext_data y := ext_bytes s (ext_data x))\<rparr>;
                     let s = (if ext_flags y AND PEXT_SHAREONCE \<noteq> 0
                              then set_ext n (Some (y\<lparr>ext_flags := ext_flags y OR PEXT_NOSHARE\<rparr>)) s else s);
                     share_loop env es (push_ext n t) s })
         else share_loop env es (push_ext e t) (set_ext e (Some (x\<lparr>ext_links := short_links (ext_links x + 1)\<rparr>)) s) }"

text \<open>The second loop calls the \<open>share\<close> entries over a copy of the table.\<close>

fun share_calls :: "life_env \<Rightarrow> pptr \<Rightarrow> pptr \<Rightarrow> nat list \<Rightarrow> lstate \<Rightarrow> lstate option" where
  "share_calls env p p2 [] s = Some s"
| "share_calls env p p2 (e # es) s =
    do { x \<leftarrow> exts s e; share_calls env p p2 es (call_back env x (Ext_share p p2) s) }"

definition ext_list :: "p_ext_tab \<Rightarrow> nat list" where
  "ext_list t = map (pe_ext t) [0..<pe_used t]"

text \<open>\<open>l_mem\<close> 2 and 3 are the new table and its copy.\<close>

definition share_ext :: "life_env \<Rightarrow> pptr \<Rightarrow> pptr \<Rightarrow> lstate \<Rightarrow> lstate option" where
  "share_ext env p p2 s =
    (let s = s\<lparr>p_ext := (p_ext s)(p2 := None)\<rparr>
     in case p_ext s p of
          None \<Rightarrow> Some s
        | Some a \<Rightarrow>
            (case (l_mem env 2 s, l_mem env 3 s) of
               (Some b, Some _) \<Rightarrow>
                 do { t \<leftarrow> ext_tabs s a;
                      (t', s) \<leftarrow> share_loop env (ext_list t) (zero_tab\<lparr>pe_size := pe_size t\<rparr>) s;
                      if pe_used t' = 0 then Some s
                      else share_calls env p p2 (ext_list t')
                             (set_tab b (Some t') (s\<lparr>p_ext := (p_ext s)(p2 := Some b)\<rparr>)) }
             | _ \<Rightarrow> Some s))"

text \<open>One reference less; the last one calls the \<open>release\<close> entry and frees the structure.\<close>

definition drop_ext :: "life_env \<Rightarrow> nat \<Rightarrow> lstate \<Rightarrow> lstate option" where
  "drop_ext env e s =
    do { x \<leftarrow> exts s e;
         let x = x\<lparr>ext_links := short_links (ext_links x - 1)\<rparr>;
         let s = set_ext e (Some x) s;
         if ext_links x \<le> 0 then
           (let s = call_back env x Ext_release s
            in Some (set_ext e None (s\<lparr>ext_bytes := (ext_bytes s)(ext_data x := None)\<rparr>)))
         else Some s }"

partial_function (option) drop_exts :: "life_env \<Rightarrow> nat \<Rightarrow> nat \<Rightarrow> lstate \<Rightarrow> lstate option" where
  "drop_exts env a i s =
    do { t \<leftarrow> ext_tabs s a;
         if i < pe_used t then do { s \<leftarrow> drop_ext env (pe_ext t i) s; drop_exts env a (i + 1) s } else Some s }"

definition free_ext :: "life_env \<Rightarrow> pptr \<Rightarrow> lstate \<Rightarrow> lstate option" where
  "free_ext env p s =
    (case p_ext s p of
       None \<Rightarrow> Some s
     | Some a \<Rightarrow>
         do { s \<leftarrow> drop_exts env a 0 s;
              Some (set_tab a None (s\<lparr>p_ext := (p_ext s)(p := None)\<rparr>)) })"

text \<open>The first extension of a list with the given name.\<close>

fun find_ext :: "lstate \<Rightarrow> u32 \<Rightarrow> nat list \<Rightarrow> nat option option" where
  "find_ext s ident [] = Some None"
| "find_ext s ident (e # es) =
    do { x \<leftarrow> exts s e; if ext_ident x = ident then Some (Some e) else find_ext s ident es }"

definition default_proc :: "pptr option \<Rightarrow> lstate \<Rightarrow> pptr" where
  "default_proc p s = (case p of None \<Rightarrow> curproc (lk s) | Some p \<Rightarrow> p)"

definition exts_of :: "lstate \<Rightarrow> pptr \<Rightarrow> nat list option" where
  "exts_of s p = (case p_ext s p of None \<Rightarrow> Some [] | Some a \<Rightarrow> map_option ext_list (ext_tabs s a))"

definition proc_lookup_extension :: "pptr option \<Rightarrow> u32 \<Rightarrow> lstate \<Rightarrow> nat option option" where
  "proc_lookup_extension p ident s =
    do { es \<leftarrow> exts_of s (default_proc p s);
         r \<leftarrow> find_ext s ident es;
         case r of None \<Rightarrow> Some None | Some e \<Rightarrow> map_option (\<lambda>x. Some (ext_data x)) (exts s e) }"

text \<open>\<open>l_mem\<close> 2 is the table.\<close>

definition proc_attach_extension ::
  "life_env \<Rightarrow> pptr option \<Rightarrow> u32 \<Rightarrow> u32 \<Rightarrow> nat \<Rightarrow> nat option \<Rightarrow> lstate \<Rightarrow> (nat option \<times> lstate) option" where
  "proc_attach_extension env p ident flags n cb s =
    (let p = default_proc p s
     in if n = 0 then None
        else do {
          es \<leftarrow> exts_of s p;
          r \<leftarrow> find_ext s ident es;
          if r \<noteq> None then Some (None, s)
          else case (case p_ext s p of Some a \<Rightarrow> Some a | None \<Rightarrow> l_mem env 2 s) of
            None \<Rightarrow> Some (None, s)
          | Some a \<Rightarrow>
              do { let s = (if p_ext s p = None
                            then set_tab a (Some (zero_tab\<lparr>pe_size := 10\<rparr>)) (s\<lparr>p_ext := (p_ext s)(p := Some a)\<rparr>) else s);
                   t \<leftarrow> ext_tabs s a;
                   if pe_used t \<ge> pe_size t then Some (None, s)
                   else case new_proc_ext env ident flags n cb s of
                     (Some e, s) \<Rightarrow>
                       do { x \<leftarrow> exts s e; Some (Some (ext_data x), set_tab a (Some (push_ext e t)) s) }
                   | (None, s) \<Rightarrow>
                       Some (None, if pe_used t = 0 then set_tab a None (s\<lparr>p_ext := (p_ext s)(p := None)\<rparr>) else s) } })"

text \<open>
  \<open>detach_ext\<close> does not shift the pointers: with \<open>i\<close> the place of the extension it copies
  \<open>used - i - 1\<close> whole structures (of 44 bytes) over the structure of the extension, which it may just have
  freed. With nothing to copy the table keeps the stale pointer at \<open>i\<close>.
\<close>

fun find_index :: "lstate \<Rightarrow> u32 \<Rightarrow> nat \<Rightarrow> nat list \<Rightarrow> (nat \<times> nat) option option" where
  "find_index s ident i [] = Some None"
| "find_index s ident i (e # es) =
    do { x \<leftarrow> exts s e; if ext_ident x = ident then Some (Some (i, e)) else find_index s ident (i + 1) es }"

definition detach_ext :: "life_env \<Rightarrow> u32 \<Rightarrow> pptr \<Rightarrow> lstate \<Rightarrow> lstate option" where
  "detach_ext env ident p s =
    (case p_ext s p of
       None \<Rightarrow> Some s
     | Some a \<Rightarrow>
         do { t \<leftarrow> ext_tabs s a;
              r \<leftarrow> find_index s ident 0 (ext_list t);
              s \<leftarrow> (case r of
                      None \<Rightarrow> Some s
                    | Some (i, e) \<Rightarrow>
                        do { s \<leftarrow> drop_ext env e s;
                             t \<leftarrow> ext_tabs s a;
                             let t = t\<lparr>pe_used := pe_used t - 1\<rparr>;
                             if i < pe_used t \<and> 0 < pe_used t - i - 1 then None
                             else Some (set_tab a (Some t) s) });
              t \<leftarrow> ext_tabs s a;
              Some (if pe_used t = 0 then set_tab a None (s\<lparr>p_ext := (p_ext s)(p := None)\<rparr>) else s) })"

fun detach_all :: "life_env \<Rightarrow> u32 \<Rightarrow> pptr list \<Rightarrow> lstate \<Rightarrow> lstate option" where
  "detach_all env ident [] s = Some s"
| "detach_all env ident (p # ps) s = do { s \<leftarrow> detach_ext env ident p s; detach_all env ident ps s }"

text \<open>A module that leaves the kernel detaches its extension from all processes (\<open>p\<close> is -1).\<close>

datatype detach_from = From_proc "pptr option" | From_all

definition proc_detach_extension :: "life_env \<Rightarrow> detach_from \<Rightarrow> u32 \<Rightarrow> lstate \<Rightarrow> lstate option" where
  "proc_detach_extension env w ident s =
    (case w of
       From_all \<Rightarrow> detach_all env ident (proclist (lk s)) s
     | From_proc p \<Rightarrow> detach_ext env ident (default_proc p s) s)"

text \<open>The five \<open>proc_ext_on_\<close> functions differ in the entry they call.\<close>

partial_function (option) ext_calls :: "life_env \<Rightarrow> ext_event \<Rightarrow> nat \<Rightarrow> nat \<Rightarrow> lstate \<Rightarrow> lstate option" where
  "ext_calls env ev a i s =
    do { t \<leftarrow> ext_tabs s a;
         if i < pe_used t then
           do { x \<leftarrow> exts s (pe_ext t i); ext_calls env ev a (i + 1) (call_back env x ev s) }
         else Some s }"

definition proc_ext_on :: "life_env \<Rightarrow> pptr \<Rightarrow> ext_event \<Rightarrow> lstate \<Rightarrow> lstate option" where
  "proc_ext_on env p ev s = (case p_ext s p of None \<Rightarrow> Some s | Some a \<Rightarrow> ext_calls env ev a 0 s)"

definition proc_ext_on_exit :: "life_env \<Rightarrow> pptr \<Rightarrow> int \<Rightarrow> lstate \<Rightarrow> lstate option" where
  "proc_ext_on_exit env p code = proc_ext_on env p (Ext_exit p code)"

definition proc_ext_on_exec :: "life_env \<Rightarrow> pptr \<Rightarrow> lstate \<Rightarrow> lstate option" where
  "proc_ext_on_exec env p = proc_ext_on env p (Ext_exec p)"

definition proc_ext_on_fork :: "life_env \<Rightarrow> pptr \<Rightarrow> u32 \<Rightarrow> pptr \<Rightarrow> lstate \<Rightarrow> lstate option" where
  "proc_ext_on_fork env p flags child = proc_ext_on env p (Ext_fork p flags child)"

definition proc_ext_on_stop :: "life_env \<Rightarrow> pptr \<Rightarrow> nat \<Rightarrow> lstate \<Rightarrow> lstate option" where
  "proc_ext_on_stop env p nr = proc_ext_on env p (Ext_stop p nr)"

definition proc_ext_on_signal :: "life_env \<Rightarrow> pptr \<Rightarrow> nat \<Rightarrow> lstate \<Rightarrow> lstate option" where
  "proc_ext_on_signal env p nr = proc_ext_on env p (Ext_signal p nr)"

end
