(* ===== verification/Proc_Exit.thy ===== *)
theory Proc_Exit
  imports Proc_Parts
begin

text \<open>
  The end of processes and waiting for it (\<open>sys/k_exit.c\<close>).

  \<open>terminate\<close> gives back what the process holds (\<open>term_release\<close>), tells its relatives (\<open>term_notify\<close>) and
  sleeps on the queue of zombies for good. \<open>pwaitpid\<close> searches for a child to report (\<open>pwait_scan\<close>); when there
  is none it sleeps and starts again, so one round of its loop is \<open>pwaitpid_round\<close>, whose result says whether
  the call is over, the caller sleeps, or the search starts again at once.
\<close>

section \<open>Terminating\<close>

abbreviation (input) SIGTRAP :: nat where "SIGTRAP \<equiv> 5"
abbreviation (input) PROC_RDEV_BASE :: u16 where "PROC_RDEV_BASE \<equiv> 0xa000"

text \<open>The loop over \<open>slb_close_on_exit(1, 0)\<close>.\<close>

partial_function (option) slb_close_all :: "life_env \<Rightarrow> lstate \<Rightarrow> lstate option" where
  "slb_close_all env s =
    (case l_slb_close env True 0 s of (r, s) \<Rightarrow> if r \<noteq> 0 then slb_close_all env s else Some s)"

definition unlock_drives :: "pptr \<Rightarrow> lstate \<Rightarrow> lstate" where
  "unlock_drives p s =
    s\<lparr>dlockproc := (\<lambda>i. if i < NUM_DRIVES \<and> dlockproc s i = Some p then None else dlockproc s i)\<rparr>"

definition term_free :: "life_env \<Rightarrow> pptr \<Rightarrow> nat \<Rightarrow> lstate \<Rightarrow> lstate option" where
  "term_free env p que s =
    do { s \<leftarrow> free_ext env p s;
         s \<leftarrow> in_fds (free_fd (l_fenv env) p) s;
         s \<leftarrow> free_cwd env p s;
         if que = ZOMBIE_Q then free_mem env p s else Some s }"

definition term_release :: "life_env \<Rightarrow> pptr \<Rightarrow> int \<Rightarrow> nat \<Rightarrow> lstate \<Rightarrow> lstate option" where
  "term_release env p code que s =
    do { s \<leftarrow> proc_ext_on_exit env p code s;
         let s = (if l_bconbsiz env s then l_bflush env s else s);
         if que \<noteq> ZOMBIE_Q \<and> que \<noteq> TSR_Q then None
         else do {
           s \<leftarrow> slb_close_all env s;
           let s = l_remove_slb env s;
           if pid (procs (lk s) p) = 0 then None
           else do {
             let s = upd_kern cancelalltimeouts s;
             let s = upd_more p (\<lambda>x. x\<lparr>alarmtim := None, real_cmdline := None\<rparr>) s;
             let s = release_cookie env (exe (pmore s p)) s;
             s \<leftarrow> in_kern (\<lambda>k. free_semaphores (pid (procs k p)) k) s;
             let s = l_changedrv env (PROC_RDEV_BASE OR word_of_int (pid (procs (lk s) p))) s;
             term_free env p que (unlock_drives p s) } } }"

text \<open>The parent, or the root process when there is none.\<close>

definition term_parent :: "pptr \<Rightarrow> kernel \<Rightarrow> pptr option" where
  "term_parent p k =
    (case pid2proc (ppid (procs k p)) k of Some q \<Rightarrow> Some q | None \<Rightarrow> pid2proc 0 k)"

definition wake_parent :: "u32 \<Rightarrow> pptr \<Rightarrow> pptr \<Rightarrow> kernel \<Rightarrow> kernel option" where
  "wake_parent pwaitpid_addr p q k =
    (if wait_q (procs k q) = WAIT_Q \<and> (wait_cond (procs k q) = of_nat p \<or> wait_cond (procs k q) = pwaitpid_addr)
     then move_q WAIT_Q READY_Q q k else Some k)"

text \<open>Children become children of the root process and traced processes are told to end.\<close>

definition orphan :: "pptr \<Rightarrow> int \<Rightarrow> pptr \<Rightarrow> kernel \<Rightarrow> kernel option" where
  "orphan p i q k =
    (let k = (if ppid (procs k q) = i then upd_proc q (\<lambda>x. x\<lparr>ppid := 0\<rparr>) k else k)
     in if ptracer (procs k q) = Some p then post_sig q SIGTERM (upd_proc q (\<lambda>x. x\<lparr>ptracer := None\<rparr>) k)
        else Some k)"

fun orphan_loop :: "pptr \<Rightarrow> int \<Rightarrow> pptr list \<Rightarrow> bool \<Rightarrow> kernel \<Rightarrow> (bool \<times> kernel) option" where
  "orphan_loop p i [] wakemint k = Some (wakemint, k)"
| "orphan_loop p i (q # qs) wakemint k =
    (let wakemint = (wakemint \<or> ppid (procs k q) = i \<and> wait_q (procs k q) = ZOMBIE_Q)
     in case orphan p i q k of None \<Rightarrow> None | Some k \<Rightarrow> orphan_loop p i qs wakemint k)"

definition wake_root :: "kernel \<Rightarrow> kernel option" where
  "wake_root k =
    (if wait_q (procs k (rootproc k)) = WAIT_Q then move_q WAIT_Q READY_Q (rootproc k) k else Some k)"

definition ignore_signals :: "pptr \<Rightarrow> kernel \<Rightarrow> kernel" where
  "ignore_signals p k = fold (\<lambda>i. upd_sigact p i (\<lambda>a. a\<lparr>sa_handler := SIG_IGN\<rparr>)) [0..<NSIG] k"

definition term_notify :: "u32 \<Rightarrow> pptr \<Rightarrow> kernel \<Rightarrow> kernel option" where
  "term_notify pwaitpid_addr p k =
    do { q \<leftarrow> term_parent p k;
         k \<leftarrow> wake_parent pwaitpid_addr p q k;
         k \<leftarrow> (case ptracer (procs k p) of
                 Some t \<Rightarrow> if t \<noteq> q then post_sig t SIGCHLD k else Some k
               | None \<Rightarrow> Some k);
         k \<leftarrow> post_sig q SIGCHLD k;
         (wakemint, k) \<leftarrow> orphan_loop p (pid (procs k p)) (proclist k) False k;
         k \<leftarrow> (if wakemint \<or> p_flag (procs k p) AND P_FLAG_SLB \<noteq> 0 then wake_root k else Some k);
         Some (ignore_signals p k) }"

text \<open>The exit code as the condition the zombie waits for: a 16 bit number.\<close>

definition exit_cond :: "int \<Rightarrow> u32" where
  "exit_cond code = ucast (word_of_int code :: u16)"

text \<open>The process never runs again: \<open>terminate\<close> does not allow \<open>sleep\<close> to return.\<close>

definition terminate :: "life_env \<Rightarrow> bool \<Rightarrow> pptr \<Rightarrow> int \<Rightarrow> nat \<Rightarrow> lstate \<Rightarrow> lstate option" where
  "terminate env ints_on p code que s =
    do { s \<leftarrow> term_release env p code que s;
         s \<leftarrow> in_kern (term_notify (e_pwaitpid (l_sleep env)) p) s;
         let s = s\<lparr>procfs_stmp := xtime s\<rparr>;
         r \<leftarrow> sleep (l_sleep env) ints_on que (exit_cond code) (lk s);
         case r of Stay _ k \<Rightarrow> None | Switch k \<Rightarrow> Some (upd_kern (\<lambda>_. k) s) }"

definition kernel_pterm :: "life_env \<Rightarrow> bool \<Rightarrow> pptr \<Rightarrow> int \<Rightarrow> lstate \<Rightarrow> lstate option" where
  "kernel_pterm env ints_on p code s =
    (let s = (if l_term_vec env p \<noteq> l_rts env
              then l_supexec env (l_term_vec env p) code
                     (upd_kern (upd_proc p (\<lambda>x. x\<lparr>p_sigmask := p_sigmask x OR 1\<rparr>)) s)
              else s)
     in terminate env ints_on p code ZOMBIE_Q s)"

text \<open>\<open>Pterm\<close> returns first to the program to close the shared libraries it still uses.\<close>

datatype pterm_out = Pterm_returns int lstate | Pterm_gone lstate

partial_function (option) sys_pterm :: "life_env \<Rightarrow> bool \<Rightarrow> int \<Rightarrow> lstate \<Rightarrow> pterm_out option" where
  "sys_pterm env ints_on code s =
    (case l_slb_close env False code s of
       (cont, s) \<Rightarrow>
         if cont = 1 then Some (Pterm_returns code s)
         else if cont = 0 then map_option Pterm_gone (kernel_pterm env ints_on (curproc (lk s)) code s)
         else sys_pterm env ints_on code s)"

definition sys_pterm0 :: "life_env \<Rightarrow> bool \<Rightarrow> lstate \<Rightarrow> pterm_out option" where
  "sys_pterm0 env ints_on s = sys_pterm env ints_on 0 s"

text \<open>\<open>l_shrink\<close> shrinks the program to \<open>save\<close> bytes and opens its memory to all processes.\<close>

definition sys_ptermres :: "life_env \<Rightarrow> bool \<Rightarrow> int \<Rightarrow> int \<Rightarrow> lstate \<Rightarrow> lstate option" where
  "sys_ptermres env ints_on save code s =
    (let p = curproc (lk s)
     in if p_mem s p = None then None else terminate env ints_on p code TSR_Q (l_shrink env save s))"

section \<open>Waiting\<close>

text \<open>The processes that a wait for \<open>n\<close> is about, and those it can report.\<close>

definition wait_matches :: "int \<Rightarrow> kernel \<Rightarrow> pptr \<Rightarrow> bool" where
  "wait_matches n k q \<longleftrightarrow>
    (let x = procs k q
     in (ppid x = pid (proc_of k) \<or> ptracer x = Some (curproc k)) \<and>
        (n = - 1 \<or> n > 0 \<and> n = pid x \<or> n = 0 \<and> pgrp x = pgrp (proc_of k) \<or> n < - 1 \<and> pgrp x = - n))"

definition wait_reports :: "u16 \<Rightarrow> kernel \<Rightarrow> pptr \<Rightarrow> bool" where
  "wait_reports nohang k q \<longleftrightarrow>
    (let x = procs k q
     in is_dead k q \<or> wait_q x = STOP_Q \<and> wait_cond x \<noteq> 0 \<and> (nohang AND 2 \<noteq> 0 \<or> ptracer x \<noteq> None))"

definition wait_code :: "proc \<Rightarrow> u32" where
  "wait_code x = push_bit 16 (word_of_int (pid x)) OR (wait_cond x AND 0xffff)"

definition wait_status :: "proc \<Rightarrow> u32" where
  "wait_status x =
    (let r = wait_code x
     in if signaled x then (r AND 0xffff00ff) OR (of_nat (256 * last_sig x) AND 0x9f00)
        else if wait_q x \<noteq> STOP_Q \<and> wait_cond x AND 0x1f00 \<noteq> of_nat (256 * SIGTRAP) then r AND 0xffff00ff
        else r)"

text \<open>Taking a zombie off the lists and freeing what is left of it.\<close>

definition reap :: "pptr \<Rightarrow> kernel \<Rightarrow> kernel option" where
  "reap q k =
    do { k \<leftarrow> rm_q ZOMBIE_Q q k;
         if q \<notin> set (proclist k) then None
         else do {
           let k = k\<lparr>proclist := remove1 q (proclist k)\<rparr>;
           let c = p_cred (procs k q);
           let k = upd_pcred c (\<lambda>x. x\<lparr>pc_links := pc_links x - 1\<rparr>) k;
           k \<leftarrow> (if pc_links (pcreds k c) = 0 then map_option snd (free_cred (ucr (pcreds k c)) k) else Some k);
           free_sigacts q k } }"

text \<open>A child's times are added to those of its parent, but not to those of a foreign tracer.\<close>

definition add_usage :: "pptr \<Rightarrow> kernel \<Rightarrow> kernel" where
  "add_usage q k =
    (let x = procs k q
     in if pid (proc_of k) = ppid x \<and> is_dead k q
        then upd_cur (\<lambda>c. c\<lparr>chldstime := chldstime c + (systime x + chldstime x),
               chldutime := chldutime c + (usrtime x + chldutime x)\<rparr>) k
        else k)"

definition wait_taken :: "pptr \<Rightarrow> kernel \<Rightarrow> kernel option" where
  "wait_taken q k =
    (if wait_q (procs k q) = TSR_Q then Some (upd_proc q (\<lambda>x. x\<lparr>ppid := - 1\<rparr>) k)
     else if wait_q (procs k q) \<noteq> ZOMBIE_Q \<or> q = curproc k then None
     else reap q k)"

text \<open>
  When a child has a tracer other than its parent, the first of the two that waits gets the status and leaves
  the child to the other.
\<close>

definition wait_found :: "pptr \<Rightarrow> kernel \<Rightarrow> kernel option" where
  "wait_found q k =
    (let k = add_usage q k; x = procs k q
     in if wait_q x = STOP_Q then Some (upd_proc q (\<lambda>x. x\<lparr>wait_cond := 0\<rparr>) k)
        else case ptracer x of
          None \<Rightarrow> wait_taken q k
        | Some t \<Rightarrow>
            if pid (procs k t) = ppid x then wait_taken q k
            else if curproc k = t then
              (let k = upd_proc q (\<lambda>x. x\<lparr>ptracer := None\<rparr>) k
               in if ppid x \<noteq> - 1 then Some k else wait_taken q k)
            else Some (upd_proc q (\<lambda>x. x\<lparr>ppid := - 1\<rparr>) k))"

text \<open>A result: a number, or the status of a child with the value for \<open>*retval\<close> and its times.\<close>

datatype wait_out =
    Wait_error int kernel
  | Wait_child u32 u16 "u32 \<times> u32" kernel
  | Wait_none kernel

definition pwait_scan :: "int \<Rightarrow> u16 \<Rightarrow> kernel \<Rightarrow> wait_out option" where
  "pwait_scan n nohang k =
    (case List.find (\<lambda>q. wait_matches n k q \<and> wait_reports nohang k q) (proclist k) of
       Some q \<Rightarrow>
         (let x = procs k q
          in map_option (Wait_child (wait_status x) (ucast (wait_code x))
                           (usrtime x + chldutime x, systime x + chldstime x)) (wait_found q k))
     | None \<Rightarrow>
         if list_ex (wait_matches n k) (proclist k) then
           Some (if nohang AND 1 \<noteq> 0 then Wait_error 0 k else Wait_none k)
         else Some (Wait_error ENOENT k))"

datatype wait_round = Wait_over wait_out | Wait_sleeps kernel | Wait_again kernel

definition pwaitpid_round :: "sleep_env \<Rightarrow> bool \<Rightarrow> int \<Rightarrow> u16 \<Rightarrow> kernel \<Rightarrow> wait_round option" where
  "pwaitpid_round env ints_on n nohang k =
    (case pwait_scan n nohang k of
       None \<Rightarrow> None
     | Some (Wait_none k) \<Rightarrow>
         (case sleep env ints_on WAIT_Q (e_pwaitpid env) k of
            None \<Rightarrow> None
          | Some (Switch k) \<Rightarrow> Some (Wait_sleeps k)
          | Some (Stay _ k) \<Rightarrow> Some (Wait_again k))
     | Some out \<Rightarrow> Some (Wait_over out))"

definition pwaitpid_awake :: "sleep_env \<Rightarrow> bool \<Rightarrow> u32 \<Rightarrow> kernel \<Rightarrow> wait_round" where
  "pwaitpid_awake env ints_on onsigs k = Wait_again (snd (sleep_resume env ints_on (e_pwaitpid env) onsigs k))"

definition sys_pwaitpid :: "sleep_env \<Rightarrow> bool \<Rightarrow> int \<Rightarrow> u16 \<Rightarrow> kernel \<Rightarrow> wait_round option" where
  "sys_pwaitpid env ints_on n nohang k = pwaitpid_round env ints_on n nohang k"

definition sys_pwait3 :: "sleep_env \<Rightarrow> bool \<Rightarrow> u16 \<Rightarrow> kernel \<Rightarrow> wait_round option" where
  "sys_pwait3 env ints_on nohang k = pwaitpid_round env ints_on (- 1) nohang k"

definition sys_pwait :: "sleep_env \<Rightarrow> bool \<Rightarrow> kernel \<Rightarrow> wait_round option" where
  "sys_pwait env ints_on k = pwaitpid_round env ints_on (- 1) 2 k"

end
