(* ===== verification/Proc_Fork.thy ===== *)
theory Proc_Fork
  imports Proc_Exit
begin

text \<open>
  New processes: \<open>newpid\<close> (\<open>sys/util.c\<close>), \<open>fork_proc\<close> and \<open>Pvfork\<close> (\<open>sys/k_fork.c\<close>) and kernel threads
  (\<open>sys/k_kthread.c\<close>). The saved registers and the kernel stack are not modelled. \<open>Pvfork\<close> ends in \<open>sleep\<close>;
  what follows when the parent runs again is \<open>pvfork_awake\<close>.
\<close>

abbreviation (input) MAXPID :: int where "MAXPID \<equiv> 1000"
abbreviation (input) FORK_SHAREVM :: u32 where "FORK_SHAREVM \<equiv> 0x01"
abbreviation (input) FORK_SHARECWD :: u32 where "FORK_SHARECWD \<equiv> 0x02"
abbreviation (input) FORK_SHAREFILES :: u32 where "FORK_SHAREFILES \<equiv> 0x04"
abbreviation (input) FORK_SHARESIGS :: u32 where "FORK_SHARESIGS \<equiv> 0x08"
abbreviation (input) FORK_SHAREEXT :: u32 where "FORK_SHAREEXT \<equiv> 0x20"

section \<open>Process ids\<close>

text \<open>\<open>j\<close> counts the attempts; \<open>None\<close> is \<open>FATAL\<close>. The result has the new value of \<open>_maxpid\<close>.\<close>

definition next_maxpid :: "int \<Rightarrow> int" where
  "next_maxpid mp = (if mp + 1 \<ge> MAXPID then 2 else mp + 1)"

function newpid_loop :: "int \<Rightarrow> int \<Rightarrow> kernel \<Rightarrow> (int \<times> int) option" where
  "newpid_loop j mp k =
    (if j > MAXPID then None
     else if pid2proc mp k \<noteq> None then newpid_loop (j + 1) (next_maxpid mp) k
     else Some (mp, next_maxpid mp))"
  by pat_completeness auto
termination by (relation "measure (\<lambda>(j, mp, k). nat (1001 - j))") auto

declare newpid_loop.simps [simp del]

definition newpid :: "lstate \<Rightarrow> (int \<times> lstate) option" where
  "newpid s = map_option (\<lambda>(i, mp). (i, s\<lparr>maxpid := mp\<rparr>)) (newpid_loop 2 (maxpid s) (lk s))"

definition set_pid_1 :: "lstate \<Rightarrow> lstate" where
  "set_pid_1 s = s\<lparr>maxpid := 1\<rparr>"

section \<open>Copying a process\<close>

definition fork_fields :: "int \<Rightarrow> proc \<Rightarrow> proc" where
  "fork_fields n x =
    x\<lparr>ppid := pid x, pid := n, p_flag := 0, sigpending := 0, nsigs := 0, curpri := pri x, slices := SLICES (pri x),
      usrtime := 0, systime := 0, chldstime := 0, chldutime := 0, ptracer := None, q_next := None,
      wait_q := CURPROC_Q\<rparr>"

definition fork_more :: "proc_more \<Rightarrow> proc_more" where
  "fork_more x = x\<lparr>alarmtim := None, itimers := (\<lambda>_. \<lparr>it_interval = 0, it_reqtime = 0, it_timeout = None\<rparr>), ptraceflags := 0\<rparr>"

text \<open>The command line of the child, unless there is no memory for it.\<close>

definition fork_cmdline :: "bool \<Rightarrow> bool \<Rightarrow> (u32 \<times> u8 list) option \<Rightarrow> (u32 \<times> u8 list) option option" where
  "fork_cmdline kmalloc_ok system line =
    (case line of
       Some (n, bs) \<Rightarrow>
         if n \<noteq> 0 then (if kmalloc_ok then Some (Some (n, bs)) else None)
         else Some (if system then line else None)
     | None \<Rightarrow> Some None)"

definition fork_cred :: "nat option \<Rightarrow> pptr \<Rightarrow> pptr \<Rightarrow> kernel \<Rightarrow> kernel" where
  "fork_cred mem p1 p2 k =
    (case mem of
       None \<Rightarrow> k
     | Some c \<Rightarrow>
         (let k = upd_pcred c (\<lambda>_. (pcreds k (p_cred (procs k p1)))\<lparr>pc_links := 1\<rparr>) k;
              k = upd_proc p2 (\<lambda>x. x\<lparr>p_cred := c\<rparr>) k
          in upd_ucred (ucr (pcreds k c)) (\<lambda>u. u\<lparr>uc_links := uc_links u + 1\<rparr>) k))"

definition fork_sigacts :: "bool \<Rightarrow> nat option \<Rightarrow> pptr \<Rightarrow> pptr \<Rightarrow> kernel \<Rightarrow> (nat option \<times> kernel) option" where
  "fork_sigacts share mem p1 p2 k =
    do { (a, k) \<leftarrow> (if share then (case share_sigacts p1 k of (a, k) \<Rightarrow> Some (Some a, k)) else copy_sigacts mem p1 k);
         case a of
           None \<Rightarrow> Some (None, k)
         | Some n \<Rightarrow> Some (Some n, upd_proc p2 (\<lambda>x. x\<lparr>p_sigacts := n\<rparr>) k) }"

text \<open>
  Label \<open>nomem\<close>, with what was allocated: the credentials \<open>cr\<close> and the signal actions \<open>sg\<close>. \<open>kfree\<close> of the structures
  leaves no trace in the state: a freed \<open>pcred\<close> or process keeps its last contents (also its own count), nothing on the
  list of processes refers to it, and the allocator may hand out its address again (\<open>fresh_life\<close>).
\<close>

definition fork_nomem :: "life_env \<Rightarrow> pptr \<Rightarrow> nat option \<Rightarrow> nat option \<Rightarrow> lstate \<Rightarrow> lstate option" where
  "fork_nomem env p2 cr sg s =
    do { s \<leftarrow> (if p_mem s p2 \<noteq> None then free_mem env p2 s else Some s);
         s \<leftarrow> (case cr of
                 None \<Rightarrow> Some s
               | Some c \<Rightarrow> in_kern (\<lambda>k. map_option snd (free_cred (ucr (pcreds k c)) k)) s);
         s \<leftarrow> (if p_fd (fds s) p2 \<noteq> None then in_fds (free_fd (l_fenv env) p2) s else Some s);
         s \<leftarrow> (if p_cwd s p2 \<noteq> None then free_cwd env p2 s else Some s);
         if sg \<noteq> None then in_kern (free_sigacts p2) s else Some s }"

text \<open>The new structure before anything is allocated for it.\<close>

definition fork_new :: "pptr \<Rightarrow> pptr \<Rightarrow> int \<Rightarrow> lstate \<Rightarrow> lstate" where
  "fork_new p1 p2 n s =
    (let s = upd_kern (\<lambda>k. upd_proc p2 (\<lambda>_. fork_fields n (procs k p1)) k) s
     in s\<lparr>pmore := (pmore s)(p2 := fork_more (pmore s p1)), p_mem := (p_mem s)(p2 := None),
          fds := (fds s)\<lparr>p_fd := (p_fd (fds s))(p2 := None)\<rparr>, p_cwd := (p_cwd s)(p2 := None),
          p_ext := (p_ext s)(p2 := None)\<rparr>)"

definition fork_hook :: "life_env \<Rightarrow> pptr \<Rightarrow> pptr \<Rightarrow> u32 \<Rightarrow> lstate \<Rightarrow> lstate option" where
  "fork_hook env p1 p2 flags s =
    do { let (c, s) = dup_cookie env (exe (pmore s p1)) s;
         let s = upd_more p2 (\<lambda>x. x\<lparr>exe := c, started := xtime s\<rparr>) s;
         s \<leftarrow> proc_ext_on_fork env p1 flags p2 s;
         let s = (if flags AND FORK_SHAREVM = 0 then l_page_table env p2 s else s);
         Some (upd_kern (\<lambda>k. k\<lparr>proclist := p2 # proclist k\<rparr>) s) }"

text \<open>
  Results of \<open>kmalloc\<close>: \<open>l_mem\<close> 10 the process, 11 the command line, 12 the credentials, 13 the descriptors,
  14 the signal actions.
\<close>

definition fork_parts :: "life_env \<Rightarrow> pptr \<Rightarrow> pptr \<Rightarrow> u32 \<Rightarrow> lstate \<Rightarrow> ((int + pptr) \<times> lstate) option" where
  "fork_parts env p1 p2 flags s =
    do { (m, s) \<leftarrow> (if flags AND FORK_SHAREVM \<noteq> 0 then share_mem p1 s else Some (l_copy_mem env p1 s));
         let s = s\<lparr>p_mem := (p_mem s)(p2 := m)\<rparr>;
         let cr = l_mem env 12 s;
         let s = upd_kern (fork_cred cr p1 p2) s;
         s \<leftarrow> in_fds (fork_fd (flags AND FORK_SHAREFILES \<noteq> 0) (l_mem env 13 s) p1 p2) s;
         (c, s) \<leftarrow> (if flags AND FORK_SHARECWD \<noteq> 0 then share_cwd p1 s else copy_cwd env p1 s);
         let s = s\<lparr>p_cwd := (p_cwd s)(p2 := c)\<rparr>;
         (sg, k) \<leftarrow> fork_sigacts (flags AND FORK_SHARESIGS \<noteq> 0) (l_mem env 14 s) p1 p2 (lk s);
         let s = upd_kern (\<lambda>_. k) s;
         s \<leftarrow> (if flags AND FORK_SHAREEXT \<noteq> 0 then share_ext env p1 p2 s
               else Some (s\<lparr>p_ext := (p_ext s)(p2 := None)\<rparr>));
         if p_mem s p2 = None \<or> cr = None \<or> p_fd (fds s) p2 = None \<or> p_cwd s p2 = None \<or> sg = None
         then map_option (Pair (Inl ENOMEM)) (fork_nomem env p2 cr sg s)
         else map_option (Pair (Inr p2)) (fork_hook env p1 p2 flags s) }"

definition fork_proc1 :: "life_env \<Rightarrow> pptr \<Rightarrow> u32 \<Rightarrow> lstate \<Rightarrow> ((int + pptr) \<times> lstate) option" where
  "fork_proc1 env p1 flags s =
    (case l_mem env 10 s of
       None \<Rightarrow> Some (Inl ENOMEM, s)
     | Some p2 \<Rightarrow>
         do { (n, s) \<leftarrow> newpid s;
              let s = fork_new p1 p2 n s;
              case fork_cmdline (l_mem env 11 s \<noteq> None) (p_flag (procs (lk s) p1) AND P_FLAG_SYS \<noteq> 0)
                     (real_cmdline (pmore s p1)) of
                None \<Rightarrow> Some (Inl ENOMEM, s)
              | Some line \<Rightarrow> fork_parts env p1 p2 flags (upd_more p2 (\<lambda>x. x\<lparr>real_cmdline := line\<rparr>) s) })"

definition fork_proc :: "life_env \<Rightarrow> u32 \<Rightarrow> lstate \<Rightarrow> ((int + pptr) \<times> lstate) option" where
  "fork_proc env flags s = fork_proc1 env (curproc (lk s)) flags s"

section \<open>Pvfork\<close>

text \<open>The mask of the waiting parent, and the job control signals the child does not take.\<close>

definition vfork_mask :: u32 where
  "vfork_mask = NOT (sigbit SIGKILL OR 1)"

definition job_signals :: u32 where
  "job_signals = sigbit SIGTSTP OR sigbit SIGTTIN OR sigbit SIGTTOU"

datatype vfork_out = Vfork_failed int lstate | Vfork_waits pptr u32 lstate | Vfork_goes_on pptr u32 lstate

definition sys_pvfork :: "life_env \<Rightarrow> lstate \<Rightarrow> vfork_out option" where
  "sys_pvfork env s =
    do { (r, s) \<leftarrow> fork_proc env FORK_SHAREEXT s;
         case r of
           Inl e \<Rightarrow> Some (Vfork_failed e s)
         | Inr p \<Rightarrow>
             if p_mem s p = None then None
             else do {
               let s = s\<lparr>procfs_stmp := xtime s\<rparr>;
               let s = upd_kern (upd_proc p (\<lambda>x. x\<lparr>p_sigmask := p_sigmask x OR job_signals\<rparr>)) s;
               let oldmask = p_sigmask (proc_of (lk s));
               let s = upd_kern (upd_cur (\<lambda>x. x\<lparr>p_sigmask := vfork_mask\<rparr>)) s;
               k \<leftarrow> add_q READY_Q p (lk s);
               r \<leftarrow> sleep (l_sleep env) False WAIT_Q (of_nat p) k;
               case r of
                 Switch k \<Rightarrow> Some (Vfork_waits p oldmask (upd_kern (\<lambda>_. k) s))
               | Stay _ k \<Rightarrow> Some (Vfork_goes_on p oldmask (upd_kern (\<lambda>_. k) s)) } }"

text \<open>The parent after \<open>sleep\<close>: its result is the child's process id.\<close>

definition pvfork_awake :: "nat \<Rightarrow> sig_env \<Rightarrow> pptr \<Rightarrow> u32 \<Rightarrow> kernel \<Rightarrow> int sys_out option" where
  "pvfork_awake fuel senv p oldmask k =
    (let k = upd_cur (\<lambda>x. x\<lparr>p_sigmask := oldmask\<rparr>) k
     in returns (pid (procs k p)) (check_sigs fuel senv k))"

section \<open>Kernel threads\<close>

definition default_sigacts :: "pptr \<Rightarrow> kernel \<Rightarrow> kernel" where
  "default_sigacts p k =
    fold (\<lambda>i k. if sa_handler (SIGACTION k p i) \<noteq> SIG_IGN
                 then upd_sigact p i (\<lambda>a. a\<lparr>sa_handler := SIG_DFL, sa_mask := 0, sa_flags := 0\<rparr>) k else k) [0..<NSIG] k"

text \<open>A null pointer for the process stands for the root process.\<close>

definition kthread_create_v :: "life_env \<Rightarrow> pptr option \<Rightarrow> lstate \<Rightarrow> ((int + pptr) \<times> lstate) option" where
  "kthread_create_v env p s =
    (let p = (case p of None \<Rightarrow> rootproc (lk s) | Some p \<Rightarrow> p)
     in do { (r, s) \<leftarrow> fork_proc1 env p (FORK_SHAREVM OR FORK_SHARECWD OR FORK_SHAREFILES OR FORK_SHAREEXT) s;
             case r of
               Inl e \<Rightarrow> Some (Inl e, s)
             | Inr p2 \<Rightarrow>
                 (let s = upd_kern (upd_proc p2 (\<lambda>x. x\<lparr>ppid := 0, pgrp := 0, p_flag := p_flag x OR P_FLAG_SYS, p_sigmask := 0\<rparr>)) s;
                      s = upd_kern (default_sigacts p2) s
                  in Some (Inr p2, upd_kern (run_next p2 3) s)) })"

text \<open>\<open>kthread_exit\<close> does not return.\<close>

definition kthread_exit :: "life_env \<Rightarrow> bool \<Rightarrow> int \<Rightarrow> lstate \<Rightarrow> lstate option" where
  "kthread_exit env ints_on code s = terminate env ints_on (curproc (lk s)) code ZOMBIE_Q s"

end
