(* ===== verification/Proc_Tree.thy ===== *)
theory Proc_Tree
  imports Proc_Fork
begin

text \<open>
  The tree of processes is in order (\<open>tree_ok\<close>): process ids are unique, parents and tracers are alive, every
  process has credentials and signal actions of its own or counted ones. \<open>calm\<close> relates two kernel states
  between which nobody is born, adopted or dies; drivers and callbacks are assumed to be calm, and this theory
  shows that scheduling and the release of resources are.
\<close>

section \<open>Nobody is born or dies\<close>

definition kin :: "proc \<Rightarrow> int \<times> int \<times> pptr option \<times> nat \<times> nat" where
  "kin x = (pid x, ppid x, ptracer x, p_cred x, p_sigacts x)"

definition same_lists :: "kernel \<Rightarrow> kernel \<Rightarrow> bool" where
  "same_lists k k' \<longleftrightarrow> proclist k' = proclist k \<and> rootproc k' = rootproc k \<and> pcreds k' = pcreds k \<and>
     ucreds k' = ucreds k \<and> sigacts_links k' = sigacts_links k"

definition same_kin :: "kernel \<Rightarrow> kernel \<Rightarrow> bool" where
  "same_kin k k' \<longleftrightarrow> same_lists k k' \<and>
     (\<forall>x. kin (procs k' x) = kin (procs k x) \<and> is_dead k' x = is_dead k x \<and>
        (is_dead k x \<longrightarrow> proc_core (procs k' x) = proc_core (procs k x) \<and> wait_q (procs k' x) = wait_q (procs k x)))"

definition calm :: "kernel \<Rightarrow> kernel \<Rightarrow> bool" where
  "calm k k' \<longleftrightarrow> same_kin k k' \<and> curproc k' = curproc k \<and> (sched_inv k \<longrightarrow> sched_inv k')"

lemma same_lists_refl [simp]: "same_lists k k"
  by (simp add: same_lists_def)

lemma same_lists_trans: "same_lists a b \<Longrightarrow> same_lists b c \<Longrightarrow> same_lists a c"
  by (simp add: same_lists_def)

lemma same_kin_refl [simp]: "same_kin k k"
  by (simp add: same_kin_def)

lemma same_kin_trans: "same_kin a b \<Longrightarrow> same_kin b c \<Longrightarrow> same_kin a c"
  by (auto simp: same_kin_def intro: same_lists_trans)

lemma calm_refl [simp]: "calm k k"
  by (simp add: calm_def)

lemma calm_trans: "calm a b \<Longrightarrow> calm b c \<Longrightarrow> calm a c"
  by (auto simp: calm_def intro: same_kin_trans)

lemma kin_core [simp]: "kin (proc_core x) = kin x"
  by (simp add: kin_def)

lemma q_frame_lists: "q_frame k k' \<Longrightarrow> same_lists k k'"
  unfolding same_lists_def by (intro conjI; rule q_frame_kernel, assumption, simp)

text \<open>Only the queues changed, and nobody entered or left the queues of the dead.\<close>

lemma q_frame_same_kin:
  assumes "q_frame k k'"
    and w: "\<And>x. wait_q (procs k' x) = wait_q (procs k x) \<or> (\<not> is_dead k x \<and> wait_q (procs k' x) \<noteq> ZOMBIE_Q \<and> wait_q (procs k' x) \<noteq> TSR_Q)"
  shows "same_kin k k'"
proof -
  have core: "proc_core (procs k' x) = proc_core (procs k x)" for x using assms(1) by (simp add: q_frame_def)
  have "kin (procs k' x) = kin (procs k x)" for x using core[of x] kin_core by metis
  moreover have "is_dead k' x = is_dead k x" "is_dead k x \<longrightarrow> wait_q (procs k' x) = wait_q (procs k x)" for x
    using w[of x] by (auto simp: is_dead_def)
  ultimately show ?thesis using q_frame_lists[OF assms(1)] core by (simp add: same_kin_def)
qed

lemma same_kin_kernel:
  assumes "procs k' = procs k" "same_lists k k'"
  shows "same_kin k k'"
  using assms by (simp add: same_kin_def is_dead_def)

lemma same_kin_upd:
  assumes "kin (f (procs k p)) = kin (procs k p)" "wait_q (f (procs k p)) = wait_q (procs k p)"
    and "is_dead k p \<Longrightarrow> proc_core (f (procs k p)) = proc_core (procs k p)"
  shows "same_kin k (upd_proc p f k)"
  using assms by (auto simp: same_kin_def is_dead_def same_lists_def upd_proc_def)

lemma same_kinD:
  assumes "same_kin k k'"
  shows "proclist k' = proclist k" "rootproc k' = rootproc k" "pcreds k' = pcreds k" "ucreds k' = ucreds k"
    "sigacts_links k' = sigacts_links k" "pid (procs k' x) = pid (procs k x)" "ppid (procs k' x) = ppid (procs k x)"
    "ptracer (procs k' x) = ptracer (procs k x)" "p_cred (procs k' x) = p_cred (procs k x)"
    "p_sigacts (procs k' x) = p_sigacts (procs k x)" "is_dead k' x = is_dead k x"
    "is_dead k x \<Longrightarrow> proc_core (procs k' x) = proc_core (procs k x)"
    "is_dead k x \<Longrightarrow> wait_q (procs k' x) = wait_q (procs k x)"
  using assms unfolding same_kin_def same_lists_def kin_def by auto

section \<open>The tree\<close>

definition alive_pid :: "kernel \<Rightarrow> int \<Rightarrow> bool" where
  "alive_pid k n \<longleftrightarrow> (\<exists>p \<in> set (proclist k). pid (procs k p) = n \<and> \<not> is_dead k p)"

definition sig_users :: "kernel \<Rightarrow> nat \<Rightarrow> pptr set" where
  "sig_users k a = {p \<in> set (proclist k). p_sigacts (procs k p) = a}"

definition tree_ok :: "kernel \<Rightarrow> bool" where
  "tree_ok k \<longleftrightarrow> distinct (proclist k) \<and> inj_on (\<lambda>p. pid (procs k p)) (set (proclist k)) \<and>
     (\<forall>q \<in> set (proclist k). 0 \<le> pid (procs k q)) \<and>
     rootproc k \<in> set (proclist k) \<and> pid (procs k (rootproc k)) = 0 \<and> \<not> is_dead k (rootproc k) \<and>
     (\<forall>q \<in> set (proclist k). ppid (procs k q) = - 1 \<or> alive_pid k (ppid (procs k q))) \<and>
     (\<forall>q \<in> set (proclist k). \<forall>t. ptracer (procs k q) = Some t \<longrightarrow> t \<in> set (proclist k) \<and> \<not> is_dead k t) \<and>
     creds_ok k \<and> (\<forall>q \<in> set (proclist k). pc_links (pcred_of k q) = 1) \<and>
     (\<forall>q \<in> set (proclist k). int (card (sig_users k (p_sigacts (procs k q)))) \<le> sigacts_links k (p_sigacts (procs k q)))"

definition tree_inv :: "kernel \<Rightarrow> bool" where
  "tree_inv k \<longleftrightarrow> sched_inv k \<and> tree_ok k"

lemma creds_ok_kin:
  assumes "creds_ok k" "same_kin k k'" "curproc k' \<in> set (proclist k)"
  shows "creds_ok k'" "pcred_of k' x = pcred_of k x"
proof -
  note d = same_kinD[OF assms(2)]
  have p: "pcred_of k' = pcred_of k" by (rule ext) (simp add: pcred_of_def d)
  moreover have "ucred_of k' = ucred_of k" by (rule ext) (simp add: ucred_of_def p d)
  moreover have "users k' = users k" by (rule ext) (simp add: users_def p d)
  ultimately show "creds_ok k'" using assms(1,3) by (simp add: creds_ok_def d)
  show "pcred_of k' x = pcred_of k x" using p by simp
qed

lemma tree_ok_kin:
  assumes "tree_ok k" "same_kin k k'" "curproc k' \<in> set (proclist k)"
  shows "tree_ok k'"
proof -
  note d = same_kinD[OF assms(2)]
  have a: "alive_pid k' = alive_pid k" "sig_users k' = sig_users k"
    by (simp_all add: fun_eq_iff alive_pid_def sig_users_def d)
  have c: "creds_ok k'" "pcred_of k' x = pcred_of k x" for x
    using creds_ok_kin[OF _ assms(2,3)] assms(1) by (simp_all add: tree_ok_def)
  show ?thesis using assms(1) by (simp add: tree_ok_def a c d)
qed

lemma tree_inv_calm: "tree_inv k \<Longrightarrow> calm k k' \<Longrightarrow> tree_inv k'"
  unfolding tree_inv_def calm_def using tree_ok_kin by (metis sched_inv_def)

section \<open>Waking and signalling are calm\<close>

definition still :: "kernel \<Rightarrow> kernel \<Rightarrow> bool" where
  "still k k' \<longleftrightarrow> same_kin k k' \<and> curproc k' = curproc k \<and> (\<forall>x. idle_proc k' x = idle_proc k x)"

lemma still_refl [simp]: "still k k"
  by (simp add: still_def)

lemma still_trans: "still a b \<Longrightarrow> still b c \<Longrightarrow> still a c"
  by (auto simp: still_def intro: same_kin_trans)

lemma still_calm:
  assumes "still k k'" "queues_ok k \<Longrightarrow> queues_ok k'"
  shows "calm k k'"
proof -
  have kin: "same_kin k k'" "curproc k' = curproc k" "idle_proc k' x = idle_proc k x" for x
    using assms(1) by (simp_all add: still_def)
  then show ?thesis using assms(2) same_kinD(1,2)[OF kin(1)] by (simp add: calm_def sched_inv_def)
qed

lemma move_q_facts:
  assumes "move_q q r p k = Some k'"
  shows "q_frame k k'" "wait_q (procs k p) = q"
    "wait_q (procs k' x) = (if x = p then r else wait_q (procs k x))"
proof -
  obtain k1 where k1: "rm_q q p k = Some k1" "add_q r p k1 = Some k'"
    using assms by (auto simp: move_q_eq split: option.splits)
  show "q_frame k k'" using q_frame_trans[OF rm_q_frame[OF k1(1)] add_q_frame[OF k1(2)]] .
  show "wait_q (procs k p) = q" using k1(1) by (simp add: rm_q_def split: if_splits)
  show "wait_q (procs k' x) = (if x = p then r else wait_q (procs k x))"
    by (simp add: add_q_wait_q[OF k1(2)] rm_q_wait_q[OF k1(1)])
qed

lemma move_q_still:
  assumes "move_q q r p k = Some k'" "q \<notin> {CURPROC_Q, ZOMBIE_Q, TSR_Q}" "r \<notin> {CURPROC_Q, ZOMBIE_Q, TSR_Q}"
  shows "still k k'"
proof -
  note m = move_q_facts[OF assms(1)]
  have "same_kin k k'"
  proof (rule q_frame_same_kin[OF m(1)])
    fix x
    show "wait_q (procs k' x) = wait_q (procs k x) \<or>
      \<not> is_dead k x \<and> wait_q (procs k' x) \<noteq> ZOMBIE_Q \<and> wait_q (procs k' x) \<noteq> TSR_Q"
      using m(2) assms(2,3) unfolding m(3)[of x] is_dead_def by auto
  qed
  moreover have "idle_proc k' x = idle_proc k x" for x
    using m(2) assms(2,3) unfolding idle_proc_def m(3)[of x] by auto
  ultimately show ?thesis using q_frame_core(16)[OF m(1)] by (simp add: still_def)
qed

lemma do_wake_loop_still:
  "do_wake_loop fuel que cond h k = Some k' \<Longrightarrow> que \<notin> {CURPROC_Q, ZOMBIE_Q, TSR_Q} \<Longrightarrow> still k k'"
proof (induction fuel que cond h k rule: do_wake_loop.induct)
  case (3 fuel que cond p k)
  show ?case
  proof (cases "wait_q (procs k p) = que \<and> wait_cond (procs k p) = cond")
    case True
    then obtain k1 where k1: "move_q que READY_Q p k = Some k1" "do_wake_loop fuel que cond (q_next (procs k p)) k1 = Some k'"
      using 3(4) by (auto simp: Let_def split: option.splits)
    then show ?thesis using still_trans[OF move_q_still[OF k1(1)]] 3 True by fastforce
  next
    case False
    then show ?thesis using 3 by (auto simp: Let_def split: if_splits)
  qed
qed simp_all

lemma wake_still:
  assumes "wake que cond k = Some k'" "que \<notin> {CURPROC_Q, ZOMBIE_Q, TSR_Q}"
  shows "still k k'"
proof (cases "que = READY_Q")
  case True
  then show ?thesis using assms(1) by (simp add: wake_def)
next
  case False
  define k1 where "k1 = (if sleepcond k = cond then k\<lparr>sleepcond := 0\<rparr> else k)"
  have "still k k1" by (simp add: still_def same_kin_def same_lists_def is_dead_def idle_proc_def k1_def)
  moreover have "still k1 k'"
    using assms False do_wake_loop_still by (auto simp: wake_def do_wake_def k1_def)
  ultimately show ?thesis by (rule still_trans)
qed

lemma wake_calm:
  assumes "wake que cond k = Some k'" "que \<notin> {CURPROC_Q, ZOMBIE_Q, TSR_Q}"
  shows "calm k k'"
proof (rule still_calm[OF wake_still[OF assms]])
  show "queues_ok k'" if "queues_ok k" using wake_ok[OF that, of que cond] assms by auto
qed

lemma post_sig_still:
  assumes "post_sig p sig k = Some k'"
  shows "still k k'"
proof (cases "k' = k")
  case False
  define k1 where "k1 = upd_proc p (\<lambda>x. x\<lparr>sigpending := sigpending x OR sigbit sig\<rparr>) k"
  have dead: "\<not> is_dead k p" using assms False by (auto simp: post_sig_def split: if_splits)
  have curproc1: "curproc k1 = curproc k" by (simp add: k1_def)
  have "same_kin k k1" unfolding k1_def by (rule same_kin_upd) (use dead in \<open>simp_all add: kin_def\<close>)
  then have 1: "still k k1" using curproc1 by (simp add: still_def idle_proc_def k1_def)
  have wq: "wait_q (procs k1 p) = wait_q (procs k p)" by (simp add: k1_def)
  have "k' = k1 \<or> wait_q (procs k p) \<noteq> CURPROC_Q \<and> move_q (wait_q (procs k p)) READY_Q p k1 = Some k'"
    using assms False wq by (auto simp: post_sig_def k1_def[symmetric] Let_def split: if_splits)
  then show ?thesis
  proof
    assume m: "wait_q (procs k p) \<noteq> CURPROC_Q \<and> move_q (wait_q (procs k p)) READY_Q p k1 = Some k'"
    have "still k1 k'"
      by (rule move_q_still[of "wait_q (procs k p)" READY_Q p]) (use m dead in \<open>auto simp: is_dead_def\<close>)
    then show ?thesis by (rule still_trans[OF 1])
  qed (use 1 in simp)
qed simp

lemma post_sig_calm:
  assumes "post_sig p sig k = Some k'"
  shows "calm k k'"
proof (rule still_calm[OF post_sig_still[OF assms]])
  have "sig < NSIG" using assms by (auto simp: post_sig_def split: if_splits)
  then show "queues_ok k'" if "queues_ok k" using post_sig_ok[OF that, of sig p] assms by auto
qed

lemma calm_kernel:
  assumes "procs k' = procs k" "same_lists k k'" "sysq k' = sysq k" "curproc k' = curproc k"
  shows "calm k k'"
proof (rule still_calm)
  show "still k k'" using assms same_kin_kernel by (simp add: still_def idle_proc_def)
  show "queues_ok k'" if "queues_ok k"
    using that assms by (auto intro: queues_ok_kernel simp: same_lists_def)
qed

lemma calm_upd:
  assumes "kin (f (procs k p)) = kin (procs k p)" "\<And>x. wait_q (f x) = wait_q x" "\<And>x. q_prev (f x) = q_prev x"
    "\<And>x. q_next (f x) = q_next x" and "is_dead k p \<Longrightarrow> proc_core (f (procs k p)) = proc_core (procs k p)"
  shows "calm k (upd_proc p f k)"
proof (rule still_calm)
  have "curproc (upd_proc p f k) = curproc k" by (simp add: upd_proc_def)
  moreover have "same_kin k (upd_proc p f k)" using assms by (intro same_kin_upd) auto
  ultimately show "still k (upd_proc p f k)" using assms(2) by (simp add: still_def idle_proc_def)
  show "queues_ok (upd_proc p f k)" if "queues_ok k" using that assms by (intro queues_ok_upd)
qed

section \<open>Sleeping is calm\<close>

definition calm_env :: "sleep_env \<Rightarrow> bool" where
  "calm_env env \<longleftrightarrow> (\<forall>k p. calm k (e_checkbttys env k) \<and> calm k (e_checkkeys env k) \<and>
     calm k (e_checkrandom env k) \<and> calm k (e_check_sigs env k) \<and> calm k (e_handle_sigbus env k) \<and>
     calm k (e_raise_sigxcpu env k) \<and> calm k (e_checkalarms env k) \<and> calm k (e_checkprocwakeup env p k) \<and>
     calm k (e_swap_in env k))"

lemma calm_envD:
  assumes "calm_env env"
  shows "calm k (e_checkbttys env k)" "calm k (e_checkkeys env k)" "calm k (e_checkrandom env k)"
    "calm k (e_check_sigs env k)" "calm k (e_handle_sigbus env k)" "calm k (e_raise_sigxcpu env k)"
    "calm k (e_checkalarms env k)" "calm k (e_checkprocwakeup env p k)" "calm k (e_swap_in env k)"
  using assms by (simp_all add: calm_env_def)

lemma calm_env_ok: "calm_env env \<Longrightarrow> env_ok env"
  by (simp add: calm_env_def env_ok_def calm_def)

lemma calm_fields [simp]:
  "calm k (k\<lparr>proc_clock := c\<rparr>)" "calm k (k\<lparr>sleepcond := v\<rparr>)" "calm k (k\<lparr>iwakecond := v\<rparr>)"
  by (rule calm_kernel; simp add: same_lists_def)+

lemma calm_steps:
  assumes "calm_env env" "calm a k"
  shows "calm a (e_checkbttys env k)" "calm a (e_checkkeys env k)" "calm a (e_checkrandom env k)"
    "calm a (e_check_sigs env k)" "calm a (e_handle_sigbus env k)" "calm a (e_raise_sigxcpu env k)"
    "calm a (e_checkalarms env k)" "calm a (e_checkprocwakeup env p k)" "calm a (e_swap_in env k)"
    "calm a (upd_proc q (\<lambda>x. x\<lparr>slices := f x\<rparr>) k)" "calm a (upd_proc q (\<lambda>x. x\<lparr>curpri := g x\<rparr>) k)"
    "calm a (k\<lparr>proc_clock := c\<rparr>)" "calm a (k\<lparr>sleepcond := v\<rparr>)" "calm a (k\<lparr>iwakecond := v\<rparr>)"
  by (rule calm_trans[OF assms(2)], rule calm_envD[OF assms(1)] calm_fields)+
    (rule calm_trans[OF assms(2)], rule calm_upd calm_fields; simp add: kin_def)+

lemma do_wakeup_things_calm:
  assumes "calm_env env" "calm a k"
  shows "calm a (do_wakeup_things env ints_on newslice cond k)"
  unfolding do_wakeup_things_def Let_def using assms(2) by (auto simp: calm_steps[OF assms(1)])

lemma sleep_poll_calm:
  assumes "calm_env env" "calm a k"
  shows "calm a (sleep_poll env ints_on que k)"
  unfolding sleep_poll_def Let_def using assms(2) by (auto simp: calm_steps[OF assms(1)])

text \<open>The search for the next process only changes priorities.\<close>

lemma pick_pass_same:
  "pick_pass fuel h k = Some (r, k') \<Longrightarrow> q_frame k k' \<and> (\<forall>x. wait_q (procs k' x) = wait_q (procs k x))"
proof (induction fuel h k rule: pick_pass.induct)
  case (3 fuel p k)
  let ?k = "upd_proc p (\<lambda>x. x\<lparr>slices := slices x - 1\<rparr>) k"
  have "q_frame k ?k" by (rule q_frame_upd_proc) simp_all
  moreover have "wait_q (procs ?k x) = wait_q (procs k x)" for x by simp
  ultimately show ?case using 3 q_frame_trans[of k ?k] by (auto split: if_splits)
qed simp_all

lemma pick_next_same:
  "pick_next fuel k = Some (r, k') \<Longrightarrow> q_frame k k' \<and> (\<forall>x. wait_q (procs k' x) = wait_q (procs k x))"
proof (induction fuel k rule: pick_next.induct)
  case (2 fuel k)
  obtain h k1 where k1: "pick_pass (length (proclist k)) (q_head (sysq k READY_Q)) k = Some (h, k1)"
    using 2(2) by (auto split: option.splits)
  note p = pick_pass_same[OF k1]
  show ?case
  proof (cases h)
    case None
    then have "q_frame k1 k' \<and> (\<forall>x. wait_q (procs k' x) = wait_q (procs k1 x))" using 2 k1 by auto
    then show ?thesis using p q_frame_trans by auto
  next
    case (Some q)
    then show ?thesis using 2(2) k1 p by simp
  qed
qed simp

text \<open>A process that goes to sleep enters its queue; the rest of the switch concerns no dead process.\<close>

lemma sleep_switch_kin:
  assumes "sleep_switch env que k = Some (Switch k')" "sched_inv k" "que \<noteq> CURPROC_Q"
    and root: "\<not> is_dead k (rootproc k)" "que = ZOMBIE_Q \<or> que = TSR_Q \<Longrightarrow> curproc k \<noteq> rootproc k"
  shows "\<exists>k1. add_q que (curproc k) k = Some k1 \<and> same_kin k1 k'"
proof -
  obtain k1 where k1: "add_q que (curproc k) k = Some k1"
    using assms(1) by (auto simp: sleep_switch_def split: bind_splits)
  obtain k2 where k2: "sleep_find_ready env k1 = Some k2"
    using assms(1) k1 by (auto simp: sleep_switch_def split: bind_splits)
  obtain p k3 where k3: "pick_next (pick_fuel k2) k2 = Some (p, k3)"
    using assms(1) k1 k2 by (auto simp: sleep_switch_def split: bind_splits)
  obtain k4 where k4: "rm_q READY_Q p k3 = Some k4" "k' = k4\<lparr>curproc := p, proc_clock := word_of_int (time_slice k4)\<rparr>"
    using assms(1) k1 k2 k3 by (auto simp: sleep_switch_def split: bind_splits)
  note q1 = q_frame_core(17)[OF add_q_frame[OF k1]] add_q_wait_q[OF k1]
  have rootq: "wait_q (procs k1 (rootproc k1)) \<notin> {CURPROC_Q, ZOMBIE_Q, TSR_Q}"
    using assms(2,3) root unfolding q1 by (auto simp: sched_inv_def is_dead_def idle_proc_def)
  have "same_kin k1 k2"
  proof (cases "q_head (sysq k1 READY_Q) = None")
    case False
    then show ?thesis using k2 by (simp add: sleep_find_ready_def)
  next
    case True
    then obtain ka where ka: "wake SELECT_Q (e_nap env) k1 = Some ka"
      using k2 by (auto simp: sleep_find_ready_def split: bind_splits)
    have still: "still k1 ka" using wake_still[OF ka] by simp
    then have same: "same_kin k1 ka" by (simp add: still_def)
    then have r: "rootproc ka = rootproc k1" by (rule same_kinD)
    have "ka = k2 \<or> move_q (wait_q (procs ka (rootproc ka))) READY_Q (rootproc ka) ka = Some k2"
      using k2 True ka by (auto simp: sleep_find_ready_def split: if_splits)
    moreover have "wait_q (procs ka (rootproc ka)) \<notin> {CURPROC_Q, ZOMBIE_Q, TSR_Q}"
    proof -
      have "idle_proc ka (rootproc ka) = idle_proc k1 (rootproc k1)" "is_dead ka (rootproc ka) = is_dead k1 (rootproc k1)"
        using still same_kinD(11)[OF same] r by (simp_all add: still_def)
      then show ?thesis using rootq by (auto simp: idle_proc_def is_dead_def)
    qed
    ultimately have "same_kin ka k2" using move_q_still[of _ READY_Q "rootproc ka" ka k2] by (auto simp: still_def)
    then show ?thesis by (rule same_kin_trans[OF same])
  qed
  moreover have "same_kin k2 k3" using pick_next_same[OF k3] q_frame_same_kin by blast
  moreover have "same_kin k3 k4"
  proof (rule q_frame_same_kin[OF rm_q_frame[OF k4(1)]])
    have "wait_q (procs k3 p) = READY_Q" using k4(1) by (simp add: rm_q_def split: if_splits)
    then show "wait_q (procs k4 x) = wait_q (procs k3 x) \<or>
      \<not> is_dead k3 x \<and> wait_q (procs k4 x) \<noteq> ZOMBIE_Q \<and> wait_q (procs k4 x) \<noteq> TSR_Q" for x
      unfolding rm_q_wait_q[OF k4(1)] by (auto simp: is_dead_def)
  qed
  moreover have "same_kin k4 k'" unfolding k4(2) by (rule same_kin_kernel) (simp_all add: same_lists_def)
  ultimately have "same_kin k1 k'" by (blast intro: same_kin_trans)
  then show ?thesis using k1 by blast
qed

end
