(* ===== verification/Proc_Life.thy ===== *)
theory Proc_Life
  imports Proc_Tree
begin

text \<open>
  What the end of a process does to the tree of processes: \<open>term_notify\<close> never fails and
  hands the children to the root process; \<open>terminate\<close> leaves a zombie, or a resident program, that nobody depends
  on. What the rest of the kernel must not do meanwhile is \<open>calm_life\<close> and \<open>no_wakeups\<close>.
\<close>

section \<open>The family of an ending process\<close>

text \<open>
  \<open>family p i Q k k'\<close>: of the processes \<open>Q\<close> the children of process id \<open>i\<close> were given to the root process and
  those traced by \<open>p\<close> are free; otherwise nothing changed for the tree.
\<close>

definition dead_core :: "proc \<Rightarrow> proc" where
  "dead_core x = (proc_core x)\<lparr>ppid := 0, ptracer := None\<rparr>"

definition family :: "pptr \<Rightarrow> int \<Rightarrow> pptr set \<Rightarrow> kernel \<Rightarrow> kernel \<Rightarrow> bool" where
  "family p i Q k k' \<longleftrightarrow> same_lists k k' \<and> curproc k' = curproc k \<and>
     (\<forall>x. pid (procs k' x) = pid (procs k x) \<and> p_cred (procs k' x) = p_cred (procs k x) \<and>
        p_sigacts (procs k' x) = p_sigacts (procs k x) \<and> is_dead k' x = is_dead k x \<and> idle_proc k' x = idle_proc k x \<and>
        (is_dead k x \<longrightarrow> dead_core (procs k' x) = dead_core (procs k x) \<and> wait_q (procs k' x) = wait_q (procs k x)) \<and>
        ppid (procs k' x) = (if x \<in> Q \<and> ppid (procs k x) = i then 0 else ppid (procs k x)) \<and>
        ptracer (procs k' x) = (if x \<in> Q \<and> ptracer (procs k x) = Some p then None else ptracer (procs k x)))"

definition readied :: "kernel \<Rightarrow> kernel \<Rightarrow> bool" where
  "readied k k' \<longleftrightarrow> (\<forall>x. wait_q (procs k' x) = wait_q (procs k x) \<or> wait_q (procs k' x) = READY_Q)"

lemma readied_refl [simp]: "readied k k"
  by (simp add: readied_def)

lemma readied_trans: "readied a b \<Longrightarrow> readied b c \<Longrightarrow> readied a c"
  unfolding readied_def by metis

lemma readied_ready: "readied k k' \<Longrightarrow> wait_q (procs k x) = READY_Q \<Longrightarrow> wait_q (procs k' x) = READY_Q"
  unfolding readied_def by metis

lemma dead_core_eq: "proc_core x = proc_core y \<Longrightarrow> dead_core x = dead_core y"
  by (simp add: dead_core_def)

lemma family_still:
  assumes "family p i Q k k1" "still k1 k2"
  shows "family p i Q k k2"
proof -
  have kin: "same_kin k1 k2" "curproc k2 = curproc k1" "\<And>x. idle_proc k2 x = idle_proc k1 x"
    using assms(2) by (simp_all add: still_def)
  have "dead_core (procs k2 x) = dead_core (procs k1 x)" if "is_dead k1 x" for x
    using same_kinD(12)[OF kin(1) that] by (rule dead_core_eq)
  moreover have "same_lists k1 k2" using kin(1) by (simp add: same_kin_def)
  ultimately show ?thesis
    using assms(1) same_kinD(6-11)[OF kin(1)] same_kinD(13)[OF kin(1)] kin(2,3)
    unfolding family_def same_lists_def by simp
qed

lemma still_family: "still k k' \<Longrightarrow> family p i {} k k'"
  using family_still[of p i "{}" k k k'] by (simp add: family_def)

lemma family_trans:
  assumes "family p i {q} k k1" "family p i Q k1 k2" "q \<notin> Q"
  shows "family p i (insert q Q) k k2"
  using assms unfolding family_def same_lists_def by auto

lemma family_empty_trans:
  assumes "family p i {} k k1" "family p i Q k1 k2"
  shows "family p i Q k k2"
  using assms unfolding family_def same_lists_def by auto

lemma post_sig_more:
  assumes "queues_ok k" "sig < NSIG"
  shows "\<exists>k'. post_sig p sig k = Some k' \<and> queues_ok k' \<and> still k k' \<and> readied k k'"
proof -
  obtain k' where k': "post_sig p sig k = Some k'" "queues_ok k'"
    "\<forall>x. wait_q (procs k' x) =
       (if x = p \<and> deliverable k p sig \<and> p_sigmask (procs k p) AND sigbit sig = 0 \<and> wait_q (procs k p) \<noteq> CURPROC_Q
        then READY_Q else wait_q (procs k x))"
    using post_sig_ok[OF assms, of p] by blast
  then show ?thesis using post_sig_still[OF k'(1)] by (auto simp: readied_def)
qed

lemma move_q_more:
  assumes "queues_ok k" "wait_q (procs k p) = q" "q \<notin> {CURPROC_Q, ZOMBIE_Q, TSR_Q}"
  shows "\<exists>k'. move_q q READY_Q p k = Some k' \<and> queues_ok k' \<and> still k k' \<and> readied k k' \<and> wait_q (procs k' p) = READY_Q"
proof -
  obtain k' where k': "move_q q READY_Q p k = Some k'" "queues_ok k'"
    "\<forall>x. wait_q (procs k' x) = (if x = p then READY_Q else wait_q (procs k x))"
    using move_q_ok[OF assms(1,2), of READY_Q] assms(3) by auto
  then show ?thesis using move_q_still[OF k'(1)] assms(3) by (auto simp: readied_def)
qed

section \<open>Adoption\<close>

lemma orphan_ok:
  assumes "queues_ok k"
  shows "\<exists>k'. orphan p i q k = Some k' \<and> queues_ok k' \<and> family p i {q} k k' \<and> readied k k'"
proof -
  define k1 where "k1 = (if ppid (procs k q) = i then upd_proc q (\<lambda>x. x\<lparr>ppid := 0\<rparr>) k else k)"
  define k2 where "k2 = (if ptracer (procs k1 q) = Some p then upd_proc q (\<lambda>x. x\<lparr>ptracer := None\<rparr>) k1 else k1)"
  have cur: "curproc k2 = curproc k" by (simp add: k1_def k2_def)
  have "queues_ok k1" using assms by (simp add: k1_def queues_ok_upd)
  then have ok: "queues_ok k2" by (simp add: k2_def queues_ok_upd)
  have same: "wait_q (procs k2 x) = wait_q (procs k x)" for x by (simp add: k1_def k2_def)
  have "family p i {q} k k2"
    unfolding family_def is_dead_def idle_proc_def same cur
    by (auto simp: k1_def k2_def same_lists_def upd_proc_def dead_core_def proc_core_def)
  moreover have "\<exists>k'. orphan p i q k = Some k' \<and> queues_ok k' \<and> still k2 k' \<and> readied k2 k'"
  proof (cases "ptracer (procs k1 q) = Some p")
    case True
    then have "orphan p i q k = post_sig q SIGTERM k2"
      by (simp add: orphan_def k1_def[symmetric] k2_def Let_def)
    then show ?thesis using post_sig_more[OF ok, of SIGTERM q] by simp
  next
    case False
    then have "orphan p i q k = Some k2" by (simp add: orphan_def k1_def[symmetric] k2_def Let_def)
    then show ?thesis using ok by simp
  qed
  moreover have "readied k k2" by (simp add: readied_def same)
  ultimately show ?thesis using family_still readied_trans by blast
qed

lemma orphan_loop_ok:
  "distinct qs \<Longrightarrow> queues_ok k \<Longrightarrow>
   \<exists>b k'. orphan_loop p i qs w k = Some (b, k') \<and> queues_ok k' \<and> family p i (set qs) k k' \<and> readied k k' \<and>
     (b \<longleftrightarrow> w \<or> (\<exists>q \<in> set qs. ppid (procs k q) = i \<and> wait_q (procs k q) = ZOMBIE_Q))"
proof (induction qs arbitrary: k w)
  case Nil
  then show ?case by (simp add: family_def)
next
  case (Cons q qs)
  define w1 where "w1 = (w \<or> ppid (procs k q) = i \<and> wait_q (procs k q) = ZOMBIE_Q)"
  obtain k1 where k1: "orphan p i q k = Some k1" "queues_ok k1" "family p i {q} k k1" "readied k k1"
    using orphan_ok[OF Cons.prems(2)] by blast
  obtain b k' where b: "orphan_loop p i qs w1 k1 = Some (b, k')" "queues_ok k'" "family p i (set qs) k1 k'" "readied k1 k'"
    "b \<longleftrightarrow> w1 \<or> (\<exists>q \<in> set qs. ppid (procs k1 q) = i \<and> wait_q (procs k1 q) = ZOMBIE_Q)"
    using Cons.IH[OF _ k1(2), of w1] Cons.prems(1) by auto
  have z: "ppid (procs k1 x) = i \<and> wait_q (procs k1 x) = ZOMBIE_Q \<longleftrightarrow> ppid (procs k x) = i \<and> wait_q (procs k x) = ZOMBIE_Q"
    if "x \<in> set qs" for x
  proof -
    have "x \<noteq> q" using that Cons.prems(1) by auto
    moreover have "is_dead k1 x = is_dead k x" "is_dead k x \<longrightarrow> wait_q (procs k1 x) = wait_q (procs k x)"
      "x \<noteq> q \<Longrightarrow> ppid (procs k1 x) = ppid (procs k x)"
      using k1(3) by (simp_all add: family_def)
    ultimately show ?thesis by (auto simp: is_dead_def)
  qed
  have "orphan_loop p i (q # qs) w k = Some (b, k')" using k1(1) b(1) by (simp add: w1_def Let_def)
  moreover have "family p i (set (q # qs)) k k'" using family_trans[OF k1(3) b(3)] Cons.prems(1) by simp
  moreover have "b \<longleftrightarrow> w \<or> (\<exists>q \<in> set (q # qs). ppid (procs k q) = i \<and> wait_q (procs k q) = ZOMBIE_Q)"
    unfolding b(5) w1_def using z by auto
  ultimately show ?case using b(2) readied_trans[OF k1(4) b(4)] by blast
qed

section \<open>Notification\<close>

lemma pid2proc_Some: "pid2proc n k = Some q \<Longrightarrow> q \<in> set (proclist k) \<and> pid (procs k q) = n"
  by (auto simp: pid2proc_def find_Some_iff)

lemma pid2proc_None: "pid2proc n k = None \<longleftrightarrow> (\<forall>q \<in> set (proclist k). pid (procs k q) \<noteq> n)"
  by (auto simp: pid2proc_def find_None_iff)

lemma pid2proc_eq:
  assumes "tree_ok k" "q \<in> set (proclist k)"
  shows "pid2proc (pid (procs k q)) k = Some q"
proof (cases "pid2proc (pid (procs k q)) k")
  case None
  then show ?thesis using assms(2) by (auto simp: pid2proc_None)
next
  case (Some r)
  then show ?thesis using assms pid2proc_Some[OF Some] by (auto simp: tree_ok_def inj_on_def)
qed

lemma term_parent_ok:
  assumes "tree_ok k" "p \<in> set (proclist k)"
  shows "\<exists>q. term_parent p k = Some q \<and> q \<in> set (proclist k) \<and> \<not> is_dead k q \<and>
    (q = rootproc k \<or> pid (procs k q) = ppid (procs k p))"
proof -
  have root: "rootproc k \<in> set (proclist k)" "pid (procs k (rootproc k)) = 0" "\<not> is_dead k (rootproc k)"
    using assms(1) by (simp_all add: tree_ok_def)
  have "ppid (procs k p) = - 1 \<or> alive_pid k (ppid (procs k p))" using assms by (simp add: tree_ok_def)
  then show ?thesis
  proof
    assume "ppid (procs k p) = - 1"
    moreover have "\<forall>q \<in> set (proclist k). 0 \<le> pid (procs k q)" using assms(1) by (simp add: tree_ok_def)
    ultimately have "pid2proc (ppid (procs k p)) k = None" by (force simp: pid2proc_None)
    moreover have "pid2proc 0 k = Some (rootproc k)" using pid2proc_eq[OF assms(1) root(1)] root(2) by simp
    ultimately show ?thesis using root by (simp add: term_parent_def)
  next
    assume "alive_pid k (ppid (procs k p))"
    then obtain q where q: "q \<in> set (proclist k)" "pid (procs k q) = ppid (procs k p)" "\<not> is_dead k q"
      by (auto simp: alive_pid_def)
    then have "pid2proc (ppid (procs k p)) k = Some q" using pid2proc_eq[OF assms(1) q(1)] by simp
    then show ?thesis using q by (simp add: term_parent_def)
  qed
qed

lemma upd_sigact_fields [simp]:
  "procs (upd_sigact p i f k) = procs k" "proclist (upd_sigact p i f k) = proclist k"
  "curproc (upd_sigact p i f k) = curproc k" "sysq (upd_sigact p i f k) = sysq k"
  "rootproc (upd_sigact p i f k) = rootproc k" "pcreds (upd_sigact p i f k) = pcreds k"
  "ucreds (upd_sigact p i f k) = ucreds k" "sigacts_links (upd_sigact p i f k) = sigacts_links k"
  by (simp_all add: upd_sigact_def Let_def)

lemma upd_sigact_handler:
  "SIGACTION (upd_sigact p i f k) p j = (if i = j then f (SIGACTION k p j) else SIGACTION k p j)"
  by (simp add: upd_sigact_def SIGACTION_def Let_def)

lemma ignore_signals_steps:
  fixes k :: kernel and p :: pptr and xs :: "nat list"
  defines "k' \<equiv> fold (\<lambda>i. upd_sigact p i (\<lambda>a. a\<lparr>sa_handler := SIG_IGN\<rparr>)) xs k"
  shows "procs k' = procs k \<and> sysq k' = sysq k \<and> curproc k' = curproc k \<and> same_lists k k' \<and>
    (\<forall>i. sa_handler (SIGACTION k' p i) = (if i \<in> set xs then SIG_IGN else sa_handler (SIGACTION k p i)))"
  unfolding k'_def
  by (induction xs arbitrary: k) (auto simp: same_lists_def upd_sigact_handler)

lemma ignore_signals_ok:
  "queues_ok k \<Longrightarrow> queues_ok (ignore_signals p k)" "still k (ignore_signals p k)" "readied k (ignore_signals p k)"
  "i < NSIG \<Longrightarrow> sa_handler (SIGACTION (ignore_signals p k) p i) = SIG_IGN"
proof -
  note f = ignore_signals_steps[of p "[0..<NSIG]" k, folded ignore_signals_def]
  show "queues_ok (ignore_signals p k)" if "queues_ok k" using that f by (auto intro: queues_ok_kernel simp: same_lists_def)
  show "still k (ignore_signals p k)" using f same_kin_kernel by (simp add: still_def idle_proc_def)
  show "readied k (ignore_signals p k)" using f by (simp add: readied_def)
  show "sa_handler (SIGACTION (ignore_signals p k) p i) = SIG_IGN" if "i < NSIG" using f that by simp
qed

text \<open>The three steps after the parent is woken, as one: they find readied processes ready.\<close>

lemma tree_ok_still: "tree_ok k \<Longrightarrow> still k k' \<Longrightarrow> tree_ok k'"
  using tree_ok_kin[of k k'] by (auto simp: still_def tree_ok_def creds_ok_def)

definition notified :: "u32 \<Rightarrow> pptr \<Rightarrow> pptr \<Rightarrow> kernel \<Rightarrow> kernel \<Rightarrow> bool" where
  "notified a p q k k' \<longleftrightarrow> queues_ok k' \<and> family p (pid (procs k p)) (set (proclist k)) k k' \<and> readied k k' \<and>
     (wait_q (procs k q) = WAIT_Q \<and> (wait_cond (procs k q) = of_nat p \<or> wait_cond (procs k q) = a) \<longrightarrow>
        wait_q (procs k' q) = READY_Q) \<and>
     (wait_q (procs k (rootproc k)) = WAIT_Q \<and>
        (\<exists>c \<in> set (proclist k). ppid (procs k c) = pid (procs k p) \<and> wait_q (procs k c) = ZOMBIE_Q) \<longrightarrow>
        wait_q (procs k' (rootproc k)) = READY_Q) \<and>
     (\<forall>i < NSIG. sa_handler (SIGACTION k' p i) = SIG_IGN)"

lemma term_notify_ok:
  assumes "tree_ok k" "queues_ok k" "p \<in> set (proclist k)"
  shows "\<exists>q k'. term_parent p k = Some q \<and> q \<in> set (proclist k) \<and> \<not> is_dead k q \<and>
    term_notify a p k = Some k' \<and> notified a p q k k'"
proof -
  obtain q where q: "term_parent p k = Some q" "q \<in> set (proclist k)" "\<not> is_dead k q"
    using term_parent_ok[OF assms(1,3)] by blast
  have w: "wait_q (procs k q) = WAIT_Q \<and> (wait_cond (procs k q) = of_nat p \<or> wait_cond (procs k q) = a) \<longrightarrow>
    (\<exists>k'. move_q WAIT_Q READY_Q q k = Some k' \<and> queues_ok k' \<and> still k k' \<and> readied k k' \<and> wait_q (procs k' q) = READY_Q)"
    using move_q_more[OF assms(2), of q WAIT_Q] by auto
  obtain k1 where k1: "wake_parent a p q k = Some k1" "queues_ok k1" "still k k1" "readied k k1"
    "wait_q (procs k q) = WAIT_Q \<and> (wait_cond (procs k q) = of_nat p \<or> wait_cond (procs k q) = a) \<longrightarrow> wait_q (procs k1 q) = READY_Q"
    using w assms(2) by (cases "wait_q (procs k q) = WAIT_Q \<and> (wait_cond (procs k q) = of_nat p \<or> wait_cond (procs k q) = a)")
      (auto simp: wake_parent_def)
  obtain k2 where k2: "(case ptracer (procs k1 p) of Some t \<Rightarrow> if t \<noteq> q then post_sig t SIGCHLD k1 else Some k1
      | None \<Rightarrow> Some k1) = Some k2" "queues_ok k2" "still k1 k2" "readied k1 k2"
    using k1(2) post_sig_more[OF k1(2), of SIGCHLD] by (cases "ptracer (procs k1 p)"; cases "ptracer (procs k1 p) = Some q") auto
  obtain k3 where k3: "post_sig q SIGCHLD k2 = Some k3" "queues_ok k3" "still k2 k3" "readied k2 k3"
    using post_sig_more[OF k2(2), of SIGCHLD q] by auto
  have st3: "still k k3" using still_trans[OF still_trans[OF k1(3) k2(3)] k3(3)] .
  then have kin: "same_kin k k3" by (simp add: still_def)
  have r3: "readied k k3" using readied_trans[OF readied_trans[OF k1(4) k2(4)] k3(4)] .
  have pl: "proclist k3 = proclist k" "pid (procs k3 x) = pid (procs k x)" "ppid (procs k3 x) = ppid (procs k x)"
    "rootproc k3 = rootproc k" for x using same_kinD[OF kin] by simp_all
  have zomb: "wait_q (procs k3 x) = ZOMBIE_Q \<longleftrightarrow> wait_q (procs k x) = ZOMBIE_Q" for x
    using same_kinD(11)[OF kin, of x] same_kinD(13)[OF kin, of x] by (auto simp: is_dead_def)
  have "distinct (proclist k3)" using assms(1) by (simp add: pl tree_ok_def)
  then obtain b k4 where k4: "orphan_loop p (pid (procs k3 p)) (proclist k3) False k3 = Some (b, k4)" "queues_ok k4"
    "family p (pid (procs k3 p)) (set (proclist k3)) k3 k4" "readied k3 k4"
    "b \<longleftrightarrow> (\<exists>q \<in> set (proclist k3). ppid (procs k3 q) = pid (procs k3 p) \<and> wait_q (procs k3 q) = ZOMBIE_Q)"
    using orphan_loop_ok[OF _ k3(2)] by blast
  have root4: "rootproc k4 = rootproc k" using k4(3) pl(4) by (simp add: family_def same_lists_def)
  let ?b = "b \<or> p_flag (procs k4 p) AND P_FLAG_SLB \<noteq> 0"
  obtain k5 where k5: "wake_root k4 = Some k5" "queues_ok k5" "still k4 k5" "readied k4 k5"
    "wait_q (procs k4 (rootproc k)) = WAIT_Q \<longrightarrow> wait_q (procs k5 (rootproc k)) = READY_Q"
    using move_q_more[OF k4(2), of "rootproc k" WAIT_Q] k4(2) root4
    by (cases "wait_q (procs k4 (rootproc k)) = WAIT_Q") (auto simp: wake_root_def)
  define k6 where "k6 = (if ?b then k5 else k4)"
  have k6: "queues_ok k6" "still k4 k6" "readied k4 k6" using k4(2) k5 by (simp_all add: k6_def)
  note ig = ignore_signals_ok[where k = k6 and p = p]
  have eq: "term_notify a p k = Some (ignore_signals p k6)"
    using q(1) k1(1) k2(1) k3(1) k4(1) k5(1) by (simp add: term_notify_def k6_def)
  have fam: "family p (pid (procs k p)) (set (proclist k)) k (ignore_signals p k6)"
    using family_still[OF family_still[OF family_empty_trans[OF still_family[OF st3] k4(3)] k6(2)] ig(2)] by (simp add: pl)
  have r6: "readied k6 (ignore_signals p k6)" by (rule ig(3))
  have r36: "readied k3 (ignore_signals p k6)" using readied_trans[OF readied_trans[OF k4(4) k6(3)] r6] .
  have r1: "readied k1 (ignore_signals p k6)" using readied_trans[OF readied_trans[OF k2(4) k3(4)] r36] .
  have root: "wait_q (procs (ignore_signals p k6) (rootproc k)) = READY_Q"
    if r: "wait_q (procs k (rootproc k)) = WAIT_Q"
      "\<exists>c \<in> set (proclist k). ppid (procs k c) = pid (procs k p) \<and> wait_q (procs k c) = ZOMBIE_Q"
  proof -
    have "b" using r(2) unfolding k4(5) pl zomb .
    then have 5: "k6 = k5" by (simp add: k6_def)
    have "wait_q (procs k4 (rootproc k)) = WAIT_Q \<or> wait_q (procs k4 (rootproc k)) = READY_Q"
      using readied_trans[OF r3 k4(4)] r(1) unfolding readied_def by metis
    then have "wait_q (procs k5 (rootproc k)) = READY_Q" using k5(4,5) readied_ready by blast
    then show ?thesis using r6 readied_ready unfolding 5 by blast
  qed
  have "notified a p q k (ignore_signals p k6)"
    unfolding notified_def
    using ig(1)[OF k6(1)] fam readied_trans[OF r3 r36] readied_ready[OF r1] k1(5) root ig(4) by blast
  then show ?thesis using q eq by blast
qed

section \<open>Falling asleep\<close>

text \<open>\<open>asleep q cond k k'\<close>: the current process of \<open>k\<close> went to queue \<open>q\<close>, for the dead with condition \<open>cond\<close>.\<close>

definition asleep :: "nat \<Rightarrow> u32 \<Rightarrow> kernel \<Rightarrow> kernel \<Rightarrow> bool" where
  "asleep q cond k k' \<longleftrightarrow> same_lists k k' \<and>
     (\<forall>x. kin (procs k' x) = kin (procs k x) \<and>
        is_dead k' x = (if x = curproc k then q = ZOMBIE_Q \<or> q = TSR_Q else is_dead k x) \<and>
        (is_dead k x \<and> x \<noteq> curproc k \<longrightarrow>
           proc_core (procs k' x) = proc_core (procs k x) \<and> wait_q (procs k' x) = wait_q (procs k x))) \<and>
     (q = ZOMBIE_Q \<or> q = TSR_Q \<longrightarrow>
        wait_q (procs k' (curproc k)) = q \<and> wait_cond (procs k' (curproc k)) = cond)"

lemma sleep_switch_Switch: "sleep_switch env q k = Some r \<Longrightarrow> \<exists>k'. r = Switch k'"
  by (auto simp: sleep_switch_def split: bind_splits)

lemma sleep_switch_asleep:
  assumes "sleep_switch env q k = Some (Switch k')" "sched_inv k" "q \<noteq> CURPROC_Q" "\<not> is_dead k (rootproc k)"
    "q = ZOMBIE_Q \<or> q = TSR_Q \<Longrightarrow> curproc k \<noteq> rootproc k \<and> wait_cond (procs k (curproc k)) = cond"
  shows "asleep q cond k k'"
proof -
  obtain k1 where k1: "add_q q (curproc k) k = Some k1" "same_kin k1 k'"
    using sleep_switch_kin[OF assms(1-4)] assms(5) by blast
  have core: "proc_core (procs k1 x) = proc_core (procs k x)" for x
    using add_q_frame[OF k1(1)] by (simp add: q_frame_def)
  have w: "wait_q (procs k1 x) = (if x = curproc k then q else wait_q (procs k x))" for x
    by (rule add_q_wait_q[OF k1(1)])
  have d1: "is_dead k1 x = (if x = curproc k then q = ZOMBIE_Q \<or> q = TSR_Q else is_dead k x)" for x
    by (simp add: is_dead_def w)
  have idle: "\<not> is_dead k (curproc k)" using assms(2) by (simp add: sched_inv_def idle_proc_def is_dead_def)
  have "same_lists k k'"
    using q_frame_lists[OF add_q_frame[OF k1(1)]] k1(2) same_lists_trans by (auto simp: same_kin_def)
  moreover have "kin (procs k' x) = kin (procs k x)" for x
    using k1(2) core[of x] kin_core by (metis same_kin_def)
  moreover have "is_dead k' x = is_dead k1 x" for x by (rule same_kinD(11)[OF k1(2)])
  moreover have "proc_core (procs k' x) = proc_core (procs k x) \<and> wait_q (procs k' x) = wait_q (procs k1 x)"
    if "is_dead k1 x" for x
    using that same_kinD(12,13)[OF k1(2)] core[of x] by simp
  moreover have "wait_cond (procs k' (curproc k)) = cond" if "q = ZOMBIE_Q \<or> q = TSR_Q"
  proof -
    have "is_dead k1 (curproc k)" using that by (simp add: d1)
    then have "proc_core (procs k' (curproc k)) = proc_core (procs k (curproc k))"
      using same_kinD(12)[OF k1(2)] core by simp
    then have "wait_cond (procs k' (curproc k)) = wait_cond (procs k (curproc k))" by (metis proc_core_sel(1))
    then show ?thesis using assms(5) that by blast
  qed
  ultimately show ?thesis using idle by (auto simp: asleep_def d1 w)
qed

lemma calm_wait_cond:
  assumes "sched_inv k" shows "calm k (upd_proc (curproc k) (\<lambda>x. x\<lparr>wait_cond := cond\<rparr>) k)"
  by (rule calm_upd) (use assms in \<open>simp_all add: kin_def sched_inv_def idle_proc_def is_dead_def\<close>)

lemma sleep_cases:
  assumes "sleep env ints_on que0 cond k = Some r" "calm_env env" "sched_inv k"
  shows "(\<exists>b k1. r = Stay b k1 \<and> calm k k1) \<or>
    (\<exists>q k1 k'. r = Switch k' \<and> calm k k1 \<and> sleep_switch env q k1 = Some (Switch k') \<and>
       (q = que0 mod 256 \<and> wait_cond (procs k1 (curproc k)) = cond \<or> q = READY_Q))"
proof -
  define k1 where "k1 = sleep_poll env ints_on (que0 mod 256) (k\<lparr>sleepcond := cond\<rparr>)"
  have 1: "calm k k1" unfolding k1_def by (rule sleep_poll_calm[OF assms(2)]) simp
  then have 2: "calm k (k1\<lparr>iwakecond := 0\<rparr>)" by (rule calm_trans) simp
  then have sc: "sched_inv (k1\<lparr>iwakecond := 0\<rparr>)" and cur: "curproc k1 = curproc k" using assms(3) 1 by (simp_all add: calm_def)
  define k2 where "k2 = upd_proc (curproc k1) (\<lambda>x. x\<lparr>wait_cond := cond\<rparr>) (k1\<lparr>iwakecond := 0\<rparr>)"
  have 3: "calm k k2" unfolding k2_def using calm_trans[OF 2 calm_wait_cond[OF sc]] by simp
  have wc: "wait_cond (procs k2 (curproc k)) = cond" by (simp add: k2_def cur)
  have d: "calm k (do_wakeup_things env ints_on ns cond (k1\<lparr>iwakecond := 0\<rparr>))" for ns
    by (rule do_wakeup_things_calm[OF assms(2) 2])
  have "(\<exists>b k'. r = Stay b k' \<and> calm k k') \<or> sleep_switch env (que0 mod 256) k2 = Some r \<or>
      sleep_switch env READY_Q (k1\<lparr>iwakecond := 0\<rparr>) = Some r"
    using assms(1) d unfolding sleep_def Let_def k1_def[symmetric]
    by (auto simp: k2_def split: if_splits)
  then show ?thesis
  proof (elim disjE)
    assume s: "sleep_switch env (que0 mod 256) k2 = Some r"
    then obtain k' where "r = Switch k'" using sleep_switch_Switch by blast
    then show ?thesis using s 3 wc by blast
  next
    assume s: "sleep_switch env READY_Q (k1\<lparr>iwakecond := 0\<rparr>) = Some r"
    then obtain k' where "r = Switch k'" using sleep_switch_Switch by blast
    then show ?thesis using s 2 by blast
  qed blast
qed

lemma asleep_calm:
  assumes "calm k k1" "asleep q cond k1 k'" "sched_inv k"
  shows "asleep q cond k k'"
proof -
  have kin: "same_kin k k1" and cur: "curproc k1 = curproc k" using assms(1) by (simp_all add: calm_def)
  note d = same_kinD(11-13)[OF kin]
  have "kin (procs k1 x) = kin (procs k x)" for x using kin by (simp add: same_kin_def)
  then show ?thesis
    using assms(2) kin d same_lists_trans[of k k1 k'] unfolding asleep_def same_kin_def cur by simp
qed

text \<open>The result of \<open>sleep\<close> for a living queue keeps the tree; for a dead one the caller is dead, or only ready.\<close>

lemma sleep_asleep:
  assumes "sleep env ints_on que cond k = Some (Switch k')" "calm_env env" "sched_inv k" "que mod 256 \<noteq> CURPROC_Q"
    "\<not> is_dead k (rootproc k)" "que mod 256 = ZOMBIE_Q \<or> que mod 256 = TSR_Q \<Longrightarrow> curproc k \<noteq> rootproc k"
  shows "sched_inv k' \<and> (asleep (que mod 256) cond k k' \<or> asleep READY_Q cond k k')"
proof -
  obtain q k1 where q: "calm k k1" "sleep_switch env q k1 = Some (Switch k')"
    "q = que mod 256 \<and> wait_cond (procs k1 (curproc k)) = cond \<or> q = READY_Q"
    using sleep_cases[OF assms(1-3)] by blast
  have kin: "same_kin k k1" "curproc k1 = curproc k" "sched_inv k1" using q(1) assms(3) by (simp_all add: calm_def)
  have root: "rootproc k1 = rootproc k" "\<not> is_dead k1 (rootproc k1)"
    using same_kinD(2)[OF kin(1)] same_kinD(11)[OF kin(1), of "rootproc k"] assms(5) by simp_all
  have q0: "q \<noteq> CURPROC_Q" using q(3) assms(4) by (metis zero_neq_one)
  have "q = que mod 256 \<and> wait_cond (procs k1 (curproc k)) = cond" if "q = ZOMBIE_Q \<or> q = TSR_Q"
  proof -
    have "q \<noteq> READY_Q" using that by presburger
    then show ?thesis using q(3) by blast
  qed
  then have "curproc k1 \<noteq> rootproc k1 \<and> wait_cond (procs k1 (curproc k1)) = cond" if "q = ZOMBIE_Q \<or> q = TSR_Q"
    using that assms(6) unfolding kin(2) root(1) by blast
  then have "asleep q cond k1 k'" by (rule sleep_switch_asleep[OF q(2) kin(3) q0 root(2)])
  then have "asleep q cond k k'" by (rule asleep_calm[OF q(1) _ assms(3)])
  moreover have "sched_inv k'"
    using sleep_ok[OF calm_env_ok[OF assms(2)] assms(3,4), of ints_on cond] assms(1) by auto
  ultimately show ?thesis using q(3) by blast
qed

section \<open>The tree after a death\<close>

lemma tree_die:
  assumes t: "tree_ok k" and fam: "family p (pid (procs k p)) (set (proclist k)) k k1"
    and p: "p \<in> set (proclist k)" "p \<noteq> rootproc k"
    and l: "same_lists k1 k'" and kin: "\<And>x. kin (procs k' x) = kin (procs k1 x)"
    and dead: "\<And>x. x \<noteq> p \<Longrightarrow> is_dead k' x = is_dead k1 x" and cur: "curproc k' \<in> set (proclist k)"
  shows "tree_ok k'"
proof -
  note lists = fam[unfolded family_def same_lists_def] l[unfolded same_lists_def]
  have f: "proclist k' = proclist k" "rootproc k' = rootproc k" "pcreds k' = pcreds k" "ucreds k' = ucreds k"
    "sigacts_links k' = sigacts_links k" using lists by simp_all
  have x: "pid (procs k' x) = pid (procs k x)" "p_cred (procs k' x) = p_cred (procs k x)"
    "p_sigacts (procs k' x) = p_sigacts (procs k x)"
    "ppid (procs k' x) = (if x \<in> set (proclist k) \<and> ppid (procs k x) = pid (procs k p) then 0 else ppid (procs k x))"
    "ptracer (procs k' x) = (if x \<in> set (proclist k) \<and> ptracer (procs k x) = Some p then None else ptracer (procs k x))"
    for x using fam kin[of x] by (simp_all add: family_def kin_def)
  have d: "is_dead k' x = is_dead k x" if "x \<noteq> p" for x using dead[OF that] fam by (simp add: family_def)
  have inj: "inj_on (\<lambda>p. pid (procs k p)) (set (proclist k))" and root: "rootproc k \<in> set (proclist k)"
    "pid (procs k (rootproc k)) = 0" "\<not> is_dead k (rootproc k)" using t by (simp_all add: tree_ok_def)
  have alive0: "alive_pid k' 0" using root p d[of "rootproc k"] unfolding alive_pid_def f by (intro bexI[of _ "rootproc k"]) (auto simp: x)
  have alive: "alive_pid k' n" if a: "alive_pid k n" "n \<noteq> pid (procs k p)" for n
  proof -
    obtain q where q: "q \<in> set (proclist k)" "pid (procs k q) = n" "\<not> is_dead k q" using a(1) by (auto simp: alive_pid_def)
    then have "q \<noteq> p" using a(2) by auto
    then show ?thesis using q d unfolding alive_pid_def f by (intro bexI[of _ q]) (simp_all add: x)
  qed
  have pc: "pcred_of k' = pcred_of k" by (rule ext) (simp add: pcred_of_def x f)
  have uc: "ucred_of k' = ucred_of k" by (rule ext) (simp add: ucred_of_def pc f)
  have us: "users k' = users k" "sig_users k' = sig_users k"
    by (simp_all add: fun_eq_iff users_def sig_users_def pc f x)
  have cr: "creds_ok k'" using t cur unfolding tree_ok_def creds_ok_def pc uc us f x by blast
  have par: "ppid (procs k' q) = - 1 \<or> alive_pid k' (ppid (procs k' q))" if "q \<in> set (proclist k)" for q
  proof (cases "ppid (procs k q) = pid (procs k p)")
    case True
    then show ?thesis using alive0 that by (simp add: x)
  next
    case False
    then show ?thesis using alive t that by (auto simp: x tree_ok_def)
  qed
  have tr: "r \<in> set (proclist k) \<and> \<not> is_dead k' r" if "q \<in> set (proclist k)" "ptracer (procs k' q) = Some r" for q r
  proof -
    have "ptracer (procs k q) = Some r" "r \<noteq> p" using that by (auto simp: x split: if_splits)
    then show ?thesis using t that(1) d by (simp add: tree_ok_def)
  qed
  have "\<not> is_dead k' (rootproc k)" using d[of "rootproc k"] p(2) root(3) by simp
  moreover have "distinct (proclist k)" "\<forall>q \<in> set (proclist k). 0 \<le> pid (procs k q)"
    "\<forall>q \<in> set (proclist k). pc_links (pcred_of k q) = 1"
    "\<forall>q \<in> set (proclist k). int (card (sig_users k (p_sigacts (procs k q)))) \<le> sigacts_links k (p_sigacts (procs k q))"
    using t by (simp_all add: tree_ok_def)
  ultimately show ?thesis
    unfolding tree_ok_def f pc us x(1,3) using inj root(1,2) cr par tr by blast
qed

section \<open>The end of \<open>terminate\<close>\<close>

lemma notified_sched:
  assumes "notified a p q k k'" "sched_inv k"
  shows "sched_inv k'"
proof -
  have f: "same_lists k k'" "curproc k' = curproc k" "\<And>x. idle_proc k' x = idle_proc k x" "queues_ok k'"
    using assms(1) by (simp_all add: notified_def family_def)
  then show ?thesis using assms(2) by (simp add: sched_inv_def same_lists_def)
qed

lemma notified_die:
  assumes "tree_inv k" "notified a p q k k1" "p \<in> set (proclist k)" "p \<noteq> rootproc k" "asleep r cond k1 k'"
    "curproc k1 = p" "sched_inv k'"
  shows "tree_inv k'"
proof -
  have l: "same_lists k k1" "same_lists k1 k'" using assms(2,5) by (simp_all add: notified_def family_def asleep_def)
  have "tree_ok k'"
  proof (rule tree_die[of k p k1])
    show "tree_ok k" "family p (pid (procs k p)) (set (proclist k)) k k1"
      using assms(1,2) by (simp_all add: tree_inv_def notified_def)
    show "kin (procs k' x) = kin (procs k1 x)" "x \<noteq> p \<Longrightarrow> is_dead k' x = is_dead k1 x" for x
      using assms(5) unfolding asleep_def assms(6) by simp_all
    show "curproc k' \<in> set (proclist k)" using assms(7) l by (simp add: sched_inv_def same_lists_def)
  qed (use assms(3,4) l in simp_all)
  then show ?thesis using assms(7) by (simp add: tree_inv_def)
qed

text \<open>After the release of resources nothing in \<open>terminate\<close> can fail, and the process never runs again.\<close>

definition no_wakeups :: "sleep_env \<Rightarrow> bool" where
  "no_wakeups env \<longleftrightarrow> (\<forall>k. sleepcond (e_checkbttys env k) = sleepcond k \<and> iwakecond (e_checkbttys env k) = iwakecond k \<and>
     sleepcond (e_checkkeys env k) = sleepcond k \<and> iwakecond (e_checkkeys env k) = iwakecond k \<and>
     sleepcond (e_checkrandom env k) = sleepcond k \<and> iwakecond (e_checkrandom env k) = iwakecond k)"

lemma sleep_dead_queue:
  assumes "no_wakeups env" "que = ZOMBIE_Q \<or> que = TSR_Q" "iwakecond k \<noteq> cond \<or> cond = 0"
  shows "\<exists>k1. sleep env ints_on que cond k = sleep_switch env que k1 \<and>
    k1 = upd_proc (curproc (sleep_poll env ints_on que (k\<lparr>sleepcond := cond\<rparr>))) (\<lambda>x. x\<lparr>wait_cond := cond\<rparr>)
      ((sleep_poll env ints_on que (k\<lparr>sleepcond := cond\<rparr>))\<lparr>iwakecond := 0\<rparr>)"
proof -
  define k1 where "k1 = sleep_poll env ints_on que (k\<lparr>sleepcond := cond\<rparr>)"
  have "sleepcond k1 = cond \<and> iwakecond k1 = iwakecond k"
    using assms(1,2) unfolding k1_def sleep_poll_def no_wakeups_def Let_def by auto
  moreover have m: "que mod 256 = que" and "que \<noteq> READY_Q" "\<not> bit que 8" using assms(2) by (auto simp: bit_iff_odd)
  ultimately show ?thesis
    using assms(3) unfolding sleep_def Let_def m k1_def[symmetric] by auto
qed

lemma sleep_dead:
  assumes env: "calm_env env" "no_wakeups env" and k: "sched_inv k" "\<not> is_dead k (rootproc k)" "curproc k \<noteq> rootproc k"
    and que: "que = ZOMBIE_Q \<or> que = TSR_Q" and nw: "iwakecond k \<noteq> cond \<or> cond = 0"
  shows "\<exists>k'. sleep env ints_on que cond k = Some (Switch k') \<and> sched_inv k' \<and> asleep que cond k k'"
proof -
  define k1 where "k1 = sleep_poll env ints_on que (k\<lparr>sleepcond := cond\<rparr>)"
  define k2 where "k2 = upd_proc (curproc k1) (\<lambda>x. x\<lparr>wait_cond := cond\<rparr>) (k1\<lparr>iwakecond := 0\<rparr>)"
  have eq: "sleep env ints_on que cond k = sleep_switch env que k2"
    using sleep_dead_queue[OF env(2) que nw, of ints_on] by (auto simp: k1_def k2_def)
  have 1: "calm k k1" unfolding k1_def by (rule sleep_poll_calm[OF env(1)]) simp
  then have 2: "calm k (k1\<lparr>iwakecond := 0\<rparr>)" by (rule calm_trans) simp
  then have sc: "sched_inv (k1\<lparr>iwakecond := 0\<rparr>)" and cur: "curproc k1 = curproc k" using k(1) 1 by (simp_all add: calm_def)
  have 3: "calm k k2" unfolding k2_def using calm_trans[OF 2 calm_wait_cond[OF sc]] by simp
  have kin: "same_kin k k2" "curproc k2 = curproc k" "sched_inv k2" using 3 k(1) by (simp_all add: calm_def)
  have root: "rootproc k2 = rootproc k" "\<not> is_dead k2 (rootproc k2)"
    using same_kinD(2)[OF kin(1)] same_kinD(11)[OF kin(1), of "rootproc k"] k(2) by simp_all
  have q0: "que \<noteq> CURPROC_Q" using que by presburger
  obtain k' where k': "sleep_switch env que k2 = Some (Switch k')" "sched_inv k'"
    using sleep_switch_ok[OF kin(3) q0] by blast
  have "wait_cond (procs k2 (curproc k2)) = cond" unfolding kin(2) by (simp add: k2_def cur)
  then have "curproc k2 \<noteq> rootproc k2 \<and> wait_cond (procs k2 (curproc k2)) = cond" using k(3) kin(2) root(1) by simp
  then have "asleep que cond k2 k'" using sleep_switch_asleep[OF k'(1) kin(3) q0 root(2)] by blast
  then have "asleep que cond k k'" by (rule asleep_calm[OF 3 _ k(1)])
  then show ?thesis using k' eq by auto
qed

section \<open>Giving back resources is calm\<close>

definition calm_fenv :: "fenv \<Rightarrow> bool" where
  "calm_fenv env \<longleftrightarrow>
     (\<forall>v p m s. calm (kern s) (kern (e_unselect env v p m s))) \<and>
     (\<forall>v c a s. calm (kern s) (kern (snd (snd (e_ioctl env v c a s))))) \<and>
     (\<forall>v c s. calm (kern s) (kern (e_tty_ioctl env v c s))) \<and>
     (\<forall>v n s. calm (kern s) (kern (snd (e_dev_close env v n s)))) \<and>
     (\<forall>v n s. calm (kern s) (kern (snd (e_xdd_close env v n s)))) \<and>
     (\<forall>c s. calm (kern s) (kern (e_release_cookie env c s))) \<and>
     (\<forall>d s. calm (kern s) (kern (snd (e_xfs_closedir env d s))))"

lemma calm_fenvD:
  assumes "calm_fenv env"
  shows "calm (kern s) (kern (e_unselect env v p m s))" "calm (kern s) (kern (snd (snd (e_ioctl env v c a s))))"
    "calm (kern s) (kern (e_tty_ioctl env v c s))" "calm (kern s) (kern (snd (e_dev_close env v n s)))"
    "calm (kern s) (kern (snd (e_xdd_close env v n s)))" "calm (kern s) (kern (e_release_cookie env ck s))"
    "calm (kern s) (kern (snd (e_xfs_closedir env d s)))"
  using assms by (simp_all add: calm_fenv_def)

lemma calm_fsteps:
  assumes "calm_fenv env" "calm a (kern s)"
  shows "calm a (kern (e_unselect env v p m s))" "calm a (kern (snd (snd (e_ioctl env v c x s))))"
    "calm a (kern (e_tty_ioctl env v c s))" "calm a (kern (snd (e_dev_close env v n s)))"
    "calm a (kern (snd (e_xdd_close env v n s)))" "calm a (kern (e_release_cookie env ck s))"
    "calm a (kern (snd (e_xfs_closedir env d s)))"
  by (rule calm_trans[OF assms(2)], rule calm_fenvD[OF assms(1)])+

lemma addroottimeout_calm:
  assumes "addroottimeout mem d f fl k = Some (r, k')"
  shows "calm k k'"
  by (rule calm_kernel)
    (use assms in \<open>auto simp: addroottimeout_def addtimeout_common_def newtimeout_def inserttimeout_def Let_def same_lists_def
       split: option.splits if_splits\<close>)

lemma kern_simps [simp]:
  "upd_file v g s = Some s' \<Longrightarrow> kern s' = kern s" "upd_fd d h s = Some s' \<Longrightarrow> kern s' = kern s"
  "kern (upd_tty a u s) = kern s" "kern (drop_xkey a s) = kern s" "fp_free v s = Some s' \<Longrightarrow> kern s' = kern s"
  by (auto simp: upd_file_def upd_fd_def upd_tty_def drop_xkey_def fp_free_def split: option.splits)

lemma set_timeout_arg_calm: "calm a (kern s) \<Longrightarrow> calm a (kern (set_timeout_arg t v s))"
  by (erule calm_trans) (rule calm_kernel; simp add: set_timeout_arg_def same_lists_def)

lemma do_unselect_calm:
  assumes "calm_fenv env" "do_unselect env p v s = Some s'"
  shows "calm (kern s) (kern s')"
proof -
  let ?s = "e_unselect env v p O_RDWR (e_unselect env v p O_WRONLY (e_unselect env v p O_RDONLY s))"
  have "wake SELECT_Q (e_select_coll env) (kern ?s) = Some (kern s')"
    using assms(2) by (auto simp: do_unselect_def lift_kern_def)
  then have "calm (kern ?s) (kern s')" by (rule wake_calm) simp
  moreover have "calm (kern s) (kern ?s)" by (intro calm_fsteps[OF assms(1)] calm_refl)
  ultimately show ?thesis by (metis calm_trans)
qed

lemma start_hangup_calm:
  assumes "calm_fenv env" "start_hangup env v a t ospeed s = Some s'"
  shows "calm (kern s) (kern s')"
  using assms(2)
  by (auto simp: start_hangup_def Let_def split: bind_splits if_splits
      intro!: calm_fsteps[OF assms(1)] set_timeout_arg_calm)

lemma close_tty_calm:
  assumes "calm_fenv env" "close_tty env v s = Some s'"
  shows "calm (kern s) (kern s')"
proof -
  have io: "calm (kern s) (kern s1)" if "e_ioctl env v c x s = (r, y, s1)" for c x r y s1
    using calm_fsteps(2)[OF assms(1) calm_refl, of s v c x] by (simp add: that)
  have at: "calm (kern s) (kern (s1\<lparr>kern := k\<rparr>))"
    if "e_ioctl env v c x s = (r, y, s1)" "addroottimeout m d g l (kern s1) = Some (t, k)" for c x r y s1 m d g l t k
    using calm_trans[OF io[OF that(1)] addroottimeout_calm[OF that(2)]] by simp
  show ?thesis
    using assms(2)
    by (auto simp: close_tty_def Let_def split: bind_splits if_splits option.splits prod.splits
        dest!: start_hangup_calm[OF assms(1)] intro: io at[simplified] calm_trans)
qed

lemma drop_unused_calm:
  assumes "calm_fenv env" "drop_unused env v s = Some s'"
  shows "calm (kern s) (kern s')"
  using assms(2) by (auto simp: drop_unused_def split: bind_splits if_splits intro!: calm_fsteps[OF assms(1)])

lemma do_close_calm:
  assumes "calm_fenv env" "do_close env p v s = Some (r, s')"
  shows "calm (kern s) (kern s')"
proof -
  have x: "calm (kern s1) (kern s2)" if "e_xdd_close env v n s1 = (r, s2)" for n r s1 s2
    using calm_fsteps(5)[OF assms(1) calm_refl, of s1 v n] by (simp add: that)
  show ?thesis
  proof (cases "v = 0 \<or> v = 1")
    case True
    then show ?thesis using assms(2) by (auto simp: do_close_def)
  next
    case False
    then obtain f s1 s2 f2 s3 f3 r3 s4 where
      s: "files s v = Some f" "(if f_dev f \<noteq> 0 then do_unselect env p v s else Some s) = Some s1"
      "upd_file v (\<lambda>f. f\<lparr>f_links := short_of (f_links f - 1)\<rparr>) s1 = Some s2" "files s2 v = Some f2"
      "(if is_terminal f2 \<and> f_links f2 \<le> 0 then close_tty env v s2 else Some s2) = Some s3" "files s3 v = Some f3"
      "(if f_dev f3 \<noteq> 0 then e_xdd_close env v (pid (procs (kern s3) p)) s3 else (E_OK, s3)) = (r3, s4)"
      "drop_unused env v s4 = Some s'"
      using assms(2) by (auto simp: do_close_def Let_def split: bind_splits prod.splits if_splits)
    have "calm (kern s) (kern s1)" using s(2) do_unselect_calm[OF assms(1)] by (auto split: if_splits)
    moreover have "kern s2 = kern s1" using s(3) by simp
    moreover have "calm (kern s2) (kern s3)" using s(5) close_tty_calm[OF assms(1)] by (auto split: if_splits)
    moreover have "calm (kern s3) (kern s4)" using s(7) x by (auto split: if_splits)
    moreover have "calm (kern s4) (kern s')" using drop_unused_calm[OF assms(1) s(8)] .
    ultimately show ?thesis by (metis calm_trans)
  qed
qed

lemma close_slots_calm:
  "calm_fenv env \<Longrightarrow> close_slots env p d P xs s = Some s' \<Longrightarrow> calm (kern s) (kern s')"
proof (induction xs arbitrary: s)
  case (Cons i xs)
  obtain t s1 where t: "filedescs s d = Some t"
    "(if ofiles t i \<noteq> 0 \<and> P t i then do { s \<leftarrow> upd_fd d (set_slot i 0) s; (_, s) \<leftarrow> do_close env p (ofiles t i) s; Some s }
      else Some s) = Some s1" "close_slots env p d P xs s1 = Some s'"
    using Cons.prems(2) by (auto split: bind_splits)
  have "calm (kern s) (kern s1)"
    using t(2) by (auto split: bind_splits if_splits dest!: kern_simps(2) do_close_calm[OF Cons.prems(1)])
  then show ?case using Cons.IH[OF Cons.prems(1) t(3)] by (rule calm_trans)
qed simp

lemma close_searches_calm:
  "calm_fenv env \<Longrightarrow> close_searches env d xs s = Some s' \<Longrightarrow> calm (kern s) (kern s')"
proof (induction xs arbitrary: s)
  case (Cons i xs)
  obtain t where t: "filedescs s d = Some t" using Cons.prems(2) by (auto split: bind_splits)
  let ?c = "e_release_cookie env (d_fc (srchdir t i)) (snd (e_xfs_closedir env (srchdir t i) s))"
  have c: "calm (kern s) (kern ?c)" by (intro calm_fsteps[OF Cons.prems(1)] calm_refl)
  show ?case
  proof (cases "srchdta t i = 0")
    case True
    then show ?thesis using Cons t by simp
  next
    case False
    then obtain s1 where s1: "kern s1 = kern ?c" "close_searches env d xs s1 = Some s'"
      using Cons.prems(2) t by (auto split: bind_splits dest!: kern_simps(2))
    show ?thesis using calm_trans[OF c] Cons.IH[OF Cons.prems(1) s1(2)] by (simp add: s1(1))
  qed
qed simp

lemmas free_streams_run = free_streams.raw_induct[rotated, consumes 1, case_names step]
lemmas slb_close_run = slb_close_all.raw_induct[rotated, consumes 1, case_names step]
lemmas ext_calls_run = ext_calls.raw_induct[rotated, consumes 1, case_names step]
lemmas drop_exts_run = drop_exts.raw_induct[rotated, consumes 1, case_names step]

lemma free_streams_calm:
  "free_streams env a s = Some s' \<Longrightarrow> calm_fenv env \<Longrightarrow> calm (kern s) (kern s')"
proof (induction rule: free_streams_run)
  case (step fs env a s s')
  show ?case
  proof (cases "a = 0")
    case True
    then show ?thesis using step(2) by simp
  next
    case False
    then obtain x where x: "dirs s a = Some x" using step(2) by (auto split: bind_splits)
    define s1 where "s1 = (if fc_fs (d_fc x) \<noteq> 0 then e_release_cookie env (d_fc x) (snd (e_xfs_closedir env x s)) else s)"
    have c: "calm (kern s) (kern s1)" unfolding s1_def by (auto intro!: calm_fsteps[OF step(3)])
    have "fs env (d_next x) (s1\<lparr>dirs := (dirs s1)(a := None)\<rparr>) = Some s'"
      using step(2) False x by (simp add: s1_def Let_def split: if_splits)
    from step(1)[OF this step(3)] have "calm (kern s1) (kern s')" by simp
    with c show ?thesis by (rule calm_trans)
  qed
qed

lemma release_control_kern: "release_control p t s = Some s' \<Longrightarrow> kern s' = kern s"
  by (auto simp: release_control_def Let_def split: if_splits bind_splits)

lemma free_fd_calm:
  assumes env: "calm_fenv env" and "free_fd env p s = Some s'"
  shows "calm (kern s) (kern s')"
proof -
  obtain d t s1 where s1: "p_fd s p = Some d" "filedescs s d = Some t"
    "upd_fd d (\<lambda>t. t\<lparr>fd_links := fd_links t - 1\<rparr>) (s\<lparr>p_fd := (p_fd s)(p := None)\<rparr>) = Some s1"
    using assms(2) by (auto simp: free_fd_def split: bind_splits if_splits)
  have k1: "kern s1 = kern s" using kern_simps(2)[OF s1(3)] by simp
  show ?thesis
  proof (cases "fd_links t - 1 > 0")
    case True
    then show ?thesis using assms(2) s1 k1 by (auto simp: free_fd_def split: if_splits)
  next
    case False
    then obtain s2 s3 s4 t4 s5 where s: "release_control p t s1 = Some s2"
      "close_slots env p d (\<lambda>_ _. True) [MIN_HANDLE..nfiles t - 1] s2 = Some s3"
      "close_searches env d [0..<NUM_SEARCH] s3 = Some s4" "filedescs s4 d = Some t4"
      "free_streams env (searches t4) s4 = Some s5" "s' = s5\<lparr>filedescs := (filedescs s5)(d := None)\<rparr>"
      using assms(2) s1 by (auto simp: free_fd_def split: bind_splits if_splits)
    have "calm (kern s) (kern s2)" using release_control_kern[OF s(1)] k1 by simp
    moreover have "calm (kern s2) (kern s3)" by (rule close_slots_calm[OF env s(2)])
    moreover have "calm (kern s3) (kern s4)" by (rule close_searches_calm[OF env s(3)])
    moreover have "calm (kern s4) (kern s')" using free_streams_calm[OF s(5) env] s(6) by simp
    ultimately show ?thesis by (blast intro: calm_trans)
  qed
qed

definition calm_life :: "life_env \<Rightarrow> bool" where
  "calm_life env \<longleftrightarrow> calm_fenv (l_fenv env) \<and> calm_env (l_sleep env) \<and>
     (\<forall>v ev d s. calm (lk s) (lk (l_cb env v ev d s))) \<and>
     (\<forall>c f. calm (kern f) (kern (snd (l_dupcookie env c f)))) \<and>
     (\<forall>p m s. calm (lk s) (lk (l_free_regions env p m s))) \<and>
     (\<forall>p s. calm (lk s) (lk (snd (l_copy_mem env p s)))) \<and>
     (\<forall>p s. calm (lk s) (lk (l_page_table env p s))) \<and>
     (\<forall>n s. calm (lk s) (lk (l_shrink env n s))) \<and>
     (\<forall>s. calm (lk s) (lk (l_bflush env s))) \<and>
     (\<forall>t c s. calm (lk s) (lk (snd (l_slb_close env t c s)))) \<and>
     (\<forall>s. calm (lk s) (lk (l_remove_slb env s))) \<and>
     (\<forall>n s. calm (lk s) (lk (l_changedrv env n s))) \<and>
     (\<forall>v c s. calm (lk s) (lk (l_supexec env v c s)))"

lemma calm_lifeD:
  assumes "calm_life env"
  shows "calm_fenv (l_fenv env)" "calm_env (l_sleep env)" "calm (lk s) (lk (l_cb env v ev d s))"
    "calm (kern f) (kern (snd (l_dupcookie env c f)))" "calm (lk s) (lk (l_free_regions env p m s))"
    "calm (lk s) (lk (snd (l_copy_mem env p s)))" "calm (lk s) (lk (l_page_table env p s))"
    "calm (lk s) (lk (l_shrink env n s))" "calm (lk s) (lk (l_bflush env s))"
    "calm (lk s) (lk (snd (l_slb_close env t cd s)))" "calm (lk s) (lk (l_remove_slb env s))"
    "calm (lk s) (lk (l_changedrv env nr s))" "calm (lk s) (lk (l_supexec env vec cd s))"
  using assms by (simp_all add: calm_life_def)

lemma release_cookie_calm: "calm_life env \<Longrightarrow> calm (lk s) (lk (release_cookie env c s))"
  using calm_fenvD(6)[OF calm_lifeD(1)] by (simp add: release_cookie_def)

lemma dup_cookie_calm: "calm_life env \<Longrightarrow> dup_cookie env c s = (c', s') \<Longrightarrow> calm (lk s) (lk s')"
  using calm_lifeD(4)[of env "fds s" c] by (auto simp: dup_cookie_def split: if_splits prod.splits)

lemma release_dirs_calm: "calm_life env \<Longrightarrow> calm (lk s) (lk (release_dirs env c is s))"
proof (induction env c "is" s rule: release_dirs.induct)
  case (2 env c i "is" s)
  then show ?case
    using calm_trans[OF calm_trans[OF release_cookie_calm release_cookie_calm]] by simp
qed simp

lemma free_cwd_calm:
  assumes "calm_life env" "free_cwd env p s = Some s'"
  shows "calm (lk s) (lk s')"
proof -
  obtain a c where c: "p_cwd s p = Some a" "cwds s a = Some c" "0 < cwd_links c"
    using assms(2) by (auto simp: free_cwd_def split: bind_splits if_splits)
  define s1 where "s1 = s\<lparr>p_cwd := (p_cwd s)(p := None), cwds := (cwds s)(a \<mapsto> c\<lparr>cwd_links := cwd_links c - 1\<rparr>)\<rparr>"
  define s2 where "s2 = release_dirs env c [0..<NUM_DRIVES] s1"
  define s3 where "s3 = (if root_dir c \<noteq> None then release_cookie env (rootdir c) s2 else s2)"
  have "calm (lk s) (lk s2)" unfolding s2_def using release_dirs_calm[OF assms(1), of s1] by (simp add: s1_def)
  moreover have "calm (lk s2) (lk s3)" by (simp add: s3_def release_cookie_calm[OF assms(1)])
  moreover have "s' = s1 \<or> s' = s3\<lparr>cwds := (cwds s3)(a := None)\<rparr>"
    using assms(2) c by (auto simp: free_cwd_def Let_def s1_def[symmetric] s2_def[symmetric] s3_def split: if_splits)
  ultimately show ?thesis by (auto simp: s1_def intro: calm_trans)
qed

lemma free_mem_calm:
  assumes "calm_life env" "free_mem env p s = Some s'"
  shows "calm (lk s) (lk s')"
  using assms(2) calm_lifeD(5)[OF assms(1), of "s\<lparr>mem_links := m\<rparr>" for m]
  by (auto simp: free_mem_def Let_def split: option.splits if_splits)

lemma call_back_calm: "calm_life env \<Longrightarrow> calm (lk s) (lk (call_back env x ev s))"
  using calm_lifeD(3) by (simp add: call_back_def split: option.split)

lemma drop_ext_calm:
  assumes "calm_life env" "drop_ext env e s = Some s'"
  shows "calm (lk s) (lk s')"
proof -
  obtain x where x: "exts s e = Some x" using assms(2) by (auto simp: drop_ext_def split: bind_splits)
  define y where "y = x\<lparr>ext_links := short_links (ext_links x - 1)\<rparr>"
  have "lk s' = lk (set_ext e (Some y) s) \<or> lk s' = lk (call_back env y Ext_release (set_ext e (Some y) s))"
    using assms(2) x by (auto simp: drop_ext_def Let_def y_def set_ext_def split: if_splits)
  then show ?thesis using call_back_calm[OF assms(1), of "set_ext e (Some y) s" y Ext_release] by (auto simp: set_ext_def)
qed

lemma drop_exts_calm: "drop_exts env a i s = Some s' \<Longrightarrow> calm_life env \<Longrightarrow> calm (lk s) (lk s')"
proof (induction rule: drop_exts_run)
  case (step fs env a i s s')
  obtain t where t: "ext_tabs s a = Some t" using step(2) by (auto split: bind_splits)
  show ?case
  proof (cases "i < pe_used t")
    case True
    then obtain s1 where "drop_ext env (pe_ext t i) s = Some s1" "fs env a (i + 1) s1 = Some s'"
      using step(2) t by (auto split: bind_splits)
    then show ?thesis using drop_ext_calm[OF step(3)] step(1)[OF _ step(3)] calm_trans by blast
  qed (use step(2) t in simp)
qed

lemma ext_calls_calm: "ext_calls env ev a i s = Some s' \<Longrightarrow> calm_life env \<Longrightarrow> calm (lk s) (lk s')"
proof (induction rule: ext_calls_run)
  case (step fs env ev a i s s')
  obtain t where t: "ext_tabs s a = Some t" using step(2) by (auto split: bind_splits)
  show ?case
  proof (cases "i < pe_used t")
    case True
    then obtain x where "fs env ev a (i + 1) (call_back env x ev s) = Some s'"
      using step(2) t by (auto split: bind_splits)
    then show ?thesis using call_back_calm[OF step(3)] step(1)[OF _ step(3)] calm_trans by blast
  qed (use step(2) t in simp)
qed

lemma proc_ext_on_calm: "calm_life env \<Longrightarrow> proc_ext_on env p ev s = Some s' \<Longrightarrow> calm (lk s) (lk s')"
  using ext_calls_calm by (auto simp: proc_ext_on_def split: option.splits)

lemma free_ext_calm: "calm_life env \<Longrightarrow> free_ext env p s = Some s' \<Longrightarrow> calm (lk s) (lk s')"
  using drop_exts_calm by (fastforce simp: free_ext_def set_tab_def split: option.splits bind_splits)

lemma slb_close_all_calm: "slb_close_all env s = Some s' \<Longrightarrow> calm_life env \<Longrightarrow> calm (lk s) (lk s')"
proof (induction rule: slb_close_run)
  case (step fs env s s')
  obtain r s1 where r: "l_slb_close env True 0 s = (r, s1)" by fastforce
  have 1: "calm (lk s) (lk s1)" using calm_lifeD(10)[OF step(3), of s True 0] r by simp
  show ?case
  proof (cases "r = 0")
    case False
    then have "fs env s1 = Some s'" using step(2) r by simp
    then show ?thesis using step(1)[OF _ step(3)] 1 calm_trans by blast
  qed (use step(2) r 1 in simp)
qed

lemma cancelalltimeouts_calm: "calm k (cancelalltimeouts k)"
proof (rule calm_kernel)
  have d: "procs (fold disposetimeout ts k) = procs k \<and> sysq (fold disposetimeout ts k) = sysq k \<and>
    curproc (fold disposetimeout ts k) = curproc k \<and> same_lists k (fold disposetimeout ts k)" for ts k
    by (induction ts arbitrary: k) (auto simp: disposetimeout_def same_lists_def)
  note simps = cancelalltimeouts_def Let_def d d[unfolded same_lists_def]
  show "procs (cancelalltimeouts k) = procs k" "sysq (cancelalltimeouts k) = sysq k"
    "curproc (cancelalltimeouts k) = curproc k" "same_lists k (cancelalltimeouts k)"
    by (simp_all add: simps same_lists_def)
qed

lemma free_semaphores_calm: "free_semaphores n k = Some k' \<Longrightarrow> calm k k'"
proof -
  assume f: "free_semaphores n k = Some k'"
  define k1 where "k1 = k\<lparr>semalist := map (\<lambda>s. if sema_owner s = n then s\<lparr>sema_owner := - 1\<rparr> else s) (semalist k)\<rparr>"
  have "calm k k1" by (rule calm_kernel) (simp_all add: k1_def same_lists_def)
  moreover have "k' = k1 \<or> wake WAIT_Q WAIT_SEMA k1 = Some k'"
    using f by (auto simp: free_semaphores_def Let_def k1_def split: if_splits)
  then have "calm k1 k'" using wake_calm[of WAIT_Q WAIT_SEMA k1 k'] by auto
  ultimately show ?thesis by (rule calm_trans)
qed

lemma term_free_calm:
  assumes env: "calm_life env" and r: "term_free env p que s = Some s'"
  shows "calm (lk s) (lk s')"
proof -
  obtain s1 s2 s3 where s: "free_ext env p s = Some s1" "in_fds (free_fd (l_fenv env) p) s1 = Some s2"
    "free_cwd env p s2 = Some s3" "(if que = ZOMBIE_Q then free_mem env p s3 else Some s3) = Some s'"
    using r by (auto simp: term_free_def split: bind_splits)
  have "calm (lk s) (lk s1)" by (rule free_ext_calm[OF env s(1)])
  moreover have "calm (lk s1) (lk s2)"
    using s(2) free_fd_calm[OF calm_lifeD(1)[OF env]] by (auto simp: in_fds_def split: option.splits)
  moreover have "calm (lk s2) (lk s3)" by (rule free_cwd_calm[OF env s(3)])
  moreover have "calm (lk s3) (lk s')" using s(4) free_mem_calm[OF env] by (auto split: if_splits)
  ultimately show ?thesis by (blast intro: calm_trans)
qed

lemma term_release_calm:
  assumes env: "calm_life env" and r: "term_release env p code que s = Some s'"
  shows "calm (lk s) (lk s')" "que = ZOMBIE_Q \<or> que = TSR_Q" "pid (procs (lk s) p) \<noteq> 0"
proof -
  obtain s1 where s1: "proc_ext_on_exit env p code s = Some s1" using r by (auto simp: term_release_def split: bind_splits)
  define s2 where "s2 = (if l_bconbsiz env s1 then l_bflush env s1 else s1)"
  show que: "que = ZOMBIE_Q \<or> que = TSR_Q" using r s1 by (auto simp: term_release_def split: if_splits)
  then have g: "(que \<noteq> ZOMBIE_Q \<and> que \<noteq> TSR_Q) = False" by blast
  obtain s3 where s3: "slb_close_all env s2 = Some s3"
    using r unfolding term_release_def s1 bind.bind_lunit Let_def g if_False s2_def[symmetric] by (auto split: bind_splits)
  define s4 where "s4 = upd_kern cancelalltimeouts (l_remove_slb env s3)"
  define s5 where "s5 = upd_more p (\<lambda>x. x\<lparr>alarmtim := None, real_cmdline := None\<rparr>) s4"
  define s6 where "s6 = release_cookie env (exe (pmore s5 p)) s5"
  define changed where "changed = (\<lambda>s. l_changedrv env (PROC_RDEV_BASE OR word_of_int (pid (procs (lk s) p))) s)"
  have "(if pid (procs (lk (l_remove_slb env s3)) p) = 0 then None
     else do { s \<leftarrow> in_kern (\<lambda>k. free_semaphores (pid (procs k p)) k) s6; term_free env p que (unlock_drives p (changed s)) }) = Some s'"
    using r unfolding term_release_def s1 bind.bind_lunit Let_def g if_False s2_def[symmetric] s3
      s4_def[symmetric] s5_def[symmetric] s6_def[symmetric] changed_def .
  then obtain s7 where s7: "in_kern (\<lambda>k. free_semaphores (pid (procs k p)) k) s6 = Some s7"
    "term_free env p que (unlock_drives p (changed s7)) = Some s'" "pid (procs (lk (l_remove_slb env s3)) p) \<noteq> 0"
    by (auto split: if_splits bind_splits)
  have "calm (lk s) (lk s1)" using proc_ext_on_calm[OF env] s1 by (simp add: proc_ext_on_exit_def)
  moreover have "calm (lk s1) (lk s2)" using calm_lifeD(9)[OF env] by (simp add: s2_def)
  moreover have "calm (lk s2) (lk s3)" by (rule slb_close_all_calm[OF s3 env])
  moreover have c4: "calm (lk s3) (lk (l_remove_slb env s3))" "calm (lk s3) (lk s4)"
    using calm_lifeD(11)[OF env] calm_trans[OF calm_lifeD(11)[OF env] cancelalltimeouts_calm]
    by (simp_all add: s4_def upd_kern_def)
  moreover have "calm (lk s4) (lk s6)" using release_cookie_calm[OF env, of s5] by (simp add: s6_def s5_def upd_more_def)
  moreover have "calm (lk s6) (lk s7)" using s7 free_semaphores_calm by (auto simp: in_kern_def split: option.splits)
  moreover have "calm (lk s7) (lk (changed s7))" using calm_lifeD(12)[OF env] by (simp add: changed_def)
  moreover have "calm (lk (changed s7)) (lk s')"
    using term_free_calm[OF env s7(2)] by (simp add: unlock_drives_def)
  ultimately show "calm (lk s) (lk s')" by (blast intro: calm_trans)
  have "calm (lk s) (lk (l_remove_slb env s3))"
    using \<open>calm (lk s) (lk s1)\<close> \<open>calm (lk s1) (lk s2)\<close> \<open>calm (lk s2) (lk s3)\<close> c4(1) by (blast intro: calm_trans)
  then have "pid (procs (lk (l_remove_slb env s3)) p) = pid (procs (lk s) p)" using same_kinD(6) by (simp add: calm_def)
  then show "pid (procs (lk s) p) \<noteq> 0" using s7(3) by simp
qed

end
