(* ===== verification/Proc_Wait.thy ===== *)
theory Proc_Wait
  imports Proc_Life
begin

text \<open>
  Waiting: a search of \<open>pwaitpid\<close> never fails on a tree in order and keeps it so; the zombie it reports is
  taken off the lists together with its share of the credentials and signal actions, unless another process
  waits for it too.
\<close>

section \<open>Forgetting a parent or a tracer\<close>

lemma tree_ok_upd:
  assumes t: "tree_ok k"
    and f: "\<And>x. pid (f x) = pid x" "\<And>x. p_cred (f x) = p_cred x" "\<And>x. p_sigacts (f x) = p_sigacts x"
      "\<And>x. wait_q (f x) = wait_q x" "\<And>x. ppid (f x) = - 1 \<or> ppid (f x) = ppid x"
      "\<And>x. ptracer (f x) = None \<or> ptracer (f x) = ptracer x"
  shows "tree_ok (upd_proc p f k)"
proof -
  let ?k = "upd_proc p f k"
  have x: "pid (procs ?k x) = pid (procs k x)" "p_cred (procs ?k x) = p_cred (procs k x)"
    "p_sigacts (procs ?k x) = p_sigacts (procs k x)" "is_dead ?k x = is_dead k x"
    "ppid (procs ?k x) = - 1 \<or> ppid (procs ?k x) = ppid (procs k x)"
    "ptracer (procs ?k x) = None \<or> ptracer (procs ?k x) = ptracer (procs k x)" for x
    using f(1-4) f(5,6)[of "procs k p"] by (auto simp: is_dead_def)
  have l: "proclist ?k = proclist k" "rootproc ?k = rootproc k" "pcreds ?k = pcreds k" "ucreds ?k = ucreds k"
    "sigacts_links ?k = sigacts_links k" "curproc ?k = curproc k" by (simp_all add: upd_proc_def)
  have a: "alive_pid ?k = alive_pid k" "sig_users ?k = sig_users k"
    unfolding alive_pid_def sig_users_def x(1,3,4) l by (rule refl)+
  have pc: "pcred_of ?k = pcred_of k" by (rule ext) (simp only: pcred_of_def x(2) l)
  have uc: "ucred_of ?k = ucred_of k" by (rule ext) (simp add: ucred_of_def pc l)
  have us: "users ?k = users k" by (rule ext) (simp add: users_def pc l)
  have cr: "creds_ok ?k" using t unfolding tree_ok_def creds_ok_def pc uc us l x(2) by blast
  have par: "ppid (procs ?k q) = - 1 \<or> alive_pid k (ppid (procs ?k q))" if "q \<in> set (proclist k)" for q
    using t x(5)[of q] that by (auto simp: tree_ok_def)
  have tr: "r \<in> set (proclist k) \<and> \<not> is_dead k r"
    if "q \<in> set (proclist k)" "ptracer (procs ?k q) = Some r" for q r
    using t x(6)[of q] that by (auto simp: tree_ok_def)
  show ?thesis using t cr par tr unfolding tree_ok_def l a pc x(1,3,4) by blast
qed

lemma tree_inv_upd:
  assumes "tree_inv k" "\<And>x. pid (f x) = pid x" "\<And>x. p_cred (f x) = p_cred x" "\<And>x. p_sigacts (f x) = p_sigacts x"
    "\<And>x. wait_q (f x) = wait_q x" "\<And>x. q_prev (f x) = q_prev x" "\<And>x. q_next (f x) = q_next x"
    "\<And>x. ppid (f x) = - 1 \<or> ppid (f x) = ppid x" "\<And>x. ptracer (f x) = None \<or> ptracer (f x) = ptracer x"
  shows "tree_inv (upd_proc p f k)"
proof -
  have "curproc (upd_proc p f k) = curproc k" "rootproc (upd_proc p f k) = rootproc k" by (simp_all add: upd_proc_def)
  moreover have "idle_proc (upd_proc p f k) x = idle_proc k x" for x by (simp add: idle_proc_def assms(5))
  moreover have "queues_ok (upd_proc p f k)" using assms(1,5-7) by (intro queues_ok_upd) (simp_all add: tree_inv_def sched_inv_def)
  ultimately have "sched_inv (upd_proc p f k)" using assms(1) by (simp add: tree_inv_def sched_inv_def)
  moreover have "tree_ok (upd_proc p f k)"
    using assms(1) by (intro tree_ok_upd) (simp_all add: tree_inv_def assms(2-5,8,9))
  ultimately show ?thesis by (simp add: tree_inv_def)
qed

lemma add_usage_calm: "sched_inv k \<Longrightarrow> calm k (add_usage q k)"
  unfolding add_usage_def Let_def upd_cur_def
  by (auto intro!: calm_upd simp: kin_def sched_inv_def idle_proc_def is_dead_def)

section \<open>Taking a zombie off the lists\<close>

lemma tree_remove:
  assumes t: "tree_ok k" and q: "q \<in> set (proclist k)" "is_dead k q" "curproc k' \<noteq> q"
    and l: "proclist k' = remove1 q (proclist k)" "rootproc k' = rootproc k" "curproc k' = curproc k"
    and p: "\<And>x. x \<noteq> q \<Longrightarrow> kin (procs k' x) = kin (procs k x) \<and> is_dead k' x = is_dead k x"
    and pc: "\<And>x. x \<in> set (proclist k) \<Longrightarrow> x \<noteq> q \<Longrightarrow> pcred_of k' x = pcred_of k x"
    and uc: "\<And>x. x \<in> set (proclist k) \<Longrightarrow> x \<noteq> q \<Longrightarrow> ucred_of k' x =
      (let u = ucred_of k x in if ucr (pcred_of k x) = ucr (pcred_of k q) then u\<lparr>uc_links := uc_links u - 1\<rparr> else u)"
    and sg: "\<And>a. sigacts_links k' a = (if a = p_sigacts (procs k q) then sigacts_links k a - 1 else sigacts_links k a)"
  shows "tree_ok k'"
proof -
  have d: "distinct (proclist k)" using t by (simp add: tree_ok_def)
  have s: "set (proclist k') = set (proclist k) - {q}" using l(1) d by simp
  have rt: "rootproc k \<in> set (proclist k)" "pid (procs k (rootproc k)) = 0" "\<not> is_dead k (rootproc k)"
    using t by (simp_all add: tree_ok_def)
  then have root: "rootproc k \<noteq> q" using q(2) by auto
  have kin: "pid (procs k' x) = pid (procs k x)" "ppid (procs k' x) = ppid (procs k x)"
    "ptracer (procs k' x) = ptracer (procs k x)" "p_cred (procs k' x) = p_cred (procs k x)"
    "p_sigacts (procs k' x) = p_sigacts (procs k x)" "is_dead k' x = is_dead k x" if "x \<noteq> q" for x
    using p[OF that] by (simp_all add: kin_def)
  have alive: "alive_pid k' n" if "alive_pid k n" for n
  proof -
    obtain x where x: "x \<in> set (proclist k)" "pid (procs k x) = n" "\<not> is_dead k x" using \<open>alive_pid k n\<close> by (auto simp: alive_pid_def)
    then have "x \<noteq> q" using q(2) by auto
    then show ?thesis using x kin[of x] s by (auto simp: alive_pid_def)
  qed
  have us: "users k' u = users k u - {q}" for u using pc s by (auto simp: users_def)
  have su: "sig_users k' a = sig_users k a - {q}" for a using kin(5) s by (auto simp: sig_users_def)
  have cr: "creds_ok k'" unfolding creds_ok_def
  proof (intro conjI ballI)
    have "inj_on (\<lambda>p. p_cred (procs k p)) (set (proclist k))" using t by (simp add: tree_ok_def creds_ok_def)
    then show "inj_on (\<lambda>p. p_cred (procs k' p)) (set (proclist k'))"
      using kin(4) by (auto simp: s inj_on_def)
    show "curproc k' \<in> set (proclist k')" using t q(3) l(3) by (simp add: s tree_ok_def creds_ok_def)
  next
    fix x assume "x \<in> set (proclist k')"
    then have x: "x \<in> set (proclist k)" "x \<noteq> q" by (simp_all add: s)
    have ok: "creds_ok k" using t by (simp add: tree_ok_def)
    note c = creds_okD[OF ok x(1)]
    show "length (groups (ucred_of k' x)) = 8" "ngroups (ucred_of k' x) \<le> 8"
      using c(3,4) by (simp_all add: uc[OF x] Let_def)
    have "card (users k u - {q}) = (if ucr (pcred_of k q) = u then card (users k u) - 1 else card (users k u))" for u
      using q(1) by (simp add: users_def)
    moreover have "0 < card (users k (ucr (pcred_of k x)))" using x(1) by (auto simp: users_def card_gt_0_iff)
    ultimately show "int (card (users k' (ucr (pcred_of k' x)))) \<le> uc_links (ucred_of k' x)"
      using c(1) by (auto simp: uc[OF x] Let_def pc[OF x] us)
  qed
  have sgl: "int (card (sig_users k' (p_sigacts (procs k x)))) \<le> sigacts_links k' (p_sigacts (procs k x))"
    if x: "x \<in> set (proclist k)" "x \<noteq> q" for x
  proof -
    let ?a = "p_sigacts (procs k x)"
    have "card (sig_users k ?a - {q}) = (if p_sigacts (procs k q) = ?a then card (sig_users k ?a) - 1 else card (sig_users k ?a))"
      using q(1) by (simp add: sig_users_def)
    moreover have "0 < card (sig_users k ?a)" using x(1) by (auto simp: sig_users_def card_gt_0_iff)
    moreover have "int (card (sig_users k ?a)) \<le> sigacts_links k ?a" using t x(1) by (simp add: tree_ok_def)
    ultimately show ?thesis by (auto simp: su sg)
  qed
  have inj: "inj_on (\<lambda>p. pid (procs k p)) (set (proclist k))" using t by (simp add: tree_ok_def)
  show ?thesis unfolding tree_ok_def
  proof (intro conjI ballI allI impI)
    show "distinct (proclist k')" using d l(1) by (simp add: distinct_remove1)
    show "inj_on (\<lambda>p. pid (procs k' p)) (set (proclist k'))" using inj kin(1) by (auto simp: s inj_on_def)
    show "rootproc k' \<in> set (proclist k')" "pid (procs k' (rootproc k')) = 0" "\<not> is_dead k' (rootproc k')"
      using rt root kin(1,6)[OF root] by (simp_all add: s l(2))
    show "creds_ok k'" by (rule cr)
  next
    fix x assume "x \<in> set (proclist k')"
    then have x: "x \<in> set (proclist k)" "x \<noteq> q" by (simp_all add: s)
    show "0 \<le> pid (procs k' x)" "pc_links (pcred_of k' x) = 1"
      using t x kin(1) pc by (simp_all add: tree_ok_def)
    show "ppid (procs k' x) = - 1 \<or> alive_pid k' (ppid (procs k' x))"
      using t x(1) kin(2)[OF x(2)] alive by (auto simp: tree_ok_def)
    show "int (card (sig_users k' (p_sigacts (procs k' x)))) \<le> sigacts_links k' (p_sigacts (procs k' x))"
      using sgl[OF x] kin(5)[OF x(2)] by simp
    fix r assume "ptracer (procs k' x) = Some r"
    then have r: "r \<in> set (proclist k)" "\<not> is_dead k r" using t x kin(3) by (auto simp: tree_ok_def)
    then have "r \<noteq> q" using q(2) by auto
    then show "r \<in> set (proclist k')" "\<not> is_dead k' r" using r kin(6)[of r] by (simp_all add: s)
  qed
qed

lemma queues_ok_remove:
  assumes "queues_ok k" "idle_proc k q"
  shows "queues_ok (k\<lparr>proclist := remove1 q (proclist k)\<rparr>)"
proof -
  let ?k = "k\<lparr>proclist := remove1 q (proclist k)\<rparr>"
  obtain Q where Q: "queues_rep k Q" "queues_known k Q" using assms(1) by (auto simp: queues_ok_def)
  have Q': "queues_rep ?k Q" by (rule queues_rep_kernel[OF Q(1)]) simp_all
  have "p \<in> set (remove1 q (proclist k))" if w: "wait_q (procs k p) \<noteq> CURPROC_Q" for p
  proof -
    have "p \<noteq> q" using w assms(2) by (auto simp: idle_proc_def)
    then show ?thesis using known_proc[OF assms(1) w] by (simp add: in_set_remove1)
  qed
  then have "queues_known ?k Q" by (simp add: queues_known_wait_q[OF Q'])
  then show ?thesis using Q' by (auto simp: queues_ok_def)
qed

text \<open>What is left when \<open>q\<close> is reaped: the other processes keep their structures and their identities.\<close>

definition reaped :: "pptr \<Rightarrow> kernel \<Rightarrow> kernel \<Rightarrow> bool" where
  "reaped q k k' \<longleftrightarrow> proclist k' = remove1 q (proclist k) \<and> curproc k' = curproc k \<and> rootproc k' = rootproc k \<and>
     (\<forall>x. proc_core (procs k' x) = proc_core (procs k x)) \<and>
     (\<forall>x. x \<noteq> q \<longrightarrow> wait_q (procs k' x) = wait_q (procs k x)) \<and>
     (\<forall>x \<in> set (proclist k). x \<noteq> q \<longrightarrow> ids_of k' x = ids_of k x)"

lemma reap_steps:
  assumes inv: "tree_inv k" and q: "q \<in> set (proclist k)" "wait_q (procs k q) = ZOMBIE_Q"
  shows "\<exists>k1 k'. rm_q ZOMBIE_Q q k = Some k1 \<and> queues_ok k1 \<and> idle_proc k1 q \<and> reap q k = Some k' \<and>
    procs k' = procs k1 \<and> sysq k' = sysq k1 \<and> proclist k' = remove1 q (proclist k) \<and> curproc k' = curproc k \<and>
    rootproc k' = rootproc k \<and>
    pcreds k' = (pcreds k)(p_cred (procs k q) := (pcred_of k q)\<lparr>pc_links := 0\<rparr>) \<and>
    ucreds k' = (ucreds k)(ucr (pcred_of k q) := (ucred_of k q)\<lparr>uc_links := uc_links (ucred_of k q) - 1\<rparr>) \<and>
    sigacts_links k' = (sigacts_links k)(p_sigacts (procs k q) := sigacts_links k (p_sigacts (procs k q)) - 1)"
proof -
  have t: "tree_ok k" and sc: "sched_inv k" using inv by (simp_all add: tree_inv_def)
  have cr: "creds_ok k" and pl: "pc_links (pcred_of k q) = 1"
    and sgl: "int (card (sig_users k (p_sigacts (procs k q)))) \<le> sigacts_links k (p_sigacts (procs k q))"
    using t q(1) by (simp_all add: tree_ok_def)
  obtain k1 where k1: "rm_q ZOMBIE_Q q k = Some k1" "queues_ok k1" "idle_proc k1 q" "q_frame k k1"
    using rm_q_ok[of k q] sc q(2) by (auto simp: sched_inv_def)
  note fr = q_frame_core[OF k1(4)]
  have more: "pcreds k1 = pcreds k" "ucreds k1 = ucreds k" "sigacts_links k1 = sigacts_links k"
    using q_frame_lists[OF k1(4)] by (simp_all add: same_lists_def)
  let ?c = "p_cred (procs k q)" and ?a = "p_sigacts (procs k q)"
  let ?u = "ucr (pcreds k ?c)"
  define k2 where "k2 = k1\<lparr>proclist := remove1 q (proclist k1)\<rparr>"
  define k3 where "k3 = upd_pcred ?c (\<lambda>x. x\<lparr>pc_links := pc_links x - 1\<rparr>) k2"
  define k4 where "k4 = upd_ucred ?u (\<lambda>c. c\<lparr>uc_links := uc_links c - 1\<rparr>) k3"
  define k5 where "k5 = k4\<lparr>sigacts_links := (sigacts_links k4)(?a := sigacts_links k4 ?a - 1)\<rparr>"
  note defs = k5_def k4_def k3_def k2_def upd_pcred_def upd_ucred_def
  have "1 \<le> uc_links (ucreds k ?u)" using creds_okD(2)[OF cr q(1)] by (simp add: ucred_of_def pcred_of_def)
  then have fc: "map_option snd (free_cred ?u k3) = Some k4"
    by (simp add: free_cred_def Let_def k4_def k3_def k2_def more upd_pcred_def)
  have "q \<in> sig_users k ?a" using q(1) by (simp add: sig_users_def)
  then have "0 < card (sig_users k ?a)" by (auto simp: card_gt_0_iff sig_users_def)
  then have fs: "free_sigacts q k4 = Some k5"
    using sgl by (simp add: free_sigacts_def defs fr more Let_def)
  have "reap q k = Some k5"
    using q(1) k1(1) pl fc fs
    by (simp add: reap_def k2_def[symmetric] fr(15) Let_def)
      (auto simp: k2_def fr more k3_def pcred_of_def upd_pcred_def)
  then show ?thesis
    using k1 pl by (intro exI[of _ k1] exI[of _ k5]) (simp add: defs fr more pcred_of_def ucred_of_def)
qed

lemma reap_ok:
  assumes inv: "tree_inv k" and q: "q \<in> set (proclist k)" "wait_q (procs k q) = ZOMBIE_Q"
  shows "\<exists>k'. reap q k = Some k' \<and> tree_inv k' \<and> reaped q k k'"
proof -
  have t: "tree_ok k" and sc: "sched_inv k" using inv by (simp_all add: tree_inv_def)
  have cr: "creds_ok k" using t by (simp add: tree_ok_def)
  obtain k1 k' where k1: "rm_q ZOMBIE_Q q k = Some k1" "queues_ok k1" "idle_proc k1 q" "reap q k = Some k'"
    and p5: "procs k' = procs k1" "sysq k' = sysq k1" "proclist k' = remove1 q (proclist k)"
      "curproc k' = curproc k" "rootproc k' = rootproc k"
    and pcs: "pcreds k' = (pcreds k)(p_cred (procs k q) := (pcred_of k q)\<lparr>pc_links := 0\<rparr>)"
      "ucreds k' = (ucreds k)(ucr (pcred_of k q) := (ucred_of k q)\<lparr>uc_links := uc_links (ucred_of k q) - 1\<rparr>)"
      "sigacts_links k' = (sigacts_links k)(p_sigacts (procs k q) := sigacts_links k (p_sigacts (procs k q)) - 1)"
    using reap_steps[OF assms] by blast
  have fr: "q_frame k k1" by (rule rm_q_frame[OF k1(1)])
  then have core: "proc_core (procs k1 x) = proc_core (procs k x)" for x by (simp add: q_frame_def)
  have w: "wait_q (procs k1 x) = (if x = q then CURPROC_Q else wait_q (procs k x))" for x
    by (rule rm_q_wait_q[OF k1(1)])
  have kin: "kin (procs k' x) = kin (procs k x)" for x using core[of x] kin_core p5(1) by metis
  have pc: "pcred_of k' x = pcred_of k x" if "x \<in> set (proclist k)" "x \<noteq> q" for x
  proof -
    have "p_cred (procs k x) \<noteq> p_cred (procs k q)" using cr q(1) that by (auto simp: creds_ok_def inj_on_def)
    then show ?thesis using kin[of x] by (simp add: pcred_of_def pcs(1) kin_def)
  qed
  have uc: "ucred_of k' x = (let u = ucred_of k x in
      if ucr (pcred_of k x) = ucr (pcred_of k q) then u\<lparr>uc_links := uc_links u - 1\<rparr> else u)"
    if "x \<in> set (proclist k)" "x \<noteq> q" for x
    by (simp add: ucred_of_def pc[OF that] pcs(2) Let_def)
  have cur: "curproc k \<noteq> q" using sc q(2) by (auto simp: sched_inv_def idle_proc_def)
  have "tree_ok k'"
  proof (rule tree_remove[OF t q(1)])
    show "is_dead k q" by (simp add: is_dead_def q(2))
    show "x \<noteq> q \<Longrightarrow> kin (procs k' x) = kin (procs k x) \<and> is_dead k' x = is_dead k x" for x
      using kin[of x] w[of x] by (simp add: is_dead_def p5(1))
  qed (use pc uc cur in \<open>simp_all add: p5 pcs\<close>)
  moreover have "sched_inv k'"
  proof -
    have "queues_ok k'" by (rule queues_ok_kernel[OF queues_ok_remove[OF k1(2,3)]]) (simp_all add: p5 q_frame_core[OF fr])
    moreover have "idle_proc k' x \<longleftrightarrow> x = q \<or> idle_proc k x" for x by (simp add: idle_proc_def p5(1) w)
    moreover have "rootproc k \<noteq> q" "distinct (proclist k)" using t q(2) by (auto simp: tree_ok_def is_dead_def)
    ultimately show ?thesis using sc cur unfolding sched_inv_def p5 by (auto simp: in_set_remove1)
  qed
  moreover have "reaped q k k'"
  proof -
    have "ids_of k' x = ids_of k x" if x: "x \<in> set (proclist k)" "x \<noteq> q" for x
      by (simp add: ids_of_def pc[OF x] uc[OF x] Let_def)
    then show ?thesis by (simp add: reaped_def p5 core w)
  qed
  ultimately show ?thesis using k1(4) by (auto simp: tree_inv_def)
qed

section \<open>One search of \<open>pwaitpid\<close>\<close>

text \<open>The status of \<open>q\<close> goes to the last process that waits for it: then a zombie leaves the lists.\<close>

definition last_wait :: "kernel \<Rightarrow> pptr \<Rightarrow> bool" where
  "last_wait k q \<longleftrightarrow> wait_q (procs k q) = ZOMBIE_Q \<and>
     (case ptracer (procs k q) of None \<Rightarrow> True
      | Some t \<Rightarrow> pid (procs k t) = ppid (procs k q) \<or> curproc k = t \<and> ppid (procs k q) = - 1)"

text \<open>What a report of \<open>q\<close> does to the other processes: nothing but that the caller's times change.\<close>

definition times_of :: "proc \<Rightarrow> proc" where
  "times_of x = x\<lparr>chldstime := 0, chldutime := 0\<rparr>"

definition waited :: "pptr \<Rightarrow> kernel \<Rightarrow> kernel \<Rightarrow> bool" where
  "waited q k k' \<longleftrightarrow> curproc k' = curproc k \<and> rootproc k' = rootproc k \<and>
     proclist k' = (if last_wait k q then remove1 q (proclist k) else proclist k) \<and>
     (\<forall>x. x \<noteq> q \<longrightarrow> times_of (proc_core (procs k' x)) = times_of (proc_core (procs k x)) \<and>
        wait_q (procs k' x) = wait_q (procs k x)) \<and>
     (\<forall>x \<in> set (proclist k'). ids_of k' x = ids_of k x)"

lemma add_usage_facts:
  "proclist (add_usage q k) = proclist k" "curproc (add_usage q k) = curproc k" "rootproc (add_usage q k) = rootproc k"
  "kin (procs (add_usage q k) x) = kin (procs k x)" "wait_q (procs (add_usage q k) x) = wait_q (procs k x)"
  "times_of (proc_core (procs (add_usage q k) x)) = times_of (proc_core (procs k x))"
  "ids_of (add_usage q k) x = ids_of k x" "wait_cond (procs (add_usage q k) x) = wait_cond (procs k x)"
  by (simp_all add: add_usage_def Let_def upd_cur_def kin_def times_of_def proc_core_def ids_of_def ucred_of_def pcred_of_def upd_proc_def)

lemma upd_proc_ids:
  assumes "\<And>x. p_cred (f x) = p_cred x"
  shows "ids_of (upd_proc q f k) x = ids_of k x"
  using assms by (simp add: ids_of_def ucred_of_def pcred_of_def upd_proc_def)

lemma waited_upd:
  assumes "\<not> last_wait k q" "\<And>x. p_cred (f x) = p_cred x"
  shows "waited q k (upd_proc q f (add_usage q k))"
  using assms(1) by (simp add: waited_def add_usage_facts upd_proc_ids[OF assms(2)]) (simp add: upd_proc_def add_usage_facts)

lemma waited_reaped:
  assumes "last_wait k q" "reaped q k2 k'" "distinct (proclist k)"
    "k2 = add_usage q k \<or> k2 = upd_proc q (\<lambda>x. x\<lparr>ptracer := None\<rparr>) (add_usage q k)"
  shows "waited q k k'"
proof -
  have k2: "proclist k2 = proclist k" "curproc k2 = curproc k" "rootproc k2 = rootproc k" "ids_of k2 x = ids_of k x"
    "x \<noteq> q \<Longrightarrow> procs k2 x = procs (add_usage q k) x" for x
    using assms(4) by (auto simp: add_usage_facts upd_proc_ids) (simp_all add: upd_proc_def add_usage_facts)
  have core: "proc_core (procs k' x) = proc_core (procs k2 x)" for x using assms(2) by (simp add: reaped_def)
  then have "times_of (proc_core (procs k' x)) = times_of (proc_core (procs k x))" if "x \<noteq> q" for x
    by (simp add: core k2(5)[OF that] add_usage_facts(6))
  then show ?thesis using assms(1-3) by (auto simp: waited_def reaped_def k2 add_usage_facts in_set_remove1)
qed

lemma last_wait_usage: "last_wait (add_usage q k) q \<longleftrightarrow> last_wait k q"
proof -
  have x: "pid (procs (add_usage q k) x) = pid (procs k x)" "ppid (procs (add_usage q k) x) = ppid (procs k x)"
    "ptracer (procs (add_usage q k) x) = ptracer (procs k x)" for x
    using add_usage_facts(4)[of q k x] by (simp_all add: kin_def)
  show ?thesis unfolding last_wait_def x add_usage_facts(2,5) by (rule refl)
qed

lemma wait_taken_ok:
  assumes inv: "tree_inv k" and q: "q \<in> set (proclist k)" "is_dead k q"
    and k2: "k2 = add_usage q k \<or> k2 = upd_proc q (\<lambda>x. x\<lparr>ptracer := None\<rparr>) (add_usage q k)"
    and last: "wait_q (procs k q) = ZOMBIE_Q \<Longrightarrow> last_wait k q"
  shows "\<exists>k'. wait_taken q k2 = Some k' \<and> tree_inv k' \<and> waited q k k'"
proof -
  have t: "tree_ok k" and sc: "sched_inv k" using inv by (simp_all add: tree_inv_def)
  have inv1: "tree_inv (add_usage q k)" by (rule tree_inv_calm[OF inv add_usage_calm[OF sc]])
  have inv2: "tree_inv k2" using k2 inv1 tree_inv_upd[OF inv1, of "\<lambda>x. x\<lparr>ptracer := None\<rparr>" q] by auto
  have cur: "curproc k \<noteq> q" using sc q(2) by (auto simp: sched_inv_def idle_proc_def is_dead_def)
  have pl: "proclist k2 = proclist k" "curproc k2 = curproc k" "wait_q (procs k2 q) = wait_q (procs k q)"
    using k2 by (auto simp: add_usage_facts)
  show ?thesis
  proof (cases "wait_q (procs k q) = TSR_Q")
    case True
    then have nl: "\<not> last_wait k q" by (simp add: last_wait_def)
    have "upd_proc q (\<lambda>x. x\<lparr>ppid := - 1\<rparr>) k2 = upd_proc q (\<lambda>x. x\<lparr>ppid := - 1\<rparr>) (add_usage q k) \<or>
      upd_proc q (\<lambda>x. x\<lparr>ppid := - 1\<rparr>) k2 = upd_proc q (\<lambda>x. x\<lparr>ptracer := None, ppid := - 1\<rparr>) (add_usage q k)"
      using k2 by (auto simp: upd_proc_def)
    then have "waited q k (upd_proc q (\<lambda>x. x\<lparr>ppid := - 1\<rparr>) k2)"
      using waited_upd[OF nl, of "\<lambda>x. x\<lparr>ppid := - 1\<rparr>"] waited_upd[OF nl, of "\<lambda>x. x\<lparr>ptracer := None, ppid := - 1\<rparr>"] by auto
    moreover have "tree_inv (upd_proc q (\<lambda>x. x\<lparr>ppid := - 1\<rparr>) k2)" by (rule tree_inv_upd[OF inv2]) simp_all
    ultimately show ?thesis using True by (simp add: wait_taken_def pl)
  next
    case False
    then have z: "wait_q (procs k q) = ZOMBIE_Q" using q(2) by (simp add: is_dead_def)
    obtain k' where k': "reap q k2 = Some k'" "tree_inv k'" "reaped q k2 k'"
      using reap_ok[OF inv2, of q] q(1) z pl(1,3) by auto
    have "distinct (proclist k)" using t by (simp add: tree_ok_def)
    then have "waited q k k'" by (rule waited_reaped[OF last[OF z] k'(3) _ k2])
    then show ?thesis using k' z cur by (auto simp: wait_taken_def pl)
  qed
qed

lemma wait_found_ok:
  assumes inv: "tree_inv k" and q: "q \<in> set (proclist k)" "wait_reports nohang k q"
  shows "\<exists>k'. wait_found q k = Some k' \<and> tree_inv k' \<and> waited q k k'"
proof -
  define k1 where "k1 = add_usage q k"
  have sc: "sched_inv k" using inv by (simp add: tree_inv_def)
  have inv1: "tree_inv k1" unfolding k1_def by (rule tree_inv_calm[OF inv add_usage_calm[OF sc]])
  have pl: "curproc k1 = curproc k" "wait_q (procs k1 x) = wait_q (procs k x)"
    "pid (procs k1 x) = pid (procs k x)" "ppid (procs k1 x) = ppid (procs k x)" "ptracer (procs k1 x) = ptracer (procs k x)" for x
    using add_usage_facts(4)[of q k x] by (simp_all add: k1_def add_usage_facts kin_def)
  have upd: "tree_inv (upd_proc q f k1) \<and> waited q k (upd_proc q f k1)"
    if f: "\<not> last_wait k q" "f \<in> {\<lambda>x. x\<lparr>wait_cond := 0\<rparr>, \<lambda>x. x\<lparr>ppid := - 1\<rparr>, \<lambda>x. x\<lparr>ptracer := None\<rparr>}" for f
    using f(2) waited_upd[OF f(1), of f] tree_inv_upd[OF inv1, of f q] by (auto simp: k1_def)
  note taken = wait_taken_ok[OF inv q(1)]
  show ?thesis
  proof (cases "wait_q (procs k q) = STOP_Q")
    case True
    then have "\<not> last_wait k q" by (simp add: last_wait_def)
    then show ?thesis using upd[of "\<lambda>x. x\<lparr>wait_cond := 0\<rparr>"] True by (simp add: wait_found_def k1_def[symmetric] pl Let_def)
  next
    case False
    then have dead: "is_dead k q" using q(2) by (auto simp: wait_reports_def Let_def)
    show ?thesis
    proof (cases "ptracer (procs k q)")
      case None
      then show ?thesis
        using taken[OF dead, of k1] False by (simp add: wait_found_def k1_def pl[unfolded k1_def] Let_def last_wait_def)
    next
      case (Some t)
      consider (parent) "pid (procs k t) = ppid (procs k q)"
        | (tracer) "pid (procs k t) \<noteq> ppid (procs k q)" "curproc k = t"
        | (other) "pid (procs k t) \<noteq> ppid (procs k q)" "curproc k \<noteq> t" by blast
      then show ?thesis
      proof cases
        case parent
        then show ?thesis using taken[OF dead, of k1] False Some
          by (simp add: wait_found_def k1_def pl[unfolded k1_def] Let_def last_wait_def)
      next
        case tracer
        then show ?thesis
          using taken[OF dead, of "upd_proc q (\<lambda>x. x\<lparr>ptracer := None\<rparr>) k1"] upd[of "\<lambda>x. x\<lparr>ptracer := None\<rparr>"] False Some
          by (cases "ppid (procs k q) = - 1") (simp_all add: wait_found_def k1_def pl[unfolded k1_def] Let_def last_wait_def)
      next
        case other
        then show ?thesis using upd[of "\<lambda>x. x\<lparr>ppid := - 1\<rparr>"] False Some
          by (simp add: wait_found_def k1_def pl[unfolded k1_def] Let_def last_wait_def)
      qed
    qed
  qed
qed

definition waits_for :: "kernel \<Rightarrow> pptr \<Rightarrow> bool" where
  "waits_for k q \<longleftrightarrow> ppid (procs k q) = pid (proc_of k) \<or> ptracer (procs k q) = Some (curproc k)"

lemma wait_matches_waits_for: "wait_matches n k q \<Longrightarrow> waits_for k q"
  by (simp add: wait_matches_def waits_for_def Let_def)

text \<open>The same process never gets the status of a zombie twice.\<close>

lemma wait_found_once:
  assumes inv: "tree_inv k" and q: "q \<in> set (proclist k)" "wait_q (procs k q) = ZOMBIE_Q"
    and w: "waits_for k q" and r: "wait_found q k = Some k'"
  shows "q \<in> set (proclist k') \<Longrightarrow> \<not> waits_for k' q"
proof (cases "last_wait k q")
  case True
  have "wait_reports 0 k q" using q(2) by (simp add: wait_reports_def is_dead_def Let_def)
  then have "waited q k k'" using wait_found_ok[OF inv q(1)] r by force
  moreover have "distinct (proclist k)" using inv by (simp add: tree_inv_def tree_ok_def)
  ultimately show "q \<in> set (proclist k') \<Longrightarrow> \<not> waits_for k' q" using True by (simp add: waited_def)
next
  case False
  have x: "ppid (procs (add_usage q k) y) = ppid (procs k y)" "pid (procs (add_usage q k) y) = pid (procs k y)"
    "ptracer (procs (add_usage q k) y) = ptracer (procs k y)" for y
    using add_usage_facts(4)[of q k y] by (simp_all add: kin_def)
  note u = add_usage_facts(2,5)[of q k] x
  have pos: "pid (proc_of k) \<noteq> - 1"
  proof -
    have "\<forall>y \<in> set (proclist k). 0 \<le> pid (procs k y)" "curproc k \<in> set (proclist k)"
      using inv by (simp_all add: tree_inv_def tree_ok_def sched_inv_def)
    then have "0 \<le> pid (procs k (curproc k))" by blast
    then show ?thesis by (simp add: proc_of_def)
  qed
  have cur: "curproc k \<noteq> q" using inv q(2) by (auto simp: tree_inv_def sched_inv_def idle_proc_def)
  obtain t where t: "ptracer (procs k q) = Some t" "pid (procs k t) \<noteq> ppid (procs k q)"
    using False q(2) by (cases "ptracer (procs k q)") (auto simp: last_wait_def)
  show "\<not> waits_for k' q"
  proof (cases "curproc k = t")
    case True
    then have k': "k' = upd_proc q (\<lambda>x. x\<lparr>ptracer := None\<rparr>) (add_usage q k)"
      using r t False q(2) by (auto simp: wait_found_def Let_def u last_wait_def)
    show ?thesis using t True cur by (auto simp: waits_for_def proc_of_def k' u)
  next
    case other: False
    then have k': "k' = upd_proc q (\<lambda>x. x\<lparr>ppid := - 1\<rparr>) (add_usage q k)"
      using r t q(2) by (auto simp: wait_found_def Let_def u)
    show ?thesis using t other cur pos[unfolded proc_of_def] by (auto simp: waits_for_def proc_of_def k' u)
  qed
qed

definition scan_ok :: "int \<Rightarrow> u16 \<Rightarrow> kernel \<Rightarrow> wait_out \<Rightarrow> bool" where
  "scan_ok n nohang k out \<longleftrightarrow>
     (case out of
        Wait_error e k' \<Rightarrow> k' = k \<and> (\<forall>q \<in> set (proclist k). wait_matches n k q \<longrightarrow> \<not> wait_reports nohang k q) \<and>
          (if e = ENOENT then \<forall>q \<in> set (proclist k). \<not> wait_matches n k q else e = 0 \<and> nohang AND 1 \<noteq> 0)
      | Wait_none k' \<Rightarrow> k' = k \<and> nohang AND 1 = 0 \<and> (\<exists>q \<in> set (proclist k). wait_matches n k q) \<and>
          (\<forall>q \<in> set (proclist k). wait_matches n k q \<longrightarrow> \<not> wait_reports nohang k q)
      | Wait_child r rv ru k' \<Rightarrow>
          (\<exists>q \<in> set (proclist k). wait_matches n k q \<and> wait_reports nohang k q \<and> r = wait_status (procs k q) \<and>
             tree_inv k' \<and> waited q k k' \<and>
             (wait_q (procs k q) = ZOMBIE_Q \<and> q \<in> set (proclist k') \<longrightarrow> \<not> waits_for k' q)))"

lemma pwait_scan_ok:
  assumes inv: "tree_inv k"
  shows "\<exists>out. pwait_scan n nohang k = Some out \<and> scan_ok n nohang k out"
proof (cases "List.find (\<lambda>q. wait_matches n k q \<and> wait_reports nohang k q) (proclist k)")
  case None
  then have "\<forall>q \<in> set (proclist k). wait_matches n k q \<longrightarrow> \<not> wait_reports nohang k q" by (auto simp: find_None_iff)
  then show ?thesis using None by (auto simp: pwait_scan_def scan_ok_def list_ex_iff ENOENT_def)
next
  case (Some q)
  then have q: "q \<in> set (proclist k)" "wait_matches n k q" "wait_reports nohang k q"
    by (auto simp: find_Some_iff)
  obtain k' where k': "wait_found q k = Some k'" "tree_inv k'" "waited q k k'" using wait_found_ok[OF inv q(1,3)] by blast
  have "wait_q (procs k q) = ZOMBIE_Q \<and> q \<in> set (proclist k') \<longrightarrow> \<not> waits_for k' q"
    using wait_found_once[OF inv q(1) _ wait_matches_waits_for[OF q(2)] k'(1)] by blast
  then show ?thesis using Some q k' by (auto simp: pwait_scan_def scan_ok_def Let_def)
qed

section \<open>The exit code in the status\<close>

lemma status_bits:
  fixes w :: u32 and c :: u16
  assumes "b = a + a" "b = 16"
  shows "(push_bit b w OR (ucast c AND mask b)) AND NOT (push_bit a (mask a)) = push_bit b w OR (ucast c AND mask a)"
  by (rule bit_word_eqI) (use assms in \<open>auto simp: bit_simps\<close>)

lemma exit_status:
  assumes "\<not> signaled x" "wait_q x = ZOMBIE_Q" "wait_cond x = exit_cond code" "exit_cond code AND 0x1f00 \<noteq> 0x500"
  shows "wait_status x = push_bit 16 (word_of_int (pid x)) OR (ucast (word_of_int code :: u16) AND 0xff)"
proof -
  have m: "(0xff :: u32) = mask 8" "(0xffff :: u32) = mask 16" "(0xffff00ff :: u32) = NOT (push_bit 8 (mask 8))"
    by (simp_all add: mask_eq_exp_minus_1)
  have "wait_code x AND 0xffff00ff = push_bit 16 (word_of_int (pid x)) OR (ucast (word_of_int code :: u16) AND (0xff :: u32))"
    unfolding m wait_code_def assms(3) exit_cond_def by (rule status_bits) simp_all
  then show ?thesis using assms by (simp add: wait_status_def Let_def)
qed

end
