(* ===== verification/Proc_Birth.thy ===== *)
theory Proc_Birth
  imports Proc_Wait
begin

text \<open>
  New processes: \<open>newpid\<close> finds a free process id whenever there is one, and \<open>Pvfork\<close> keeps the tree of
  processes in order: the structure it fills in belongs to nobody (\<open>born\<close>) until it enters the list of
  processes and the ready queue.
\<close>

section \<open>Process ids\<close>

lemma next_maxpid_range: "1 \<le> mp \<Longrightarrow> mp < MAXPID \<Longrightarrow> 2 \<le> next_maxpid mp \<and> next_maxpid mp < MAXPID"
  by (simp add: next_maxpid_def)

lemma next_maxpid_pow:
  assumes "2 \<le> mp" "mp < MAXPID"
  shows "(next_maxpid ^^ i) mp = 2 + (mp - 2 + int i) mod 998"
proof (induction i)
  case 0
  then show ?case using assms by simp
next
  case (Suc i)
  define m where "m = (mp - 2 + int i) mod 998"
  have m: "0 \<le> m" "m < 998" by (simp_all add: m_def)
  have "(mp - 2 + int (Suc i)) mod 998 = (m + 1) mod 998"
    unfolding m_def by (simp add: mod_simps algebra_simps)
  also have "\<dots> = (if m = 997 then 0 else m + 1)" using m by simp
  finally show ?case using m Suc by (simp add: next_maxpid_def m_def[symmetric])
qed

lemma newpid_loop_None:
  "newpid_loop j mp k = None \<longleftrightarrow> (\<forall>i < nat (1001 - j). pid2proc ((next_maxpid ^^ i) mp) k \<noteq> None)"
proof (induction j mp k rule: newpid_loop.induct)
  case (1 j mp k)
  show ?case
  proof (cases "j > MAXPID")
    case True
    then show ?thesis by (simp add: newpid_loop.simps[of j])
  next
    case False
    then have n: "nat (1001 - j) = Suc (nat (1001 - (j + 1)))" by simp
    show ?thesis
    proof (cases "pid2proc mp k = None")
      case True
      then show ?thesis using False n by (auto simp: newpid_loop.simps[of j])
    next
      case used: False
      have "newpid_loop j mp k = newpid_loop (j + 1) (next_maxpid mp) k"
        using False used by (simp add: newpid_loop.simps[of j])
      then show ?thesis using 1 False used unfolding n
        by (simp add: All_less_Suc2 funpow_swap1)
    qed
  qed
qed

lemma newpid_loop_Some:
  "newpid_loop j mp k = Some (n, mp') \<Longrightarrow> 1 \<le> mp \<Longrightarrow> mp < MAXPID \<Longrightarrow>
   pid2proc n k = None \<and> 1 \<le> n \<and> n < MAXPID \<and> (2 \<le> mp \<longrightarrow> 2 \<le> n) \<and> mp' = next_maxpid n"
proof (induction j mp k rule: newpid_loop.induct)
  case (1 j mp k)
  note r = next_maxpid_range[OF 1(3,4)]
  show ?case
  proof (cases "pid2proc mp k = None")
    case True
    then show ?thesis using 1(2-4) by (auto simp: newpid_loop.simps[of j] split: if_splits)
  next
    case False
    then show ?thesis using 1(1)[OF _ False] 1(2) r by (simp add: newpid_loop.simps[of j] split: if_splits)
  qed
qed

section \<open>A structure that belongs to nobody\<close>

lemma tree_ok_cong:
  assumes t: "tree_ok k" and l: "proclist k' = proclist k" "rootproc k' = rootproc k" "curproc k' = curproc k"
    and kin: "\<And>x. x \<in> set (proclist k) \<Longrightarrow> kin (procs k' x) = kin (procs k x) \<and> is_dead k' x = is_dead k x"
    and pc: "\<And>x. x \<in> set (proclist k) \<Longrightarrow> pcred_of k' x = pcred_of k x"
    and uc: "\<And>x. x \<in> set (proclist k) \<Longrightarrow> groups (ucred_of k' x) = groups (ucred_of k x) \<and>
      ngroups (ucred_of k' x) = ngroups (ucred_of k x) \<and>
      int (card (users k (ucr (pcred_of k x)))) \<le> uc_links (ucred_of k' x)"
    and sg: "\<And>x. x \<in> set (proclist k) \<Longrightarrow>
      int (card (sig_users k (p_sigacts (procs k x)))) \<le> sigacts_links k' (p_sigacts (procs k x))"
  shows "tree_ok k'"
proof -
  have x: "pid (procs k' x) = pid (procs k x)" "ppid (procs k' x) = ppid (procs k x)"
    "ptracer (procs k' x) = ptracer (procs k x)" "p_cred (procs k' x) = p_cred (procs k x)"
    "p_sigacts (procs k' x) = p_sigacts (procs k x)" "is_dead k' x = is_dead k x" if "x \<in> set (proclist k)" for x
    using kin[OF that] by (simp_all add: kin_def)
  have a: "alive_pid k' = alive_pid k" using x by (auto simp: fun_eq_iff alive_pid_def l)
  have us: "users k' = users k" "sig_users k' = sig_users k"
    using pc x(5) by (auto simp: fun_eq_iff users_def sig_users_def l)
  have "inj_on (\<lambda>p. p_cred (procs k' p)) (set (proclist k)) = inj_on (\<lambda>p. p_cred (procs k p)) (set (proclist k))"
    "inj_on (\<lambda>p. pid (procs k' p)) (set (proclist k)) = inj_on (\<lambda>p. pid (procs k p)) (set (proclist k))"
    using x(1,4) by (simp_all add: inj_on_def)
  moreover have "creds_ok k' \<longleftrightarrow> inj_on (\<lambda>p. p_cred (procs k' p)) (set (proclist k)) \<and> curproc k \<in> set (proclist k) \<and>
     (\<forall>p\<in>set (proclist k). length (groups (ucred_of k p)) = 8 \<and> ngroups (ucred_of k p) \<le> 8)"
    using uc by (auto simp: creds_ok_def l us pc)
  ultimately show ?thesis
    using t sg unfolding tree_ok_def l a us by (auto simp: x pc creds_ok_def)
qed

definition born :: "pptr \<Rightarrow> nat option \<Rightarrow> nat option \<Rightarrow> kernel \<Rightarrow> bool" where
  "born p cr sg k \<longleftrightarrow> tree_inv k \<and> p \<notin> set (proclist k) \<and>
     0 \<le> pid (procs k p) \<and> (\<forall>q \<in> set (proclist k). pid (procs k q) \<noteq> pid (procs k p)) \<and>
     alive_pid k (ppid (procs k p)) \<and> ptracer (procs k p) = None \<and>
     (\<forall>c. cr = Some c \<longrightarrow> p_cred (procs k p) = c \<and> (\<forall>q \<in> set (proclist k). p_cred (procs k q) \<noteq> c) \<and>
        pc_links (pcreds k c) = 1 \<and>
        int (card (users k (ucr (pcreds k c)))) + 1 \<le> uc_links (ucreds k (ucr (pcreds k c))) \<and>
        length (groups (ucreds k (ucr (pcreds k c)))) = 8 \<and> ngroups (ucreds k (ucr (pcreds k c))) \<le> 8) \<and>
     (\<forall>a. sg = Some a \<longrightarrow> p_sigacts (procs k p) = a \<and> int (card (sig_users k a)) + 1 \<le> sigacts_links k a)"

lemma born_calm:
  assumes b: "born p cr sg k" and c: "calm k k'"
  shows "born p cr sg k'"
proof -
  have kin: "same_kin k k'" using c by (simp add: calm_def)
  note d = same_kinD[OF kin]
  have "alive_pid k' = alive_pid k" "sig_users k' = sig_users k"
    by (simp_all add: fun_eq_iff alive_pid_def sig_users_def d)
  moreover have "users k' = users k" by (rule ext) (simp add: users_def pcred_of_def d)
  moreover have "tree_inv k'" using b tree_inv_calm[OF _ c] by (simp add: born_def)
  ultimately show ?thesis using b by (simp add: born_def d)
qed

lemma queues_ok_new:
  assumes "queues_ok k" "p \<notin> set (proclist k)" "wait_q x = CURPROC_Q" "q_next x = None" "q_prev x = None"
  shows "queues_ok (upd_proc p (\<lambda>_. x) k)"
proof -
  let ?k = "upd_proc p (\<lambda>_. x) k"
  obtain Q where Q: "queues_rep k Q" "queues_known k Q" using assms(1) by (auto simp: queues_ok_def)
  have w: "wait_q (procs k p) = CURPROC_Q" using known_proc[OF assms(1)] assms(2) by blast
  note idle = queues_rep_idle[OF Q(1) w]
  have s: "wait_q (procs ?k y) = wait_q (procs k y)" "q_next (procs ?k y) = q_next (procs k y)"
    "q_prev (procs ?k y) = q_prev (procs k y)" for y
    using w idle(1,2) assms(3-5) by auto
  have "queue_rep ?k q (Q q)" if "q \<noteq> CURPROC_Q" for q
    by (rule queue_rep_cong[OF queues_repD(1)[OF Q(1) that]]) (simp_all only: s, simp_all add: upd_proc_def)
  then have "queues_rep ?k Q" using Q(1) unfolding queues_rep_def s by blast
  moreover have "queues_known ?k Q" using Q(2) by (simp add: queues_known_def upd_proc_def)
  ultimately show ?thesis by (auto simp: queues_ok_def)
qed

lemma idle_links:
  assumes "queues_ok k" "wait_q (procs k p) = CURPROC_Q"
  shows "q_next (procs k p) = None" "q_prev (procs k p) = None"
  using assms queues_rep_idle by (auto simp: queues_ok_def)

lemma born_new:
  assumes inv: "tree_inv k" and p2: "p2 \<notin> set (proclist k)" and n: "pid2proc n k = None" "0 \<le> n" and p1: "curproc k = p1"
  shows "born p2 None None (upd_proc p2 (\<lambda>_. fork_fields n (procs k p1)) k)"
proof -
  let ?x = "fork_fields n (procs k p1)"
  let ?k = "upd_proc p2 (\<lambda>_. ?x) k"
  have sc: "sched_inv k" and t: "tree_ok k" using inv by (simp_all add: tree_inv_def)
  have q: "queues_ok k" "wait_q (procs k p1) = CURPROC_Q" "p1 \<in> set (proclist k)"
    using sc p1 by (simp_all add: sched_inv_def idle_proc_def)
  have l: "proclist ?k = proclist k" "curproc ?k = curproc k" "rootproc ?k = rootproc k" "pcreds ?k = pcreds k"
    "ucreds ?k = ucreds k" "sigacts_links ?k = sigacts_links k" by (simp_all add: upd_proc_def)
  have same: "procs ?k x = procs k x" if "x \<in> set (proclist k)" for x using that p2 by auto
  have alive: "alive_pid ?k m = alive_pid k m" for m using same by (auto simp: alive_pid_def is_dead_def l)
  have "queues_ok ?k"
    by (rule queues_ok_new[OF q(1) p2]) (simp_all add: fork_fields_def idle_links[OF q(1,2)])
  then have "sched_inv ?k" using sc same unfolding sched_inv_def l idle_proc_def by auto
  moreover have "tree_ok ?k"
  proof (rule tree_ok_cong[OF t])
    fix x assume x: "x \<in> set (proclist k)"
    have ok: "creds_ok k" using t by (simp add: tree_ok_def)
    show "pcred_of ?k x = pcred_of k x" using same[OF x] by (simp add: pcred_of_def l)
    then show "groups (ucred_of ?k x) = groups (ucred_of k x) \<and> ngroups (ucred_of ?k x) = ngroups (ucred_of k x) \<and>
      int (card (users k (ucr (pcred_of k x)))) \<le> uc_links (ucred_of ?k x)"
      using creds_okD(1)[OF ok x] by (simp add: ucred_of_def l)
    show "int (card (sig_users k (p_sigacts (procs k x)))) \<le> sigacts_links ?k (p_sigacts (procs k x))"
      using t x by (simp add: l tree_ok_def)
    show "kin (procs ?k x) = kin (procs k x) \<and> is_dead ?k x = is_dead k x" using same[OF x] by (simp add: is_dead_def)
  qed (simp_all add: l)
  moreover have "alive_pid k (pid (procs k p1))"
    using q(2,3) by (auto simp: alive_pid_def is_dead_def)
  moreover have "pid (procs k x) \<noteq> n" if "x \<in> set (proclist k)" for x using n(1) that by (auto simp: pid2proc_None)
  moreover have "procs ?k p2 = ?x" by simp
  ultimately show ?thesis
    using p2 n(2) same unfolding born_def tree_inv_def l alive by (auto simp: fork_fields_def)
qed

text \<open>A change of the credentials and signal actions that only the new structure uses, and of the counts.\<close>

lemma born_cong:
  assumes b: "born p cr sg k" and l: "proclist k' = proclist k" "rootproc k' = rootproc k" "curproc k' = curproc k" "sysq k' = sysq k"
    and out: "\<And>x. x \<noteq> p \<Longrightarrow> procs k' x = procs k x"
    and x: "procs k' p = (procs k p)\<lparr>p_cred := c', p_sigacts := a'\<rparr>"
    and pc: "\<And>x. x \<in> set (proclist k) \<Longrightarrow> pcreds k' (p_cred (procs k x)) = pcreds k (p_cred (procs k x))"
    and uc: "\<And>u. groups (ucreds k' u) = groups (ucreds k u) \<and> ngroups (ucreds k' u) = ngroups (ucreds k u)"
      "\<And>u. int (card (users k u)) \<le> uc_links (ucreds k u) \<Longrightarrow> int (card (users k u)) \<le> uc_links (ucreds k' u)"
    and sg: "\<And>a. int (card (sig_users k a)) \<le> sigacts_links k a \<Longrightarrow> int (card (sig_users k a)) \<le> sigacts_links k' a"
  shows "born p None None k' \<and> users k' = users k \<and> sig_users k' = sig_users k"
proof -
  have inv: "tree_ok k" "sched_inv k" and p: "p \<notin> set (proclist k)" using b by (simp_all add: born_def tree_inv_def)
  have same: "procs k' y = procs k y" if "y \<in> set (proclist k)" for y by (rule out) (use that p in auto)
  have links: "wait_q (procs k' y) = wait_q (procs k y) \<and> q_next (procs k' y) = q_next (procs k y) \<and>
    q_prev (procs k' y) = q_prev (procs k y)" for y
    using out[of y] x by (cases "y = p") simp_all
  then have dead: "is_dead k' y = is_dead k y" "wait_q (procs k' y) = wait_q (procs k y)"
    "q_next (procs k' y) = q_next (procs k y)" "q_prev (procs k' y) = q_prev (procs k y)" for y
    by (simp_all add: is_dead_def)
  have pco: "pcred_of k' y = pcred_of k y" if "y \<in> set (proclist k)" for y using same[OF that] pc[OF that] by (simp add: pcred_of_def)
  have us: "users k' = users k" "sig_users k' = sig_users k"
    using pco same by (auto simp: fun_eq_iff users_def sig_users_def l)
  have cr: "creds_ok k" using inv(1) by (simp add: tree_ok_def)
  have "tree_ok k'"
  proof (rule tree_ok_cong[OF inv(1)])
    fix y assume y: "y \<in> set (proclist k)"
    show "pcred_of k' y = pcred_of k y" by (rule pco[OF y])
    show "groups (ucred_of k' y) = groups (ucred_of k y) \<and> ngroups (ucred_of k' y) = ngroups (ucred_of k y) \<and>
      int (card (users k (ucr (pcred_of k y)))) \<le> uc_links (ucred_of k' y)"
      using uc(1)[of "ucr (pcred_of k y)"] uc(2)[of "ucr (pcred_of k y)"] creds_okD(1)[OF cr y] by (simp add: ucred_of_def pco[OF y])
    show "int (card (sig_users k (p_sigacts (procs k y)))) \<le> sigacts_links k' (p_sigacts (procs k y))"
      using inv(1) y sg by (simp add: tree_ok_def)
    show "kin (procs k' y) = kin (procs k y) \<and> is_dead k' y = is_dead k y" using same[OF y] dead by simp
  qed (simp_all add: l)
  moreover have "sched_inv k'"
  proof -
    obtain Q where Q: "queues_rep k Q" "queues_known k Q" using inv(2) by (auto simp: sched_inv_def queues_ok_def)
    have "queue_rep k' q (Q q)" if "q \<noteq> CURPROC_Q" for q
      by (rule queue_rep_cong[OF queues_repD(1)[OF Q(1) that]]) (simp_all only: dead l)
    then have "queues_rep k' Q" using Q(1) unfolding queues_rep_def dead by blast
    moreover have "queues_known k' Q" using Q(2) by (simp add: queues_known_def l)
    ultimately have "queues_ok k'" by (auto simp: queues_ok_def)
    then show ?thesis using inv(2) unfolding sched_inv_def idle_proc_def dead l by blast
  qed
  moreover have "alive_pid k' m = alive_pid k m" for m using same dead by (simp add: alive_pid_def l)
  ultimately have "born p None None k'" using b same p by (simp add: born_def tree_inv_def l x)
  then show ?thesis using us by blast
qed

lemma born_cred:
  assumes b: "born p2 None None k" and p1: "p1 \<in> set (proclist k)"
    and c: "\<And>c q. mem = Some c \<Longrightarrow> q \<in> set (proclist k) \<Longrightarrow> p_cred (procs k q) \<noteq> c"
  shows "born p2 mem None (fork_cred mem p1 p2 k)"
proof (cases mem)
  case None
  then show ?thesis using b by (simp add: fork_cred_def)
next
  case (Some c)
  define k' where "k' = fork_cred mem p1 p2 k"
  let ?u = "ucr (pcred_of k p1)"
  have p2: "p2 \<notin> set (proclist k)" and cr: "creds_ok k" using b by (simp_all add: born_def tree_inv_def tree_ok_def)
  have k': "proclist k' = proclist k" "rootproc k' = rootproc k" "curproc k' = curproc k" "sysq k' = sysq k"
    "sigacts_links k' = sigacts_links k" "procs k' = (procs k)(p2 := (procs k p2)\<lparr>p_cred := c\<rparr>)"
    "pcreds k' = (pcreds k)(c := (pcred_of k p1)\<lparr>pc_links := 1\<rparr>)"
    "ucreds k' = (ucreds k)(?u := (ucreds k ?u)\<lparr>uc_links := uc_links (ucreds k ?u) + 1\<rparr>)"
    by (simp_all add: k'_def Some fork_cred_def Let_def upd_pcred_def upd_ucred_def upd_proc_def pcred_of_def)
  have x: "procs k' p2 = (procs k p2)\<lparr>p_cred := c, p_sigacts := p_sigacts (procs k p2)\<rparr>" by (simp add: k')
  have pc: "pcreds k' (p_cred (procs k y)) = pcreds k (p_cred (procs k y))" if "y \<in> set (proclist k)" for y
    using c[OF Some that] by (simp add: k')
  have bc: "born p2 None None k' \<and> users k' = users k \<and> sig_users k' = sig_users k"
    by (rule born_cong[OF b k'(1-4) _ x]) (use pc in \<open>auto simp: k'(5,6,8)\<close>)
  have "procs k' y = procs k y" if "y \<in> set (proclist k)" for y using that p2 by (auto simp: k')
  then show ?thesis
    using bc c[OF Some] creds_okD[OF cr p1] unfolding k'_def[symmetric]
    by (simp add: born_def k' Some) (simp add: ucred_of_def)
qed

lemma born_link_sigacts:
  assumes b: "born p2 cr None k" and m: "int (card (sig_users k a)) + 1 \<le> m"
  shows "born p2 cr (Some a) (upd_proc p2 (\<lambda>x. x\<lparr>p_sigacts := a\<rparr>) (k\<lparr>sigacts := g, sigacts_links := (sigacts_links k)(a := m)\<rparr>))"
proof -
  define k' where "k' = upd_proc p2 (\<lambda>x. x\<lparr>p_sigacts := a\<rparr>) (k\<lparr>sigacts := g, sigacts_links := (sigacts_links k)(a := m)\<rparr>)"
  have k': "proclist k' = proclist k" "rootproc k' = rootproc k" "curproc k' = curproc k" "sysq k' = sysq k"
    "sigacts_links k' = (sigacts_links k)(a := m)" "pcreds k' = pcreds k" "ucreds k' = ucreds k"
    "procs k' = (procs k)(p2 := (procs k p2)\<lparr>p_sigacts := a\<rparr>)" by (simp_all add: k'_def upd_proc_def)
  have x: "procs k' p2 = (procs k p2)\<lparr>p_cred := p_cred (procs k p2), p_sigacts := a\<rparr>" by (simp add: k')
  have b': "born p2 None None k" using b by (simp add: born_def)
  have p2: "p2 \<notin> set (proclist k)" using b by (simp add: born_def)
  have bc: "born p2 None None k' \<and> users k' = users k \<and> sig_users k' = sig_users k"
    by (rule born_cong[OF b' k'(1-4) _ x]) (use m in \<open>auto simp: k'(5-8)\<close>)
  have "procs k' y = procs k y" if "y \<in> set (proclist k)" for y using that p2 by (auto simp: k')
  then show ?thesis using b bc m unfolding k'_def[symmetric] by (simp add: born_def k')
qed

lemma born_sigacts:
  assumes b: "born p2 cr None k" and p1: "p1 \<in> set (proclist k)"
    and n: "\<And>a q. mem = Some a \<Longrightarrow> q \<in> set (proclist k) \<Longrightarrow> p_sigacts (procs k q) \<noteq> a"
  shows "\<exists>sg k'. fork_sigacts share mem p1 p2 k = Some (sg, k') \<and> born p2 cr sg k'"
proof -
  have t: "tree_ok k" and p2: "p2 \<notin> set (proclist k)" using b by (simp_all add: born_def tree_inv_def)
  let ?a1 = "p_sigacts (procs k p1)"
  have le: "int (card (sig_users k ?a1)) \<le> sigacts_links k ?a1" using t p1 by (simp add: tree_ok_def)
  have fin: "finite (sig_users k a)" for a by (simp add: sig_users_def)
  have "p1 \<in> sig_users k ?a1" using p1 by (simp add: sig_users_def)
  then have "0 < card (sig_users k ?a1)" using fin by (auto simp: card_gt_0_iff)
  then have pos: "0 < sigacts_links k ?a1" using le by linarith
  have step: "born p2 cr (Some a) (upd_proc p2 (\<lambda>x. x\<lparr>p_sigacts := a\<rparr>) (k\<lparr>sigacts := g, sigacts_links := (sigacts_links k)(a := m)\<rparr>))"
    if m: "int (card (sig_users k a)) + 1 \<le> m" for a g m by (rule born_link_sigacts[OF b m])
  show ?thesis
  proof (cases share)
    case True
    then show ?thesis using step[of ?a1 "sigacts_links k ?a1 + 1" "sigacts k"] le
      by (auto simp: fork_sigacts_def share_sigacts_def Let_def)
  next
    case False
    show ?thesis
    proof (cases mem)
      case None
      then show ?thesis using False b pos by (simp add: fork_sigacts_def copy_sigacts_def Let_def)
    next
      case (Some a)
      have "sig_users k a = {}" using n[OF Some] by (auto simp: sig_users_def)
      then show ?thesis using step[of a 1 "(sigacts k)(a := sigacts k ?a1)"] False Some pos
        by (simp add: fork_sigacts_def copy_sigacts_def Let_def)
    qed
  qed
qed

text \<open>Giving up: what was counted up is counted down.\<close>

lemma born_drop_cred:
  assumes b: "born p2 (Some c) sg k"
  shows "\<exists>r k'. free_cred (ucr (pcreds k c)) k = Some (r, k') \<and> born p2 None sg k'"
proof -
  let ?u = "ucr (pcreds k c)"
  have c: "int (card (users k ?u)) + 1 \<le> uc_links (ucreds k ?u)" using b by (simp add: born_def)
  define k' where "k' = upd_ucred ?u (\<lambda>x. x\<lparr>uc_links := uc_links x - 1\<rparr>) k"
  have k': "proclist k' = proclist k" "rootproc k' = rootproc k" "curproc k' = curproc k" "sysq k' = sysq k"
    "procs k' = procs k" "pcreds k' = pcreds k" "sigacts_links k' = sigacts_links k"
    "ucreds k' = (ucreds k)(?u := (ucreds k ?u)\<lparr>uc_links := uc_links (ucreds k ?u) - 1\<rparr>)"
    by (simp_all add: k'_def upd_ucred_def)
  have x: "procs k' p2 = (procs k p2)\<lparr>p_cred := p_cred (procs k p2), p_sigacts := p_sigacts (procs k p2)\<rparr>" by (simp add: k')
  have "born p2 None None k' \<and> users k' = users k \<and> sig_users k' = sig_users k"
    by (rule born_cong[OF b k'(1-4) _ x]) (use c in \<open>simp_all add: k'(5-8)\<close>)
  then have "born p2 None sg k'" using b by (simp add: born_def k')
  moreover have "free_cred ?u k = Some (if uc_links (ucreds k' ?u) = 0 then Some ?u else None, k')"
    using c by (simp add: free_cred_def k'_def[symmetric] Let_def)
  ultimately show ?thesis by blast
qed

lemma born_drop_sigacts:
  assumes b: "born p2 cr (Some a) k"
  shows "\<exists>k'. free_sigacts p2 k = Some k' \<and> born p2 cr None k'"
proof -
  have a: "p_sigacts (procs k p2) = a" "int (card (sig_users k a)) + 1 \<le> sigacts_links k a" using b by (simp_all add: born_def)
  define k' where "k' = k\<lparr>sigacts_links := (sigacts_links k)(a := sigacts_links k a - 1)\<rparr>"
  have k': "proclist k' = proclist k" "rootproc k' = rootproc k" "curproc k' = curproc k" "sysq k' = sysq k"
    "procs k' = procs k" "pcreds k' = pcreds k" "ucreds k' = ucreds k"
    "sigacts_links k' = (sigacts_links k)(a := sigacts_links k a - 1)"
    by (simp_all add: k'_def)
  have x: "procs k' p2 = (procs k p2)\<lparr>p_cred := p_cred (procs k p2), p_sigacts := p_sigacts (procs k p2)\<rparr>" by (simp add: k')
  have "born p2 None None k' \<and> users k' = users k \<and> sig_users k' = sig_users k"
    by (rule born_cong[OF b k'(1-4) _ x]) (use a in \<open>simp_all add: k'(5-8)\<close>)
  then have "born p2 cr None k'" using b by (simp add: born_def k')
  moreover have "free_sigacts p2 k = Some k'" using a by (simp add: free_sigacts_def k'_def Let_def)
  ultimately show ?thesis by blast
qed

section \<open>Entering the list of processes\<close>

lemma tree_ok_enter:
  assumes b: "born p (Some c) (Some a) k"
  shows "tree_ok (k\<lparr>proclist := p # proclist k\<rparr>)" (is "tree_ok ?k")
proof -
  have t: "tree_ok k" and p: "p \<notin> set (proclist k)" "0 \<le> pid (procs k p)"
      "\<forall>q \<in> set (proclist k). pid (procs k q) \<noteq> pid (procs k p)" "alive_pid k (ppid (procs k p))" "ptracer (procs k p) = None"
    and c: "p_cred (procs k p) = c" "\<forall>q \<in> set (proclist k). p_cred (procs k q) \<noteq> c" "pc_links (pcreds k c) = 1"
      "int (card (users k (ucr (pcreds k c)))) + 1 \<le> uc_links (ucreds k (ucr (pcreds k c)))"
      "length (groups (ucreds k (ucr (pcreds k c)))) = 8" "ngroups (ucreds k (ucr (pcreds k c))) \<le> 8"
    and a: "p_sigacts (procs k p) = a" "int (card (sig_users k a)) + 1 \<le> sigacts_links k a"
    using b by (simp_all add: born_def tree_inv_def)
  have cr: "creds_ok k" using t by (simp add: tree_ok_def)
  have dead: "is_dead ?k x = is_dead k x" "pcred_of ?k x = pcred_of k x" "ucred_of ?k x = ucred_of k x" for x
    by (simp_all add: is_dead_def pcred_of_def ucred_of_def)
  have alive: "alive_pid k n \<Longrightarrow> alive_pid ?k n" for n by (auto simp: alive_pid_def dead)
  have us: "users ?k u = (if ucr (pcreds k c) = u then insert p (users k u) else users k u)" for u
    by (auto simp: users_def dead) (simp_all add: pcred_of_def c(1))
  have su: "sig_users ?k b = (if b = a then insert p (sig_users k b) else sig_users k b)" for b
    by (auto simp: sig_users_def a(1))
  have np: "p \<notin> users k u" "p \<notin> sig_users k b" "finite (users k u)" "finite (sig_users k b)" for u b
    using p(1) by (simp_all add: users_def sig_users_def)
  have ul: "int (card (users ?k (ucr (pcred_of k x)))) \<le> uc_links (ucred_of k x)" if x: "x \<in> set (p # proclist k)" for x
  proof (cases "ucr (pcred_of k x) = ucr (pcreds k c)")
    case True
    then show ?thesis using c(4) np by (simp add: us ucred_of_def)
  next
    case False
    then have "x \<in> set (proclist k)" using x c(1) by (auto simp: pcred_of_def)
    then show ?thesis using False creds_okD(1)[OF cr] by (simp add: us)
  qed
  have sl: "int (card (sig_users ?k (p_sigacts (procs k x)))) \<le> sigacts_links k (p_sigacts (procs k x))"
    if x: "x \<in> set (p # proclist k)" for x
  proof (cases "p_sigacts (procs k x) = a")
    case True
    then show ?thesis using a(2) np by (simp add: su)
  next
    case False
    then have "x \<in> set (proclist k)" using x a(1) by auto
    then show ?thesis using False t by (simp add: su tree_ok_def)
  qed
  have "creds_ok ?k"
    using cr ul c unfolding creds_ok_def dead by (auto simp: ucred_of_def pcred_of_def)
  then show ?thesis
    using t p c sl alive unfolding tree_ok_def dead by (auto simp: pcred_of_def)
qed

lemma queues_ok_cons:
  assumes "queues_ok k"
  shows "queues_ok (k\<lparr>proclist := p # proclist k\<rparr>)"
proof -
  obtain Q where Q: "queues_rep k Q" "queues_known k Q" using assms by (auto simp: queues_ok_def)
  then show ?thesis
    using queues_rep_kernel[OF Q(1), of "k\<lparr>proclist := p # proclist k\<rparr>"]
    by (auto simp: queues_ok_def queues_known_def)
qed

lemma born_enter:
  fixes f g :: "u32 \<Rightarrow> u32"
  assumes b: "born p (Some c) (Some a) k"
  defines "k2 \<equiv> upd_cur (\<lambda>x. x\<lparr>p_sigmask := g (p_sigmask x)\<rparr>) (upd_proc p (\<lambda>x. x\<lparr>p_sigmask := f (p_sigmask x)\<rparr>) (k\<lparr>proclist := p # proclist k\<rparr>))"
  shows "\<exists>k'. add_q READY_Q p k2 = Some k' \<and> q_frame k2 k' \<and> tree_inv k' \<and> proclist k' = p # proclist k \<and>
    curproc k' = curproc k \<and> wait_q (procs k' p) = READY_Q \<and> (\<forall>x. x \<noteq> p \<longrightarrow> wait_q (procs k' x) = wait_q (procs k x))"
proof -
  let ?k = "k\<lparr>proclist := p # proclist k\<rparr>"
  have sc: "sched_inv k" and p: "p \<notin> set (proclist k)" using b by (simp_all add: born_def tree_inv_def)
  have q: "queues_ok k2" unfolding k2_def upd_cur_def
    using sc by (intro queues_ok_upd queues_ok_cons) (simp_all add: sched_inv_def)
  have t: "tree_ok k2" unfolding k2_def upd_cur_def by (intro tree_ok_upd tree_ok_enter[OF b]) simp_all
  have l: "proclist k2 = p # proclist k" "curproc k2 = curproc k" "rootproc k2 = rootproc k"
    by (simp_all add: k2_def upd_cur_def upd_proc_def)
  have w: "wait_q (procs k2 x) = wait_q (procs k x)" for x by (simp add: k2_def upd_cur_def)
  have "wait_q (procs k p) = CURPROC_Q" using known_proc[of k p] sc p by (auto simp: sched_inv_def)
  then have "idle_proc k2 p" by (simp add: idle_proc_def w)
  then obtain k' where k': "add_q READY_Q p k2 = Some k'" "queues_ok k'" "q_frame k2 k'"
    using add_q_ok[OF q, of p READY_Q] l(1) by auto
  note fr = q_frame_core[OF k'(3)]
  have w': "wait_q (procs k' x) = (if x = p then READY_Q else wait_q (procs k x))" for x
    by (simp add: add_q_wait_q[OF k'(1)] w)
  have cur: "curproc k \<noteq> p" "curproc k \<in> set (proclist k)" using sc p by (auto simp: sched_inv_def)
  have "same_kin k2 k'"
  proof (rule q_frame_same_kin[OF k'(3)])
    fix x
    show "wait_q (procs k' x) = wait_q (procs k2 x) \<or> \<not> is_dead k2 x \<and> wait_q (procs k' x) \<noteq> ZOMBIE_Q \<and> wait_q (procs k' x) \<noteq> TSR_Q"
      using \<open>idle_proc k2 p\<close> by (auto simp: w' w idle_proc_def is_dead_def)
  qed
  then have "tree_ok k'" by (rule tree_ok_kin[OF t]) (use cur in \<open>simp add: fr(16) l\<close>)
  moreover have "sched_inv k'"
  proof -
    have i: "idle_proc k' x \<longleftrightarrow> x \<noteq> p \<and> idle_proc k x" for x by (simp add: idle_proc_def w')
    have s: "proclist k' = p # proclist k" "curproc k' = curproc k" "rootproc k' = rootproc k" by (simp_all only: fr(15-17) l)
    have "idle_proc k (curproc k)" "rootproc k \<in> set (proclist k)" using sc by (simp_all add: sched_inv_def)
    moreover have "\<forall>x \<in> set (proclist k). idle_proc k x \<longrightarrow> x = curproc k" using sc unfolding sched_inv_def by blast
    ultimately show ?thesis using k'(2) cur unfolding sched_inv_def s i set_simps by blast
  qed
  ultimately have "tree_inv k'" by (simp add: tree_inv_def)
  then show ?thesis using k'(1,3) by (intro exI[of _ k']) (simp add: fr(15,16) l w')
qed

section \<open>Copying the parts of a process is calm\<close>

lemma copy_slots_kern: "copy_slots d xs s = Some s' \<Longrightarrow> kern s' = kern s"
proof (induction xs arbitrary: s)
  case (Cons i xs)
  then obtain s1 where "kern s1 = kern s" "copy_slots d xs s1 = Some s'"
    by (auto simp: Let_def split: bind_splits if_splits dest: kern_simps(1,2))
  then show ?case using Cons.IH by simp
qed simp

lemma fork_fd_kern: "fork_fd share mem p1 p2 s = Some s' \<Longrightarrow> kern s' = kern s"
  by (auto simp: fork_fd_def share_fd_def copy_fd_def Let_def simp del: copy_slots.simps
      split: bind_splits if_splits option.splits dest!: copy_slots_kern)

lemma share_mem_lk: "share_mem p s = Some (m, s') \<Longrightarrow> lk s' = lk s"
  by (auto simp: share_mem_def split: option.splits)

lemma share_cwd_lk: "share_cwd p s = Some (c, s') \<Longrightarrow> lk s' = lk s"
  by (auto simp: share_cwd_def split: bind_splits)

lemma copy_dirs_calm:
  "copy_dirs env org xs c s = (c', s') \<Longrightarrow> calm_life env \<Longrightarrow> calm (lk s) (lk s')"
proof (induction xs arbitrary: c s)
  case (Cons i xs)
  obtain r s1 d s2 where s: "dup_cookie env (root org i) s = (r, s1)" "dup_cookie env (curdir org i) s1 = (d, s2)"
    by fastforce
  note c = dup_cookie_calm[OF Cons.prems(2) s(1)] dup_cookie_calm[OF Cons.prems(2) s(2)]
  show ?case using Cons.IH[OF _ Cons.prems(2)] Cons.prems(1) s calm_trans[OF calm_trans[OF c]] by auto
qed simp

lemma copy_cwd_calm:
  assumes env: "calm_life env" and r: "copy_cwd env p s = Some (a, s')"
  shows "calm (lk s) (lk s')"
proof -
  have root: "calm (lk s) (lk s1)" if "copy_root_dir env org c s = Some (r, s1)" for org c r s1
    using that dup_cookie_calm[OF env, of "rootdir org" s] by (auto simp: copy_root_dir_def split: if_splits bind_splits prod.splits)
  have dirs: "calm (lk s) (lk s2)" if "copy_root_dir env org c s = Some (r, s1)" "copy_dirs env org xs c' s1 = (c'', s2)"
    for org c r s1 s2 xs c' c''
    using calm_trans[OF root[OF that(1)] copy_dirs_calm[OF that(2) env]] .
  show ?thesis using r root dirs by (auto simp: copy_cwd_def Let_def split: bind_splits if_splits option.splits prod.splits)
qed

lemma share_loop_calm:
  "share_loop env es t s = Some (t', s') \<Longrightarrow> lk s' = lk s"
proof (induction es arbitrary: t s)
  case (Cons e es)
  show ?case
    using Cons.prems Cons.IH
    by (auto simp: new_proc_ext_def set_ext_def Let_def split: bind_splits if_splits option.splits prod.splits)
qed simp

lemma share_calls_calm: "share_calls env p p2 es s = Some s' \<Longrightarrow> calm_life env \<Longrightarrow> calm (lk s) (lk s')"
proof (induction es arbitrary: s)
  case (Cons e es)
  obtain x where x: "exts s e = Some x" "share_calls env p p2 es (call_back env x (Ext_share p p2) s) = Some s'"
    using Cons.prems(1) by (auto split: bind_splits)
  show ?case using calm_trans[OF call_back_calm[OF Cons.prems(2)] Cons.IH[OF x(2) Cons.prems(2)]] .
qed simp

lemma share_ext_calm:
  assumes env: "calm_life env" and r: "share_ext env p p2 s = Some s'"
  shows "calm (lk s) (lk s')"
proof -
  have "calm (lk s) (lk s1)" if "share_loop env es t s0 = Some (t', s2)" "lk s0 = lk s"
    "share_calls env p p2 es' s3 = Some s1" "lk s3 = lk s2" for es t s0 t' s2 es' s3 s1
    using share_calls_calm[OF that(3) env] share_loop_calm[OF that(1)] that(2,4) by simp
  then show ?thesis
    using r share_loop_calm
    by (fastforce simp: share_ext_def set_tab_def Let_def split: bind_splits if_splits option.splits)
qed

section \<open>Creating a process\<close>

text \<open>What \<open>kmalloc\<close> returns is in use by no process.\<close>

definition fresh_life :: "life_env \<Rightarrow> bool" where
  "fresh_life env \<longleftrightarrow> (\<forall>s. (\<forall>p. l_mem env 10 s = Some p \<longrightarrow> p \<notin> set (proclist (lk s))) \<and>
     (\<forall>c. l_mem env 12 s = Some c \<longrightarrow> (\<forall>q \<in> set (proclist (lk s)). p_cred (procs (lk s) q) \<noteq> c)) \<and>
     (\<forall>a. l_mem env 14 s = Some a \<longrightarrow> (\<forall>q \<in> set (proclist (lk s)). p_sigacts (procs (lk s) q) \<noteq> a)))"

lemma in_fds_Some: "in_fds g s = Some s' \<longleftrightarrow> (\<exists>f. g (fds s) = Some f \<and> s' = s\<lparr>fds := f\<rparr>)"
  by (auto simp: in_fds_def split: option.splits)

lemma in_kern_Some: "in_kern g s = Some s' \<longleftrightarrow> (\<exists>k. g (lk s) = Some k \<and> s' = upd_kern (\<lambda>_. k) s)"
  by (auto simp: in_kern_def upd_kern_def split: option.splits)

lemma lk_simps [simp]: "lk (upd_kern g s) = g (lk s)" "lk (upd_more p h s) = lk s"
  by (simp_all add: upd_kern_def upd_more_def)

text \<open>The dead stay as they are.\<close>

definition keeps_dead :: "kernel \<Rightarrow> kernel \<Rightarrow> bool" where
  "keeps_dead k k' \<longleftrightarrow> (\<forall>x \<in> set (proclist k). is_dead k x \<longrightarrow>
     x \<in> set (proclist k') \<and> proc_core (procs k' x) = proc_core (procs k x) \<and> wait_q (procs k' x) = wait_q (procs k x))"

lemma keeps_dead_refl [simp]: "keeps_dead k k"
  by (simp add: keeps_dead_def)

lemma keeps_dead_trans: "keeps_dead a b \<Longrightarrow> keeps_dead b c \<Longrightarrow> keeps_dead a c"
  by (simp add: keeps_dead_def is_dead_def)

lemma calm_keeps_dead: "calm k k' \<Longrightarrow> keeps_dead k k'"
  using same_kinD(1,12,13)[of k k'] by (simp add: keeps_dead_def calm_def)

lemma keeps_dead_out:
  assumes "p \<notin> set (proclist k)" "proclist k' = proclist k" "\<And>x. x \<noteq> p \<Longrightarrow> procs k' x = procs k x"
  shows "keeps_dead k k'"
  unfolding keeps_dead_def assms(2)
proof (intro ballI impI)
  fix x assume x: "x \<in> set (proclist k)"
  then have "procs k' x = procs k x" using assms(1,3) by metis
  then show "x \<in> set (proclist k) \<and> proc_core (procs k' x) = proc_core (procs k x) \<and> wait_q (procs k' x) = wait_q (procs k x)"
    using x by simp
qed

lemma free_cred_procs: "free_cred u k = Some (x, k') \<Longrightarrow> procs k' = procs k \<and> proclist k' = proclist k"
  by (auto simp: free_cred_def Let_def upd_ucred_def split: if_splits)

lemma free_sigacts_procs: "free_sigacts p k = Some k' \<Longrightarrow> procs k' = procs k \<and> proclist k' = proclist k"
  by (auto simp: free_sigacts_def Let_def split: if_splits)

lemma fork_nomem_born:
  assumes env: "calm_life env" and b: "born p2 cr sg (lk s)" and r: "fork_nomem env p2 cr sg s = Some s'"
  shows "born p2 None None (lk s') \<and> keeps_dead (lk s) (lk s')"
proof -
  obtain s1 s2 s3 s4 where s: "(if p_mem s p2 \<noteq> None then free_mem env p2 s else Some s) = Some s1"
    "(case cr of None \<Rightarrow> Some s1 | Some c \<Rightarrow> in_kern (\<lambda>k. map_option snd (free_cred (ucr (pcreds k c)) k)) s1) = Some s2"
    "(if p_fd (fds s2) p2 \<noteq> None then in_fds (free_fd (l_fenv env) p2) s2 else Some s2) = Some s3"
    "(if p_cwd s3 p2 \<noteq> None then free_cwd env p2 s3 else Some s3) = Some s4"
    "(if sg \<noteq> None then in_kern (free_sigacts p2) s4 else Some s4) = Some s'"
    using r unfolding fork_nomem_def by (auto split: bind_splits)
  have c1: "calm (lk s) (lk s1)" using free_mem_calm[OF env] s(1) by (auto split: if_splits)
  then have 1: "born p2 cr sg (lk s1)" by (rule born_calm[OF b])
  have 2: "born p2 None sg (lk s2) \<and> keeps_dead (lk s1) (lk s2)"
  proof (cases cr)
    case None
    then show ?thesis using 1 s(2) by simp
  next
    case (Some c)
    then obtain x k2 where k2: "free_cred (ucr (pcreds (lk s1) c)) (lk s1) = Some (x, k2)" "lk s2 = k2" "born p2 None sg k2"
      using born_drop_cred[of p2 c sg "lk s1"] 1 s(2) by (auto simp: in_kern_Some)
    then have "procs k2 = procs (lk s1)" "proclist k2 = proclist (lk s1)"
      using free_cred_procs[OF k2(1)] by simp_all
    then show ?thesis using k2 by (simp add: keeps_dead_def)
  qed
  have "calm (lk s2) (lk s3)"
    using s(3) free_fd_calm[OF calm_lifeD(1)[OF env]] by (auto simp: in_fds_Some split: if_splits)
  moreover have "calm (lk s3) (lk s4)" using s(4) free_cwd_calm[OF env] by (auto split: if_splits)
  ultimately have c4: "calm (lk s2) (lk s4)" by (rule calm_trans)
  then have 4: "born p2 None sg (lk s4)" using born_calm 2 by blast
  have "keeps_dead (lk s) (lk s4)" using calm_keeps_dead[OF c1] calm_keeps_dead[OF c4] 2 keeps_dead_trans by blast
  moreover have "born p2 None None (lk s') \<and> keeps_dead (lk s4) (lk s')"
  proof (cases sg)
    case None
    then show ?thesis using 4 s(5) by simp
  next
    case (Some a)
    then obtain k5 where k5: "free_sigacts p2 (lk s4) = Some k5" "lk s' = k5" "born p2 None None k5"
      using born_drop_sigacts[of p2 None a "lk s4"] 4 s(5) by (auto simp: in_kern_Some)
    then have "procs k5 = procs (lk s4)" "proclist k5 = proclist (lk s4)"
      using free_sigacts_procs[OF k5(1)] by simp_all
    then show ?thesis using k5 by (simp add: keeps_dead_def)
  qed
  ultimately show ?thesis using keeps_dead_trans by blast
qed

lemma fork_hook_born:
  assumes env: "calm_life env" and b: "born p2 cr sg (lk s)" and r: "fork_hook env p1 p2 flags s = Some s'"
  shows "\<exists>k. born p2 cr sg k \<and> keeps_dead (lk s) k \<and> lk s' = k\<lparr>proclist := p2 # proclist k\<rparr>"
proof -
  obtain c s1 where s1: "dup_cookie env (exe (pmore s p1)) s = (c, s1)" by fastforce
  obtain s2 where s2: "proc_ext_on_fork env p1 flags p2 (upd_more p2 (\<lambda>x. x\<lparr>exe := c, started := xtime s1\<rparr>) s1) = Some s2"
    "lk s' = (let k = lk (if flags AND FORK_SHAREVM = 0 then l_page_table env p2 s2 else s2) in k\<lparr>proclist := p2 # proclist k\<rparr>)"
    using r s1 by (auto simp: fork_hook_def Let_def split: bind_splits)
  have "calm (lk s) (lk s1)" by (rule dup_cookie_calm[OF env s1])
  moreover have "calm (lk s1) (lk s2)"
    using proc_ext_on_calm[OF env] s2(1) by (fastforce simp: proc_ext_on_fork_def)
  moreover have "calm (lk s2) (lk (l_page_table env p2 s2))" by (rule calm_lifeD(7)[OF env])
  ultimately have c: "calm (lk s) (lk (if flags AND FORK_SHAREVM = 0 then l_page_table env p2 s2 else s2))"
    by (auto intro: calm_trans)
  then have "born p2 cr sg (lk (if flags AND FORK_SHAREVM = 0 then l_page_table env p2 s2 else s2))" by (rule born_calm[OF b])
  then show ?thesis using s2(2) calm_keeps_dead[OF c] unfolding Let_def by blast
qed

definition forked :: "pptr \<Rightarrow> (int + pptr) \<Rightarrow> kernel \<Rightarrow> kernel \<Rightarrow> bool" where
  "forked p2 r k0 k \<longleftrightarrow>
     (case r of
        Inl e \<Rightarrow> tree_inv k \<and> keeps_dead k0 k
      | Inr p \<Rightarrow> p = p2 \<and>
          (\<exists>c a k1. born p2 (Some c) (Some a) k1 \<and> keeps_dead k0 k1 \<and> k = k1\<lparr>proclist := p2 # proclist k1\<rparr>))"

lemma fork_parts_born:
  assumes env: "calm_life env" "fresh_life env" and b: "born p2 None None (lk s)"
    and p1: "p1 \<in> set (proclist (lk s))" and r: "fork_parts env p1 p2 flags s = Some (r, s')"
  shows "forked p2 r (lk s) (lk s')"
proof -
  obtain m s1 where m: "(if flags AND FORK_SHAREVM \<noteq> 0 then share_mem p1 s else Some (l_copy_mem env p1 s)) = Some (m, s1)"
    using r unfolding fork_parts_def by (auto split: bind_splits)
  define s2 where "s2 = s1\<lparr>p_mem := (p_mem s1)(p2 := m)\<rparr>"
  define cr where "cr = l_mem env 12 s2"
  define s3 where "s3 = upd_kern (fork_cred cr p1 p2) s2"
  obtain s4 where s4: "in_fds (fork_fd (flags AND FORK_SHAREFILES \<noteq> 0) (l_mem env 13 s3) p1 p2) s3 = Some s4"
    using r m unfolding fork_parts_def Let_def s2_def cr_def s3_def by (auto split: bind_splits)
  obtain c s5 where c: "(if flags AND FORK_SHARECWD \<noteq> 0 then share_cwd p1 s4 else copy_cwd env p1 s4) = Some (c, s5)"
    using r m s4 unfolding fork_parts_def Let_def s2_def cr_def s3_def by (auto split: bind_splits)
  define s6 where "s6 = s5\<lparr>p_cwd := (p_cwd s5)(p2 := c)\<rparr>"
  obtain sg k where sg: "fork_sigacts (flags AND FORK_SHARESIGS \<noteq> 0) (l_mem env 14 s6) p1 p2 (lk s6) = Some (sg, k)"
    using r m s4 c unfolding fork_parts_def Let_def s2_def cr_def s3_def s6_def by (auto split: bind_splits)
  define s7 where "s7 = upd_kern (\<lambda>_. k) s6"
  obtain s8 where s8: "(if flags AND FORK_SHAREEXT \<noteq> 0 then share_ext env p1 p2 s7
      else Some (s7\<lparr>p_ext := (p_ext s7)(p2 := None)\<rparr>)) = Some s8"
    using r m s4 c sg unfolding fork_parts_def Let_def s2_def cr_def s3_def s6_def s7_def by (auto split: bind_splits)
  have last: "(if p_mem s8 p2 = None \<or> cr = None \<or> p_fd (fds s8) p2 = None \<or> p_cwd s8 p2 = None \<or> sg = None
      then map_option (Pair (Inl ENOMEM)) (fork_nomem env p2 cr sg s8)
      else map_option (Pair (Inr p2)) (fork_hook env p1 p2 flags s8)) = Some (r, s')"
    using r m s4 c sg s8 unfolding fork_parts_def Let_def s2_def cr_def s3_def s6_def s7_def by simp
  have p2: "p2 \<notin> set (proclist (lk s))" using b by (simp add: born_def)
  have c1: "calm (lk s) (lk s1)" using m calm_lifeD(6)[OF env(1), of s p1] share_mem_lk by (fastforce split: if_splits)
  then have 2: "born p2 None None (lk s2)" and c2: "proclist (lk s2) = proclist (lk s)"
    using born_calm[OF b] same_kinD(1)[of "lk s" "lk s1"] by (simp_all add: s2_def calm_def)
  have 3: "born p2 cr None (lk s3)" unfolding s3_def lk_simps
    by (rule born_cred[OF 2]) (use env(2) p1 in \<open>auto simp: c2 cr_def fresh_life_def\<close>)
  have c3: "proclist (lk s3) = proclist (lk s)"
    by (simp add: s3_def c2 fork_cred_def Let_def upd_pcred_def upd_ucred_def upd_proc_def split: option.split)
  have k3: "keeps_dead (lk s2) (lk s3)"
    by (rule keeps_dead_out[of p2]) (use p2 c2 c3 in \<open>auto simp: s3_def fork_cred_def Let_def upd_proc_def split: option.splits\<close>)
  have l4: "lk s4 = lk s3" using s4 fork_fd_kern by (auto simp: in_fds_Some)
  have c5: "calm (lk s4) (lk s5)" using c copy_cwd_calm[OF env(1)] share_cwd_lk by (fastforce split: if_splits)
  then have 6: "born p2 cr None (lk s6)" and c6: "proclist (lk s6) = proclist (lk s)"
    using born_calm[of p2 cr None "lk s4" "lk s5"] 3 c3 same_kinD(1)[of "lk s4" "lk s5"] by (simp_all add: s6_def calm_def l4)
  have 7: "born p2 cr sg (lk s7)"
    using born_sigacts[OF 6, of p1 "l_mem env 14 s6" "flags AND FORK_SHARESIGS \<noteq> 0"] env(2) p1 sg
    by (auto simp: s7_def c6 fresh_life_def)
  have "proclist k = proclist (lk s6) \<and> (\<forall>x. x \<noteq> p2 \<longrightarrow> procs k x = procs (lk s6) x)"
    using sg by (auto simp: fork_sigacts_def share_sigacts_def copy_sigacts_def Let_def upd_proc_def split: if_splits bind_splits option.splits)
  then have k7: "keeps_dead (lk s6) (lk s7)" using p2 c6 by (intro keeps_dead_out[of p2]) (simp_all add: s7_def)
  have c8: "calm (lk s7) (lk s8)" using s8 share_ext_calm[OF env(1)] by (auto split: if_splits)
  then have 8: "born p2 cr sg (lk s8)" by (rule born_calm[OF 7])
  have "keeps_dead (lk s) (lk s3)" using keeps_dead_trans[OF calm_keeps_dead[OF c1]] k3 by (simp add: s2_def)
  moreover have "keeps_dead (lk s3) (lk s7)" using keeps_dead_trans[OF calm_keeps_dead[OF c5]] k7 by (simp add: s6_def l4)
  ultimately have k8: "keeps_dead (lk s) (lk s8)" using keeps_dead_trans calm_keeps_dead[OF c8] by blast
  show ?thesis
  proof (cases "p_mem s8 p2 = None \<or> cr = None \<or> p_fd (fds s8) p2 = None \<or> p_cwd s8 p2 = None \<or> sg = None")
    case True
    then have "r = Inl ENOMEM" "born p2 None None (lk s') \<and> keeps_dead (lk s8) (lk s')"
      using last fork_nomem_born[OF env(1) 8] by auto
    then show ?thesis using keeps_dead_trans[OF k8] by (simp add: forked_def born_def)
  next
    case False
    then obtain c a where ca: "cr = Some c" "sg = Some a" by auto
    have r: "r = Inr p2" and h: "fork_hook env p1 p2 flags s8 = Some s'" using last False by auto
    obtain k1 where "born p2 (Some c) (Some a) k1" "keeps_dead (lk s8) k1" "lk s' = k1\<lparr>proclist := p2 # proclist k1\<rparr>"
      using fork_hook_born[OF env(1) 8 h] by (auto simp: ca)
    then show ?thesis using keeps_dead_trans[OF k8] r by (auto simp: forked_def)
  qed
qed

lemma fork_proc_born:
  assumes env: "calm_life env" "fresh_life env" and inv: "tree_inv (lk s)" and mp: "1 \<le> maxpid s" "maxpid s < MAXPID"
    and r: "fork_proc env flags s = Some (r, s')"
  shows "\<exists>p2. forked p2 r (lk s) (lk s')"
proof (cases "l_mem env 10 s")
  case None
  then show ?thesis using r inv by (auto simp: fork_proc_def fork_proc1_def forked_def)
next
  case (Some p2)
  let ?p1 = "curproc (lk s)"
  have p2: "p2 \<notin> set (proclist (lk s))" using env(2) Some by (simp add: fresh_life_def)
  obtain n s1 where n: "newpid s = Some (n, s1)" using r Some by (auto simp: fork_proc_def fork_proc1_def split: bind_splits)
  have free: "pid2proc n (lk s) = None" "0 \<le> n" "lk s1 = lk s"
    using newpid_loop_Some[of 2 "maxpid s" "lk s" n] n mp by (auto simp: newpid_def)
  define s2 where "s2 = fork_new ?p1 p2 n s1"
  have l2: "lk s2 = upd_proc p2 (\<lambda>_. fork_fields n (procs (lk s) ?p1)) (lk s)"
    by (simp add: s2_def fork_new_def Let_def free(3) upd_kern_def)
  have 2: "born p2 None None (lk s2)" unfolding l2 by (rule born_new[OF inv p2 free(1,2) refl])
  have k2: "keeps_dead (lk s) (lk s2)" by (rule keeps_dead_out[OF p2]) (simp_all add: l2 upd_proc_def)
  have p1: "?p1 \<in> set (proclist (lk s2))" using inv by (simp add: l2 upd_proc_def tree_inv_def sched_inv_def)
  let ?line = "fork_cmdline (l_mem env 11 s2 \<noteq> None) (p_flag (procs (lk s2) ?p1) AND P_FLAG_SYS \<noteq> 0) (real_cmdline (pmore s2 ?p1))"
  have eq: "(case ?line of None \<Rightarrow> Some (Inl ENOMEM, s2)
      | Some line \<Rightarrow> fork_parts env ?p1 p2 flags (upd_more p2 (\<lambda>x. x\<lparr>real_cmdline := line\<rparr>) s2)) = Some (r, s')"
    using r Some n unfolding s2_def by (simp add: fork_proc_def fork_proc1_def Let_def)
  show ?thesis
  proof (cases ?line)
    case None
    then show ?thesis using eq 2 k2 by (auto simp: forked_def born_def)
  next
    case (Some line)
    define s3 where "s3 = upd_more p2 (\<lambda>x. x\<lparr>real_cmdline := line\<rparr>) s2"
    have l3: "lk s3 = lk s2" by (simp add: s3_def)
    have "forked p2 r (lk s3) (lk s')"
      by (rule fork_parts_born[OF env, of p2 s3 ?p1 flags]) (use eq Some 2 p1 in \<open>simp_all add: l3\<close>, simp add: s3_def)
    then show ?thesis using keeps_dead_trans[OF k2] unfolding l3 by (auto simp: forked_def split: sum.splits)
  qed
qed

section \<open>\<open>Pvfork\<close>\<close>

lemma asleep_keeps_dead:
  assumes "asleep q cond k k'" "\<not> is_dead k (curproc k)"
  shows "keeps_dead k k'"
  unfolding keeps_dead_def
proof (intro ballI impI)
  fix x assume x: "x \<in> set (proclist k)" "is_dead k x"
  then have "x \<noteq> curproc k" using assms(2) by auto
  then show "x \<in> set (proclist k') \<and> proc_core (procs k' x) = proc_core (procs k x) \<and> wait_q (procs k' x) = wait_q (procs k x)"
    using assms(1) x by (simp add: asleep_def same_lists_def)
qed

text \<open>Going to sleep on a queue of the living.\<close>

lemma sleep_tree:
  assumes r: "sleep env ints_on que cond k = Some r" and env: "calm_env env" and inv: "tree_inv k"
    and que: "que mod 256 \<notin> {CURPROC_Q, ZOMBIE_Q, TSR_Q}"
  shows "\<exists>k'. (r = Switch k' \<or> (\<exists>b. r = Stay b k')) \<and> tree_inv k' \<and> keeps_dead k k' \<and> same_lists k k' \<and>
    (\<forall>x. kin (procs k' x) = kin (procs k x))"
proof -
  have t: "tree_ok k" and sc: "sched_inv k" using inv by (simp_all add: tree_inv_def)
  have root: "\<not> is_dead k (rootproc k)" and cur: "\<not> is_dead k (curproc k)"
    using t sc by (simp_all add: tree_ok_def sched_inv_def idle_proc_def is_dead_def)
  consider (stay) b k1 where "r = Stay b k1" "calm k k1" | (switch) k' where "r = Switch k'"
    using sleep_cases[OF r env sc] by blast
  then show ?thesis
  proof cases
    case stay
    then show ?thesis using tree_inv_calm[OF inv stay(2)] calm_keeps_dead[OF stay(2)]
      by (auto simp: calm_def same_kin_def)
  next
    case switch
    have "que mod 256 \<noteq> CURPROC_Q" "que mod 256 = ZOMBIE_Q \<or> que mod 256 = TSR_Q \<Longrightarrow> curproc k \<noteq> rootproc k"
      using que by auto
    then have s: "sched_inv k'" "asleep (que mod 256) cond k k' \<or> asleep READY_Q cond k k'"
      using sleep_asleep[OF r[unfolded switch] env sc _ root] by blast+
    then obtain q where a: "asleep q cond k k'" "q \<noteq> ZOMBIE_Q" "q \<noteq> TSR_Q" using que by (metis insertCI numeral_eq_one_iff semiring_norm(85,86))
    have "is_dead k' x = is_dead k x" for x using a cur by (simp add: asleep_def)
    moreover have "proc_core (procs k' x) = proc_core (procs k x) \<and> wait_q (procs k' x) = wait_q (procs k x)"
      if d: "is_dead k x" for x
    proof -
      have "x \<noteq> curproc k" using d cur by auto
      then show ?thesis using a(1) d unfolding asleep_def by blast
    qed
    moreover have "same_lists k k'" "\<forall>x. kin (procs k' x) = kin (procs k x)" using a(1) by (simp_all add: asleep_def)
    ultimately have "same_kin k k'" by (simp add: same_kin_def)
    then have "tree_ok k'" by (rule tree_ok_kin[OF t]) (use s(1) a(1) in \<open>simp add: sched_inv_def asleep_def same_lists_def\<close>)
    then show ?thesis using switch s(1) asleep_keeps_dead[OF a(1) cur] a(1) by (auto simp: tree_inv_def asleep_def)
  qed
qed

definition vfork_state :: "vfork_out \<Rightarrow> lstate" where
  "vfork_state r = (case r of Vfork_failed e s \<Rightarrow> s | Vfork_waits p m s \<Rightarrow> s | Vfork_goes_on p m s \<Rightarrow> s)"

lemma sys_pvfork_tree:
  assumes env: "calm_life env" "fresh_life env" and inv: "tree_inv (lk s)" and mp: "1 \<le> maxpid s" "maxpid s < MAXPID"
    and r: "sys_pvfork env s = Some out"
  shows "tree_inv (lk (vfork_state out)) \<and> keeps_dead (lk s) (lk (vfork_state out))"
proof -
  obtain r1 s1 where r1: "fork_proc env FORK_SHAREEXT s = Some (r1, s1)" using r by (auto simp: sys_pvfork_def split: bind_splits)
  obtain p2 where f: "forked p2 r1 (lk s) (lk s1)" using fork_proc_born[OF env inv mp r1] by blast
  show ?thesis
  proof (cases r1)
    case (Inl e)
    then show ?thesis using r r1 f by (auto simp: sys_pvfork_def forked_def vfork_state_def)
  next
    case (Inr p)
    then obtain c a k1 where b: "p = p2" "born p2 (Some c) (Some a) k1" "keeps_dead (lk s) k1"
      "lk s1 = k1\<lparr>proclist := p2 # proclist k1\<rparr>" using f by (auto simp: forked_def)
    define k2 where "k2 = upd_cur (\<lambda>x. x\<lparr>p_sigmask := vfork_mask\<rparr>)
      (upd_proc p2 (\<lambda>x. x\<lparr>p_sigmask := p_sigmask x OR job_signals\<rparr>) (k1\<lparr>proclist := p2 # proclist k1\<rparr>))"
    obtain k3 where k3: "add_q READY_Q p2 k2 = Some k3" "q_frame k2 k3" "tree_inv k3" "proclist k3 = p2 # proclist k1"
      "\<forall>x. x \<noteq> p2 \<longrightarrow> wait_q (procs k3 x) = wait_q (procs k1 x)"
      using born_enter[OF b(2), of "\<lambda>_. vfork_mask" "\<lambda>m. m OR job_signals"] unfolding k2_def by blast
    obtain m s2 res where res: "sleep (l_sleep env) False WAIT_Q (of_nat p2) k3 = Some res"
      "out = (case res of Switch k \<Rightarrow> Vfork_waits p2 m (upd_kern (\<lambda>_. k) s2) | Stay _ k \<Rightarrow> Vfork_goes_on p2 m (upd_kern (\<lambda>_. k) s2))"
      using r r1 Inr b(1,4) k3(1)
      by (auto simp: sys_pvfork_def Let_def k2_def split: bind_splits if_splits sleep_result.splits)
    obtain k4 where k4: "res = Switch k4 \<or> (\<exists>b. res = Stay b k4)" "tree_inv k4" "keeps_dead k3 k4"
      using sleep_tree[OF res(1) calm_lifeD(2)[OF env(1)] k3(3)] by auto
    have out: "lk (vfork_state out) = k4" using res(2) k4(1) by (auto simp: vfork_state_def)
    have "keeps_dead k1 k3" unfolding keeps_dead_def
    proof (intro ballI impI)
      fix x assume x: "x \<in> set (proclist k1)" "is_dead k1 x"
      have p2: "p2 \<notin> set (proclist k1)" and cur: "\<not> is_dead k1 (curproc k1)"
        using b(2) by (simp_all add: born_def tree_inv_def sched_inv_def idle_proc_def is_dead_def)
      have "x \<noteq> p2" "x \<noteq> curproc k1" using x p2 cur by auto
      then have "procs k2 x = procs k1 x" by (simp add: k2_def upd_cur_def)
      moreover have "proc_core (procs k3 x) = proc_core (procs k2 x)" using k3(2) by (simp add: q_frame_def)
      ultimately show "x \<in> set (proclist k3) \<and> proc_core (procs k3 x) = proc_core (procs k1 x) \<and> wait_q (procs k3 x) = wait_q (procs k1 x)"
        using x k3(4,5) \<open>x \<noteq> p2\<close> by simp
    qed
    then show ?thesis using k4(2,3) b(3) keeps_dead_trans unfolding out by blast
  qed
qed

end
