(* ===== verification/Proc_Steps.thy ===== *)
theory Proc_Steps
  imports Proc_Birth
begin

text \<open>
  The life of processes as a step relation (\<open>life_step\<close>): processes end, wait, are created, sleep, or do
  something that concerns no tree. Every step keeps the tree in order; the dead stay what they are until
  their status is taken.
\<close>

section \<open>The end of a process\<close>

lemma move_q_iwake: "move_q q r p k = Some k' \<Longrightarrow> iwakecond k' = iwakecond k"
  using q_frame_core(25)[OF move_q_facts(1)] .

lemma post_sig_iwake: "post_sig p sig k = Some k' \<Longrightarrow> iwakecond k' = iwakecond k"
  using move_q_iwake by (fastforce simp: post_sig_def Let_def upd_proc_def split: if_splits)

lemma orphan_loop_iwake: "orphan_loop p i qs w k = Some (b, k') \<Longrightarrow> iwakecond k' = iwakecond k"
proof (induction qs arbitrary: w k)
  case (Cons q qs)
  obtain k1 where k1: "orphan p i q k = Some k1" "iwakecond k' = iwakecond k1"
    using Cons.prems Cons.IH by (auto simp: Let_def split: option.splits)
  then have "iwakecond k1 = iwakecond k"
    using post_sig_iwake by (fastforce simp: orphan_def Let_def upd_proc_def split: if_splits)
  then show ?case using k1(2) by simp
qed simp

lemma ignore_signals_iwake: "iwakecond (ignore_signals p k) = iwakecond k"
proof -
  have "iwakecond (fold (\<lambda>i. upd_sigact p i (\<lambda>a. a\<lparr>sa_handler := SIG_IGN\<rparr>)) xs k) = iwakecond k" for xs
    by (induction xs arbitrary: k) (simp_all add: upd_sigact_def Let_def)
  then show ?thesis by (simp add: ignore_signals_def)
qed

lemma term_notify_iwake:
  assumes "term_notify a p k = Some k'"
  shows "iwakecond k' = iwakecond k"
proof -
  obtain q k1 k2 k3 w k4 k5 where s: "wake_parent a p q k = Some k1"
    "(case ptracer (procs k1 p) of Some t \<Rightarrow> if t \<noteq> q then post_sig t SIGCHLD k1 else Some k1 | None \<Rightarrow> Some k1) = Some k2"
    "post_sig q SIGCHLD k2 = Some k3" "orphan_loop p (pid (procs k3 p)) (proclist k3) False k3 = Some (w, k4)"
    "(if w \<or> p_flag (procs k4 p) AND P_FLAG_SLB \<noteq> 0 then wake_root k4 else Some k4) = Some k5" "k' = ignore_signals p k5"
    using assms by (auto simp: term_notify_def split: bind_splits)
  have "iwakecond k1 = iwakecond k" using s(1) move_q_iwake by (auto simp: wake_parent_def split: if_splits)
  moreover have "iwakecond k2 = iwakecond k1" using s(2) post_sig_iwake by (auto split: option.splits if_splits)
  moreover have "iwakecond k5 = iwakecond k4" using s(5) move_q_iwake by (auto simp: wake_root_def split: if_splits)
  ultimately show ?thesis using post_sig_iwake[OF s(3)] orphan_loop_iwake[OF s(4)] s(6) ignore_signals_iwake by simp
qed

text \<open>Before \<open>terminate\<close> goes to sleep.\<close>

lemma terminate_notified:
  assumes env: "calm_life env" and inv: "tree_inv (lk s)" and p: "p = curproc (lk s)"
    and s1: "term_release env p code que s = Some s1"
  shows "\<exists>q k1. tree_inv (lk s1) \<and> p \<in> set (proclist (lk s1)) \<and> p \<noteq> rootproc (lk s1) \<and> p \<noteq> rootproc (lk s) \<and>
    term_parent p (lk s1) = Some q \<and> term_notify a p (lk s1) = Some k1 \<and> notified a p q (lk s1) k1 \<and>
    curproc k1 = p \<and> sched_inv k1 \<and> \<not> is_dead k1 (rootproc k1) \<and> curproc k1 \<noteq> rootproc k1"
proof -
  note c = term_release_calm[OF env s1]
  have inv1: "tree_inv (lk s1)" by (rule tree_inv_calm[OF inv c(1)])
  have kin: "same_kin (lk s) (lk s1)" "curproc (lk s1) = p" using c(1) p by (simp_all add: calm_def)
  have t: "tree_ok (lk s1)" and sc: "sched_inv (lk s1)" using inv1 by (simp_all add: tree_inv_def)
  have p1: "p \<in> set (proclist (lk s1))" and ok: "queues_ok (lk s1)" using sc kin(2) by (simp_all add: sched_inv_def)
  have root: "p \<noteq> rootproc (lk s)" using inv c(3) by (auto simp: tree_inv_def tree_ok_def)
  obtain q k1 where k1: "term_parent p (lk s1) = Some q" "term_notify a p (lk s1) = Some k1" "notified a p q (lk s1) k1"
    using term_notify_ok[OF t ok p1] by blast
  have "rootproc k1 = rootproc (lk s1)" "is_dead k1 (rootproc k1) = is_dead (lk s1) (rootproc (lk s1))" "curproc k1 = p"
    using k1(3) kin(2) by (simp_all add: notified_def family_def same_lists_def)
  then show ?thesis
    using k1 inv1 p1 t root same_kinD(2)[OF kin(1)] notified_sched[OF k1(3) sc] by (auto simp: tree_ok_def)
qed

text \<open>What \<open>terminate\<close> did when another process runs.\<close>

lemma terminate_cases:
  assumes env: "calm_life env" and inv: "tree_inv (lk s)" and p: "p = curproc (lk s)"
    and r: "terminate env ints_on p code que s = Some s'"
  shows "\<exists>s1 q k1 r. term_release env p code que s = Some s1 \<and> calm (lk s) (lk s1) \<and> (que = ZOMBIE_Q \<or> que = TSR_Q) \<and>
    (r = que \<or> r = READY_Q) \<and> notified (e_pwaitpid (l_sleep env)) p q (lk s1) k1 \<and> curproc k1 = p \<and> \<not> is_dead k1 p \<and>
    asleep r (exit_cond code) k1 (lk s') \<and> tree_inv (lk s1) \<and> tree_inv (lk s')"
proof -
  let ?a = "e_pwaitpid (l_sleep env)"
  obtain s1 where s1: "term_release env p code que s = Some s1" using r by (auto simp: terminate_def split: bind_splits)
  note c = term_release_calm[OF env s1]
  obtain q k1 where k1: "tree_inv (lk s1)" "p \<in> set (proclist (lk s1))" "p \<noteq> rootproc (lk s1)"
    "term_notify ?a p (lk s1) = Some k1" "notified ?a p q (lk s1) k1"
    "curproc k1 = p" "sched_inv k1" "\<not> is_dead k1 (rootproc k1)" "curproc k1 \<noteq> rootproc k1"
    using terminate_notified[OF env inv p s1] by blast
  have sl: "sleep (l_sleep env) ints_on que (exit_cond code) k1 = Some (Switch (lk s'))"
    using r s1 k1(4) by (auto simp: terminate_def in_kern_Some split: bind_splits sleep_result.splits)
  have m: "que mod 256 = que" "que \<noteq> CURPROC_Q" using c(2) by auto
  have a: "sched_inv (lk s') \<and> (asleep que (exit_cond code) k1 (lk s') \<or> asleep READY_Q (exit_cond code) k1 (lk s'))"
    using sleep_asleep[OF sl calm_lifeD(2)[OF env] k1(7) _ k1(8)] m k1(9) by simp
  then obtain r where r: "r = que \<or> r = READY_Q" "asleep r (exit_cond code) k1 (lk s')" by blast
  have "tree_inv (lk s')" by (rule notified_die[OF k1(1,5,2,3) r(2) k1(6)]) (use a in blast)
  moreover have "\<not> is_dead k1 p" using k1(6,7) by (auto simp: sched_inv_def idle_proc_def is_dead_def)
  ultimately show ?thesis using s1 c(1,2) k1(1,5,6) r by blast
qed

lemma terminate_ok:
  assumes env: "calm_life env" "no_wakeups (l_sleep env)" and inv: "tree_inv (lk s)" and p: "p = curproc (lk s)"
    and s1: "term_release env p code que s = Some s1" and nw: "iwakecond (lk s1) \<noteq> exit_cond code \<or> exit_cond code = 0"
  shows "\<exists>s' q k1. terminate env ints_on p code que s = Some s' \<and> term_parent p (lk s1) = Some q \<and>
    term_notify (e_pwaitpid (l_sleep env)) p (lk s1) = Some k1 \<and> notified (e_pwaitpid (l_sleep env)) p q (lk s1) k1 \<and>
    curproc k1 = p \<and> asleep que (exit_cond code) k1 (lk s') \<and> tree_inv (lk s')"
proof -
  let ?a = "e_pwaitpid (l_sleep env)"
  obtain q k1 where k1: "tree_inv (lk s1)" "p \<in> set (proclist (lk s1))" "p \<noteq> rootproc (lk s1)"
    "term_parent p (lk s1) = Some q" "term_notify ?a p (lk s1) = Some k1" "notified ?a p q (lk s1) k1"
    "curproc k1 = p" "sched_inv k1" "\<not> is_dead k1 (rootproc k1)" "curproc k1 \<noteq> rootproc k1"
    using terminate_notified[OF env(1) inv p s1] by blast
  obtain k' where k': "sleep (l_sleep env) ints_on que (exit_cond code) k1 = Some (Switch k')" "sched_inv k'"
    "asleep que (exit_cond code) k1 k'"
    using sleep_dead[OF calm_lifeD(2)[OF env(1)] env(2) k1(8-10) term_release_calm(2)[OF env(1) s1], of "exit_cond code" ints_on]
      nw term_notify_iwake[OF k1(5)] by auto
  have "tree_inv k'" by (rule notified_die[OF k1(1,6,2,3) k'(3) k1(7) k'(2)])
  moreover have "\<exists>s'. terminate env ints_on p code que s = Some s' \<and> lk s' = k'"
    using s1 k1(5) k'(1) by (simp add: terminate_def in_kern_def Let_def upd_kern_def)
  ultimately show ?thesis using k1(4-7) k'(3) by blast
qed

section \<open>The dead\<close>

text \<open>What later steps can change of a dead process: its parent and its tracer can be forgotten.\<close>

definition remains :: "kernel \<Rightarrow> kernel \<Rightarrow> pptr \<Rightarrow> bool" where
  "remains k k' x \<longleftrightarrow> wait_q (procs k' x) = wait_q (procs k x) \<and> wait_status (procs k' x) = wait_status (procs k x) \<and>
     pid (procs k' x) = pid (procs k x) \<and>
     (ppid (procs k x) = - 1 \<longrightarrow> ppid (procs k' x) = - 1) \<and> (ptracer (procs k x) = None \<longrightarrow> ptracer (procs k' x) = None)"

lemma remains_refl [simp]: "remains k k x"
  by (simp add: remains_def)

lemma remains_trans: "remains a b x \<Longrightarrow> remains b c x \<Longrightarrow> remains a c x"
  by (simp add: remains_def)

lemma wait_status_core:
  assumes "dead_core x = dead_core y \<or> times_of (proc_core x) = times_of (proc_core y)" "wait_q x = wait_q y"
  shows "wait_status x = wait_status y"
proof -
  have "signaled (dead_core x) = signaled x" "last_sig (dead_core x) = last_sig x" "wait_cond (dead_core x) = wait_cond x"
    "pid (dead_core x) = pid x" "signaled (times_of (proc_core x)) = signaled x" "last_sig (times_of (proc_core x)) = last_sig x"
    "wait_cond (times_of (proc_core x)) = wait_cond x" "pid (times_of (proc_core x)) = pid x" for x
    by (simp_all add: dead_core_def times_of_def proc_core_def)
  then have "signaled x = signaled y \<and> last_sig x = last_sig y \<and> wait_cond x = wait_cond y \<and> pid x = pid y"
    using assms(1) by metis
  then show ?thesis using assms(2) by (simp add: wait_status_def wait_code_def Let_def)
qed

lemma remains_core:
  assumes "proc_core (procs k' x) = proc_core (procs k x) \<or> times_of (proc_core (procs k' x)) = times_of (proc_core (procs k x))"
    "wait_q (procs k' x) = wait_q (procs k x)"
  shows "remains k k' x"
proof -
  have t: "times_of (proc_core (procs k' x)) = times_of (proc_core (procs k x))" using assms(1) by auto
  have "pid (times_of (proc_core y)) = pid y" "ppid (times_of (proc_core y)) = ppid y" "ptracer (times_of (proc_core y)) = ptracer y" for y
    by (simp_all add: times_of_def)
  then have "pid (procs k' x) = pid (procs k x)" "ppid (procs k' x) = ppid (procs k x)" "ptracer (procs k' x) = ptracer (procs k x)"
    using t by metis+
  then show ?thesis using wait_status_core[of "procs k' x" "procs k x"] t assms(2) by (simp add: remains_def)
qed

lemma keeps_dead_remains:
  assumes "keeps_dead k k'" "x \<in> set (proclist k)" "is_dead k x"
  shows "x \<in> set (proclist k') \<and> remains k k' x"
  using assms remains_core[of k' x k] by (simp add: keeps_dead_def)

text \<open>A zombie that is reported but not for the last time, and a resident process that is reported.\<close>

lemma wait_found_remains:
  assumes r: "wait_found q k = Some k'" and d: "is_dead k q" "\<not> last_wait k q"
  shows "remains k k' q"
proof -
  have x: "ppid (procs (add_usage q k) y) = ppid (procs k y)" "pid (procs (add_usage q k) y) = pid (procs k y)"
    "ptracer (procs (add_usage q k) y) = ptracer (procs k y)" for y
    using add_usage_facts(4)[of q k y] by (simp_all add: kin_def)
  note u = add_usage_facts(2,5,6)[of q k] x
  have "\<exists>f. k' = upd_proc q f (add_usage q k) \<and> f \<in> {\<lambda>x. x\<lparr>ptracer := None\<rparr>, \<lambda>x. x\<lparr>ppid := - 1\<rparr>, \<lambda>x. x\<lparr>ptracer := None, ppid := - 1\<rparr>}"
  proof -
    have n: "wait_q (procs k q) \<noteq> STOP_Q" "wait_q (procs k q) = ZOMBIE_Q \<or> wait_q (procs k q) = TSR_Q"
      using d(1) by (auto simp: is_dead_def)
    have taken: "wait_q (procs k q) = TSR_Q \<and> k' = upd_proc q (\<lambda>x. x\<lparr>ppid := - 1\<rparr>) k2"
      if "wait_taken q k2 = Some k'" "wait_q (procs k2 q) = wait_q (procs k q)" "wait_q (procs k q) = TSR_Q" for k2
      using that by (simp add: wait_taken_def)
    have two: "upd_proc q (\<lambda>x. x\<lparr>ppid := - 1\<rparr>) (upd_proc q (\<lambda>x. x\<lparr>ptracer := None\<rparr>) k2) =
      upd_proc q (\<lambda>x. x\<lparr>ptracer := None, ppid := - 1\<rparr>) k2" for k2 by (simp add: upd_proc_def)
    have "(\<exists>k2. wait_taken q k2 = Some k' \<and> wait_q (procs k q) = TSR_Q \<and> (k2 = add_usage q k \<or> k2 = upd_proc q (\<lambda>x. x\<lparr>ptracer := None\<rparr>) (add_usage q k))) \<or>
      k' = upd_proc q (\<lambda>x. x\<lparr>ptracer := None\<rparr>) (add_usage q k) \<or> k' = upd_proc q (\<lambda>x. x\<lparr>ppid := - 1\<rparr>) (add_usage q k)"
      using r d(2) n by (auto simp: wait_found_def Let_def u last_wait_def split: option.splits if_splits)
    then show ?thesis using taken two u(2) by fastforce
  qed
  then obtain f where f: "k' = upd_proc q f (add_usage q k)"
    "f \<in> {\<lambda>x. x\<lparr>ptracer := None\<rparr>, \<lambda>x. x\<lparr>ppid := - 1\<rparr>, \<lambda>x. x\<lparr>ptracer := None, ppid := - 1\<rparr>}" by blast
  have "signaled (procs (add_usage q k) q) = signaled (procs k q)" "last_sig (procs (add_usage q k) q) = last_sig (procs k q)"
    by (simp_all add: add_usage_def Let_def upd_cur_def)
  then show ?thesis using f(2) by (auto simp: f(1) remains_def u wait_status_def wait_code_def add_usage_facts(8))
qed

section \<open>Steps\<close>

text \<open>A dead process leaves the list only when its status is taken.\<close>

definition fate :: "kernel \<Rightarrow> kernel \<Rightarrow> bool" where
  "fate k k' \<longleftrightarrow> (\<forall>x \<in> set (proclist k). is_dead k x \<longrightarrow>
     (if x \<in> set (proclist k') then remains k k' x else waits_for k x))"

lemma fateD: "fate k k' \<Longrightarrow> x \<in> set (proclist k) \<Longrightarrow> is_dead k x \<Longrightarrow>
    (if x \<in> set (proclist k') then remains k k' x else waits_for k x)"
  unfolding fate_def by blast

lemma keeps_dead_fate: "keeps_dead k k' \<Longrightarrow> fate k k'"
  using keeps_dead_remains by (auto simp: fate_def)

definition out_kernel :: "wait_out \<Rightarrow> kernel" where
  "out_kernel r = (case r of Wait_error e k \<Rightarrow> k | Wait_child v rv ru k \<Rightarrow> k | Wait_none k \<Rightarrow> k)"

definition round_kernel :: "wait_round \<Rightarrow> kernel" where
  "round_kernel r = (case r of Wait_over out \<Rightarrow> out_kernel out | Wait_sleeps k \<Rightarrow> k | Wait_again k \<Rightarrow> k)"

definition sleep_kernel :: "sleep_result \<Rightarrow> kernel" where
  "sleep_kernel r = (case r of Switch k \<Rightarrow> k | Stay b k \<Rightarrow> k)"

inductive life_step :: "life_env \<Rightarrow> lstate \<Rightarrow> lstate \<Rightarrow> bool" for env where
  step_exit: "terminate env ints_on (curproc (lk s)) code que s = Some s' \<Longrightarrow> life_step env s s'"
| step_wait: "pwaitpid_round (l_sleep env) ints_on n nohang (lk s) = Some r \<Longrightarrow>
    life_step env s (upd_kern (\<lambda>_. round_kernel r) s)"
| step_fork: "1 \<le> maxpid s \<Longrightarrow> maxpid s < MAXPID \<Longrightarrow> sys_pvfork env s = Some out \<Longrightarrow> life_step env s (vfork_state out)"
| step_sleep: "que mod 256 \<notin> {CURPROC_Q, ZOMBIE_Q, TSR_Q} \<Longrightarrow> sleep (l_sleep env) ints_on que cond (lk s) = Some r \<Longrightarrow>
    life_step env s (upd_kern (\<lambda>_. sleep_kernel r) s)"
| step_other: "calm (lk s) (lk s') \<Longrightarrow> life_step env s s'"

inductive_cases life_stepE: "life_step env s s'"

lemma scan_fate:
  assumes inv: "tree_inv k" and r: "pwait_scan n nohang k = Some out"
  shows "tree_inv (out_kernel out) \<and> fate k (out_kernel out) \<and> (\<forall>k'. out = Wait_none k' \<longrightarrow> k' = k)"
proof -
  have ok: "scan_ok n nohang k out" using pwait_scan_ok[OF inv, of n nohang] r by auto
  show ?thesis
  proof (cases out)
    case (Wait_child v rv ru k')
    obtain q where f: "List.find (\<lambda>q. wait_matches n k q \<and> wait_reports nohang k q) (proclist k) = Some q" "wait_found q k = Some k'"
      using r Wait_child by (auto simp: pwait_scan_def Let_def split: option.splits if_splits)
    then have q: "q \<in> set (proclist k)" "wait_found q k = Some k'" "wait_matches n k q" "wait_reports nohang k q"
      by (auto simp: find_Some_iff)
    have t: "tree_inv k'" "waited q k k'" using wait_found_ok[OF inv q(1,4)] q(2) by auto
    have d: "distinct (proclist k)" using inv by (simp add: tree_inv_def tree_ok_def)
    have "fate k k'" unfolding fate_def
    proof (intro ballI impI)
      fix x assume x: "x \<in> set (proclist k)" "is_dead k x"
      show "if x \<in> set (proclist k') then remains k k' x else waits_for k x"
      proof (cases "x = q")
        case False
        then have "x \<in> set (proclist k')" using t(2) x(1) by (simp add: waited_def in_set_remove1)
        moreover have "remains k k' x" using t(2) False by (intro remains_core) (simp_all add: waited_def)
        ultimately show ?thesis by simp
      next
        case True
        then show ?thesis using t(2) x d wait_found_remains[OF q(2)] wait_matches_waits_for[OF q(3)]
          by (auto simp: waited_def split: if_splits)
      qed
    qed
    then show ?thesis using Wait_child t(1) by (simp add: out_kernel_def)
  qed (use ok inv in \<open>simp_all add: scan_ok_def out_kernel_def fate_def\<close>)
qed

lemma round_fate:
  assumes env: "calm_env env" and inv: "tree_inv k" and r: "pwaitpid_round env ints_on n nohang k = Some r"
  shows "tree_inv (round_kernel r) \<and> fate k (round_kernel r)"
proof -
  obtain out where out: "pwait_scan n nohang k = Some out" using r by (auto simp: pwaitpid_round_def split: option.splits)
  note sf = scan_fate[OF inv out]
  show ?thesis
  proof (cases "\<exists>k'. out = Wait_none k'")
    case False
    then have "r = Wait_over out" using r out by (cases out) (simp_all add: pwaitpid_round_def)
    then show ?thesis using sf by (simp add: round_kernel_def)
  next
    case True
    then have "out = Wait_none k" using sf by auto
    then obtain sr where sr: "sleep env ints_on WAIT_Q (e_pwaitpid env) k = Some sr" "round_kernel r = sleep_kernel sr"
      using r out by (auto simp: pwaitpid_round_def round_kernel_def sleep_kernel_def split: option.splits sleep_result.splits)
    obtain k' where k': "sr = Switch k' \<or> (\<exists>b. sr = Stay b k')" "tree_inv k'" "keeps_dead k k'"
      using sleep_tree[OF sr(1) env inv] by auto
    then show ?thesis using keeps_dead_fate sr(2) by (auto simp: sleep_kernel_def)
  qed
qed

lemma family_remains:
  assumes fam: "family p i Q k k'" and i: "0 \<le> i" and d: "is_dead k x"
  shows "remains k k' x"
proof -
  have f: "dead_core (procs k' x) = dead_core (procs k x)" "wait_q (procs k' x) = wait_q (procs k x)" "pid (procs k' x) = pid (procs k x)"
    "ppid (procs k' x) = (if x \<in> Q \<and> ppid (procs k x) = i then 0 else ppid (procs k x))"
    "ptracer (procs k' x) = (if x \<in> Q \<and> ptracer (procs k x) = Some p then None else ptracer (procs k x))"
    using fam d by (simp_all add: family_def)
  then show ?thesis using wait_status_core[of "procs k' x" "procs k x"] i by (auto simp: remains_def)
qed

lemma terminate_fate:
  assumes env: "calm_life env" and inv: "tree_inv (lk s)" and r: "terminate env ints_on (curproc (lk s)) code que s = Some s'"
  shows "tree_inv (lk s') \<and> fate (lk s) (lk s')"
proof -
  let ?p = "curproc (lk s)"
  obtain s1 q k1 r' where t: "calm (lk s) (lk s1)" "notified (e_pwaitpid (l_sleep env)) ?p q (lk s1) k1" "curproc k1 = ?p"
    "\<not> is_dead k1 ?p" "asleep r' (exit_cond code) k1 (lk s')" "tree_inv (lk s1)" "tree_inv (lk s')"
    using terminate_cases[OF env inv refl r] by blast
  have fam: "family ?p (pid (procs (lk s1) ?p)) (set (proclist (lk s1))) (lk s1) k1" using t(2) by (simp add: notified_def)
  have pl: "proclist k1 = proclist (lk s1)" "curproc (lk s1) = ?p" using fam t(3) by (simp_all add: family_def same_lists_def)
  have "?p \<in> set (proclist (lk s1))" using t(6) pl(2) by (auto simp: tree_inv_def sched_inv_def)
  then have pos: "0 \<le> pid (procs (lk s1) ?p)" using t(6) by (auto simp: tree_inv_def tree_ok_def)
  have k: "keeps_dead k1 (lk s')" by (rule asleep_keeps_dead[OF t(5)]) (simp add: t(3,4))
  have "fate (lk s) (lk s')" unfolding fate_def
  proof (intro ballI impI)
    fix x assume x: "x \<in> set (proclist (lk s))" "is_dead (lk s) x"
    have 1: "x \<in> set (proclist (lk s1)) \<and> remains (lk s) (lk s1) x" by (rule keeps_dead_remains[OF calm_keeps_dead[OF t(1)] x])
    have d1: "is_dead (lk s1) x" using 1 x(2) by (simp add: remains_def is_dead_def)
    have 2: "remains (lk s1) k1 x" by (rule family_remains[OF fam pos d1])
    then have "is_dead k1 x" using d1 by (simp add: remains_def is_dead_def)
    then have 3: "x \<in> set (proclist (lk s')) \<and> remains k1 (lk s') x" using keeps_dead_remains[OF k] 1 pl(1) by simp
    then show "if x \<in> set (proclist (lk s')) then remains (lk s) (lk s') x else waits_for (lk s) x"
      using 3 remains_trans[OF remains_trans[OF conjunct2[OF 1] 2] conjunct2[OF 3]] by simp
  qed
  then show ?thesis using t(7) by simp
qed

lemma life_step_ok:
  assumes env: "calm_life env" "fresh_life env" and step: "life_step env s s'" and inv: "tree_inv (lk s)"
  shows "tree_inv (lk s') \<and> fate (lk s) (lk s')"
  using step
proof cases
  case step_exit
  then show ?thesis using terminate_fate[OF env(1) inv] by blast
next
  case step_wait
  then show ?thesis using round_fate[OF calm_lifeD(2)[OF env(1)] inv] by simp
next
  case step_fork
  then show ?thesis using sys_pvfork_tree[OF env inv] keeps_dead_fate by blast
next
  case (step_sleep que ints_on cond r)
  obtain k' where k': "r = Switch k' \<or> (\<exists>b. r = Stay b k')" "tree_inv k'" "keeps_dead (lk s) k'"
    using sleep_tree[OF step_sleep(3) calm_lifeD(2)[OF env(1)] inv step_sleep(2)] by auto
  then have "lk s' = k'" using step_sleep(1) by (auto simp: sleep_kernel_def)
  then show ?thesis using k' keeps_dead_fate by simp
next
  case step_other
  then show ?thesis using tree_inv_calm[OF inv] calm_keeps_dead keeps_dead_fate by blast
qed

lemma life_run_ok:
  assumes "(life_step env)\<^sup>*\<^sup>* s s'" "calm_life env" "fresh_life env" "tree_inv (lk s)"
  shows "tree_inv (lk s')"
  using assms(1,4) by (induction rule: rtranclp_induct) (use life_step_ok[OF assms(2,3)] in blast)+

text \<open>As long as its status is not taken, a dead process is what it was.\<close>

lemma dead_run:
  assumes run: "(\<lambda>s s'. life_step env s s' \<and> x \<in> set (proclist (lk s')))\<^sup>*\<^sup>* s s'"
    and env: "calm_life env" "fresh_life env" and inv: "tree_inv (lk s)" and x: "x \<in> set (proclist (lk s))" "is_dead (lk s) x"
  shows "tree_inv (lk s') \<and> x \<in> set (proclist (lk s')) \<and> remains (lk s) (lk s') x"
  using run
proof (induction rule: rtranclp_induct)
  case base
  then show ?case using inv x by simp
next
  case (step s1 s2)
  have d: "is_dead (lk s1) x" using step.IH x(2) by (simp add: remains_def is_dead_def)
  have "tree_inv (lk s2) \<and> fate (lk s1) (lk s2)" using life_step_ok[OF env] step by blast
  then have "tree_inv (lk s2)" "remains (lk s1) (lk s2) x" using fateD[of "lk s1" "lk s2" x] step d by auto
  then show ?case using step remains_trans by blast
qed

end
