(* ===== verification/Proc_Main.thy ===== *)
theory Proc_Main
  imports Proc_Steps
begin

text \<open>
  The properties of process life: the tree of processes over all steps, the end of a process, waiting, the
  exit code from \<open>terminate\<close> to \<open>pwaitpid\<close>, a zombie nobody can reap, and two parts of a process that are not
  shared or detached as intended; at the end an example state with a running process, its sleeping parent and
  two zombies. The assumption \<open>calm_life\<close> is about what the kernel calls outside these files, including the handling of
  signals inside \<open>sleep\<close>: it leaves the tree alone and comes back to the sleeping process (a signal that ends the
  process is a step of its own, \<open>step_exit\<close>). The calls of \<open>ptrace.c\<close> and \<open>procfs.c\<close> that change the tracer of a process are no steps.
\<close>

section \<open>Properties\<close>

lemma tree_inv_cur:
  assumes "tree_inv k"
  shows "curproc k \<in> set (proclist k)" "wait_q (procs k (curproc k)) = CURPROC_Q"
  using assms unfolding tree_inv_def sched_inv_def idle_proc_def by blast+

lemma init_tree_inv: "tree_inv init_proc"
proof -
  have q: "queues_rep init_proc (\<lambda>_. [])"
    by (auto simp: queues_rep_def queue_rep_def init_proc_def zero_proc_def)
  have "queues_ok init_proc" using q by (auto simp: queues_ok_def queues_known_def)
  then have "sched_inv init_proc" by (simp add: sched_inv_def idle_proc_def init_proc_def zero_proc_def)
  moreover have "creds_ok init_proc"
    by (auto simp: creds_ok_def users_def ucred_of_def pcred_of_def init_proc_def zero_proc_def intro!: card_mono[of "{0}", simplified])
  moreover have "sig_users init_proc 0 = {0}" by (auto simp: sig_users_def init_proc_def zero_proc_def)
  ultimately show ?thesis
    by (simp add: tree_inv_def tree_ok_def pcred_of_def) (simp add: init_proc_def zero_proc_def is_dead_def)
qed

text \<open>C21: \<open>newpid\<close> always ends: it returns a process id from 2 to 999 that no process has, and stops the kernel
  exactly when all of them are taken. Right after \<open>set_pid_1\<close> (the counter is 1) it first tries process id 1, once:
  it returns 1 when that is free, and otherwise an id from 2 to 999 as before.\<close>

theorem newpid_finds_free_pid:
  assumes "1 \<le> maxpid s" "maxpid s < MAXPID"
  shows "case newpid s of
      None \<Rightarrow> (\<forall>n. 2 \<le> n \<and> n < MAXPID \<longrightarrow> pid2proc n (lk s) \<noteq> None) \<and> (maxpid s = 1 \<longrightarrow> pid2proc 1 (lk s) \<noteq> None)
    | Some (n, s') \<Rightarrow> (if maxpid s = 1 \<and> pid2proc 1 (lk s) = None then n = 1 else 2 \<le> n) \<and> n < MAXPID \<and>
        pid2proc n (lk s) = None \<and> s' = s\<lparr>maxpid := next_maxpid n\<rparr> \<and> 2 \<le> maxpid s' \<and> maxpid s' < MAXPID"
proof (cases "newpid_loop 2 (maxpid s) (lk s)")
  case None
  have none: "pid2proc ((next_maxpid ^^ i) (maxpid s)) (lk s) \<noteq> None" if "i < 999" for i
    using None newpid_loop_None[of 2 "maxpid s" "lk s"] that by simp
  have "pid2proc n (lk s) \<noteq> None" if n: "2 \<le> n" "n < MAXPID" for n
  proof (cases "maxpid s = 1")
    case True
    define i where "i = nat (n - 1)"
    have i: "i = Suc (nat (n - 2))" "i < 999" using n by (simp_all add: i_def nat_less_iff)
    have "(next_maxpid ^^ i) 1 = (next_maxpid ^^ nat (n - 2)) 2"
      unfolding i(1) funpow_Suc_right by (simp add: next_maxpid_def)
    also have "\<dots> = n" using n next_maxpid_pow[of 2 "nat (n - 2)"] by simp
    finally show ?thesis using none[OF i(2)] True by simp
  next
    case False
    define i where "i = nat ((n - maxpid s) mod 998)"
    have "(maxpid s - 2 + int i) mod 998 = (maxpid s - 2 + (n - maxpid s)) mod 998"
      by (simp add: i_def mod_simps)
    then have "(next_maxpid ^^ i) (maxpid s) = n" using n False assms by (simp add: next_maxpid_pow)
    moreover have "i < 999" by (simp add: i_def nat_less_iff)
    ultimately show ?thesis using none by metis
  qed
  moreover have "pid2proc (maxpid s) (lk s) \<noteq> None" using none[of 0] by simp
  ultimately show ?thesis using None by (auto simp: newpid_def)
next
  case (Some r)
  have first: "newpid_loop 2 (maxpid s) (lk s) = (if pid2proc (maxpid s) (lk s) \<noteq> None
      then newpid_loop 3 (next_maxpid (maxpid s)) (lk s) else Some (maxpid s, next_maxpid (maxpid s)))"
    by (subst newpid_loop.simps) simp
  obtain n mp where n: "r = (n, mp)" by (cases r)
  have ok: "pid2proc n (lk s) = None" "1 \<le> n" "n < MAXPID" "2 \<le> maxpid s \<Longrightarrow> 2 \<le> n" "mp = next_maxpid n"
    using newpid_loop_Some[of 2 "maxpid s" "lk s" n mp] Some assms by (auto simp: n)
  have "if maxpid s = 1 \<and> pid2proc 1 (lk s) = None then n = 1 else 2 \<le> n"
  proof (cases "maxpid s = 1")
    case True
    have "next_maxpid 1 = 2" by (simp add: next_maxpid_def)
    then show ?thesis using Some first True newpid_loop_Some[of 3 2 "lk s" n mp] by (auto simp: n split: if_splits)
  qed (use ok(4) assms(1) in auto)
  then show ?thesis using ok next_maxpid_range[OF ok(2,3)] Some by (simp add: newpid_def n)
qed

text \<open>C3: The tree of processes stays in order over every run in which processes end, wait, are created and sleep:
  process ids stay unique, every parent and tracer is a living process (or forgotten), the root process lives,
  and credentials and signal actions are counted at least as often as they are used. The state after
  \<open>init_proc\<close> is such a tree (\<open>init_tree_inv\<close>).\<close>

theorem life_keeps_tree:
  assumes "calm_life env" "fresh_life env" "(life_step env)\<^sup>*\<^sup>* s s'" "tree_inv (lk s)"
  shows "tree_inv (lk s')"
  by (rule life_run_ok[OF assms(3,1,2,4)])

text \<open>C4: When the resources of a process are released, \<open>terminate\<close> cannot fail: the process ends as a zombie (or
  resident program) that holds its exit code and never runs again as long as its structure is on the list of
  processes, whatever processes end, wait, are created and sleep later; a parent waiting in \<open>pwaitpid\<close> is made ready,
  the children become children of the root process, and nobody is traced by the dead process. The conditions: the hooks
  of modules, drivers and file systems that \<open>terminate\<close> calls do not change the tree and come back (\<open>calm_life\<close>); and
  nothing wakes a process on the condition that is the exit code, neither an interrupt just before the last sleep
  (\<open>iwakecond\<close>, unless the code is 0) nor the polls of that sleep (\<open>no_wakeups\<close>): then the dying process
  would be put on the ready queue again.\<close>

theorem terminate_hands_over:
  assumes "calm_life env" "fresh_life env" "no_wakeups (l_sleep env)" "tree_inv (lk s)" "curproc (lk s) = p"
    "term_release env p code que s = Some s1" "iwakecond (lk s1) \<noteq> exit_cond code \<or> exit_cond code = 0"
  shows "\<exists>s' q k1. terminate env ints_on p code que s = Some s' \<and> tree_inv (lk s') \<and>
    p \<in> set (proclist (lk s')) \<and> wait_q (procs (lk s') p) = que \<and> wait_cond (procs (lk s') p) = exit_cond code \<and>
    (\<forall>s2. (\<lambda>s s'. life_step env s s' \<and> p \<in> set (proclist (lk s')))\<^sup>*\<^sup>* s' s2 \<longrightarrow>
       curproc (lk s2) \<noteq> p \<and> wait_q (procs (lk s2) p) = que) \<and>
    (\<forall>c \<in> set (proclist (lk s)). (ppid (procs (lk s) c) = pid (procs (lk s) p) \<longrightarrow> ppid (procs (lk s') c) = 0) \<and>
       ptracer (procs (lk s') c) \<noteq> Some p) \<and>
    term_parent p (lk s1) = Some q \<and> term_notify (e_pwaitpid (l_sleep env)) p (lk s1) = Some k1 \<and>
    (wait_q (procs (lk s1) q) = WAIT_Q \<and> wait_cond (procs (lk s1) q) = e_pwaitpid (l_sleep env) \<longrightarrow>
       wait_q (procs k1 q) = READY_Q)"
proof -
  note c = term_release_calm[OF assms(1,6)]
  obtain s' q k1 where t: "terminate env ints_on p code que s = Some s'" "term_parent p (lk s1) = Some q"
    "term_notify (e_pwaitpid (l_sleep env)) p (lk s1) = Some k1" "notified (e_pwaitpid (l_sleep env)) p q (lk s1) k1"
    "curproc k1 = p" "asleep que (exit_cond code) k1 (lk s')" "tree_inv (lk s')"
    using terminate_ok[OF assms(1,3,4) assms(5)[symmetric] assms(6,7)] by blast
  have w: "wait_q (procs (lk s') p) = que" "wait_cond (procs (lk s') p) = exit_cond code"
    using t(5,6) c(2) by (auto simp: asleep_def)
  have kin: "same_kin (lk s) (lk s1)" using c(1) by (simp add: calm_def)
  have p: "p \<in> set (proclist (lk s'))"
    using tree_inv_cur(1)[OF assms(4)] assms(5) t(4,6) same_kinD(1)[OF kin]
    by (simp add: notified_def family_def asleep_def same_lists_def)
  have "curproc (lk s2) \<noteq> p \<and> wait_q (procs (lk s2) p) = que"
    if "(\<lambda>s s'. life_step env s s' \<and> p \<in> set (proclist (lk s')))\<^sup>*\<^sup>* s' s2" for s2
  proof -
    have "is_dead (lk s') p" using w(1) c(2) by (simp add: is_dead_def)
    from dead_run[OF that assms(1,2) t(7) p this]
    have d: "tree_inv (lk s2)" "wait_q (procs (lk s2) p) = que" using w(1) by (simp_all add: remains_def)
    have "que \<noteq> CURPROC_Q" using c(2) by auto
    then show ?thesis using d(2) tree_inv_cur(2)[OF d(1)] by auto
  qed
  moreover have "(ppid (procs (lk s) x) = pid (procs (lk s) p) \<longrightarrow> ppid (procs (lk s') x) = 0) \<and> ptracer (procs (lk s') x) \<noteq> Some p"
    if x: "x \<in> set (proclist (lk s))" for x
  proof -
    have f: "ppid (procs k1 x) = (if ppid (procs (lk s1) x) = pid (procs (lk s1) p) then 0 else ppid (procs (lk s1) x))"
      "ptracer (procs k1 x) = (if ptracer (procs (lk s1) x) = Some p then None else ptracer (procs (lk s1) x))"
      using t(4) x same_kinD(1)[OF kin] by (simp_all add: notified_def family_def)
    have "kin (procs (lk s') x) = kin (procs k1 x)" using t(6) by (simp add: asleep_def)
    then show ?thesis using f same_kinD(6-8)[OF kin] by (auto simp: kin_def)
  qed
  ultimately show ?thesis using t(1-4,7) w p by (auto simp: notified_def)
qed

text \<open>C5: \<open>pwaitpid\<close> on a tree in order always gets to a result: a process it may report, with its exact status,
  after which the tree is in order, all other processes and their identities are untouched, and the caller never
  gets the same zombie again; otherwise no process can be reported, and the state is unchanged.\<close>

theorem pwaitpid_collects:
  assumes "tree_inv k"
  shows "\<exists>out. pwait_scan n nohang k = Some out \<and> scan_ok n nohang k out"
  by (rule pwait_scan_ok[OF assms])

text \<open>C6: Of the exit code given to \<open>terminate\<close>, the low byte is what \<open>pwaitpid\<close> reports, whatever processes end, wait,
  are created and sleep in between (a code of 256 is reported as 0): the status has the process id in its upper and
  the low byte of the code in its lower half. This is for a process that ended by itself, not through a signal
  (\<open>signaled\<close>), and whose code does not look like a stop by SIGTRAP (5 in the bits 8 to 12).\<close>

theorem exit_status_roundtrip:
  assumes "calm_life env" "fresh_life env" "tree_inv (lk s)" "curproc (lk s) = p"
    and t: "terminate env ints_on p code ZOMBIE_Q s = Some s1" "wait_q (procs (lk s1) p) = ZOMBIE_Q" "\<not> signaled (procs (lk s1) p)"
    and code: "exit_cond code AND 0x1f00 \<noteq> 0x500"
    and run: "(\<lambda>s s'. life_step env s s' \<and> p \<in> set (proclist (lk s')))\<^sup>*\<^sup>* s1 s2"
    and n: "n = pid (procs (lk s) p)"
    and w: "pwait_scan n nohang (lk s2) = Some (Wait_child r rv ru k')"
  shows "r = push_bit 16 (word_of_int n) OR (ucast (word_of_int code :: u16) AND 0xff)"
proof -
  obtain s0 q k1 r' where c: "term_release env p code ZOMBIE_Q s = Some s0" "calm (lk s) (lk s0)"
    "notified (e_pwaitpid (l_sleep env)) p q (lk s0) k1" "curproc k1 = p" "r' = ZOMBIE_Q \<or> r' = READY_Q"
    "asleep r' (exit_cond code) k1 (lk s1)" "tree_inv (lk s0)" "tree_inv (lk s1)"
    using terminate_cases[OF assms(1,3) assms(4)[symmetric] t(1)] by blast
  have dead: "is_dead (lk s1) p" using t(2) by (simp add: is_dead_def)
  note asl = c(6)[unfolded asleep_def c(4)]
  have "is_dead (lk s1) p = (r' = ZOMBIE_Q \<or> r' = TSR_Q)" using asl by presburger
  then have "r' = ZOMBIE_Q \<or> r' = TSR_Q" using dead by blast
  then have wc: "wait_cond (procs (lk s1) p) = exit_cond code" using asl by blast
  have pl: "proclist (lk s1) = proclist (lk s0)" "pid (procs (lk s1) p) = pid (procs (lk s0) p)"
    using c(3,6) by (simp_all add: notified_def family_def asleep_def same_lists_def kin_def)
  have kin: "same_kin (lk s) (lk s0)" using c(2) by (simp add: calm_def)
  have "p \<in> set (proclist (lk s))" using tree_inv_cur(1)[OF assms(3)] assms(4) by simp
  then have p1: "p \<in> set (proclist (lk s1))" and pn: "pid (procs (lk s1) p) = n"
    using pl same_kinD(1,6)[OF kin] n by simp_all
  have st: "wait_status (procs (lk s1) p) = push_bit 16 (word_of_int n) OR (ucast (word_of_int code :: u16) AND 0xff)"
    using exit_status[OF t(3,2) wc code] by (simp add: pn)
  have d: "tree_inv (lk s2)" "p \<in> set (proclist (lk s2))" "remains (lk s1) (lk s2) p"
    using dead_run[OF run assms(1,2) c(8) p1 dead] by auto
  obtain x where x: "x \<in> set (proclist (lk s2))" "wait_matches n (lk s2) x" "r = wait_status (procs (lk s2) x)"
    using pwait_scan_ok[OF d(1), of n nohang] w by (auto simp: scan_ok_def)
  have "0 \<le> pid (procs (lk s) p)" "pid (procs (lk s) p) \<noteq> 0"
    using assms(3) \<open>p \<in> set (proclist (lk s))\<close> term_release_calm(3)[OF assms(1) c(1)] by (simp_all add: tree_inv_def tree_ok_def)
  then have "pid (procs (lk s2) x) = n" using x(2) n by (auto simp: wait_matches_def Let_def)
  moreover have "pid (procs (lk s2) p) = n" using d(3) pn by (simp add: remains_def)
  ultimately have "x = p" using d(1,2) x(1) by (auto simp: tree_inv_def tree_ok_def inj_on_def)
  then show ?thesis using x(3) d(3) st by (simp add: remains_def)
qed

text \<open>C34: A zombie that its parent has waited for before its tracer is forgotten when the tracer ends without waiting:
  whatever processes end, wait, are created and sleep afterwards, no process can wait for it, and its structure and
  process id stay taken. Only a call that makes a process its tracer again (\<open>Ptrace\<close> with \<open>PT_ATTACH\<close>, or
  \<open>PTRACESFLAGS\<close>; \<open>life_step\<close> has no such step) helps: that process can wait for it. Process 0, to which other
  orphans go, never gets it.\<close>

theorem traced_zombie_forgotten:
  assumes env: "calm_life env" "fresh_life env" and inv: "tree_inv (lk s)"
    and q: "q \<in> set (proclist (lk s))" "wait_q (procs (lk s) q) = ZOMBIE_Q" "ppid (procs (lk s) q) = - 1"
      "ptracer (procs (lk s) q) = Some (curproc (lk s))"
    and t: "terminate env ints_on (curproc (lk s)) code que s = Some s1" and run: "(life_step env)\<^sup>*\<^sup>* s1 s2"
  shows "q \<in> set (proclist (lk s2)) \<and> wait_q (procs (lk s2) q) = ZOMBIE_Q \<and> pid (procs (lk s2) q) = pid (procs (lk s) q) \<and>
    (\<forall>p \<in> set (proclist (lk s2)). (\<forall>n. \<not> wait_matches n (lk s2\<lparr>curproc := p\<rparr>) q) \<and>
       wait_matches (- 1) (upd_proc q (\<lambda>x. x\<lparr>ptracer := Some p\<rparr>) (lk s2\<lparr>curproc := p\<rparr>)) q)"
proof -
  let ?p = "curproc (lk s)"
  have dead: "is_dead (lk s) q" using q(2) by (simp add: is_dead_def)
  have s1: "tree_inv (lk s1)" "fate (lk s) (lk s1)" using terminate_fate[OF env(1) inv t] by auto
  obtain s0 r k1 r' where c: "calm (lk s) (lk s0)" "notified (e_pwaitpid (l_sleep env)) ?p r (lk s0) k1"
    "asleep r' (exit_cond code) k1 (lk s1)"
    using terminate_cases[OF env(1) inv refl t] by blast
  have kin: "same_kin (lk s) (lk s0)" using c(1) by (simp add: calm_def)
  have "q \<in> set (proclist (lk s0))" "ptracer (procs (lk s0) q) = Some ?p" using q same_kinD(1,8)[OF kin] by simp_all
  then have "ptracer (procs k1 q) = None" "proclist k1 = proclist (lk s0)"
    using c(2) by (simp_all add: notified_def family_def same_lists_def)
  then have 1: "ptracer (procs (lk s1) q) = None" "q \<in> set (proclist (lk s1))"
    using c(3) \<open>q \<in> set (proclist (lk s0))\<close> by (simp_all add: asleep_def kin_def same_lists_def)
  then have r1: "remains (lk s) (lk s1) q" using fateD[OF s1(2) q(1) dead] by simp
  have lost: "\<not> waits_for k q" if "tree_inv k" "ppid (procs k q) = - 1" "ptracer (procs k q) = None" for k
  proof -
    have "0 \<le> pid (procs k (curproc k))" using tree_inv_cur(1)[OF that(1)] that(1) by (simp add: tree_inv_def tree_ok_def)
    then show ?thesis using that(2,3) by (simp add: waits_for_def proc_of_def)
  qed
  from run have "tree_inv (lk s2) \<and> q \<in> set (proclist (lk s2)) \<and> remains (lk s1) (lk s2) q"
  proof (induction rule: rtranclp_induct)
    case base
    then show ?case using s1(1) 1(2) by simp
  next
    case (step s3 s4)
    have f: "tree_inv (lk s4)" "fate (lk s3) (lk s4)" using life_step_ok[OF env step.hyps(2)] step.IH by auto
    have r3: "remains (lk s) (lk s3) q" using remains_trans[OF r1] step.IH by blast
    have "is_dead (lk s3) q" "\<not> waits_for (lk s3) q"
      using r3 dead q(3) lost[of "lk s3"] step.IH 1(1) by (simp_all add: remains_def is_dead_def)
    then have "q \<in> set (proclist (lk s4)) \<and> remains (lk s3) (lk s4) q"
      using fateD[OF f(2), of q] step.IH by (auto split: if_splits)
    then show ?case using f(1) step.IH remains_trans by blast
  qed
  then have 2: "tree_inv (lk s2)" "q \<in> set (proclist (lk s2))" "remains (lk s) (lk s2) q" "remains (lk s1) (lk s2) q"
    using remains_trans[OF r1] by auto
  have x: "ppid (procs (lk s2) q) = - 1" "ptracer (procs (lk s2) q) = None" using 2(3,4) q(3) 1(1) by (simp_all add: remains_def)
  have "\<not> wait_matches n (lk s2\<lparr>curproc := p\<rparr>) q" if p: "p \<in> set (proclist (lk s2))" for p n
  proof -
    have "0 \<le> pid (procs (lk s2) p)" using 2(1) p by (simp add: tree_inv_def tree_ok_def)
    then show ?thesis using x by (simp add: wait_matches_def proc_of_def Let_def)
  qed
  moreover have "wait_matches (- 1) (upd_proc q (\<lambda>x. x\<lparr>ptracer := Some p\<rparr>) (lk s2\<lparr>curproc := p\<rparr>)) q" for p
    by (simp add: wait_matches_def Let_def)
  ultimately show ?thesis using 2 q(2) by (simp add: remains_def)
qed

text \<open>C35: When a module detaches the first of two extensions of a process, the table of the process keeps the
  pointer to the structure just freed and loses the other extension: the next notification of the process' modules
  (on exit, exec, fork, stop or a signal) and the next look-up of the other extension read freed memory.\<close>

theorem detach_leaves_freed_extension:
  assumes "p_ext s p = Some a" "ext_tabs s a = Some t" "ext_list t = [e, e']" "e \<noteq> e'"
    "exts s e = Some x" "ext_links x = 1" "cb_vector x = None" "exts s e' = Some y" "ext_ident y \<noteq> ext_ident x"
  shows "\<exists>s' t'. detach_ext env (ext_ident x) p s = Some s' \<and> p_ext s' p = Some a \<and> ext_tabs s' a = Some t' \<and>
    ext_list t' = [e] \<and> exts s' e = None \<and> exts s' e' = Some y \<and> proc_ext_on env p ev s' = None \<and>
    proc_lookup_extension (Some p) (ext_ident y) s' = None"
proof -
  have t: "pe_used t = 2" "pe_ext t 0 = e" "pe_ext t (Suc 0) = e'"
  proof -
    have "length (ext_list t) = 2" using assms(3) by simp
    then show "pe_used t = 2" by (simp add: ext_list_def)
    then show "pe_ext t 0 = e" "pe_ext t (Suc 0) = e'" using assms(3) by (simp_all add: ext_list_def upt_rec)
  qed
  define s1 where "s1 = set_ext e None (set_ext e (Some (x\<lparr>ext_links := 0\<rparr>)) s\<lparr>ext_bytes := (ext_bytes s)(ext_data x := None)\<rparr>)"
  have d: "drop_ext env e s = Some s1"
    using assms(5-7) by (simp add: drop_ext_def call_back_def short_links_def s1_def set_ext_def)
  define t' where "t' = t\<lparr>pe_used := 1\<rparr>"
  define s' where "s' = set_tab a (Some t') s1"
  have s1: "ext_tabs s1 a = Some t" "p_ext s1 p = Some a" "exts s1 e = None" "exts s1 e' = Some y"
    using assms by (simp_all add: s1_def set_ext_def)
  have "find_index s (ext_ident x) 0 (ext_list t) = Some (Some (0, e))" using assms(3,5) by simp
  then have "detach_ext env (ext_ident x) p s = Some s'"
    using assms(1,2) d t(1) s1 by (simp add: detach_ext_def s'_def t'_def set_tab_def Let_def)
  moreover have s': "p_ext s' p = Some a" "ext_tabs s' a = Some t'" "exts s' e = None" "exts s' e' = Some y"
    using s1 by (simp_all add: s'_def set_tab_def)
  moreover have l: "ext_list t' = [e]" using t(2) by (simp add: ext_list_def t'_def)
  moreover have "proc_ext_on env p ev s' = None"
    using s' t(2) by (simp add: proc_ext_on_def ext_calls.simps t'_def)
  moreover have "proc_lookup_extension (Some p) (ext_ident y) s' = None"
    using s' l by (simp add: proc_lookup_extension_def default_proc_def exts_of_def)
  ultimately show ?thesis by blast
qed

section \<open>An example\<close>

text \<open>
  The root process 0 and process 1 sleep, 1 in \<open>pwaitpid\<close> (condition 1); 2 runs. 3 is a zombie child of 2; 4 is a
  zombie traced by 2 whose parent has already got its status.
\<close>

definition tree_procs :: "pptr \<Rightarrow> proc" where
  "tree_procs = (\<lambda>p. zero_proc\<lparr>pid := int p, p_cred := p, p_sigacts := p\<rparr>)
    (0 := zero_proc\<lparr>ppid := - 1, wait_q := WAIT_Q, wait_cond := 77, q_next := Some 1\<rparr>,
     1 := zero_proc\<lparr>pid := 1, p_cred := 1, p_sigacts := 1, wait_q := WAIT_Q, wait_cond := 1, q_prev := Some 0\<rparr>,
     2 := zero_proc\<lparr>pid := 2, ppid := 1, p_cred := 2, p_sigacts := 2\<rparr>,
     3 := zero_proc\<lparr>pid := 3, ppid := 2, p_cred := 3, p_sigacts := 3, wait_q := ZOMBIE_Q, wait_cond := 5, q_next := Some 4\<rparr>,
     4 := zero_proc\<lparr>pid := 4, ppid := - 1, ptracer := Some 2, p_cred := 4, p_sigacts := 4, wait_q := ZOMBIE_Q, wait_cond := 9,
       q_prev := Some 3\<rparr>)"

definition demo_tree :: kernel where
  "demo_tree = init_proc\<lparr>procs := tree_procs, proclist := [4, 3, 2, 1, 0], curproc := 2,
     sysq := (\<lambda>_. \<lparr>q_head = None, q_tail = None\<rparr>)
       (WAIT_Q := \<lparr>q_head = Some 0, q_tail = Some 1\<rparr>, ZOMBIE_Q := \<lparr>q_head = Some 3, q_tail = Some 4\<rparr>),
     pcreds := (\<lambda>_. \<lparr>ucr = 9, ruid = 0, rgid = 0, suid = 0, sgid = 0, pc_links = 1\<rparr>),
     ucreds := (\<lambda>_. \<lparr>euid = 0, egid = 0, groups = replicate 8 0, ngroups = 0, uc_links = 5\<rparr>),
     sigacts_links := (\<lambda>_. 1)\<rparr>"

lemma demo_tree_fields [simp]:
  "procs demo_tree = tree_procs" "proclist demo_tree = [4, 3, 2, 1, 0]" "curproc demo_tree = 2" "rootproc demo_tree = 0"
  by (simp_all add: demo_tree_def init_proc_def)

lemma demo_tree_inv: "tree_inv demo_tree"
proof -
  let ?Q = "(\<lambda>_. [])(WAIT_Q := [0, 1], ZOMBIE_Q := [3, 4]) :: nat \<Rightarrow> pptr list"
  have "queues_rep demo_tree ?Q"
    by (auto simp: queues_rep_def queue_rep_def tree_procs_def zero_proc_def demo_tree_def init_proc_def)
  then have "queues_ok demo_tree" unfolding queues_ok_def by (intro exI[of _ ?Q]) (auto simp: queues_known_def)
  then have "sched_inv demo_tree" by (auto simp: sched_inv_def idle_proc_def tree_procs_def zero_proc_def)
  moreover have "users demo_tree u \<subseteq> {0, 1, 2, 3, 4}" for u by (auto simp: users_def)
  then have u: "card (users demo_tree u) \<le> 5" for u using card_mono[of "{0, 1, 2, 3, 4::nat}" "users demo_tree u"] by simp
  have "creds_ok demo_tree"
    unfolding creds_ok_def
    using u by (auto simp: inj_on_def ucred_of_def tree_procs_def zero_proc_def demo_tree_def init_proc_def)
  moreover have "sig_users demo_tree a \<subseteq> {a}" for a by (auto simp: sig_users_def tree_procs_def zero_proc_def)
  then have "card (sig_users demo_tree a) \<le> 1" for a using card_mono[of "{a}" "sig_users demo_tree a"] by simp
  ultimately show ?thesis
    unfolding tree_inv_def tree_ok_def
    by (auto simp: inj_on_def alive_pid_def is_dead_def tree_procs_def zero_proc_def pcred_of_def)
      (auto simp: demo_tree_def)
qed

text \<open>Drivers, modules and file systems that do nothing; \<open>kmalloc\<close> returns an address beyond all that are in use.\<close>

definition in_use :: "kernel \<Rightarrow> nat" where
  "in_use k = sum_list (proclist k) + sum_list (map (\<lambda>p. p_cred (procs k p)) (proclist k)) +
     sum_list (map (\<lambda>p. p_sigacts (procs k p)) (proclist k))"

definition null_life :: life_env where
  "null_life = \<lparr>l_fenv = null_fenv, l_sleep = quiet_env, l_mem = (\<lambda>_ s. Some (Suc (in_use (lk s)))), l_cb = (\<lambda>_ _ _ s. s),
     l_dupcookie = (\<lambda>c f. (c, f)), l_free_regions = (\<lambda>_ _ s. s), l_copy_mem = (\<lambda>_ s. (Some 1, s)), l_page_table = (\<lambda>_ s. s),
     l_shrink = (\<lambda>_ s. s), l_bconbsiz = (\<lambda>_. False), l_bflush = (\<lambda>s. s), l_slb_close = (\<lambda>_ _ s. (0, s)),
     l_remove_slb = (\<lambda>s. s), l_changedrv = (\<lambda>_ s. s), l_term_vec = (\<lambda>_. 0), l_rts = 0, l_supexec = (\<lambda>_ _ s. s)\<rparr>"

lemma null_life_ok: "calm_life null_life" "fresh_life null_life" "no_wakeups (l_sleep null_life)"
proof -
  show "calm_life null_life"
    by (simp add: calm_life_def calm_fenv_def calm_env_def null_life_def null_fenv_def quiet_env_def)
  show "no_wakeups (l_sleep null_life)" by (simp add: no_wakeups_def null_life_def quiet_env_def)
  have b: "p \<le> in_use k" "p_cred (procs k p) \<le> in_use k" "p_sigacts (procs k p) \<le> in_use k" if "p \<in> set (proclist k)" for p k
    using member_le_sum_list[of p "proclist k"] member_le_sum_list[of "p_cred (procs k p)" "map (\<lambda>p. p_cred (procs k p)) (proclist k)"]
      member_le_sum_list[of "p_sigacts (procs k p)" "map (\<lambda>p. p_sigacts (procs k p)) (proclist k)"] that
    by (auto simp: in_use_def)
  have "Suc (in_use k) \<notin> set (proclist k)" for k using b(1)[of "Suc (in_use k)" k] by auto
  moreover have "p_cred (procs k p) \<noteq> Suc (in_use k) \<and> p_sigacts (procs k p) \<noteq> Suc (in_use k)" if "p \<in> set (proclist k)" for p k
    using b(2,3)[OF that] by auto
  ultimately show "fresh_life null_life" by (simp add: fresh_life_def null_life_def)
qed

definition demo_life :: lstate where
  "demo_life = \<lparr>fds = demo_fds\<lparr>kern := demo_tree, p_fd := (\<lambda>_. Some 7), filedescs := [7 \<mapsto> demo_table\<lparr>fd_links := 5\<rparr>]\<rparr>,
     pmore = (\<lambda>_. \<lparr>alarmtim = None, real_cmdline = None, exe = zero_cookie,
       itimers = (\<lambda>_. \<lparr>it_interval = 0, it_reqtime = 0, it_timeout = None\<rparr>), started = 0, ptraceflags = 0\<rparr>),
     p_mem = (\<lambda>_. Some 1), mem_links = (\<lambda>_. 5), p_cwd = (\<lambda>_. Some 1), cwds = [1 \<mapsto> zero_cwd\<lparr>cwd_links := 5\<rparr>],
     p_ext = (\<lambda>_. None), ext_tabs = (\<lambda>_. None), exts = (\<lambda>_. None), ext_bytes = (\<lambda>_. None), dlockproc = (\<lambda>_. None),
     maxpid = 5, procfs_stmp = 0, xtime = 0\<rparr>"

lemma demo_life_fields [simp]: "lk demo_life = demo_tree" "maxpid demo_life = 5"
  by (simp_all add: demo_life_def)

text \<open>The release of the resources of process 2.\<close>

lemma demo_release: "\<exists>s1. term_release null_life 2 7 ZOMBIE_Q demo_life = Some s1 \<and> lk s1 = demo_tree"
proof -
  have "tlist demo_tree = [] \<and> semalist demo_tree = [] \<and> expire_list demo_tree = []" by (simp add: demo_tree_def init_proc_def)
  then show ?thesis
    by (simp add: term_release_def term_free_def proc_ext_on_exit_def proc_ext_on_def demo_life_def null_life_def
      slb_close_all.simps tree_procs_def zero_proc_def upd_kern_def upd_more_def release_cookie_def zero_cookie_def in_kern_def
      free_semaphores_def Let_def unlock_drives_def free_ext_def in_fds_def free_fd_def demo_fds_def upd_fd_def demo_table_def
      free_cwd_def zero_cwd_def free_mem_def cancelalltimeouts_def)
qed

section \<open>The properties on the example\<close>

theorem newpid_finds_free_pid_witness:
  "\<exists>n s' m s''. newpid (demo_life\<lparr>maxpid := 999\<rparr>) = Some (n, s') \<and> 2 \<le> n \<and> n < MAXPID \<and> pid2proc n demo_tree = None \<and>
     newpid (set_pid_1 demo_life) = Some (m, s'') \<and> 2 \<le> m"
proof -
  have p: "pid2proc 5 demo_tree = None" "pid2proc 1 demo_tree \<noteq> None"
    by (simp_all add: pid2proc_None tree_procs_def zero_proc_def)
  then have "\<exists>n::int. 2 \<le> n \<and> n < MAXPID \<and> pid2proc n demo_tree = None" by (intro exI[of _ 5]) simp
  then show ?thesis
    using newpid_finds_free_pid[of "demo_life\<lparr>maxpid := 999\<rparr>"] newpid_finds_free_pid[of "set_pid_1 demo_life"] p
    by (auto split: option.splits simp: demo_life_def set_pid_1_def)
qed

lemma demo_exit:
  "\<exists>s1. terminate null_life True 2 7 ZOMBIE_Q demo_life = Some s1 \<and> tree_inv (lk s1) \<and> wait_q (procs (lk s1) 2) = ZOMBIE_Q"
proof -
  obtain s1 where r: "term_release null_life 2 7 ZOMBIE_Q demo_life = Some s1" "lk s1 = demo_tree" using demo_release by blast
  have "iwakecond (lk s1) \<noteq> exit_cond 7 \<or> exit_cond 7 = 0" by (simp add: r(2) exit_cond_def demo_tree_def init_proc_def)
  from terminate_ok[OF null_life_ok(1,3) _ _ r(1) this] demo_tree_inv
  obtain s' q k1 where "terminate null_life True 2 7 ZOMBIE_Q demo_life = Some s'" "tree_inv (lk s')" "curproc k1 = 2"
    "asleep ZOMBIE_Q (exit_cond 7) k1 (lk s')" by force
  then show ?thesis by (auto simp: asleep_def)
qed

theorem life_keeps_tree_witness:
  "\<exists>s'. life_step null_life demo_life s' \<and> curproc (lk s') \<noteq> 2 \<and> tree_inv (lk s')"
proof -
  obtain s' where s': "terminate null_life True 2 7 ZOMBIE_Q demo_life = Some s'" "wait_q (procs (lk s') 2) = ZOMBIE_Q"
    using demo_exit by blast
  have st: "life_step null_life demo_life s'" using step_exit[of null_life True demo_life 7 ZOMBIE_Q s'] s'(1) by simp
  have "tree_inv (lk s')"
    by (rule life_keeps_tree[OF null_life_ok(1,2), of demo_life]) (use st demo_tree_inv in auto)
  then show ?thesis using st s'(2) tree_inv_cur(2) by fastforce
qed

theorem terminate_hands_over_witness:
  "\<exists>s'. terminate null_life True 2 7 ZOMBIE_Q demo_life = Some s' \<and> wait_q (procs (lk s') 2) = ZOMBIE_Q \<and>
     wait_cond (procs (lk s') 2) = 7 \<and> ppid (procs (lk s') 3) = 0 \<and> ptracer (procs (lk s') 4) \<noteq> Some 2"
proof -
  obtain s1 where r: "term_release null_life 2 7 ZOMBIE_Q demo_life = Some s1" "lk s1 = demo_tree" using demo_release by blast
  have x: "exit_cond 7 = 7" by (simp add: exit_cond_def)
  have "iwakecond (lk s1) \<noteq> exit_cond 7 \<or> exit_cond 7 = 0" by (simp add: r(2) x demo_tree_def init_proc_def)
  from terminate_hands_over[OF null_life_ok _ _ r(1) this, of True] demo_tree_inv
  obtain s' where "terminate null_life True 2 7 ZOMBIE_Q demo_life = Some s'" "wait_q (procs (lk s') 2) = ZOMBIE_Q"
    "wait_cond (procs (lk s') 2) = 7"
    "\<forall>c \<in> {4, 3, 2, 1, 0}. (ppid (tree_procs c) = pid (tree_procs 2) \<longrightarrow> ppid (procs (lk s') c) = 0) \<and> ptracer (procs (lk s') c) \<noteq> Some 2"
    by (auto simp: x)
  then show ?thesis by (simp add: tree_procs_def zero_proc_def)
qed

theorem pwaitpid_collects_witness:
  "\<exists>r rv ru k'. pwait_scan (- 1) 0 demo_tree = Some (Wait_child r rv ru k') \<and> tree_inv k' \<and> r = 0x40009"
proof -
  have "case pwait_scan (- 1) 0 demo_tree of Some (Wait_child r rv ru k') \<Rightarrow> r = 0x40009 | _ \<Rightarrow> False" by code_simp
  then show ?thesis
    using pwaitpid_collects[OF demo_tree_inv, of "- 1" 0] by (auto simp: scan_ok_def split: option.splits wait_out.splits)
qed

declare slb_close_all.simps [code] drop_exts.simps [code] ext_calls.simps [code] free_streams.simps [code]

theorem exit_status_roundtrip_witness:
  "\<exists>s1 r rv ru k'. terminate null_life True 2 0x107 ZOMBIE_Q demo_life = Some s1 \<and>
     pwait_scan 2 0 (lk s1) = Some (Wait_child r rv ru k') \<and> r = 0x20007"
proof -
  have "case terminate null_life True 2 0x107 ZOMBIE_Q demo_life of
      None \<Rightarrow> False
    | Some s1 \<Rightarrow> wait_q (procs (lk s1) 2) = ZOMBIE_Q \<and> \<not> signaled (procs (lk s1) 2) \<and>
        (case pwait_scan 2 0 (lk s1) of Some (Wait_child r rv ru k') \<Rightarrow> True | _ \<Rightarrow> False)" by code_simp
  then obtain s1 r rv ru k' where s1: "terminate null_life True 2 0x107 ZOMBIE_Q demo_life = Some s1"
    "wait_q (procs (lk s1) 2) = ZOMBIE_Q" "\<not> signaled (procs (lk s1) 2)" "pwait_scan 2 0 (lk s1) = Some (Wait_child r rv ru k')"
    by (auto split: option.splits wait_out.splits)
  have "r = push_bit 16 (word_of_int 2) OR (ucast (word_of_int 0x107 :: u16) AND 0xff)"
    by (rule exit_status_roundtrip[OF null_life_ok(1,2) _ _ s1(1-3) _ rtranclp.rtrancl_refl _ s1(4)])
      (simp_all add: demo_tree_inv exit_cond_def, simp add: tree_procs_def zero_proc_def)
  then show ?thesis using s1 by simp
qed

theorem traced_zombie_forgotten_witness:
  "\<exists>s1. terminate null_life True 2 7 ZOMBIE_Q demo_life = Some s1 \<and> 4 \<in> set (proclist (lk s1)) \<and>
     \<not> wait_matches (- 1) (lk s1\<lparr>curproc := 1\<rparr>) 4"
proof -
  obtain s1 where s1: "terminate null_life True 2 7 ZOMBIE_Q demo_life = Some s1" using demo_exit by blast
  have "case terminate null_life True 2 7 ZOMBIE_Q demo_life of None \<Rightarrow> False | Some s1 \<Rightarrow> 1 \<in> set (proclist (lk s1))" by code_simp
  then have "1 \<in> set (proclist (lk s1))" using s1 by simp
  moreover have "4 \<in> set (proclist (lk s1)) \<and> wait_q (procs (lk s1) 4) = ZOMBIE_Q \<and> pid (procs (lk s1) 4) = pid (procs (lk demo_life) 4) \<and>
    (\<forall>p \<in> set (proclist (lk s1)). (\<forall>n. \<not> wait_matches n (lk s1\<lparr>curproc := p\<rparr>) 4) \<and>
       wait_matches (- 1) (upd_proc 4 (\<lambda>x. x\<lparr>ptracer := Some p\<rparr>) (lk s1\<lparr>curproc := p\<rparr>)) 4)"
    by (rule traced_zombie_forgotten[OF null_life_ok(1,2), of demo_life 4])
      (use s1 demo_tree_inv in \<open>auto simp: tree_procs_def zero_proc_def\<close>)
  ultimately show ?thesis using s1 by blast
qed

text \<open>Process 2 with two extensions.\<close>

definition demo_exts :: lstate where
  "demo_exts = demo_life\<lparr>p_ext := [2 \<mapsto> 30], ext_tabs := [30 \<mapsto> push_ext 32 (push_ext 31 (zero_tab\<lparr>pe_size := 10\<rparr>))],
     exts := [31 \<mapsto> \<lparr>ext_ident = 1, ext_flags = 0, ext_size = 4, ext_links = 1, ext_data = 40, cb_vector = None\<rparr>,
              32 \<mapsto> \<lparr>ext_ident = 2, ext_flags = 0, ext_size = 4, ext_links = 1, ext_data = 41, cb_vector = None\<rparr>],
     ext_bytes := [40 \<mapsto> replicate 4 0, 41 \<mapsto> replicate 4 0]\<rparr>"

theorem detach_leaves_freed_extension_witness:
  "\<exists>s'. detach_ext null_life 1 2 demo_exts = Some s' \<and> exts s' 31 = None \<and> proc_ext_on null_life 2 (Ext_exit 2 0) s' = None"
  using detach_leaves_freed_extension[of demo_exts 2 30 "push_ext 32 (push_ext 31 (zero_tab\<lparr>pe_size := 10\<rparr>))" 31 32
      "\<lparr>ext_ident = 1, ext_flags = 0, ext_size = 4, ext_links = 1, ext_data = 40, cb_vector = None\<rparr>"
      "\<lparr>ext_ident = 2, ext_flags = 0, ext_size = 4, ext_links = 1, ext_data = 41, cb_vector = None\<rparr>" null_life "Ext_exit 2 0"]
  by (auto simp: demo_exts_def ext_list_def push_ext_def zero_tab_def upt_rec)

end
