(* ===== verification/Spec2Isabelle.thy ===== *)
theory Spec2Isabelle
  imports Scheduler Timeouts Cred Libkern_Num Libkern_Time Bpf Rendez Signals Resource Filedesc_Calls Pipe_Close Proc_Main
begin

text \<open>
  A verification library for the kernel of FreeMiNT, the multitasking system for Atari computers
  (\<open>src/sys\<close>, C, compiled with 16 bit \<open>int\<close>).

  \<^bold>\<open>The program and its model.\<close> One processor runs one process at a time; a process gives the processor
  away only in \<open>sleep\<close> and \<open>preempt\<close>, and interrupts enter the kernel at the timer. Every kernel routine is
  therefore a function on the state: it takes the record \<open>kernel\<close> (theory \<open>Kern_State\<close>: the process
  structures, the queues, credentials, signal dispositions, timeouts and semaphores, by address) and returns
  it updated. A routine that can stop the kernel (a failing \<open>assert\<close>, a null pointer, freed memory, an
  access outside an object) returns an \<open>option\<close>, and \<open>None\<close> is that event; error numbers are ordinary results.
  A call that blocks is split at \<open>sleep\<close>. Code outside the modelled files is an argument: \<open>kmalloc\<close>'s result,
  the routines that \<open>sleep\<close>, signal delivery and timeouts call, device drivers and file systems.

  \<^bold>\<open>Theories.\<close>
  \<^item> \<open>Kern_Prelude\<close>, \<open>Kern_State\<close>: integer types, error numbers, lists and options; the shared state and the
    state after \<open>init_proc\<close>.
  \<^item> \<open>Proc_Queue\<close> (\<open>proc.c\<close>: \<open>add_q\<close>, \<open>rm_q\<close>, \<open>wake\<close>, priorities): the linked queues represent lists
    (\<open>queues_rep\<close>), entering, leaving and waking are list operations; the locale \<open>wait_queues\<close> states what
    the other parts rely on. \<open>Scheduler\<close> (\<open>sleep\<close>, \<open>preempt\<close>, load average): the choice of the next process
    and that there always is one.
  \<^item> \<open>Timeouts\<close> (\<open>timeout.c\<close>): the delta list refines a set of deadlines (locale \<open>timer_queue\<close>); timeouts are
    called on time, cancelled exactly, and static structures are neither lost nor freed twice, while timeout functions
    install and cancel others. The timer interrupt (\<open>arch/intr.S\<close>) is \<open>timer_tick\<close>.
  \<^item> \<open>Cred\<close> (\<open>k_prot.c\<close>): copy on write of shared credentials refines private identities; confinement of
    unprivileged processes (locale \<open>identity_steps\<close>).
  \<^item> \<open>Signals\<close> (\<open>signal.c\<close>, \<open>dossig.c\<close>): posting to processes and groups, permission, delivery to the handlers in
    order, default actions; what sequences of signal calls keep, and that \<open>SIGKILL\<close> is not survived.
  \<^item> \<open>Resource\<close> (\<open>k_resource.c\<close>): priorities and limits.
  \<^item> \<open>Rendez\<close> (\<open>rendez.c\<close>): \<open>Pmsg\<close> and \<open>Psemaphore\<close>, from the blocking call to its end; ownership (locale
    \<open>owned_locks\<close>) and handover of semaphores.
  \<^item> \<open>Filedesc\<close>, \<open>Filedesc_Inv\<close>, \<open>Filedesc_Calls\<close> (\<open>k_fds.c\<close>, \<open>proc_help.c\<close>, \<open>dosfile.c\<close>): descriptor tables and
    the reference counts of open files. The slots of all tables balance the counts (\<open>bal\<close>), up to the references an
    operation holds or owes; every call keeps the balance and never uses freed memory, but for the calls named in
    \<open>call_ok\<close>, some of which are shown to escape from the table.
  \<^item> \<open>Fs_Access\<close> (\<open>filesys.c\<close>): sharing modes, permission bits, record locks and 8.3 patterns. A file system that
    asks \<open>denylock\<close> and \<open>denyshare\<close> before it grants keeps its locks and open files compatible.
  \<^item> \<open>Pipe\<close>, \<open>Pipe_Fs\<close> (\<open>pipefs.c\<close>, \<open>pipefs.h\<close>): pipes and pseudo terminals: ring buffers, reading and writing split at
    their sleeps; creating, opening, closing, select and file control. \<open>Pipe_Data\<close>: the ring buffer is a bounded
    channel (locale \<open>byte_channel\<close>). \<open>Pipe_Calls\<close>: bytes keep their order over all interleavings, small writes are
    atomic, nobody sleeps on a pipe that changed. \<open>Pipe_Close\<close>: opening respects sharing modes (it calls \<open>denyshare\<close>);
    closing can free a pipe that is still open.
  \<^item> \<open>Proc_Parts\<close> (\<open>proc_help.c\<close>): what a process shares or owns: current directories, signal actions, address space,
    the extensions of kernel modules. \<open>Proc_Exit\<close> (\<open>k_exit.c\<close>): \<open>terminate\<close> and \<open>pwaitpid\<close>; \<open>Proc_Fork\<close>
    (\<open>k_fork.c\<close>, \<open>k_kthread.c\<close>, \<open>newpid\<close>): the creation of processes.
  \<^item> \<open>Proc_Tree\<close>: when the tree of processes is in order (\<open>tree_ok\<close>), and what preserves it. \<open>Proc_Life\<close>: the end of
    a process; \<open>Proc_Wait\<close>: waiting; \<open>Proc_Birth\<close>: new processes. \<open>Proc_Steps\<close> joins them to a step relation
    (\<open>life_step\<close>); \<open>Proc_Main\<close> holds the properties: no step fails on a tree in order and each leaves it in
    order, the end of a process tells whoever waits for it, exit codes arrive, and the zombie nobody can reap.
  \<^item> \<open>Bpf\<close> (\<open>sockets/inet4/bpf_filter.c\<close>): the packet filter machine and its program check.
  \<^item> \<open>Libkern_Str\<close>, \<open>Libkern_Num\<close>, \<open>Libkern_Time\<close> (\<open>libkern\<close>): strings, numbers and dates.

  \<^bold>\<open>Interaction.\<close> \<open>wake\<close> and the queue lemmas carry signals, messages, semaphores and the closing of files;
  timeouts are armed by messages, semaphores and terminals that hang up; credentials decide who may signal whom,
  change priorities and open files. The life of processes rests on all of them: \<open>terminate\<close> closes
  descriptors, gives semaphores back, cancels timeouts, signals children and tracers and wakes the waiting parent;
  \<open>fork_proc\<close> copies or shares what \<open>terminate\<close> and \<open>pwaitpid\<close> later free. Each of these uses the definitions of the theory it imports, not a
  copy.

  \<^bold>\<open>Bounds and fuel.\<close> Words keep their width where arithmetic can wrap (credentials, signal sets, numbers,
  dates, the filter machine). Counters that stay far from their limits are integers. Fuel: two rounds
  correct the year of every date (\<open>year_loop\<close>, proved for all times from 1970 on); a valid filter program
  ends within its length; \<open>pick_fuel\<close> is the largest penalty plus one, each pass over the ready queue lowering
  all of them; the loop of \<open>checkalarms\<close> needs one round per timeout pending when it begins, as the functions
  called install new ones only for later (\<open>fire_later\<close>; \<open>kbd_repeat\<close> with a repeat time of 0, which \<open>Kbrate\<close> can set, is the
  exception); \<open>newpid\<close> tries every id once, as the code does, and halts the machine when none is free; after \<open>set_pid_1\<close> the first is 1. \<open>option\<close> functions without fuel (directory streams) are total on the states the
  invariants describe.

  \<^bold>\<open>Not modelled.\<close> Program execution and memory management (\<open>k_exec.c\<close>, \<open>kmemory.c\<close>, \<open>memory.c\<close>, and \<open>Pfork\<close>,
  which duplicates memory regions): they work on the memory map and the protection tables of the machine;
  path names and the file systems but the one of pipes, the block cache, terminals and the console;
  the protocol stack except the packet filter; drivers, loadable modules, boot and configuration; the
  window system XaAES; USB; machine dependent code (protection tables, context switch), which is hardware
  state. \<open>PROJECT.json\<close> lists each with the reason. What the life of processes needs of these parts is stated as
  hypotheses: \<open>calm_life\<close> (the closing of files and drives, semaphores and shared libraries at the end of a
  process, and the handling of signals inside \<open>sleep\<close>, leave the tree alone and come back), \<open>fresh_life\<close> (the allocator hands out unused structures), \<open>no_wakeups\<close> (no
  hook of \<open>sleep\<close> touches the tree). The calls that change the tracer of a process (\<open>ptrace.c\<close>, \<open>procfs.c\<close>) are no steps
  of it. The documentation under \<open>doc/programmer\<close> is older than the code in places; where a property contradicts it,
  the findings of \<open>PROJECT.json\<close> say so. The witness of \<open>life_keeps_tree\<close> instantiates them.
\<close>

end
